(* ===== verification/Prelude.thy ===== *)
theory Prelude
  imports Main "HOL-Library.Word" "HOL-Library.Char_ord" "HOL-Library.List_Lexorder"
begin

text \<open>
  Shared vocabulary of the CppDB development: C++ exceptions as values of a sum type,
  the 64-bit signed integer with its signed order, the character classes and the
  decimal conversions of the C++ standard library that the sources call
  (\<^verbatim>\<open>std::isspace\<close>, \<^verbatim>\<open>std::to_string\<close>, \<^verbatim>\<open>std::from_chars\<close>), and vector insertion and
  erasure at an index.
\<close>

named_theorems exn_simps \<open>evaluation of computations that may throw\<close>
named_theorems vec_simps \<open>vector insertion and erasure at the joint of two lists\<close>

section \<open>Exceptions as values\<close>

text \<open>
  The exception classes the sources throw, each with its \<^verbatim>\<open>what()\<close> message. A computation
  that may throw returns a \<open>result\<close>: \<open>Inl\<close> is the exception, \<open>Inr\<close> the value. The last two
  constructors are not exceptions of the language. \<open>Undefined_behaviour\<close> marks an access the C++
  standard leaves undefined (a vector read out of range, a null pointer followed) and
  \<open>Nontermination\<close> a loop that never leaves, so that the absence of either is a theorem and
  not an artefact of a total logic.
\<close>

datatype exn =
    Invalid_argument string
  | Out_of_range string
  | Query_error string
  | Runtime_error string
  | Bad_variant_access
  | Bad_alloc
  | Undefined_behaviour
  | Nontermination

type_synonym 'a result = "exn + 'a"

definition bind_result :: "'a result \<Rightarrow> ('a \<Rightarrow> 'b result) \<Rightarrow> 'b result" where
  "bind_result m f = (case m of Inl e \<Rightarrow> Inl e | Inr x \<Rightarrow> f x)"

lemma bind_result_Inl [simp]: "bind_result (Inl e) f = Inl e"
  by (simp add: bind_result_def)

lemma bind_result_Inr [simp]: "bind_result (Inr x) f = f x"
  by (simp add: bind_result_def)

lemma bind_result_eq_Inr [exn_simps]:
  "bind_result m f = Inr y \<longleftrightarrow> (\<exists>x. m = Inr x \<and> f x = Inr y)"
  by (cases m) simp_all

lemma bind_result_eq_Inl [exn_simps]:
  "bind_result m f = Inl e \<longleftrightarrow> m = Inl e \<or> (\<exists>x. m = Inr x \<and> f x = Inl e)"
  by (cases m) simp_all

lemma bind_result_cong [fundef_cong]:
  "m = m' \<Longrightarrow> (\<And>x. m' = Inr x \<Longrightarrow> f x = g x) \<Longrightarrow> bind_result m f = bind_result m' g"
  by (cases m') simp_all

lemma bind_result_assoc: "bind_result (bind_result m f) g = bind_result m (\<lambda>x. bind_result (f x) g)"
  by (cases m) simp_all

text \<open>A vector read: \<^verbatim>\<open>v[i]\<close> is defined for an index in range only.\<close>

definition vec_at :: "'a list \<Rightarrow> nat \<Rightarrow> 'a result" where
  "vec_at xs i = (if i < length xs then Inr (xs ! i) else Inl Undefined_behaviour)"

lemma vec_at_Inr [simp]: "i < length xs \<Longrightarrow> vec_at xs i = Inr (xs ! i)"
  by (simp add: vec_at_def)

lemma vec_at_eq_Inr: "vec_at xs i = Inr x \<longleftrightarrow> i < length xs \<and> x = xs ! i"
  by (auto simp: vec_at_def)

lemma vec_at_in_set: "vec_at xs i = Inr x \<Longrightarrow> x \<in> set xs"
  by (auto simp: vec_at_eq_Inr)

text \<open>Following a pointer or an optional: undefined on null.\<close>

fun deref :: "'a option \<Rightarrow> 'a result" where
  "deref None = Inl Undefined_behaviour"
| "deref (Some x) = Inr x"

lemma deref_eq_Inr [exn_simps]: "deref p = Inr x \<longleftrightarrow> p = Some x"
  by (cases p) auto

text \<open>A throwing function mapped over a vector, left to right.\<close>

fun map_result :: "('a \<Rightarrow> 'b result) \<Rightarrow> 'a list \<Rightarrow> 'b list result" where
  "map_result f [] = Inr []"
| "map_result f (x # xs) = bind_result (f x) (\<lambda>y. bind_result (map_result f xs) (\<lambda>ys. Inr (y # ys)))"

lemma map_result_cong [fundef_cong]:
  "xs = ys \<Longrightarrow> (\<And>x. x \<in> set ys \<Longrightarrow> f x = g x) \<Longrightarrow> map_result f xs = map_result g ys"
  by (induction ys arbitrary: xs) (auto intro: bind_result_cong)

lemma map_result_Inr: "(\<And>x. x \<in> set xs \<Longrightarrow> f x = Inr (g x)) \<Longrightarrow> map_result f xs = Inr (map g xs)"
  by (induction xs) simp_all

text \<open>A loop that runs a throwing body over a vector and stops at the first exception.\<close>

fun fold_result :: "('a \<Rightarrow> 's \<Rightarrow> 's result) \<Rightarrow> 'a list \<Rightarrow> 's \<Rightarrow> 's result" where
  "fold_result f [] s = Inr s"
| "fold_result f (x # xs) s = bind_result (f x s) (fold_result f xs)"

lemma fold_result_append:
  "fold_result f (xs @ ys) s = bind_result (fold_result f xs s) (fold_result f ys)"
proof (induction xs arbitrary: s)
  case (Cons x xs)
  then show ?case by (cases "f x s") simp_all
qed simp

lemma fold_result_invariant:
  assumes "fold_result f xs s = Inr s'" and "P s"
    and "\<And>x s s'. x \<in> set xs \<Longrightarrow> f x s = Inr s' \<Longrightarrow> P s \<Longrightarrow> P s'"
  shows "P s'"
  using assms
proof (induction xs arbitrary: s)
  case (Cons x xs)
  from Cons.prems(1) obtain s1 where s1: "f x s = Inr s1" "fold_result f xs s1 = Inr s'"
    by (auto simp: exn_simps)
  from Cons.prems(3)[OF _ s1(1) Cons.prems(2)] have "P s1" by simp
  with s1(2) show ?case by (rule Cons.IH) (auto intro: Cons.prems(3))
qed simp

section \<open>The 64-bit signed integer\<close>

text \<open>
  \<^verbatim>\<open>std::int64_t\<close> is a 64-bit word read in two's complement and ordered by its signed
  value. Addition and subtraction are the word operations; where the sources add or
  subtract one they guard against the overflow first.
\<close>

datatype int64 = Int64 (bits: "64 word")

definition to_int :: "int64 \<Rightarrow> int" where
  "to_int v = sint (bits v)"

definition of_int64 :: "int \<Rightarrow> int64" where
  "of_int64 i = Int64 (word_of_int i)"

instantiation int64 :: linorder
begin

definition less_eq_int64 :: "int64 \<Rightarrow> int64 \<Rightarrow> bool" where
  "less_eq_int64 a b \<longleftrightarrow> to_int a \<le> to_int b"

definition less_int64 :: "int64 \<Rightarrow> int64 \<Rightarrow> bool" where
  "less_int64 a b \<longleftrightarrow> to_int a < to_int b"

instance
proof
  fix x y :: int64
  show "x \<le> y \<Longrightarrow> y \<le> x \<Longrightarrow> x = y"
    by (cases x; cases y) (auto simp: less_eq_int64_def to_int_def dest: signed_word_eqI)
qed (auto simp: less_eq_int64_def less_int64_def)

end

definition int64_min :: int64 where
  "int64_min = of_int64 (- (2 ^ 63))"

definition int64_max :: int64 where
  "int64_max = of_int64 (2 ^ 63 - 1)"

definition int64_succ :: "int64 \<Rightarrow> int64" where
  "int64_succ v = Int64 (bits v + 1)"

definition int64_pred :: "int64 \<Rightarrow> int64" where
  "int64_pred v = Int64 (bits v - 1)"

lemma to_int_bounds: "- (2 ^ 63) \<le> to_int v" "to_int v < 2 ^ 63"
  using sint_ge [of "bits v"] sint_lt [of "bits v"] by (simp_all add: to_int_def)

lemma to_int_inject [simp]: "to_int a = to_int b \<longleftrightarrow> a = b"
  by (cases a; cases b) (auto simp: to_int_def intro: signed_word_eqI)

lemma to_int_of_int64: "- (2 ^ 63) \<le> i \<Longrightarrow> i < 2 ^ 63 \<Longrightarrow> to_int (of_int64 i) = i"
  by (simp add: to_int_def of_int64_def sint_uint signed_take_bit_int_eq_self
      signed_take_bit_take_bit uint_word_of_int_eq)

lemma of_int64_to_int [simp]: "of_int64 (to_int v) = v"
  by (cases v) (simp add: to_int_def of_int64_def)

lemma to_int_min: "to_int int64_min = - (2 ^ 63)"
  unfolding int64_min_def by (rule to_int_of_int64) simp_all

lemma to_int_max: "to_int int64_max = 2 ^ 63 - 1"
  unfolding int64_max_def by (rule to_int_of_int64) simp_all

lemma int64_min_le [simp]: "int64_min \<le> v"
  using to_int_bounds(1) [of v] by (simp add: less_eq_int64_def to_int_min)

lemma int64_max_ge [simp]: "v \<le> int64_max"
  using to_int_bounds(2) [of v] by (simp add: less_eq_int64_def to_int_max)


lemma to_int_succ:
  assumes "v \<noteq> int64_max"
  shows "to_int (int64_succ v) = to_int v + 1"
proof -
  have "to_int v < 2 ^ 63 - 1"
    using assms to_int_bounds(2) [of v] to_int_max to_int_inject [of v int64_max] by linarith
  then have "to_int (of_int64 (to_int v + 1)) = to_int v + 1"
    using to_int_bounds(1) [of v] by (intro to_int_of_int64) linarith+
  moreover have "of_int64 (to_int v + 1) = int64_succ v"
    by (simp add: of_int64_def int64_succ_def to_int_def)
  ultimately show ?thesis by simp
qed

lemma to_int_pred:
  assumes "v \<noteq> int64_min"
  shows "to_int (int64_pred v) = to_int v - 1"
proof -
  have "- (2 ^ 63) < to_int v"
    using assms to_int_bounds(1) [of v] to_int_min to_int_inject [of v int64_min] by linarith
  then have "to_int (of_int64 (to_int v - 1)) = to_int v - 1"
    using to_int_bounds(2) [of v] by (intro to_int_of_int64) linarith+
  moreover have "of_int64 (to_int v - 1) = int64_pred v"
    by (simp add: of_int64_def int64_pred_def to_int_def)
  ultimately show ?thesis by simp
qed

text \<open>The guarded neighbours turn a strict comparison into a closed bound.\<close>

lemma int64_succ_le_iff: "v \<noteq> int64_max \<Longrightarrow> int64_succ v \<le> w \<longleftrightarrow> v < w"
  by (auto simp: less_eq_int64_def less_int64_def to_int_succ)

lemma int64_le_pred_iff: "v \<noteq> int64_min \<Longrightarrow> w \<le> int64_pred v \<longleftrightarrow> w < v"
  by (simp add: less_eq_int64_def less_int64_def to_int_pred)

section \<open>Character classes\<close>

text \<open>The classes of \<^verbatim>\<open><cctype>\<close> in the C locale, on the byte value of the character.\<close>

definition isdigit :: "char \<Rightarrow> bool" where
  "isdigit c \<longleftrightarrow> 48 \<le> (of_char c :: nat) \<and> (of_char c :: nat) \<le> 57"

definition isupper :: "char \<Rightarrow> bool" where
  "isupper c \<longleftrightarrow> 65 \<le> (of_char c :: nat) \<and> (of_char c :: nat) \<le> 90"

definition islower :: "char \<Rightarrow> bool" where
  "islower c \<longleftrightarrow> 97 \<le> (of_char c :: nat) \<and> (of_char c :: nat) \<le> 122"

definition isalpha :: "char \<Rightarrow> bool" where
  "isalpha c \<longleftrightarrow> isupper c \<or> islower c"

definition isalnum :: "char \<Rightarrow> bool" where
  "isalnum c \<longleftrightarrow> isalpha c \<or> isdigit c"

definition isspace :: "char \<Rightarrow> bool" where
  "isspace c \<longleftrightarrow> of_char c = (32::nat) \<or> 9 \<le> (of_char c :: nat) \<and> (of_char c :: nat) \<le> 13"

definition toupper :: "char \<Rightarrow> char" where
  "toupper c = (if islower c then char_of (of_char c - 32 :: nat) else c)"

section \<open>Decimal conversions\<close>

definition digit_char :: "nat \<Rightarrow> char" where
  "digit_char d = char_of (48 + d)"

definition digit_val :: "char \<Rightarrow> nat" where
  "digit_val c = of_char c - 48"

fun decimal :: "nat \<Rightarrow> string" where
  "decimal n = (if n < 10 then [digit_char n] else decimal (n div 10) @ [digit_char (n mod 10)])"

declare decimal.simps [simp del]

text \<open>\<^verbatim>\<open>std::to_string\<close> on unsigned sizes and on 64-bit signed integers.\<close>

definition to_string_size :: "nat \<Rightarrow> string" where
  "to_string_size n = decimal n"

definition to_string_int64 :: "int64 \<Rightarrow> string" where
  "to_string_int64 v =
     (if to_int v < 0 then CHR ''-'' # decimal (nat (- to_int v)) else decimal (nat (to_int v)))"

definition undecimal :: "string \<Rightarrow> nat" where
  "undecimal s = foldl (\<lambda>a c. 10 * a + digit_val c) 0 s"

text \<open>
  \<^verbatim>\<open>std::from_chars(first, last, value)\<close> for a signed 64-bit target in base ten: an optional
  minus sign and the longest run of digits. No digits: \<^verbatim>\<open>errc::invalid_argument\<close> and the
  pointer stays at \<^verbatim>\<open>first\<close>. A value outside the type: \<^verbatim>\<open>errc::result_out_of_range\<close> with the
  pointer past the digits. In both cases the target keeps its old value. The pointer is
  returned as an offset.
\<close>

datatype errc = Errc_ok | Errc_invalid_argument | Errc_result_out_of_range

definition from_chars :: "string \<Rightarrow> int64 \<Rightarrow> nat \<times> errc \<times> int64" where
  "from_chars s old =
     (let neg = (s \<noteq> [] \<and> hd s = CHR ''-'');
          body = (if neg then tl s else s);
          ds = takeWhile isdigit body;
          i = (if neg then - int (undecimal ds) else int (undecimal ds));
          off = (if neg then 1 else 0) + length ds
      in if ds = [] then (0, Errc_invalid_argument, old)
         else if i < - (2 ^ 63) \<or> 2 ^ 63 \<le> i then (off, Errc_result_out_of_range, old)
         else (off, Errc_ok, of_int64 i))"

lemma of_char_digit_char: "d < 10 \<Longrightarrow> (of_char (digit_char d) :: nat) = 48 + d"
  by (simp add: digit_char_def)

lemma isdigit_digit_char [simp]: "d < 10 \<Longrightarrow> isdigit (digit_char d)"
  by (simp add: isdigit_def of_char_digit_char)

lemma digit_val_digit_char [simp]: "d < 10 \<Longrightarrow> digit_val (digit_char d) = d"
  by (simp add: digit_val_def of_char_digit_char)

lemma undecimal_snoc: "undecimal (s @ [c]) = 10 * undecimal s + digit_val c"
  by (simp add: undecimal_def)

lemma decimal_nonempty [simp]: "decimal n \<noteq> []"
  by (subst decimal.simps) simp

lemma decimal_digits: "list_all isdigit (decimal n)"
proof (induction n rule: decimal.induct)
  case (1 n)
  then show ?case by (subst decimal.simps) (simp add: list_all_iff)
qed

lemma undecimal_decimal [simp]: "undecimal (decimal n) = n"
proof (induction n rule: decimal.induct)
  case (1 n)
  show ?case
  proof (cases "n < 10")
    case True
    then show ?thesis by (subst decimal.simps) (simp add: undecimal_def)
  next
    case False
    with 1 show ?thesis by (subst decimal.simps) (simp add: undecimal_snoc)
  qed
qed

lemma takeWhile_digits_decimal [simp]: "takeWhile isdigit (decimal n) = decimal n"
  using decimal_digits [of n] by (simp add: list_all_iff takeWhile_eq_all_conv)

lemma hd_decimal_not_minus [simp]: "hd (decimal n) \<noteq> CHR ''-''"
proof
  assume "hd (decimal n) = CHR ''-''"
  moreover have "isdigit (hd (decimal n))"
    using decimal_digits [of n] by (simp add: list_all_iff)
  ultimately show False by (simp add: isdigit_def)
qed

text \<open>Printing a 64-bit integer and reading it back is the identity, whatever the target held.\<close>

lemma from_chars_to_string:
  "from_chars (to_string_int64 v) old = (length (to_string_int64 v), Errc_ok, v)"
proof (cases "to_int v < 0")
  case True
  then have s: "to_string_int64 v = CHR ''-'' # decimal (nat (- to_int v))"
    by (simp add: to_string_int64_def)
  have i: "- int (nat (- to_int v)) = to_int v" using True by simp
  show ?thesis
    using to_int_bounds [of v] True unfolding s from_chars_def by (simp add: i)
next
  case False
  then have s: "to_string_int64 v = decimal (nat (to_int v))"
    by (simp add: to_string_int64_def)
  have i: "int (nat (to_int v)) = to_int v" using False by simp
  show ?thesis
    using to_int_bounds [of v] False unfolding s from_chars_def by (simp add: i)
qed

section \<open>Vectors\<close>

text \<open>A piece of a message between single quotes, as the error texts of the sources write it.\<close>

abbreviation quoted :: "string \<Rightarrow> string" where
  "quoted s \<equiv> CHR 0x27 # s @ [CHR 0x27]"

text \<open>\<^verbatim>\<open>v.resize(n)\<close> with the default value \<open>d\<close> for new elements.\<close>

definition resize :: "nat \<Rightarrow> 'a \<Rightarrow> 'a list \<Rightarrow> 'a list" where
  "resize n d xs = take n xs @ replicate (n - length xs) d"

lemma length_resize [simp]: "length (resize n d xs) = n"
  by (simp add: resize_def)

lemma nth_resize: "i < n \<Longrightarrow> resize n d xs ! i = (if i < length xs then xs ! i else d)"
  by (auto simp: resize_def nth_append)

text \<open>
  \<^verbatim>\<open>v.insert(v.begin() + i, x)\<close> and \<^verbatim>\<open>v.erase(v.begin() + i)\<close> for an index in range.
\<close>

definition insert_at :: "nat \<Rightarrow> 'a \<Rightarrow> 'a list \<Rightarrow> 'a list" where
  "insert_at i x xs = take i xs @ x # drop i xs"

definition erase_at :: "nat \<Rightarrow> 'a list \<Rightarrow> 'a list" where
  "erase_at i xs = take i xs @ drop (Suc i) xs"

lemma insert_at_append [vec_simps]: "i = length xs \<Longrightarrow> insert_at i x (xs @ ys) = xs @ x # ys"
  by (simp add: insert_at_def)

lemma insert_at_Suc_append [vec_simps]:
  "i = length xs \<Longrightarrow> insert_at (Suc i) x (xs @ y # ys) = xs @ y # x # ys"
  by (simp add: insert_at_def)

lemma erase_at_append [vec_simps]: "i = length xs \<Longrightarrow> erase_at i (xs @ x # ys) = xs @ ys"
  by (simp add: erase_at_def)

lemma erase_at_Suc_append [vec_simps]:
  "i = length xs \<Longrightarrow> erase_at (Suc i) (xs @ x # y # ys) = xs @ x # ys"
  by (simp add: erase_at_def)

lemma nth_at_append [vec_simps]: "i = length xs \<Longrightarrow> (xs @ x # ys) ! i = x"
  by simp

lemma nth_at_Suc_append [vec_simps]: "i = length xs \<Longrightarrow> (xs @ x # y # ys) ! Suc i = y"
  by (simp add: nth_append)

lemma update_at_append [vec_simps]: "i = length xs \<Longrightarrow> (xs @ x # ys)[i := z] = xs @ z # ys"
  by simp

lemma update_at_Suc_append [vec_simps]: "i = length xs \<Longrightarrow> (xs @ x # y # ys)[Suc i := z] = xs @ x # z # ys"
  by (simp add: list_update_append)

lemma length_insert_at [simp]: "length (insert_at i x xs) = Suc (length xs)"
  by (simp add: insert_at_def)

lemma length_erase_at [simp]: "i < length xs \<Longrightarrow> length (erase_at i xs) = length xs - 1"
  by (simp add: erase_at_def)

lemma set_erase_at: "set (erase_at i xs) \<subseteq> set xs"
  using set_take_subset [of i xs] set_drop_subset [of "Suc i" xs] by (auto simp: erase_at_def)

text \<open>An index in range splits the vector there.\<close>

lemma split_at_nth: "i < length xs \<Longrightarrow> \<exists>ys zs. xs = ys @ xs ! i # zs \<and> length ys = i"
  using id_take_nth_drop [of i xs] by (intro exI [of _ "take i xs"] exI [of _ "drop (Suc i) xs"]) simp

end
