(* ===== verification/Schema.thy ===== *)
theory Schema
  imports Prelude
begin

text \<open>
  Column types, typed cells and table schemas: \<^verbatim>\<open>include/core/Schema.hpp\<close> and
  \<^verbatim>\<open>src/core/schema.cpp\<close>. The validation of a literal against a column type goes through
  the model of \<^verbatim>\<open>std::from_chars\<close>; adding a column keeps names unique and non-empty.
\<close>

section \<open>Data model\<close>

datatype DataType = DT_INT | DT_TEXT

text \<open>\<^verbatim>\<open>using Value = std::variant<std::int64_t, std::string>\<close>\<close>

datatype Value = VInt int64 | VText string

record Column =
  col_name :: string
  col_type :: DataType

record Schema =
  columns :: "Column list"

definition empty_schema :: Schema where
  "empty_schema = \<lparr>columns = []\<rparr>"

section \<open>Operations\<close>

fun toString_DataType :: "DataType \<Rightarrow> string" where
  "toString_DataType DT_INT = ''INT''"
| "toString_DataType DT_TEXT = ''TEXT''"

fun toString_Value :: "Value \<Rightarrow> string" where
  "toString_Value (VInt n) = to_string_int64 n"
| "toString_Value (VText s) = s"

definition dataTypeFromString :: "string \<Rightarrow> DataType option" where
  "dataTypeFromString name =
     (if name = ''INT'' then Some DT_INT else if name = ''TEXT'' then Some DT_TEXT else None)"

definition isValidValueFor :: "DataType \<Rightarrow> string \<Rightarrow> bool" where
  "isValidValueFor ty s =
     (case ty of
        DT_INT \<Rightarrow> (let (off, ec, parsed) = from_chars s (of_int64 0) in ec = Errc_ok \<and> off = length s)
      | DT_TEXT \<Rightarrow> True)"

definition columnCount :: "Schema \<Rightarrow> nat" where
  "columnCount sc = length (columns sc)"

definition findColumn :: "Schema \<Rightarrow> string \<Rightarrow> Column option" where
  "findColumn sc name = find (\<lambda>c. col_name c = name) (columns sc)"

definition hasColumn :: "Schema \<Rightarrow> string \<Rightarrow> bool" where
  "hasColumn sc name \<longleftrightarrow> findColumn sc name \<noteq> None"

text \<open>The index loop of \<^verbatim>\<open>Schema::columnIndex\<close>, from position \<open>i\<close> on.\<close>

fun columnIndex_from :: "Column list \<Rightarrow> string \<Rightarrow> nat \<Rightarrow> nat option" where
  "columnIndex_from [] name i = None"
| "columnIndex_from (c # cs) name i =
     (if col_name c = name then Some i else columnIndex_from cs name (Suc i))"

definition columnIndex :: "Schema \<Rightarrow> string \<Rightarrow> nat option" where
  "columnIndex sc name = columnIndex_from (columns sc) name 0"

definition addColumn :: "Schema \<Rightarrow> string \<Rightarrow> DataType \<Rightarrow> Schema result" where
  "addColumn sc name ty =
     (if name = [] then Inl (Invalid_argument ''Schema: column name must not be empty'')
      else if hasColumn sc name
        then Inl (Invalid_argument (''Schema: duplicate column '' @ quoted name))
      else Inr (sc\<lparr>columns := columns sc @ [\<lparr>col_name = name, col_type = ty\<rparr>]\<rparr>))"

section \<open>Well-formed schemas\<close>

definition schema_wf :: "Schema \<Rightarrow> bool" where
  "schema_wf sc \<longleftrightarrow> distinct (map col_name (columns sc)) \<and> [] \<notin> col_name ` set (columns sc)"

definition value_has_type :: "Value \<Rightarrow> DataType \<Rightarrow> bool" where
  "value_has_type v ty = (case v of VInt _ \<Rightarrow> ty = DT_INT | VText _ \<Rightarrow> ty = DT_TEXT)"

section \<open>Lookup\<close>

lemma findColumn_Some_iff:
  assumes "schema_wf sc"
  shows "findColumn sc name = Some c \<longleftrightarrow> c \<in> set (columns sc) \<and> col_name c = name"
proof -
  have inj: "c = d" if "c \<in> set (columns sc)" "d \<in> set (columns sc)" "col_name c = col_name d" for c d
    using assms that by (auto simp: schema_wf_def distinct_map dest: inj_onD)
  have sound: "c \<in> set (columns sc) \<and> col_name c = name" if "findColumn sc name = Some c" for c
    using that by (auto simp: findColumn_def find_Some_iff)
  show ?thesis
  proof
    assume r: "c \<in> set (columns sc) \<and> col_name c = name"
    then obtain d where d: "findColumn sc name = Some d"
      by (cases "findColumn sc name") (auto simp: findColumn_def find_None_iff)
    with sound [OF d] r inj [of c d] show "findColumn sc name = Some c" by simp
  qed (rule sound)
qed

lemma hasColumn_iff: "hasColumn sc name \<longleftrightarrow> name \<in> col_name ` set (columns sc)"
  by (auto simp: hasColumn_def findColumn_def find_None_iff image_iff)

lemma columnIndex_from_Some:
  "columnIndex_from cs name i = Some k \<Longrightarrow>
     i \<le> k \<and> k - i < length cs \<and> col_name (cs ! (k - i)) = name"
proof (induction cs arbitrary: i)
  case (Cons c cs)
  show ?case
  proof (cases "col_name c = name")
    case False
    with Cons.prems have "columnIndex_from cs name (Suc i) = Some k" by simp
    from Cons.IH [OF this] show ?thesis by (auto simp: nth_Cons' Suc_diff_Suc)
  qed (use Cons.prems in simp)
qed simp

lemma columnIndex_from_None: "columnIndex_from cs name i = None \<longleftrightarrow> name \<notin> col_name ` set cs"
  by (induction cs arbitrary: i) auto

lemma columnIndex_Some:
  "columnIndex sc name = Some k \<Longrightarrow> k < columnCount sc \<and> col_name (columns sc ! k) = name"
  using columnIndex_from_Some [of "columns sc" name 0 k] by (simp add: columnIndex_def columnCount_def)

lemma columnIndex_None: "columnIndex sc name = None \<longleftrightarrow> \<not> hasColumn sc name"
  by (simp add: columnIndex_def columnIndex_from_None hasColumn_iff)

text \<open>With unique names the index of a name is the only position that carries it.\<close>

lemma columnIndex_nth:
  assumes "schema_wf sc" and "i < columnCount sc"
  shows "columnIndex sc (col_name (columns sc ! i)) = Some i"
proof -
  have "hasColumn sc (col_name (columns sc ! i))"
    using assms(2) by (auto simp: hasColumn_iff columnCount_def)
  then obtain k where k: "columnIndex sc (col_name (columns sc ! i)) = Some k"
    by (cases "columnIndex sc (col_name (columns sc ! i))") (simp_all add: columnIndex_None)
  have "distinct (map col_name (columns sc))" using assms(1) by (simp add: schema_wf_def)
  with columnIndex_Some [OF k] assms(2) have "k = i"
    by (auto simp: columnCount_def distinct_conv_nth nth_map)
  with k show ?thesis by simp
qed

lemma findColumn_columnIndex:
  assumes "schema_wf sc"
  shows "findColumn sc name = map_option (\<lambda>i. columns sc ! i) (columnIndex sc name)"
proof (cases "columnIndex sc name")
  case None
  then show ?thesis by (simp add: columnIndex_None hasColumn_def)
next
  case (Some k)
  with columnIndex_Some [OF Some] show ?thesis
    by (auto simp: findColumn_Some_iff [OF assms] columnCount_def)
qed

section \<open>Building schemas\<close>

lemma schema_wf_empty [simp]: "schema_wf empty_schema"
  by (simp add: schema_wf_def empty_schema_def)

lemma addColumn_wf: "schema_wf sc \<Longrightarrow> addColumn sc name ty = Inr sc' \<Longrightarrow> schema_wf sc'"
  by (auto simp: addColumn_def schema_wf_def hasColumn_iff split: if_splits)

lemma addColumn_Inr_iff:
  "addColumn sc name ty = Inr sc' \<longleftrightarrow>
     name \<noteq> [] \<and> \<not> hasColumn sc name \<and>
     sc' = sc\<lparr>columns := columns sc @ [\<lparr>col_name = name, col_type = ty\<rparr>]\<rparr>"
  by (auto simp: addColumn_def)

lemma dataTypeFromString_toString [simp]: "dataTypeFromString (toString_DataType ty) = Some ty"
  by (cases ty) (simp_all add: dataTypeFromString_def)

section \<open>Literals\<close>

lemma isValidValueFor_TEXT [simp]: "isValidValueFor DT_TEXT s"
  by (simp add: isValidValueFor_def)

lemma isValidValueFor_to_string [simp]: "isValidValueFor DT_INT (to_string_int64 v)"
  by (simp add: isValidValueFor_def from_chars_to_string)

text \<open>
  The declarative reading of a valid INT literal: an optional minus sign and a non-empty
  run of decimal digits whose value fits in 64 bits.
\<close>

definition int_literal :: "string \<Rightarrow> int \<Rightarrow> bool" where
  "int_literal s i \<longleftrightarrow>
     (\<exists>ds. ds \<noteq> [] \<and> list_all isdigit ds \<and>
        (s = ds \<and> i = int (undecimal ds) \<or> s = CHR ''-'' # ds \<and> i = - int (undecimal ds)))"


lemma isdigit_not_minus: "list_all isdigit ds \<Longrightarrow> ds \<noteq> [] \<Longrightarrow> hd ds \<noteq> CHR ''-''"
  by (cases ds) (auto simp: isdigit_def)

lemma takeWhile_isdigit_id: "list_all isdigit ds \<Longrightarrow> takeWhile isdigit ds = ds"
  by (simp add: list_all_iff takeWhile_eq_all_conv)

lemma takeWhile_length_eq: "length (takeWhile P xs) = length xs \<Longrightarrow> list_all P xs \<and> takeWhile P xs = xs"
  by (induction xs) (auto split: if_splits)

lemma from_chars_int_literal:
  "from_chars s old = (length s, Errc_ok, v) \<longleftrightarrow> int_literal s (to_int v)"
proof
  assume r: "from_chars s old = (length s, Errc_ok, v)"
  show "int_literal s (to_int v)"
  proof (cases "s \<noteq> [] \<and> hd s = CHR ''-''")
    case True
    then obtain ds where s: "s = CHR ''-'' # ds" by (cases s) auto
    let ?ds = "takeWhile isdigit ds"
    from r have l: "length ?ds = length ds" and ne: "?ds \<noteq> []"
      and b: "\<not> (- int (undecimal ?ds) < - (2 ^ 63))" "v = of_int64 (- int (undecimal ?ds))"
      by (auto simp: from_chars_def s Let_def split: if_splits)
    from takeWhile_length_eq [OF l] have ds: "list_all isdigit ds" "?ds = ds" by simp_all
    have "to_int v = - int (undecimal ds)"
      using b unfolding ds(2) by (simp add: to_int_of_int64)
    moreover from ne ds(2) have "ds \<noteq> []" by simp
    ultimately show ?thesis
      unfolding int_literal_def s using ds(1) by (intro exI [of _ ds]) simp
  next
    case False
    let ?ds = "takeWhile isdigit s"
    from r False have l: "length ?ds = length s" and ne: "?ds \<noteq> []"
      and b: "\<not> (2 ^ 63 \<le> int (undecimal ?ds))" "v = of_int64 (int (undecimal ?ds))"
      by (auto simp: from_chars_def Let_def split: if_splits)
    from takeWhile_length_eq [OF l] have ds: "list_all isdigit s" "?ds = s" by simp_all
    have "to_int v = int (undecimal s)"
      using b unfolding ds(2) by (simp add: to_int_of_int64)
    moreover from ne ds(2) have "s \<noteq> []" by simp
    ultimately show ?thesis
      unfolding int_literal_def using ds(1) by (intro exI [of _ s]) simp
  qed
next
  assume "int_literal s (to_int v)"
  then obtain ds where ds: "ds \<noteq> []" "list_all isdigit ds"
    and c: "s = ds \<and> to_int v = int (undecimal ds) \<or>
            s = CHR ''-'' # ds \<and> to_int v = - int (undecimal ds)"
    by (auto simp: int_literal_def)
  have v: "v = of_int64 (to_int v)" by simp
  from c show "from_chars s old = (length s, Errc_ok, v)"
  proof
    assume a: "s = ds \<and> to_int v = int (undecimal ds)"
    with ds v to_int_bounds [of v] show ?thesis
      by (simp add: from_chars_def isdigit_not_minus takeWhile_isdigit_id)
  next
    assume a: "s = CHR ''-'' # ds \<and> to_int v = - int (undecimal ds)"
    with ds v to_int_bounds [of v] show ?thesis
      by (simp add: from_chars_def takeWhile_isdigit_id)
  qed
qed

text \<open>A literal is accepted for an INT column exactly when it denotes a 64-bit integer.\<close>

lemma isValidValueFor_INT_iff: "isValidValueFor DT_INT s \<longleftrightarrow> (\<exists>v. int_literal s (to_int v))"
proof -
  obtain off ec v where fc: "from_chars s (of_int64 0) = (off, ec, v)"
    by (cases "from_chars s (of_int64 0)")
  have "isValidValueFor DT_INT s \<longleftrightarrow> (\<exists>v. from_chars s (of_int64 0) = (length s, Errc_ok, v))"
    by (auto simp: isValidValueFor_def fc)
  then show ?thesis by (simp add: from_chars_int_literal)
qed

lemma int_literal_unique: "int_literal s i \<Longrightarrow> int_literal s j \<Longrightarrow> i = j"
  by (auto simp: int_literal_def isdigit_def)

end
