(* ===== verification/Row.thy ===== *)
theory Row
  imports Schema
begin

text \<open>
  A record bound to a schema: \<^verbatim>\<open>include/core/Row.hpp\<close> and \<^verbatim>\<open>src/core/row.cpp\<close>, and
  \<^verbatim>\<open>Schema::validate\<close>, which reads a row. The schema pointer is shared and constant, so a
  row carries the schema as a value. Copies and moves of the Rule of Five are value
  passing; a moved-from row is only destroyed or assigned to, so it is not represented.
\<close>

section \<open>Data model and operations\<close>

record Row =
  row_schema :: Schema
  row_values :: "Value option list"

text \<open>The constructor; \<open>None\<close> is the null schema pointer.\<close>

definition new_row :: "Schema option \<Rightarrow> Row result" where
  "new_row s =
     (case s of
        None \<Rightarrow> Inl (Invalid_argument ''Row: schema must not be null'')
      | Some sc \<Rightarrow> Inr \<lparr>row_schema = sc, row_values = resize (columnCount sc) None []\<rparr>)"

definition row_set :: "Row \<Rightarrow> string \<Rightarrow> string \<Rightarrow> Row result" where
  "row_set r column s =
     (case columnIndex (row_schema r) column of
        None \<Rightarrow> Inl (Invalid_argument (''Row: unknown column '' @ quoted column))
      | Some index \<Rightarrow>
          (let ty = col_type (columns (row_schema r) ! index) in
           if \<not> isValidValueFor ty s
           then Inl (Invalid_argument (''Row: value '' @ quoted s @ '' is not a valid '' @
                  toString_DataType ty @ '' for column '' @ quoted column))
           else
             (let vs = (if length (row_values r) \<le> index
                        then resize (columnCount (row_schema r)) None (row_values r)
                        else row_values r);
                  cell = (if ty = DT_INT then VInt (snd (snd (from_chars s (of_int64 0)))) else VText s)
              in Inr (r\<lparr>row_values := vs[index := Some cell]\<rparr>))))"

definition unset_error :: "string \<Rightarrow> exn" where
  "unset_error column = Out_of_range (''Row: column '' @ quoted column @ '' is not set'')"

definition row_value :: "Row \<Rightarrow> string \<Rightarrow> Value result" where
  "row_value r column =
     (case columnIndex (row_schema r) column of
        None \<Rightarrow> Inl (unset_error column)
      | Some index \<Rightarrow>
          if length (row_values r) \<le> index then Inl (unset_error column)
          else (case row_values r ! index of None \<Rightarrow> Inl (unset_error column) | Some v \<Rightarrow> Inr v))"

definition row_get :: "Row \<Rightarrow> string \<Rightarrow> string result" where
  "row_get r column = bind_result (row_value r column) (\<lambda>v. Inr (toString_Value v))"

definition row_getInt :: "Row \<Rightarrow> string \<Rightarrow> int64 result" where
  "row_getInt r column =
     (case findColumn (row_schema r) column of
        Some col \<Rightarrow>
          (if col_type col \<noteq> DT_INT
           then Inl (Invalid_argument (''Row: column '' @ quoted column @ '' is not INT''))
           else bind_result (row_value r column)
             (\<lambda>v. case v of VInt n \<Rightarrow> Inr n | VText _ \<Rightarrow> Inl Bad_variant_access))
      | None \<Rightarrow> bind_result (row_value r column)
             (\<lambda>v. case v of VInt n \<Rightarrow> Inr n | VText _ \<Rightarrow> Inl Bad_variant_access))"

definition row_has :: "Row \<Rightarrow> string \<Rightarrow> bool" where
  "row_has r column =
     (case columnIndex (row_schema r) column of
        None \<Rightarrow> False
      | Some index \<Rightarrow> index < length (row_values r) \<and> row_values r ! index \<noteq> None)"

definition isComplete :: "Row \<Rightarrow> bool" where
  "isComplete r \<longleftrightarrow>
     length (row_values r) = columnCount (row_schema r) \<and> list_all (\<lambda>v. v \<noteq> None) (row_values r)"

definition row_equal :: "Row \<Rightarrow> Row \<Rightarrow> bool" where
  "row_equal lhs rhs \<longleftrightarrow>
     columns (row_schema lhs) = columns (row_schema rhs) \<and> row_values lhs = row_values rhs"

text \<open>\<^verbatim>\<open>operator<<\<close>: the loop over the columns from position \<open>i\<close> on.\<close>

fun print_cells :: "Column list \<Rightarrow> Value option list \<Rightarrow> nat \<Rightarrow> string" where
  "print_cells [] vs i = []"
| "print_cells (c # cs) vs i =
     (if 0 < i then '', '' else []) @ col_name c @ ''='' @
     (if i < length vs \<and> vs ! i \<noteq> None then toString_Value (the (vs ! i)) else ''NULL'') @
     print_cells cs vs (Suc i)"

definition print_row :: "Row \<Rightarrow> string" where
  "print_row r = print_cells (columns (row_schema r)) (row_values r) 0"

text \<open>\<^verbatim>\<open>Schema::validate\<close>\<close>

definition validate :: "Schema \<Rightarrow> Row \<Rightarrow> bool" where
  "validate sc r \<longleftrightarrow> list_all (\<lambda>c. row_has r (col_name c)) (columns sc)"

section \<open>Well-formed rows\<close>

text \<open>
  One cell per column, and every cell that is set holds a value of its column's type. Rows
  only change through \<open>row_set\<close>, which keeps this; the branch of \<open>row_set\<close> for a schema
  that grew after construction is never taken on such rows.
\<close>

definition row_wf :: "Row \<Rightarrow> bool" where
  "row_wf r \<longleftrightarrow> schema_wf (row_schema r) \<and> length (row_values r) = columnCount (row_schema r) \<and>
     (\<forall>i < length (row_values r). \<forall>v. row_values r ! i = Some v \<longrightarrow>
        value_has_type v (col_type (columns (row_schema r) ! i)))"

text \<open>The value a successful \<open>row_set\<close> stores: the parsed integer or the raw text.\<close>

definition cell_of :: "DataType \<Rightarrow> string \<Rightarrow> Value" where
  "cell_of ty s = (if ty = DT_INT then VInt (snd (snd (from_chars s (of_int64 0)))) else VText s)"

lemma cell_of_has_type [simp]: "value_has_type (cell_of ty s) ty"
  by (cases ty) (simp_all add: cell_of_def value_has_type_def)

lemma new_row_wf: "schema_wf sc \<Longrightarrow> new_row (Some sc) = Inr r \<Longrightarrow> row_wf r \<and> row_schema r = sc"
  by (auto simp: new_row_def row_wf_def nth_resize)

text \<open>A successful \<open>row_set\<close> on a well-formed row overwrites exactly one cell.\<close>

lemma row_set_InrE:
  assumes "row_set r column s = Inr r'" and "row_wf r"
  obtains k where "columnIndex (row_schema r) column = Some k" "k < length (row_values r)"
    "isValidValueFor (col_type (columns (row_schema r) ! k)) s"
    "r' = r\<lparr>row_values := (row_values r)[k := Some (cell_of (col_type (columns (row_schema r) ! k)) s)]\<rparr>"
proof -
  from assms(1) obtain k where k: "columnIndex (row_schema r) column = Some k"
    by (auto simp: row_set_def split: option.splits)
  moreover have "k < length (row_values r)"
    using columnIndex_Some [OF k] assms(2) by (simp add: row_wf_def)
  ultimately show ?thesis
    using assms(1) by (intro that [of k]) (auto simp: row_set_def Let_def cell_of_def split: if_splits)
qed

lemma row_set_schema: "row_set r column s = Inr r' \<Longrightarrow> row_schema r' = row_schema r"
  by (auto simp: row_set_def Let_def split: option.splits if_splits)

lemma row_set_wf:
  assumes "row_wf r" and "row_set r column s = Inr r'"
  shows "row_wf r'"
  using assms(2,1)
proof (rule row_set_InrE)
  fix k
  assume "k < length (row_values r)"
    and "r' = r\<lparr>row_values := (row_values r)[k := Some (cell_of (col_type (columns (row_schema r) ! k)) s)]\<rparr>"
  then show ?thesis using assms(1) by (auto simp: row_wf_def nth_list_update)
qed

text \<open>When \<open>row_set\<close> succeeds: the column exists and the literal fits its type.\<close>

lemma row_set_Inr_iff:
  assumes "row_wf r"
  shows "(\<exists>r'. row_set r column s = Inr r') \<longleftrightarrow>
     (\<exists>c. findColumn (row_schema r) column = Some c \<and> isValidValueFor (col_type c) s)"
proof -
  have "schema_wf (row_schema r)" using assms by (simp add: row_wf_def)
  then show ?thesis
    by (auto simp: row_set_def Let_def findColumn_columnIndex split: option.splits)
qed

lemma row_set_value:
  assumes wf: "row_wf r" and set: "row_set r column s = Inr r'"
  shows "row_value r' column' =
    (if column' = column
     then Inr (cell_of (col_type (the (findColumn (row_schema r) column))) s)
     else row_value r column')"
  using set wf
proof (rule row_set_InrE)
  fix k
  assume k: "columnIndex (row_schema r) column = Some k" "k < length (row_values r)"
    and r': "r' = r\<lparr>row_values := (row_values r)[k := Some (cell_of (col_type (columns (row_schema r) ! k)) s)]\<rparr>"
  have sw: "schema_wf (row_schema r)" using wf by (simp add: row_wf_def)
  have ne: "j \<noteq> k" if "columnIndex (row_schema r) column' = Some j" "column' \<noteq> column" for j
    using that k(1) by (metis columnIndex_Some)
  show ?thesis
  proof (cases "column' = column")
    case True
    with k show ?thesis by (simp add: row_value_def r' findColumn_columnIndex [OF sw])
  next
    case False
    show ?thesis
    proof (cases "columnIndex (row_schema r) column'")
      case None
      with False show ?thesis by (simp add: row_value_def r')
    next
      case (Some j)
      with ne False have "j \<noteq> k" by simp
      with Some False show ?thesis by (simp add: row_value_def r')
    qed
  qed
qed

section \<open>Complete rows\<close>

lemma row_has_value: "row_has r column \<longleftrightarrow> (\<exists>v. row_value r column = Inr v)"
  by (auto simp: row_has_def row_value_def Let_def split: option.splits)

text \<open>The presence check of \<open>validate\<close> is the completeness test on rows of the same schema.\<close>

lemma validate_iff_isComplete:
  assumes wf: "row_wf r" and cols: "columns sc = columns (row_schema r)"
  shows "validate sc r \<longleftrightarrow> isComplete r"
proof -
  have sw: "schema_wf (row_schema r)" and len: "length (row_values r) = columnCount (row_schema r)"
    using wf by (simp_all add: row_wf_def)
  have "validate sc r \<longleftrightarrow> (\<forall>i < columnCount (row_schema r). row_has r (col_name (columns (row_schema r) ! i)))"
    by (simp add: validate_def cols list_all_length columnCount_def)
  also have "\<dots> \<longleftrightarrow> (\<forall>i < columnCount (row_schema r). row_values r ! i \<noteq> None)"
    by (simp add: row_has_def columnIndex_nth [OF sw] len)
  also have "\<dots> \<longleftrightarrow> isComplete r"
    by (simp add: isComplete_def len list_all_length)
  finally show ?thesis .
qed

lemma row_value_typed:
  assumes wf: "row_wf r" and v: "row_value r column = Inr v"
  obtains c where "findColumn (row_schema r) column = Some c" "value_has_type v (col_type c)"
proof -
  have sw: "schema_wf (row_schema r)" using wf by (simp add: row_wf_def)
  from v obtain k where k: "columnIndex (row_schema r) column = Some k" "k < length (row_values r)"
    "row_values r ! k = Some v"
    by (auto simp: row_value_def Let_def split: option.splits if_splits)
  with wf that show ?thesis by (auto simp: row_wf_def findColumn_columnIndex [OF sw])
qed

lemma isComplete_value:
  assumes wf: "row_wf r" and comp: "isComplete r" and col: "hasColumn (row_schema r) column"
  obtains v where "row_value r column = Inr v"
proof -
  from col obtain k where k: "columnIndex (row_schema r) column = Some k"
    by (cases "columnIndex (row_schema r) column") (simp_all add: columnIndex_None)
  from columnIndex_Some [OF k] comp have "row_values r ! k \<noteq> None" "k < length (row_values r)"
    by (simp_all add: isComplete_def list_all_length)
  with k that show ?thesis by (auto simp: row_value_def Let_def)
qed

text \<open>An INT cell of a well-formed row is read without a variant mismatch.\<close>

lemma row_getInt_Inr_iff:
  assumes wf: "row_wf r"
  shows "row_getInt r column = Inr n \<longleftrightarrow> row_value r column = Inr (VInt n)"
proof
  assume "row_getInt r column = Inr n"
  then show "row_value r column = Inr (VInt n)"
    by (cases "row_value r column")
      (auto simp: row_getInt_def split: option.splits if_splits Value.splits)
next
  assume v: "row_value r column = Inr (VInt n)"
  with wf obtain c where "findColumn (row_schema r) column = Some c" "value_has_type (VInt n) (col_type c)"
    by (rule row_value_typed)
  with v show "row_getInt r column = Inr n" by (simp add: row_getInt_def value_has_type_def)
qed

lemma isComplete_getInt:
  assumes wf: "row_wf r" and comp: "isComplete r"
    and col: "findColumn (row_schema r) column = Some c" "col_type c = DT_INT"
  obtains n where "row_getInt r column = Inr n"
proof -
  have "hasColumn (row_schema r) column" using col by (simp add: hasColumn_def)
  with wf comp obtain v where v: "row_value r column = Inr v" by (rule isComplete_value)
  from wf v obtain c' where c': "findColumn (row_schema r) column = Some c'" "value_has_type v (col_type c')"
    by (rule row_value_typed)
  with col obtain n where "v = VInt n" by (cases v) (auto simp: value_has_type_def)
  with v that show ?thesis by (simp add: row_getInt_Inr_iff [OF wf])
qed

lemma row_set_complete:
  assumes "row_wf r" and "isComplete r" and "row_set r column s = Inr r'"
  shows "isComplete r'"
  using assms(3,1)
proof (rule row_set_InrE)
  fix k
  assume "r' = r\<lparr>row_values := (row_values r)[k := Some (cell_of (col_type (columns (row_schema r) ! k)) s)]\<rparr>"
  then show ?thesis using assms(2)
    by (auto simp: isComplete_def list_all_iff dest!: set_update_subset_insert [THEN subsetD])
qed

end
