(* ===== verification/BTree.thy ===== *)
theory BTree
  imports Prelude
begin

text \<open>
  The B-tree of \<^verbatim>\<open>include/structures/BTree.hpp\<close>: nodes with parallel key and value
  vectors and a vector of children, empty exactly on leaves. Every operation of the class
  is translated, with the children it changes in place put back into the parent. Vector
  accesses are checked: an index out of range gives \<open>Undefined_behaviour\<close>. Ownership
  through \<^verbatim>\<open>UniquePtr\<close> is nesting of the datatype; a pointer to a stored value is the path
  to it.
\<close>

section \<open>Data model\<close>

datatype ('k, 'v) node =
  Node (keys: "'k list") (vals: "'v list") (children: "('k, 'v) node list")

record ('k, 'v) btree =
  root :: "('k, 'v) node option"
  min_degree :: nat
  btree_size :: nat

text \<open>The constructor rejects a minimum degree below two.\<close>

definition new_btree :: "int \<Rightarrow> ('k, 'v) btree result" where
  "new_btree minDegree =
     (if minDegree < 2
      then Inl (Invalid_argument ''BTree: minimum degree must be >= 2'')
      else Inr \<lparr>root = None, min_degree = nat minDegree, btree_size = 0\<rparr>)"

definition isLeaf :: "('k, 'v) node \<Rightarrow> bool" where
  "isLeaf n \<longleftrightarrow> children n = []"

definition isFull :: "nat \<Rightarrow> ('k, 'v) node \<Rightarrow> bool" where
  "isFull t n \<longleftrightarrow> length (keys n) = 2 * t - 1"

text \<open>
  \<^verbatim>\<open>std::lower_bound\<close> on a sorted vector: the number of leading keys below the key sought.
\<close>

definition lowerBound :: "('k::linorder, 'v) node \<Rightarrow> 'k \<Rightarrow> nat" where
  "lowerBound n key = length (takeWhile (\<lambda>x. x < key) (keys n))"

text \<open>The key sits in this node, at its lower bound.\<close>

definition key_at :: "('k::linorder, 'v) node \<Rightarrow> nat \<Rightarrow> 'k \<Rightarrow> bool" where
  "key_at n i key \<longleftrightarrow> i < length (keys n) \<and> keys n ! i = key"

text \<open>Put a changed child back at its place.\<close>

definition set_child :: "('k, 'v) node \<Rightarrow> nat \<Rightarrow> ('k, 'v) node \<Rightarrow> ('k, 'v) node" where
  "set_child n i c = Node (keys n) (vals n) ((children n)[i := c])"

definition btree_empty :: "('k, 'v) btree \<Rightarrow> bool" where
  "btree_empty bt \<longleftrightarrow> btree_size bt = 0"

section \<open>Depth, for termination\<close>

fun depth :: "('k, 'v) node \<Rightarrow> nat" where
  "depth (Node ks vs cs) = Suc (foldr max (map depth cs) 0)"

lemma foldr_max_ge: "(x::nat) \<in> set xs \<Longrightarrow> x \<le> foldr max xs 0"
  by (induction xs) auto

lemma foldr_max_le: "(\<And>x. x \<in> set xs \<Longrightarrow> x \<le> (b::nat)) \<Longrightarrow> foldr max xs 0 \<le> b"
  by (induction xs) auto

lemma depth_child: "c \<in> set (children n) \<Longrightarrow> depth c < depth n"
  by (cases n) (auto intro!: le_imp_less_Suc foldr_max_ge)

lemma depth_le_Suc: "(\<And>c. c \<in> set (children n) \<Longrightarrow> depth c \<le> d) \<Longrightarrow> depth n \<le> Suc d"
  by (cases n) (auto intro!: foldr_max_le)

lemma depth_mono_children:
  assumes "set (children n) \<subseteq> set (children m)"
  shows "depth n \<le> depth m"
proof -
  have "depth n \<le> Suc (depth m - 1)"
    using assms by (intro depth_le_Suc) (fastforce dest: depth_child)
  then show ?thesis by (cases m) simp
qed

section \<open>Lookup\<close>

text \<open>
  \<^verbatim>\<open>search\<close> returns a pointer to the stored value; the model's pointer is the list of child
  indices followed from the root and the position inside the last node.
\<close>

type_synonym val_ptr = "nat list \<times> nat"

function search_node :: "('k::linorder, 'v) node \<Rightarrow> 'k \<Rightarrow> val_ptr option result" where
  "search_node n key =
     (let i = lowerBound n key in
      if key_at n i key then Inr (Some ([], i))
      else if isLeaf n then Inr None
      else bind_result (vec_at (children n) i) (\<lambda>c.
        bind_result (search_node c key) (\<lambda>r.
          Inr (map_option (\<lambda>(path, j). (i # path, j)) r))))"
  by pat_completeness auto
termination
  by (relation "measure (\<lambda>(n, key). depth n)") (auto dest!: vec_at_in_set depth_child)

declare search_node.simps [simp del]

fun deref_node :: "('k, 'v) node \<Rightarrow> nat list \<Rightarrow> nat \<Rightarrow> 'v result" where
  "deref_node n [] j = vec_at (vals n) j"
| "deref_node n (i # path) j = bind_result (vec_at (children n) i) (\<lambda>c. deref_node c path j)"

fun store_node :: "('k, 'v) node \<Rightarrow> nat list \<Rightarrow> nat \<Rightarrow> 'v \<Rightarrow> ('k, 'v) node result" where
  "store_node n [] j v =
     (if j < length (vals n) then Inr (Node (keys n) ((vals n)[j := v]) (children n))
      else Inl Undefined_behaviour)"
| "store_node n (i # path) j v =
     bind_result (vec_at (children n) i) (\<lambda>c.
       bind_result (store_node c path j v) (\<lambda>c'. Inr (set_child n i c')))"

definition btree_search :: "('k::linorder, 'v) btree \<Rightarrow> 'k \<Rightarrow> val_ptr option result" where
  "btree_search bt key =
     (case root bt of None \<Rightarrow> Inr None | Some n \<Rightarrow> search_node n key)"

definition btree_deref :: "('k, 'v) btree \<Rightarrow> val_ptr \<Rightarrow> 'v result" where
  "btree_deref bt p =
     (case root bt of None \<Rightarrow> Inl Undefined_behaviour | Some n \<Rightarrow> deref_node n (fst p) (snd p))"

definition btree_store :: "('k, 'v) btree \<Rightarrow> val_ptr \<Rightarrow> 'v \<Rightarrow> ('k, 'v) btree result" where
  "btree_store bt p v =
     (case root bt of
        None \<Rightarrow> Inl Undefined_behaviour
      | Some n \<Rightarrow> bind_result (store_node n (fst p) (snd p) v) (\<lambda>n'. Inr (bt\<lparr>root := Some n'\<rparr>)))"

definition btree_contains :: "('k::linorder, 'v) btree \<Rightarrow> 'k \<Rightarrow> bool result" where
  "btree_contains bt key = bind_result (btree_search bt key) (\<lambda>p. Inr (p \<noteq> None))"

section \<open>Insertion\<close>

text \<open>The two halves a full child is cut into, around the key at position \<open>t - 1\<close>.\<close>

definition left_half :: "nat \<Rightarrow> ('k, 'v) node \<Rightarrow> ('k, 'v) node" where
  "left_half mid child = Node (take mid (keys child)) (take mid (vals child))
     (if isLeaf child then [] else take (mid + 1) (children child))"

definition right_half :: "nat \<Rightarrow> ('k, 'v) node \<Rightarrow> ('k, 'v) node" where
  "right_half mid child = Node (drop (mid + 1) (keys child)) (drop (mid + 1) (vals child))
     (if isLeaf child then [] else drop (mid + 1) (children child))"

definition splitChild :: "nat \<Rightarrow> ('k, 'v) node \<Rightarrow> nat \<Rightarrow> ('k, 'v) node result" where
  "splitChild t parent i =
     bind_result (vec_at (children parent) i) (\<lambda>child.
       let mid = t - 1 in
       if mid < length (keys child) \<and> mid < length (vals child) \<and>
          (isLeaf child \<or> mid + 1 \<le> length (children child)) \<and>
          i \<le> length (keys parent) \<and> i \<le> length (vals parent)
       then Inr (Node (insert_at i (keys child ! mid) (keys parent))
                      (insert_at i (vals child ! mid) (vals parent))
                      (insert_at (i + 1) (right_half mid child)
                         ((children parent)[i := left_half mid child])))
       else Inl Undefined_behaviour)"

lemma depth_left_half: "depth (left_half mid c) \<le> depth c"
  by (rule depth_mono_children) (auto simp: left_half_def dest: in_set_takeD)

lemma depth_right_half: "depth (right_half mid c) \<le> depth c"
  by (rule depth_mono_children) (auto simp: right_half_def dest: in_set_dropD)

lemma splitChild_depth:
  assumes "splitChild t parent i = Inr n"
  shows "depth n \<le> depth parent"
proof -
  let ?c = "children parent ! i" and ?m = "t - 1"
  from assms have i: "i < length (children parent)"
    and n: "children n = insert_at (i + 1) (right_half ?m ?c) ((children parent)[i := left_half ?m ?c])"
    by (auto simp: splitChild_def exn_simps vec_at_eq_Inr Let_def split: if_splits)
  have lt: "depth c < depth parent"
    if "c = right_half ?m ?c \<or> c = left_half ?m ?c \<or> c \<in> set (children parent)" for c
    using that depth_left_half [of ?m ?c] depth_right_half [of ?m ?c] depth_child [of ?c parent] depth_child [of c parent] i by auto
  have "depth c \<le> depth parent - 1" if "c \<in> set (children n)" for c
  proof -
    from that n have "c = right_half ?m ?c \<or> c = left_half ?m ?c \<or> c \<in> set (children parent)"
      by (auto simp: insert_at_def dest!: in_set_takeD in_set_dropD set_update_subset_insert [THEN subsetD])
    from lt [OF this] show ?thesis by simp
  qed
  then have "depth n \<le> Suc (depth parent - 1)" by (rule depth_le_Suc)
  then show ?thesis by (cases parent) simp
qed

text \<open>
  \<^verbatim>\<open>insertNonFull\<close>: the returned flag is true when the entry went in. Splitting the child on
  the way down may expose the key as the median, and may move the descent one to the right.
\<close>

function insertNonFull ::
    "nat \<Rightarrow> ('k::linorder, 'v) node \<Rightarrow> 'k \<Rightarrow> 'v \<Rightarrow> (bool \<times> ('k, 'v) node) result" where
  "insertNonFull t n key v =
     (let i = lowerBound n key in
      if key_at n i key then Inr (False, n)
      else if isLeaf n
        then Inr (True, Node (insert_at i key (keys n)) (insert_at i v (vals n)) (children n))
      else bind_result (vec_at (children n) i) (\<lambda>child.
        if isFull t child
        then bind_result (splitChild t n i) (\<lambda>n'.
          bind_result (vec_at (keys n') i) (\<lambda>median.
            if median = key then Inr (False, n')
            else
              (let j = (if median < key then i + 1 else i) in
               bind_result (vec_at (children n') j) (\<lambda>c.
                 bind_result (insertNonFull t c key v) (\<lambda>(b, c').
                   Inr (b, set_child n' j c'))))))
        else bind_result (insertNonFull t child key v) (\<lambda>(b, c'). Inr (b, set_child n i c'))))"
  by pat_completeness auto
termination
proof (relation "measure (\<lambda>(t, n, key, v). depth n)", goal_cases)
  case (3 t n key v i child)
  then show ?case by (auto dest!: vec_at_in_set depth_child)
next
  case (2 t n key v i child n' median j c)
  then have "depth c < depth n'" by (auto dest!: vec_at_in_set depth_child)
  also have "depth n' \<le> depth n" using 2 by (auto dest: splitChild_depth)
  finally show ?case by simp
qed auto

declare insertNonFull.simps [simp del]

definition btree_insert ::
    "('k::linorder, 'v) btree \<Rightarrow> 'k \<Rightarrow> 'v \<Rightarrow> (bool \<times> ('k, 'v) btree) result" where
  "btree_insert bt key v =
     (let t = min_degree bt in
      case root bt of
        None \<Rightarrow> Inr (True, bt\<lparr>root := Some (Node [key] [v] []), btree_size := 1\<rparr>)
      | Some r \<Rightarrow>
          bind_result (if isFull t r then splitChild t (Node [] [] [r]) 0 else Inr r) (\<lambda>r'.
            bind_result (insertNonFull t r' key v) (\<lambda>(inserted, r'').
              Inr (inserted, bt\<lparr>root := Some r'',
                btree_size := (if inserted then btree_size bt + 1 else btree_size bt)\<rparr>))))"

section \<open>Removal\<close>

text \<open>
  Rotation and merging around the separator of two neighbouring children. In
  \<^verbatim>\<open>borrowFromPrev(node, i)\<close> the left sibling's last key rises into the parent and the
  separator drops into child \<open>i\<close>; \<^verbatim>\<open>borrowFromNext\<close> is its mirror image.
\<close>

definition give_front :: "'k \<Rightarrow> 'v \<Rightarrow> ('k, 'v) node \<Rightarrow> ('k, 'v) node \<Rightarrow> ('k, 'v) node" where
  "give_front k v left child = Node (k # keys child) (v # vals child)
     (if isLeaf left then children child else last (children left) # children child)"

definition drop_back :: "('k, 'v) node \<Rightarrow> ('k, 'v) node" where
  "drop_back left = Node (butlast (keys left)) (butlast (vals left))
     (if isLeaf left then children left else butlast (children left))"

definition borrowFromPrev :: "('k, 'v) node \<Rightarrow> nat \<Rightarrow> ('k, 'v) node result" where
  "borrowFromPrev n i =
     (if 0 < i \<and> i < length (children n) \<and> i \<le> length (keys n) \<and> i \<le> length (vals n) \<and>
         keys (children n ! (i - 1)) \<noteq> [] \<and> vals (children n ! (i - 1)) \<noteq> []
      then
        (let child = children n ! i; left = children n ! (i - 1) in
         Inr (Node ((keys n)[i - 1 := last (keys left)]) ((vals n)[i - 1 := last (vals left)])
           ((children n)[i := give_front (keys n ! (i - 1)) (vals n ! (i - 1)) left child,
                         i - 1 := drop_back left])))
      else Inl Undefined_behaviour)"

definition give_back :: "'k \<Rightarrow> 'v \<Rightarrow> ('k, 'v) node \<Rightarrow> ('k, 'v) node \<Rightarrow> ('k, 'v) node" where
  "give_back k v right child = Node (keys child @ [k]) (vals child @ [v])
     (if isLeaf right then children child else children child @ [hd (children right)])"

definition drop_front :: "('k, 'v) node \<Rightarrow> ('k, 'v) node" where
  "drop_front right = Node (tl (keys right)) (tl (vals right))
     (if isLeaf right then children right else tl (children right))"

definition borrowFromNext :: "('k, 'v) node \<Rightarrow> nat \<Rightarrow> ('k, 'v) node result" where
  "borrowFromNext n i =
     (if i + 1 < length (children n) \<and> i < length (keys n) \<and> i < length (vals n) \<and>
         keys (children n ! (i + 1)) \<noteq> [] \<and> vals (children n ! (i + 1)) \<noteq> []
      then
        (let child = children n ! i; right = children n ! (i + 1) in
         Inr (Node ((keys n)[i := hd (keys right)]) ((vals n)[i := hd (vals right)])
           ((children n)[i := give_back (keys n ! i) (vals n ! i) right child,
                         i + 1 := drop_front right])))
      else Inl Undefined_behaviour)"

definition merged :: "('k, 'v) node \<Rightarrow> 'k \<Rightarrow> 'v \<Rightarrow> ('k, 'v) node \<Rightarrow> ('k, 'v) node" where
  "merged left k v right = Node (keys left @ k # keys right) (vals left @ v # vals right)
     (if isLeaf right then children left else children left @ children right)"

definition mergeChildren :: "('k, 'v) node \<Rightarrow> nat \<Rightarrow> ('k, 'v) node result" where
  "mergeChildren n i =
     (if i + 1 < length (children n) \<and> i < length (keys n) \<and> i < length (vals n)
      then
        (let left = children n ! i; right = children n ! (i + 1) in
         Inr (Node (erase_at i (keys n)) (erase_at i (vals n))
           (erase_at (i + 1) ((children n)[i := merged left (keys n ! i) (vals n ! i) right]))))
      else Inl Undefined_behaviour)"

definition fillChild :: "nat \<Rightarrow> ('k, 'v) node \<Rightarrow> nat \<Rightarrow> ('k, 'v) node result" where
  "fillChild t n i =
     (if length (children n) \<le> i then Inl Undefined_behaviour
      else if 0 < i \<and> t \<le> length (keys (children n ! (i - 1))) then borrowFromPrev n i
      else if i < length (children n) - 1 \<and> t \<le> length (keys (children n ! (i + 1)))
        then borrowFromNext n i
      else if 0 < i then mergeChildren n (i - 1)
      else mergeChildren n i)"

text \<open>None of these deepens the tree below the node.\<close>

definition grandchildren :: "('k, 'v) node \<Rightarrow> ('k, 'v) node set" where
  "grandchildren n = (\<Union>c \<in> set (children n). set (children c))"

lemma depth_replace_children:
  assumes "\<And>c. c \<in> set (children n') \<Longrightarrow> c \<in> set (children n) \<or> set (children c) \<subseteq> grandchildren n"
    and "children n \<noteq> []"
  shows "depth n' \<le> depth n"
proof -
  have "depth c \<le> depth n - 1" if "c \<in> set (children n')" for c
    using assms(1) [OF that]
  proof
    assume "c \<in> set (children n)"
    then show ?thesis using depth_child by fastforce
  next
    assume *: "set (children c) \<subseteq> grandchildren n"
    from assms(2) obtain e where e: "e \<in> set (children n)" by (cases "children n") auto
    from depth_child [OF e] have "2 \<le> depth n" by (cases e) simp
    moreover have "depth c \<le> Suc (depth n - 2)"
    proof (rule depth_le_Suc)
      fix d assume "d \<in> set (children c)"
      with * obtain e where "e \<in> set (children n)" "d \<in> set (children e)"
        by (auto simp: grandchildren_def)
      then have "depth d < depth e" "depth e < depth n" by (simp_all add: depth_child)
      then show "depth d \<le> depth n - 2" by simp
    qed
    ultimately show ?thesis by simp
  qed
  then have "depth n' \<le> Suc (depth n - 1)" by (rule depth_le_Suc)
  then show ?thesis by (cases n) simp
qed

lemma set_children_nth: "i < length (children n) \<Longrightarrow> set (children (children n ! i)) \<subseteq> grandchildren n"
  unfolding grandchildren_def by (rule UN_upper) (rule nth_mem)

lemma depth_update_children:
  assumes "set (children n') \<subseteq> {c, d} \<union> set (children n)"
    and "set (children c) \<union> set (children d) \<subseteq> set (children (children n ! i)) \<union> set (children (children n ! j))"
    and "i < length (children n)" "j < length (children n)"
  shows "depth n' \<le> depth n"
proof (rule depth_replace_children)
  fix x assume "x \<in> set (children n')"
  then have "x = c \<or> x = d \<or> x \<in> set (children n)" using assms(1) by blast
  then show "x \<in> set (children n) \<or> set (children x) \<subseteq> grandchildren n"
    using assms(2) set_children_nth [OF assms(3)] set_children_nth [OF assms(4)] by blast
qed (use assms(3) in auto)

lemma set_update2: "set (xs[i := y, j := z]) \<subseteq> {y, z} \<union> set xs"
  by (auto dest!: set_update_subset_insert [THEN subsetD])

lemma rotated_children:
  "set (children (give_front k v left child)) \<union> set (children (drop_back left))
     \<subseteq> set (children child) \<union> set (children left)"
  "set (children (give_back k v right child)) \<union> set (children (drop_front right))
     \<subseteq> set (children child) \<union> set (children right)"
  by (auto simp: give_front_def drop_back_def give_back_def drop_front_def isLeaf_def
      dest: in_set_butlastD list.set_sel(2) [rotated])

lemma borrowFromPrev_depth:
  assumes "borrowFromPrev n i = Inr n'"
  shows "depth n' \<le> depth n"
proof -
  let ?l = "children n ! (i - 1)" and ?c = "children n ! i"
  from assms have i: "i < length (children n)" "i - 1 < length (children n)"
    and n': "children n' = (children n)[i := give_front (keys n ! (i - 1)) (vals n ! (i - 1)) ?l ?c,
       i - 1 := drop_back ?l]"
    by (auto simp: borrowFromPrev_def Let_def split: if_splits)
  show ?thesis
    by (rule depth_update_children [OF _ rotated_children(1) i]) (unfold n', rule set_update2)
qed

lemma borrowFromNext_depth:
  assumes "borrowFromNext n i = Inr n'"
  shows "depth n' \<le> depth n"
proof -
  let ?r = "children n ! (i + 1)" and ?c = "children n ! i"
  from assms have i: "i < length (children n)" "i + 1 < length (children n)"
    and n': "children n' = (children n)[i := give_back (keys n ! i) (vals n ! i) ?r ?c,
       i + 1 := drop_front ?r]"
    by (auto simp: borrowFromNext_def Let_def split: if_splits)
  show ?thesis
    by (rule depth_update_children [OF _ rotated_children(2) i]) (unfold n', rule set_update2)
qed

lemma mergeChildren_depth:
  assumes "mergeChildren n i = Inr n'"
  shows "depth n' \<le> depth n"
proof -
  let ?m = "merged (children n ! i) (keys n ! i) (vals n ! i) (children n ! (i + 1))"
  from assms have i: "i < length (children n)" "i + 1 < length (children n)"
    and n': "children n' = erase_at (i + 1) ((children n)[i := ?m])"
    by (auto simp: mergeChildren_def Let_def split: if_splits)
  have "set (children n') \<subseteq> {?m, ?m} \<union> set (children n)"
    unfolding n' using set_erase_at set_update_subset_insert by fastforce
  moreover have "set (children ?m) \<union> set (children ?m) \<subseteq>
      set (children (children n ! i)) \<union> set (children (children n ! (i + 1)))"
    by (auto simp: merged_def)
  ultimately show ?thesis using i by (rule depth_update_children)
qed

lemma fillChild_depth: "fillChild t n i = Inr n' \<Longrightarrow> depth n' \<le> depth n"
  by (auto simp: fillChild_def split: if_splits
      dest: borrowFromPrev_depth borrowFromNext_depth mergeChildren_depth)

text \<open>Removal of the greatest and of the least entry of a subtree.\<close>

function takeMax :: "nat \<Rightarrow> ('k, 'v) node \<Rightarrow> (('k \<times> 'v) \<times> ('k, 'v) node) result" where
  "takeMax t n =
     (if isLeaf n
      then (if keys n \<noteq> [] \<and> vals n \<noteq> []
            then Inr ((last (keys n), last (vals n)),
                   Node (butlast (keys n)) (butlast (vals n)) (children n))
            else Inl Undefined_behaviour)
      else
        bind_result (vec_at (children n) (length (children n) - 1)) (\<lambda>c.
        bind_result (if length (keys c) < t then fillChild t n (length (children n) - 1) else Inr n) (\<lambda>n'.
        bind_result (vec_at (children n') (length (children n') - 1)) (\<lambda>c'.
        bind_result (takeMax t c') (\<lambda>(e, c'').
          Inr (e, set_child n' (length (children n') - 1) c''))))))"
  by pat_completeness auto
termination
proof (relation "measure (\<lambda>(t, n). depth n)", goal_cases)
  case (2 t n c n' c')
  then have "depth c' < depth n'" by (auto dest!: vec_at_in_set depth_child)
  also have "depth n' \<le> depth n" using 2 by (auto split: if_splits dest: fillChild_depth)
  finally show ?case by simp
qed auto

declare takeMax.simps [simp del]

function takeMin :: "nat \<Rightarrow> ('k, 'v) node \<Rightarrow> (('k \<times> 'v) \<times> ('k, 'v) node) result" where
  "takeMin t n =
     (if isLeaf n
      then (if keys n \<noteq> [] \<and> vals n \<noteq> []
            then Inr ((hd (keys n), hd (vals n)), Node (tl (keys n)) (tl (vals n)) (children n))
            else Inl Undefined_behaviour)
      else
        bind_result (vec_at (children n) 0) (\<lambda>c.
        bind_result (if length (keys c) < t then fillChild t n 0 else Inr n) (\<lambda>n'.
        bind_result (vec_at (children n') 0) (\<lambda>c'.
        bind_result (takeMin t c') (\<lambda>(e, c''). Inr (e, set_child n' 0 c''))))))"
  by pat_completeness auto
termination
proof (relation "measure (\<lambda>(t, n). depth n)", goal_cases)
  case (2 t n c n' c')
  then have "depth c' < depth n'" by (auto dest!: vec_at_in_set depth_child)
  also have "depth n' \<le> depth n" using 2 by (auto split: if_splits dest: fillChild_depth)
  finally show ?case by simp
qed auto

declare takeMin.simps [simp del]

text \<open>
  \<^verbatim>\<open>removeFrom\<close>: the returned flag is true when the key was found and removed. The call on the
  same node after \<^verbatim>\<open>fillChild\<close> is the source's defensive branch; it terminates because the key
  is then present in the node.
\<close>

function removeFrom ::
    "nat \<Rightarrow> ('k::linorder, 'v) node \<Rightarrow> 'k \<Rightarrow> (bool \<times> ('k, 'v) node) result" where
  "removeFrom t n key =
     (let i = lowerBound n key; present = key_at n i key in
      if present \<and> isLeaf n
      then (if i < length (vals n)
            then Inr (True, Node (erase_at i (keys n)) (erase_at i (vals n)) (children n))
            else Inl Undefined_behaviour)
      else if present
      then
        bind_result (vec_at (children n) i) (\<lambda>left.
        bind_result (vec_at (children n) (i + 1)) (\<lambda>right.
          if length (vals n) \<le> i then Inl Undefined_behaviour
          else if t \<le> length (keys left)
          then bind_result (takeMax t left) (\<lambda>((predKey, predValue), left').
            Inr (True, Node ((keys n)[i := predKey]) ((vals n)[i := predValue]) ((children n)[i := left'])))
          else if t \<le> length (keys right)
          then bind_result (takeMin t right) (\<lambda>((succKey, succValue), right').
            Inr (True, Node ((keys n)[i := succKey]) ((vals n)[i := succValue]) ((children n)[i + 1 := right'])))
          else bind_result (mergeChildren n i) (\<lambda>n'.
            bind_result (vec_at (children n') i) (\<lambda>c.
            bind_result (removeFrom t c key) (\<lambda>(b, c'). Inr (b, set_child n' i c'))))))
      else if isLeaf n then Inr (False, n)
      else
        bind_result (vec_at (children n) i) (\<lambda>child.
          if length (keys child) < t
          then bind_result (fillChild t n i) (\<lambda>n'.
            let j = lowerBound n' key in
            if key_at n' j key then removeFrom t n' key
            else bind_result (vec_at (children n') j) (\<lambda>c.
              bind_result (removeFrom t c key) (\<lambda>(b, c'). Inr (b, set_child n' j c'))))
          else bind_result (removeFrom t child key) (\<lambda>(b, c'). Inr (b, set_child n i c'))))"
  by pat_completeness auto
termination
proof (relation "measures [\<lambda>(t, n, key). depth n, \<lambda>(t, n, key). if key_at n (lowerBound n key) key then 0 else 1]",
    goal_cases)
  case (2 t n key i present left right n' c)
  then have "depth c < depth n'" by (auto dest!: vec_at_in_set depth_child)
  also have "depth n' \<le> depth n" using 2 by (auto dest: mergeChildren_depth)
  finally show ?case by simp
next
  case (3 t n key i present child n' j)
  then have "depth n' \<le> depth n" by (auto dest: fillChild_depth)
  with 3 show ?case by auto
next
  case (4 t n key i present child n' j c)
  then have "depth c < depth n'" by (auto dest!: vec_at_in_set depth_child)
  also have "depth n' \<le> depth n" using 4 by (auto dest: fillChild_depth)
  finally show ?case by simp
next
  case (5 t n key i present child)
  then show ?case by (auto dest!: vec_at_in_set depth_child)
qed auto

declare removeFrom.simps [simp del]

definition btree_remove ::
    "('k::linorder, 'v) btree \<Rightarrow> 'k \<Rightarrow> (bool \<times> ('k, 'v) btree) result" where
  "btree_remove bt key =
     (case root bt of
        None \<Rightarrow> Inr (False, bt)
      | Some r \<Rightarrow>
          bind_result (removeFrom (min_degree bt) r key) (\<lambda>(removed, r').
            let sz = (if removed then btree_size bt - 1 else btree_size bt) in
            if keys r' = []
            then (if isLeaf r' then Inr (removed, bt\<lparr>root := None, btree_size := sz\<rparr>)
                  else bind_result (vec_at (children r') 0) (\<lambda>c.
                    Inr (removed, bt\<lparr>root := Some c, btree_size := sz\<rparr>)))
            else Inr (removed, bt\<lparr>root := Some r', btree_size := sz\<rparr>)))"

section \<open>Traversal\<close>

text \<open>
  The visitors call a callback on each entry; the model returns the entries in the order of
  the calls.
\<close>

lemma bind_vec_at_cong [fundef_cong]:
  "xs = ys \<Longrightarrow> i = j \<Longrightarrow> (\<And>x. x \<in> set ys \<Longrightarrow> f x = g x) \<Longrightarrow>
     bind_result (vec_at xs i) f = bind_result (vec_at ys j) g"
  by (auto simp: vec_at_def)

function inOrder :: "('k, 'v) node \<Rightarrow> ('k \<times> 'v) list result" where
  "inOrder n =
     bind_result (map_result (\<lambda>i.
       bind_result (if isLeaf n then Inr [] else bind_result (vec_at (children n) i) inOrder) (\<lambda>l.
       bind_result (vec_at (keys n) i) (\<lambda>k.
       bind_result (vec_at (vals n) i) (\<lambda>v. Inr (l @ [(k, v)]))))) [0..<length (keys n)]) (\<lambda>ls.
     bind_result (if isLeaf n then Inr [] else
       bind_result (vec_at (children n) (length (children n) - 1)) inOrder) (\<lambda>l.
       Inr (concat ls @ l)))"
  by pat_completeness auto
termination
  by (relation "measure depth") (auto dest!: vec_at_in_set depth_child)

declare inOrder.simps [simp del]

definition forEachInOrder :: "('k, 'v) btree \<Rightarrow> ('k \<times> 'v) list result" where
  "forEachInOrder bt = (case root bt of None \<Rightarrow> Inr [] | Some r \<Rightarrow> inOrder r)"

text \<open>The loop of \<^verbatim>\<open>rangeVisit\<close> from position \<open>i\<close>; a node is entered at its lower bound.\<close>

function rangeLoop :: "('k::linorder, 'v) node \<Rightarrow> 'k \<Rightarrow> 'k \<Rightarrow> nat \<Rightarrow> ('k \<times> 'v) list result" where
  "rangeLoop n lo hi i =
     (if length (keys n) < i then Inr []
      else
        bind_result (if isLeaf n then Inr [] else
          bind_result (vec_at (children n) i) (\<lambda>c. rangeLoop c lo hi (lowerBound c lo))) (\<lambda>l.
        if i = length (keys n) \<or> hi < keys n ! i then Inr l
        else
          bind_result (vec_at (vals n) i) (\<lambda>v.
          bind_result (rangeLoop n lo hi (i + 1)) (\<lambda>rest. Inr (l @ (keys n ! i, v) # rest)))))"
  by pat_completeness auto
termination
  by (relation "measures [\<lambda>(n, lo, hi, i). depth n, \<lambda>(n, lo, hi, i). length (keys n) - i]")
    (auto dest!: vec_at_in_set depth_child)

declare rangeLoop.simps [simp del]

definition rangeVisit :: "('k::linorder, 'v) node \<Rightarrow> 'k \<Rightarrow> 'k \<Rightarrow> ('k \<times> 'v) list result" where
  "rangeVisit n lo hi = rangeLoop n lo hi (lowerBound n lo)"

definition forEachRange :: "('k::linorder, 'v) btree \<Rightarrow> 'k \<Rightarrow> 'k \<Rightarrow> ('k \<times> 'v) list result" where
  "forEachRange bt lo hi = (case root bt of None \<Rightarrow> Inr [] | Some r \<Rightarrow> rangeVisit r lo hi)"

section \<open>Height and the self-check\<close>

function node_height :: "('k, 'v) node \<Rightarrow> nat" where
  "node_height n = 1 + (if isLeaf n then 0 else node_height (children n ! 0))"
  by pat_completeness auto
termination
  by (relation "measure depth") (auto simp: isLeaf_def intro: depth_child)

declare node_height.simps [simp del]

definition btree_height :: "('k, 'v) btree \<Rightarrow> nat" where
  "btree_height bt = (case root bt of None \<Rightarrow> 0 | Some r \<Rightarrow> node_height r)"

text \<open>The key loop of \<^verbatim>\<open>checkNode\<close>: strictly ascending and strictly inside the limits.\<close>

definition checkKeys :: "'k::linorder list \<Rightarrow> 'k option \<Rightarrow> 'k option \<Rightarrow> bool" where
  "checkKeys ks lower upper \<longleftrightarrow>
     list_all (\<lambda>i. (0 < i \<longrightarrow> ks ! (i - 1) < ks ! i) \<and>
       (case lower of None \<Rightarrow> True | Some l \<Rightarrow> l < ks ! i) \<and>
       (case upper of None \<Rightarrow> True | Some u \<Rightarrow> ks ! i < u)) [0..<length ks]"

text \<open>
  \<^verbatim>\<open>checkNode\<close> and its loop over the children; the reference parameters \<^verbatim>\<open>leafDepth\<close> (initially
  \<open>-1\<close>) and \<^verbatim>\<open>counted\<close> are threaded through and returned beside the verdict.
\<close>

function (sequential) checkNode :: "nat \<Rightarrow> ('k::linorder, 'v) node \<Rightarrow> int \<Rightarrow> bool \<Rightarrow> 'k option \<Rightarrow> 'k option \<Rightarrow> int \<Rightarrow> nat
      \<Rightarrow> bool \<times> int \<times> nat"
  and checkChildren :: "nat \<Rightarrow> ('k, 'v) node list \<Rightarrow> 'k list \<Rightarrow> nat \<Rightarrow> int \<Rightarrow> 'k option \<Rightarrow> 'k option \<Rightarrow> int \<Rightarrow> nat
      \<Rightarrow> bool \<times> int \<times> nat" where
  "checkNode t (Node ks vs cs) d isRoot lower upper leafDepth counted =
     (let n = length ks in
      if length vs \<noteq> n then (False, leafDepth, counted)
      else if \<not> isRoot \<and> n < t - 1 then (False, leafDepth, counted)
      else if 2 * t - 1 < n then (False, leafDepth, counted)
      else if isRoot \<and> n = 0 then (False, leafDepth, counted)
      else if \<not> checkKeys ks lower upper then (False, leafDepth, counted)
      else if cs = []
        then (let leafDepth' = (if leafDepth = -1 then d else leafDepth)
              in (leafDepth' = d, leafDepth', counted + n))
      else if length cs \<noteq> n + 1 then (False, leafDepth, counted + n)
      else checkChildren t cs ks 0 d lower upper leafDepth (counted + n))"
| "checkChildren t [] ks i d lower upper leafDepth counted = (True, leafDepth, counted)"
| "checkChildren t (c # cs) ks i d lower upper leafDepth counted =
     (let childLower = (if i = 0 then lower else Some (ks ! (i - 1)));
          childUpper = (if i = length ks then upper else Some (ks ! i));
          (ok, leafDepth', counted') = checkNode t c (d + 1) False childLower childUpper leafDepth counted
      in if ok then checkChildren t cs ks (i + 1) d lower upper leafDepth' counted'
         else (False, leafDepth', counted'))"
  by pat_completeness auto
termination
  by (relation "measure (\<lambda>x. case x of
      Inl (t, n, d, isRoot, lower, upper, leafDepth, counted) \<Rightarrow> size n
    | Inr (t, cs, ks, i, d, lower, upper, leafDepth, counted) \<Rightarrow> size_list size cs)") auto

definition checkInvariants :: "('k::linorder, 'v) btree \<Rightarrow> bool" where
  "checkInvariants bt =
     (case root bt of
        None \<Rightarrow> btree_size bt = 0
      | Some r \<Rightarrow>
          (let (ok, leafDepth, counted) = checkNode (min_degree bt) r 0 True None None (-1) 0
           in ok \<and> counted = btree_size bt))"

end
