(* ===== verification/HashMap.thy ===== *)
theory HashMap
  imports Prelude
begin

unbundle bit_operations_syntax

text \<open>
  The open-addressing hash map of \<^verbatim>\<open>include/structures/HashMap.hpp\<close>: linear probing over a
  power-of-two vector of slots, tombstones on erasure, growth or rebuild at 70\% use.
  \<^verbatim>\<open>std::hash\<close> is the field \<open>hash_fn\<close>, an arbitrary function to 64-bit words. \<^verbatim>\<open>std::size_t\<close> counters
  are natural numbers, which a vector that fits in memory never wraps; the constructor, whose
  argument the caller chooses freely, is kept at 64 bits. A pointer to a stored value is the
  index of its slot, and \<^verbatim>\<open>kNotFound\<close> is \<open>None\<close>.
\<close>

section \<open>Data model\<close>

datatype SlotState = EMPTY | OCCUPIED | DELETED

record ('k, 'v) Slot =
  state :: SlotState
  kv :: "('k \<times> 'v) option"

definition empty_slot :: "('k, 'v) Slot" where
  "empty_slot = \<lparr>state = EMPTY, kv = None\<rparr>"

record ('k, 'v) hashmap =
  slots :: "('k, 'v) Slot list"
  hm_size :: nat
  hm_used :: nat
  hash_fn :: "'k \<Rightarrow> 64 word"

definition kMinCapacity :: nat where
  "kMinCapacity = 16"

text \<open>
  The loop of the constructor, on 64-bit words. Doubling sixteen sixty times gives zero, from
  where the loop never leaves; 64 rounds of fuel therefore decide it.
\<close>

fun grow_capacity :: "nat \<Rightarrow> 64 word \<Rightarrow> 64 word \<Rightarrow> 64 word result" where
  "grow_capacity 0 capacity initialCapacity =
     (if capacity < initialCapacity then Inl Nontermination else Inr capacity)"
| "grow_capacity (Suc fuel) capacity initialCapacity =
     (if capacity < initialCapacity then grow_capacity fuel (capacity * 2) initialCapacity
      else Inr capacity)"

definition new_hashmap :: "('k \<Rightarrow> 64 word) \<Rightarrow> 64 word \<Rightarrow> ('k, 'v) hashmap result" where
  "new_hashmap h initialCapacity =
     bind_result (grow_capacity 64 (of_nat kMinCapacity) initialCapacity) (\<lambda>capacity.
       Inr \<lparr>slots = replicate (unat capacity) empty_slot, hm_size = 0, hm_used = 0, hash_fn = h\<rparr>)"

text \<open>The default constructor.\<close>

definition default_hashmap :: "('k \<Rightarrow> 64 word) \<Rightarrow> ('k, 'v) hashmap" where
  "default_hashmap h =
     \<lparr>slots = replicate kMinCapacity empty_slot, hm_size = 0, hm_used = 0, hash_fn = h\<rparr>"

definition hm_mask :: "('k, 'v) Slot list \<Rightarrow> nat" where
  "hm_mask s = length s - 1"

definition homeIndex :: "('k \<Rightarrow> 64 word) \<Rightarrow> ('k, 'v) Slot list \<Rightarrow> 'k \<Rightarrow> nat" where
  "homeIndex h s key = unat (h key) AND hm_mask s"

definition next_index :: "('k, 'v) Slot list \<Rightarrow> nat \<Rightarrow> nat" where
  "next_index s index = (index + 1) AND hm_mask s"

text \<open>The slot is occupied by the key; \<^verbatim>\<open>slot.kv->first\<close> is read only if it is occupied.\<close>

definition holds_key :: "('k, 'v) Slot \<Rightarrow> 'k \<Rightarrow> bool result" where
  "holds_key slot key =
     (if state slot = OCCUPIED then bind_result (deref (kv slot)) (\<lambda>p. Inr (fst p = key)) else Inr False)"

section \<open>Lookup\<close>

text \<open>The probing loop; the last argument counts the probes left.\<close>

fun find_loop :: "('k, 'v) Slot list \<Rightarrow> 'k \<Rightarrow> nat \<Rightarrow> nat \<Rightarrow> nat option result" where
  "find_loop s key index 0 = Inr None"
| "find_loop s key index (Suc probes) =
     bind_result (vec_at s index) (\<lambda>slot.
       if state slot = EMPTY then Inr None
       else bind_result (holds_key slot key) (\<lambda>found.
         if found then Inr (Some index) else find_loop s key (next_index s index) probes))"

definition findSlot :: "('k, 'v) hashmap \<Rightarrow> 'k \<Rightarrow> nat option result" where
  "findSlot m key = find_loop (slots m) key (homeIndex (hash_fn m) (slots m) key) (length (slots m))"

definition hm_find :: "('k, 'v) hashmap \<Rightarrow> 'k \<Rightarrow> nat option result" where
  "hm_find m key = findSlot m key"

text \<open>Reading and writing through the pointer \<open>hm_find\<close> returns.\<close>

definition hm_read :: "('k, 'v) hashmap \<Rightarrow> nat \<Rightarrow> 'v result" where
  "hm_read m index = bind_result (vec_at (slots m) index) (\<lambda>slot.
     bind_result (deref (kv slot)) (\<lambda>p. Inr (snd p)))"

definition hm_write :: "('k, 'v) hashmap \<Rightarrow> nat \<Rightarrow> 'v \<Rightarrow> ('k, 'v) hashmap result" where
  "hm_write m index v = bind_result (vec_at (slots m) index) (\<lambda>slot.
     bind_result (deref (kv slot)) (\<lambda>p.
       Inr (m\<lparr>slots := (slots m)[index := slot\<lparr>kv := Some (fst p, v)\<rparr>]\<rparr>)))"

definition hm_contains :: "('k, 'v) hashmap \<Rightarrow> 'k \<Rightarrow> bool result" where
  "hm_contains m key = bind_result (findSlot m key) (\<lambda>i. Inr (i \<noteq> None))"

section \<open>Insertion\<close>

text \<open>
  What the loop of \<^verbatim>\<open>place\<close> decides: the slot that holds the key, or the free slot to fill. The
  loop has no bound of its own; its state repeats once every slot was visited, so as many
  rounds as there are slots decide whether it leaves.
\<close>

datatype place_target = Present nat | Free nat

fun place_loop :: "('k, 'v) Slot list \<Rightarrow> 'k \<Rightarrow> nat \<Rightarrow> nat option \<Rightarrow> nat \<Rightarrow> place_target result" where
  "place_loop s key index firstDeleted 0 = Inl Nontermination"
| "place_loop s key index firstDeleted (Suc fuel) =
     bind_result (vec_at s index) (\<lambda>slot.
     bind_result (holds_key slot key) (\<lambda>found.
       if found then Inr (Present index)
       else
         let firstDeleted' = (if state slot = DELETED \<and> firstDeleted = None then Some index else firstDeleted)
         in if state slot = EMPTY
            then Inr (Free (case firstDeleted' of Some d \<Rightarrow> d | None \<Rightarrow> index))
            else place_loop s key (next_index s index) firstDeleted' fuel))"

definition place :: "('k, 'v) hashmap \<Rightarrow> 'k \<Rightarrow> 'v \<Rightarrow> bool \<Rightarrow> (bool \<times> ('k, 'v) hashmap) result" where
  "place m key v assignIfPresent =
     bind_result (place_loop (slots m) key (homeIndex (hash_fn m) (slots m) key) None (length (slots m))) (\<lambda>t.
       case t of
         Present index \<Rightarrow>
           if assignIfPresent then bind_result (hm_write m index v) (\<lambda>m'. Inr (False, m'))
           else Inr (False, m)
       | Free target \<Rightarrow>
           bind_result (vec_at (slots m) target) (\<lambda>dest.
             Inr (True, m\<lparr>slots := (slots m)[target := \<lparr>state = OCCUPIED, kv = Some (key, v)\<rparr>],
                    hm_used := (if state dest = EMPTY then hm_used m + 1 else hm_used m),
                    hm_size := hm_size m + 1\<rparr>)))"

definition rehash_step :: "('k, 'v) Slot \<Rightarrow> ('k, 'v) hashmap \<Rightarrow> ('k, 'v) hashmap result" where
  "rehash_step slot m =
     (if state slot = OCCUPIED
      then bind_result (deref (kv slot)) (\<lambda>p.
        bind_result (place m (fst p) (snd p) False) (\<lambda>(b, m'). Inr m'))
      else Inr m)"

definition rehash :: "('k, 'v) hashmap \<Rightarrow> nat \<Rightarrow> ('k, 'v) hashmap result" where
  "rehash m newCapacity =
     fold_result rehash_step (slots m)
       (m\<lparr>slots := replicate newCapacity empty_slot, hm_size := 0, hm_used := 0\<rparr>)"

definition reserveForOneMore :: "('k, 'v) hashmap \<Rightarrow> ('k, 'v) hashmap result" where
  "reserveForOneMore m =
     (let cap = length (slots m) in
      if (hm_used m + 1) * 10 \<le> cap * 7 then Inr m
      else let mostlyLive = (hm_size m + 1) * 10 > cap * 4 in
        rehash m (if mostlyLive then cap * 2 else cap))"

definition hm_insert :: "('k, 'v) hashmap \<Rightarrow> 'k \<Rightarrow> 'v \<Rightarrow> (bool \<times> ('k, 'v) hashmap) result" where
  "hm_insert m key v = bind_result (reserveForOneMore m) (\<lambda>m'. place m' key v False)"

definition insertOrAssign :: "('k, 'v) hashmap \<Rightarrow> 'k \<Rightarrow> 'v \<Rightarrow> (bool \<times> ('k, 'v) hashmap) result" where
  "insertOrAssign m key v = bind_result (reserveForOneMore m) (\<lambda>m'. place m' key v True)"

section \<open>Erasure and the remaining members\<close>

definition hm_erase :: "('k, 'v) hashmap \<Rightarrow> 'k \<Rightarrow> (bool \<times> ('k, 'v) hashmap) result" where
  "hm_erase m key =
     bind_result (findSlot m key) (\<lambda>index. case index of
       None \<Rightarrow> Inr (False, m)
     | Some i \<Rightarrow> Inr (True, m\<lparr>slots := (slots m)[i := \<lparr>state = DELETED, kv = None\<rparr>],
                           hm_size := hm_size m - 1\<rparr>))"

text \<open>\<^verbatim>\<open>operator[]\<close>: the pointer to the value, inserted as \<^verbatim>\<open>V{}\<close> if the key was missing.\<close>

definition hm_subscript :: "('k, 'v) hashmap \<Rightarrow> 'v \<Rightarrow> 'k \<Rightarrow> (nat \<times> ('k, 'v) hashmap) result" where
  "hm_subscript m dflt key =
     bind_result (hm_find m key) (\<lambda>p. case p of
       Some existing \<Rightarrow> Inr (existing, m)
     | None \<Rightarrow>
         bind_result (hm_insert m key dflt) (\<lambda>(b, m').
         bind_result (hm_find m' key) (\<lambda>q.
         bind_result (deref q) (\<lambda>i. Inr (i, m')))))"

definition hm_empty :: "('k, 'v) hashmap \<Rightarrow> bool" where
  "hm_empty m \<longleftrightarrow> hm_size m = 0"

definition hm_capacity :: "('k, 'v) hashmap \<Rightarrow> nat" where
  "hm_capacity m = length (slots m)"

text \<open>\<^verbatim>\<open>forEach\<close>: the pairs the callback receives, in slot order.\<close>

fun for_each_slots :: "('k, 'v) Slot list \<Rightarrow> ('k \<times> 'v) list result" where
  "for_each_slots [] = Inr []"
| "for_each_slots (slot # s) =
     (if state slot = OCCUPIED
      then bind_result (deref (kv slot)) (\<lambda>p. bind_result (for_each_slots s) (\<lambda>ps. Inr (p # ps)))
      else for_each_slots s)"

definition hm_forEach :: "('k, 'v) hashmap \<Rightarrow> ('k \<times> 'v) list result" where
  "hm_forEach m = for_each_slots (slots m)"

end
