(* ===== verification/LRUCache.thy ===== *)
theory LRUCache
  imports HashMap
begin

text \<open>
  The cache of \<^verbatim>\<open>include/structures/LRUCache.hpp\<close>: a doubly linked list in order of recency and a
  hash map from keys to list iterators. A list node has an identity, drawn from a counter when
  the node is created; an iterator is such an identity, valid as long as a node with it is in
  the list. Following an iterator whose node was erased is undefined behaviour.
\<close>

section \<open>Data model\<close>

type_synonym iter = nat

text \<open>A list node: its identity and the entry it holds.\<close>

type_synonym ('k, 'v) list_node = "iter \<times> 'k \<times> 'v"

record ('k, 'v) lru =
  lru_capacity :: nat
  items :: "('k, 'v) list_node list"
  index :: "('k, iter) hashmap"
  hits :: nat
  misses :: nat
  next_iter :: iter

definition new_lru :: "('k \<Rightarrow> 64 word) \<Rightarrow> nat \<Rightarrow> ('k, 'v) lru result" where
  "new_lru h capacity =
     (if capacity = 0 then Inl (Invalid_argument ''LRUCache: capacity must be > 0'')
      else Inr \<lparr>lru_capacity = capacity, items = [], index = default_hashmap h, hits = 0, misses = 0,
                next_iter = 0\<rparr>)"

section \<open>The linked list\<close>

text \<open>The node an iterator points to.\<close>

definition node_at :: "('k, 'v) list_node list \<Rightarrow> iter \<Rightarrow> ('k, 'v) list_node result" where
  "node_at xs it = deref (find (\<lambda>x. fst x = it) xs)"

definition without_node :: "('k, 'v) list_node list \<Rightarrow> iter \<Rightarrow> ('k, 'v) list_node list" where
  "without_node xs it = filter (\<lambda>x. fst x \<noteq> it) xs"

text \<open>\<^verbatim>\<open>it->second = value\<close>\<close>

definition set_value :: "('k, 'v) list_node list \<Rightarrow> iter \<Rightarrow> 'v \<Rightarrow> ('k, 'v) list_node list result" where
  "set_value xs it v = bind_result (node_at xs it) (\<lambda>_.
     Inr (map (\<lambda>x. if fst x = it then (it, fst (snd x), v) else x) xs))"

text \<open>\<^verbatim>\<open>touch\<close>: splice the node to the front.\<close>

definition touch :: "('k, 'v) list_node list \<Rightarrow> iter \<Rightarrow> ('k, 'v) list_node list result" where
  "touch xs it = bind_result (node_at xs it) (\<lambda>x. Inr (x # without_node xs it))"

section \<open>Operations\<close>

text \<open>Look a key up in the index and read the iterator stored there, as every member does first.\<close>

definition index_find :: "('k, 'v) lru \<Rightarrow> 'k \<Rightarrow> iter option result" where
  "index_find c key = bind_result (hm_find (index c) key) (\<lambda>p. case p of
     None \<Rightarrow> Inr None
   | Some i \<Rightarrow> bind_result (hm_read (index c) i) (\<lambda>it. Inr (Some it)))"

text \<open>The eviction in \<^verbatim>\<open>put\<close>: the least recently used entry leaves the index and the list.\<close>

definition evict :: "('k, 'v) lru \<Rightarrow> ('k, 'v) lru result" where
  "evict c =
     (if length (items c) = lru_capacity c
      then if items c = [] then Inl Undefined_behaviour
        else bind_result (hm_erase (index c) (fst (snd (last (items c))))) (\<lambda>(_, ix).
          Inr (c\<lparr>index := ix, items := butlast (items c)\<rparr>))
      else Inr c)"

definition lru_put :: "('k, 'v) lru \<Rightarrow> 'k \<Rightarrow> 'v \<Rightarrow> ('k, 'v) lru result" where
  "lru_put c key v =
     bind_result (index_find c key) (\<lambda>p. case p of
       Some it \<Rightarrow>
         bind_result (set_value (items c) it v) (\<lambda>xs.
         bind_result (touch xs it) (\<lambda>ys. Inr (c\<lparr>items := ys\<rparr>)))
     | None \<Rightarrow>
         bind_result (evict c) (\<lambda>c'.
           let it = next_iter c' in
           bind_result (insertOrAssign (index c') key it) (\<lambda>(_, ix).
             Inr (c'\<lparr>items := (it, key, v) # items c', index := ix, next_iter := it + 1\<rparr>))))"

text \<open>
  \<^verbatim>\<open>get\<close>, \<^verbatim>\<open>peek\<close>: the pointer they return is read at once by the callers, so the model returns
  the value it points to.
\<close>

definition lru_get :: "('k, 'v) lru \<Rightarrow> 'k \<Rightarrow> ('v option \<times> ('k, 'v) lru) result" where
  "lru_get c key =
     bind_result (index_find c key) (\<lambda>p. case p of
       None \<Rightarrow> Inr (None, c\<lparr>misses := misses c + 1\<rparr>)
     | Some it \<Rightarrow>
         bind_result (touch (items c) it) (\<lambda>ys.
           if ys = [] then Inl Undefined_behaviour
           else Inr (Some (snd (snd (hd ys))), c\<lparr>items := ys, hits := hits c + 1\<rparr>)))"

definition lru_peek :: "('k, 'v) lru \<Rightarrow> 'k \<Rightarrow> 'v option result" where
  "lru_peek c key =
     bind_result (index_find c key) (\<lambda>p. case p of
       None \<Rightarrow> Inr None
     | Some it \<Rightarrow> bind_result (node_at (items c) it) (\<lambda>x. Inr (Some (snd (snd x)))))"

definition lru_contains :: "('k, 'v) lru \<Rightarrow> 'k \<Rightarrow> bool result" where
  "lru_contains c key = hm_contains (index c) key"

definition lru_erase :: "('k, 'v) lru \<Rightarrow> 'k \<Rightarrow> (bool \<times> ('k, 'v) lru) result" where
  "lru_erase c key =
     bind_result (index_find c key) (\<lambda>p. case p of
       None \<Rightarrow> Inr (False, c)
     | Some it \<Rightarrow>
         bind_result (node_at (items c) it) (\<lambda>_.
         bind_result (hm_erase (index c) key) (\<lambda>(_, ix).
           Inr (True, c\<lparr>items := without_node (items c) it, index := ix\<rparr>))))"

definition lru_clear :: "('k, 'v) lru \<Rightarrow> ('k, 'v) lru" where
  "lru_clear c = c\<lparr>items := [], index := default_hashmap (hash_fn (index c))\<rparr>"

definition lru_size :: "('k, 'v) lru \<Rightarrow> nat" where
  "lru_size c = length (items c)"

end
