(* ===== verification/Table.thy ===== *)
theory Table
  imports Row BTree LRUCache
begin

text \<open>
  The table of \<^verbatim>\<open>include/core/Table.hpp\<close> and \<^verbatim>\<open>src/core/table.cpp\<close>: a schema, the rows in a
  B-tree keyed by the INT column \<^verbatim>\<open>id\<close>, and a cache of recently read rows. Every member takes the
  table's lock for its whole body, so a member is one atomic step here; the lock itself is
  modelled in \<^verbatim>\<open>RWLock\<close>. A predicate is a function that may throw.

  A member that throws does so before it changes the table, which is why the exception alone is
  returned; that nothing later in a member throws is part of its correctness.
\<close>

section \<open>Data model\<close>

record table =
  tbl_schema :: Schema
  rows :: "(int64, Row) btree"
  cache :: "(int64, Row) lru"

definition kIdColumn :: string where
  "kIdColumn = ''id''"

definition kDefaultCacheCapacity :: nat where
  "kDefaultCacheCapacity = 128"

text \<open>\<^verbatim>\<open>BTree\<close>'s default minimum degree, with which \<^verbatim>\<open>rows_\<close> is built.\<close>

definition default_min_degree :: int where
  "default_min_degree = 16"

definition no_id_error :: exn where
  "no_id_error =
     Invalid_argument (''Table: schema requires an INT primary-key column named '' @ quoted kIdColumn)"

definition new_table :: "(int64 \<Rightarrow> 64 word) \<Rightarrow> Schema \<Rightarrow> nat \<Rightarrow> table result" where
  "new_table h sc cacheCapacity =
     bind_result (new_btree default_min_degree) (\<lambda>bt.
     bind_result (new_lru h cacheCapacity) (\<lambda>c.
       case findColumn sc kIdColumn of
         Some col \<Rightarrow>
           if col_type col \<noteq> DT_INT
           then Inl no_id_error
           else Inr \<lparr>tbl_schema = sc, rows = bt, cache = c\<rparr>
       | None \<Rightarrow> Inl no_id_error))"

definition makeRow :: "table \<Rightarrow> Row result" where
  "makeRow t = new_row (Some (tbl_schema t))"

section \<open>Single rows\<close>

definition table_insert :: "table \<Rightarrow> Row \<Rightarrow> (bool \<times> table) result" where
  "table_insert t row =
     (if columns (row_schema row) \<noteq> columns (tbl_schema t)
      then Inl (Invalid_argument ''Table: row schema does not match table schema'')
      else if \<not> validate (tbl_schema t) row
      then Inl (Invalid_argument ''Table: row is incomplete or fails type checks'')
      else bind_result (row_getInt row kIdColumn) (\<lambda>i.
        bind_result (btree_insert (rows t) i row) (\<lambda>(b, bt). Inr (b, t\<lparr>rows := bt\<rparr>))))"

definition findById :: "table \<Rightarrow> int64 \<Rightarrow> (Row option \<times> table) result" where
  "findById t i =
     bind_result (lru_get (cache t) i) (\<lambda>(hit, c). case hit of
       Some row \<Rightarrow> Inr (Some row, t\<lparr>cache := c\<rparr>)
     | None \<Rightarrow>
         bind_result (btree_search (rows t) i) (\<lambda>p. case p of
           None \<Rightarrow> Inr (None, t\<lparr>cache := c\<rparr>)
         | Some q \<Rightarrow>
             bind_result (btree_deref (rows t) q) (\<lambda>row.
             bind_result (lru_put c i row) (\<lambda>c'. Inr (Some row, t\<lparr>cache := c'\<rparr>)))))"

definition deleteById :: "table \<Rightarrow> int64 \<Rightarrow> (bool \<times> table) result" where
  "deleteById t i =
     bind_result (btree_remove (rows t) i) (\<lambda>(removed, bt).
       if removed
       then bind_result (lru_erase (cache t) i) (\<lambda>(_, c). Inr (True, t\<lparr>rows := bt, cache := c\<rparr>))
       else Inr (False, t\<lparr>rows := bt\<rparr>))"

definition rowCount :: "table \<Rightarrow> nat" where
  "rowCount t = btree_size (rows t)"

section \<open>Scans\<close>

type_synonym predicate = "Row \<Rightarrow> bool result"

text \<open>The callback of a scan: keep the entries on which the predicate holds.\<close>

fun matching :: "predicate \<Rightarrow> (int64 \<times> Row) list \<Rightarrow> (int64 \<times> Row) list result" where
  "matching p [] = Inr []"
| "matching p (e # es) =
     bind_result (p (snd e)) (\<lambda>b. bind_result (matching p es) (\<lambda>fs. Inr (if b then e # fs else fs)))"

definition selectWhere :: "table \<Rightarrow> predicate \<Rightarrow> Row list result" where
  "selectWhere t p =
     bind_result (forEachInOrder (rows t)) (\<lambda>es.
     bind_result (matching p es) (\<lambda>fs. Inr (map snd fs)))"

definition selectAll :: "table \<Rightarrow> Row list result" where
  "selectAll t = selectWhere t (\<lambda>_. Inr True)"

definition selectIdRange :: "table \<Rightarrow> int64 \<Rightarrow> int64 \<Rightarrow> Row list result" where
  "selectIdRange t lo hi = bind_result (forEachRange (rows t) lo hi) (\<lambda>es. Inr (map snd es))"

definition doomed_step :: "int64 \<Rightarrow> table \<Rightarrow> table result" where
  "doomed_step i t =
     bind_result (btree_remove (rows t) i) (\<lambda>(_, bt).
     bind_result (lru_erase (cache t) i) (\<lambda>(_, c). Inr (t\<lparr>rows := bt, cache := c\<rparr>)))"

definition deleteWhere :: "table \<Rightarrow> predicate \<Rightarrow> (nat \<times> table) result" where
  "deleteWhere t p =
     bind_result (forEachInOrder (rows t)) (\<lambda>es.
     bind_result (matching p es) (\<lambda>fs.
     bind_result (fold_result doomed_step (map fst fs) t) (\<lambda>t'. Inr (length fs, t'))))"

section \<open>Updates\<close>

text \<open>The check of one assignment, before any row is touched.\<close>

definition check_assignment :: "Schema \<Rightarrow> string \<times> string \<Rightarrow> unit \<Rightarrow> unit result" where
  "check_assignment sc a u =
     (if fst a = kIdColumn then Inl (Invalid_argument ''Table: the primary key cannot be updated'')
      else case findColumn sc (fst a) of
        None \<Rightarrow> Inl (Invalid_argument (''Table: unknown column '' @ quoted (fst a)))
      | Some def \<Rightarrow>
          if \<not> isValidValueFor (col_type def) (snd a)
          then Inl (Invalid_argument (''Table: value '' @ quoted (snd a) @ '' is not a valid '' @
                 toString_DataType (col_type def) @ '' for column '' @ quoted (fst a)))
          else Inr ())"

text \<open>\<^verbatim>\<open>row->set(column, value)\<close> through the pointer into the tree.\<close>

definition set_in_place :: "val_ptr \<Rightarrow> string \<times> string \<Rightarrow> (int64, Row) btree \<Rightarrow> (int64, Row) btree result" where
  "set_in_place q a bt =
     bind_result (btree_deref bt q) (\<lambda>row.
     bind_result (row_set row (fst a) (snd a)) (\<lambda>row'. btree_store bt q row'))"

definition update_row :: "(string \<times> string) list \<Rightarrow> int64 \<Rightarrow> (int64, Row) btree \<Rightarrow> (int64, Row) btree result" where
  "update_row assignments i bt =
     bind_result (btree_search bt i) (\<lambda>p.
       if assignments = [] then Inr bt
       else bind_result (deref p) (\<lambda>q. fold_result (set_in_place q) assignments bt))"

definition erase_cached :: "int64 \<Rightarrow> (int64, Row) lru \<Rightarrow> (int64, Row) lru result" where
  "erase_cached i c = bind_result (lru_erase c i) (\<lambda>(_, c'). Inr c')"

definition updateWhere :: "table \<Rightarrow> predicate \<Rightarrow> (string \<times> string) list \<Rightarrow> (nat \<times> table) result" where
  "updateWhere t p assignments =
     bind_result (fold_result (check_assignment (tbl_schema t)) assignments ()) (\<lambda>_.
     bind_result (forEachInOrder (rows t)) (\<lambda>es.
     bind_result (matching p es) (\<lambda>fs.
     bind_result (fold_result (update_row assignments) (map fst fs) (rows t)) (\<lambda>bt.
     bind_result (fold_result erase_cached (map fst fs) (cache t)) (\<lambda>c.
       Inr (length fs, t\<lparr>rows := bt, cache := c\<rparr>))))))"

definition cacheHits :: "table \<Rightarrow> nat" where
  "cacheHits t = hits (cache t)"

definition cacheMisses :: "table \<Rightarrow> nat" where
  "cacheMisses t = misses (cache t)"

end
