(* ===== verification/Sorted_Entries.thy ===== *)
theory Sorted_Entries
  imports Prelude
begin

text \<open>
  Association lists with strictly ascending keys: the abstract state of an ordered index.
  Insertion, overwriting, deletion and range selection on them are what the operations of
  the index are specified by; each also has its reading as a finite map.
\<close>

section \<open>Sorted entries\<close>

definition ksorted :: "('k::linorder \<times> 'v) list \<Rightarrow> bool" where
  "ksorted es \<longleftrightarrow> sorted_wrt (<) (map fst es)"

lemma ksorted_Nil [simp]: "ksorted []"
  by (simp add: ksorted_def)

lemma ksorted_Cons: "ksorted (e # es) \<longleftrightarrow> (\<forall>x \<in> set es. fst e < fst x) \<and> ksorted es"
  by (auto simp: ksorted_def)

lemma ksorted_append:
  "ksorted (xs @ ys) \<longleftrightarrow> ksorted xs \<and> ksorted ys \<and> (\<forall>x \<in> set xs. \<forall>y \<in> set ys. fst x < fst y)"
  by (auto simp: ksorted_def sorted_wrt_append)

lemma ksorted_distinct: "ksorted es \<Longrightarrow> distinct (map fst es)"
  by (simp add: ksorted_def strict_sorted_iff)

text \<open>Insertion into and deletion from a sorted association list: what the tree refines.\<close>

fun ins_entry :: "'k::linorder \<Rightarrow> 'v \<Rightarrow> ('k \<times> 'v) list \<Rightarrow> ('k \<times> 'v) list" where
  "ins_entry k v [] = [(k, v)]"
| "ins_entry k v (e # es) = (if fst e < k then e # ins_entry k v es else (k, v) # e # es)"

definition del_entry :: "'k \<Rightarrow> ('k \<times> 'v) list \<Rightarrow> ('k \<times> 'v) list" where
  "del_entry k es = filter (\<lambda>e. fst e \<noteq> k) es"

definition all_less :: "('k::linorder \<times> 'v) list \<Rightarrow> 'k \<Rightarrow> bool" where
  "all_less es k \<longleftrightarrow> (\<forall>e \<in> set es. fst e < k)"

definition all_greater :: "('k::linorder \<times> 'v) list \<Rightarrow> 'k \<Rightarrow> bool" where
  "all_greater es k \<longleftrightarrow> (\<forall>e \<in> set es. k < fst e)"

lemma all_less_iff [simp]:
  "all_less [] k" "all_less (e # es) k \<longleftrightarrow> fst e < k \<and> all_less es k"
  "all_less (es @ fs) k \<longleftrightarrow> all_less es k \<and> all_less fs k"
  by (auto simp: all_less_def)

lemma all_greater_iff [simp]:
  "all_greater [] k" "all_greater (e # es) k \<longleftrightarrow> k < fst e \<and> all_greater es k"
  "all_greater (es @ fs) k \<longleftrightarrow> all_greater es k \<and> all_greater fs k"
  by (auto simp: all_greater_def)

lemma ins_entry_append: "all_greater zs k \<Longrightarrow> ins_entry k v (ys @ zs) = ins_entry k v ys @ zs"
  by (induction ys) (cases zs; auto)+

lemma ins_entry_between:
  "all_less xs k \<Longrightarrow> all_greater zs k \<Longrightarrow> ins_entry k v (xs @ ys @ zs) = xs @ ins_entry k v ys @ zs"
  by (induction xs) (auto simp: ins_entry_append)

lemma ins_entry_here: "all_less xs k \<Longrightarrow> all_greater zs k \<Longrightarrow> ins_entry k v (xs @ zs) = xs @ (k, v) # zs"
  using ins_entry_between [of xs k zs v "[]"] by simp

lemma set_ins_entry [simp]: "set (ins_entry k v es) = insert (k, v) (set es)"
  by (induction es) auto

lemma del_entry_append [simp]: "del_entry k (xs @ ys) = del_entry k xs @ del_entry k ys"
  by (simp add: del_entry_def)

lemma del_entry_Cons [simp]: "del_entry k (e # es) = (if fst e = k then del_entry k es else e # del_entry k es)"
  by (simp add: del_entry_def)

lemma del_entry_Nil [simp]: "del_entry k [] = []"
  by (simp add: del_entry_def)

lemma del_entry_less: "all_less es k \<Longrightarrow> del_entry k es = es"
  by (induction es) auto

lemma del_entry_greater: "all_greater es k \<Longrightarrow> del_entry k es = es"
  by (induction es) auto

lemma ksorted_ins: "ksorted es \<Longrightarrow> k \<notin> fst ` set es \<Longrightarrow> ksorted (ins_entry k v es)"
  by (induction es) (fastforce simp: ksorted_Cons not_less le_less)+

lemma ksorted_del: "ksorted es \<Longrightarrow> ksorted (del_entry k es)"
  by (simp add: ksorted_def del_entry_def sorted_wrt_map sorted_wrt_filter)

lemma map_of_ins: "ksorted es \<Longrightarrow> k \<notin> fst ` set es \<Longrightarrow> map_of (ins_entry k v es) = (map_of es)(k \<mapsto> v)"
proof (induction es)
  case (Cons e es)
  then show ?case by (auto simp: fun_eq_iff ksorted_Cons)
qed simp

lemma map_of_del: "map_of (del_entry k es) = (map_of es)(k := None)"
  by (induction es) (auto simp: fun_eq_iff)

section \<open>What an operation does to the entries\<close>

text \<open>What an insertion does to the entries: nothing if the key is there, else it inserts.\<close>

definition ins_spec ::
    "'k::linorder \<Rightarrow> 'v \<Rightarrow> ('k \<times> 'v) list \<Rightarrow> bool \<Rightarrow> ('k \<times> 'v) list \<Rightarrow> bool" where
  "ins_spec key v es b es' \<longleftrightarrow>
     (b \<longleftrightarrow> key \<notin> fst ` set es) \<and> es' = (if b then ins_entry key v es else es)"

lemma not_in_all_less: "all_less xs k \<Longrightarrow> k \<notin> fst ` set xs"
  by (auto simp: all_less_def)

lemma not_in_all_greater: "all_greater xs k \<Longrightarrow> k \<notin> fst ` set xs"
  by (auto simp: all_greater_def)

lemma ins_spec_between:
  assumes "ins_spec key v ys b ys'" and "all_less xs key" and "all_greater zs key"
  shows "ins_spec key v (xs @ ys @ zs) b (xs @ ys' @ zs)"
proof -
  have "key \<notin> fst ` set (xs @ ys @ zs) \<longleftrightarrow> key \<notin> fst ` set ys"
    using not_in_all_less [OF assms(2)] not_in_all_greater [OF assms(3)] by (simp add: image_Un)
  with assms(1) ins_entry_between [OF assms(2,3), of v ys] show ?thesis
    by (simp add: ins_spec_def)
qed

lemma ins_spec_present: "key \<in> fst ` set es \<Longrightarrow> ins_spec key v es False es"
  by (simp add: ins_spec_def)

lemma ins_spec_ksorted: "ins_spec key v es b es' \<Longrightarrow> ksorted es \<Longrightarrow> ksorted es'"
  by (auto simp: ins_spec_def intro: ksorted_ins)

lemma length_ins_entry [simp]: "length (ins_entry k v es) = Suc (length es)"
  by (induction es) auto

lemma ins_spec_length: "ins_spec key v es b es' \<Longrightarrow> length es' = (if b then Suc (length es) else length es)"
  by (auto simp: ins_spec_def)

text \<open>A removal deletes the entry of the key and reports whether there was one.\<close>

definition del_spec :: "'k \<Rightarrow> ('k \<times> 'v) list \<Rightarrow> bool \<Rightarrow> ('k \<times> 'v) list \<Rightarrow> bool" where
  "del_spec key es b es' \<longleftrightarrow> (b \<longleftrightarrow> key \<in> fst ` set es) \<and> es' = del_entry key es"

lemma del_spec_between:
  "del_spec key ys b ys' \<Longrightarrow> all_less xs key \<Longrightarrow> all_greater zs key \<Longrightarrow>
     del_spec key (xs @ ys @ zs) b (xs @ ys' @ zs)"
  using not_in_all_less [of xs key] not_in_all_greater [of zs key]
  by (auto simp: del_spec_def del_entry_less del_entry_greater)

lemma del_spec_here:
  "all_less xs key \<Longrightarrow> all_greater zs key \<Longrightarrow> del_spec key (xs @ (key, v) # zs) True (xs @ zs)"
  by (simp add: del_spec_def del_entry_less del_entry_greater)

lemma del_spec_absent:
  "all_less xs key \<Longrightarrow> all_greater zs key \<Longrightarrow> del_spec key (xs @ zs) False (xs @ zs)"
  using not_in_all_less [of xs key] not_in_all_greater [of zs key]
  by (auto simp: del_spec_def del_entry_less del_entry_greater)

lemma del_spec_length:
  assumes "del_spec key es b es'" and "ksorted es"
  shows "length es' = (if b then length es - 1 else length es)" "ksorted es'"
proof -
  show "ksorted es'" using assms ksorted_del by (auto simp: del_spec_def)
  have "length (del_entry key es) = (if key \<in> fst ` set es then length es - 1 else length es)"
    using \<open>ksorted es\<close>
  proof (induction es)
    case (Cons e es)
    then have "del_entry key es = es" if "fst e = key" using that
      by (intro del_entry_greater) (auto simp: ksorted_Cons all_greater_def)
    with Cons show ?case by (cases es) (auto simp: ksorted_Cons)
  qed simp
  then show "length es' = (if b then length es - 1 else length es)" using assms by (auto simp: del_spec_def)
qed

text \<open>Overwriting the value of a key in the list of entries.\<close>

definition upd_entry :: "'k \<Rightarrow> 'v \<Rightarrow> ('k \<times> 'v) list \<Rightarrow> ('k \<times> 'v) list" where
  "upd_entry k v es = map (\<lambda>e. if fst e = k then (k, v) else e) es"

lemma upd_entry_absent: "k \<notin> fst ` set es \<Longrightarrow> upd_entry k v es = es"
  by (induction es) (auto simp: upd_entry_def)

lemma upd_entry_at:
  assumes "ksorted (xs @ (k, v) # ys)"
  shows "upd_entry k v' (xs @ (k, v) # ys) = xs @ (k, v') # ys"
proof -
  have "k \<notin> fst ` set xs" "k \<notin> fst ` set ys"
    using assms by (auto simp: ksorted_append ksorted_Cons)
  then show ?thesis using upd_entry_absent [of k xs v'] upd_entry_absent [of k ys v'] by (simp add: upd_entry_def)
qed

lemma map_fst_upd [simp]: "map fst (upd_entry k v es) = map fst es"
  by (simp add: upd_entry_def)

lemma length_upd [simp]: "length (upd_entry k v es) = length es"
  by (simp add: upd_entry_def)

lemma ksorted_upd [simp]: "ksorted (upd_entry k v es) \<longleftrightarrow> ksorted es"
  by (simp add: ksorted_def)

lemma map_of_upd_apply:
  "map_of (upd_entry k v es) x = (if x = k \<and> map_of es k \<noteq> None then Some v else map_of es x)"
  by (induction es) (auto simp: upd_entry_def)

lemma map_of_upd: "k \<in> fst ` set es \<Longrightarrow> map_of (upd_entry k v es) = (map_of es)(k \<mapsto> v)"
  by (simp add: fun_eq_iff map_of_upd_apply map_of_eq_None_iff)

text \<open>The entries a range visit selects.\<close>

definition in_range :: "'k::linorder \<Rightarrow> 'k \<Rightarrow> 'k \<times> 'v \<Rightarrow> bool" where
  "in_range lo hi e \<longleftrightarrow> lo \<le> fst e \<and> fst e \<le> hi"

lemma in_range_iff [simp]: "in_range lo hi (k, v) \<longleftrightarrow> lo \<le> k \<and> k \<le> hi"
  by (simp add: in_range_def)

lemma filter_below: "all_less es lo \<Longrightarrow> filter (in_range lo hi) es = []"
  by (induction es) (auto simp: in_range_def)

lemma filter_above: "all_greater es k \<Longrightarrow> hi < k \<Longrightarrow> filter (in_range lo hi) es = []"
  by (induction es) (auto simp: in_range_def)

end
