(* ===== verification/BTree_Inv.thy ===== *)
theory BTree_Inv
  imports BTree Sorted_Entries
begin

text \<open>
  The invariant of the B-tree and its abstraction. \<open>shape t h n\<close> says that every leaf below
  \<open>n\<close> sits at depth \<open>h\<close>, that key, value and child counts fit together and that every node
  but \<open>n\<close> itself holds between \<open>t - 1\<close> and \<open>2 t - 1\<close> keys. \<open>inorder n\<close> is the list of
  entries, the abstraction against which every operation is specified. The restructuring
  steps (split, borrow, merge) keep the entries and repair the shape.
\<close>

section \<open>Entries in order\<close>

text \<open>Interleave subtrees and separators, as a node stores them.\<close>

fun weave :: "'e list list \<Rightarrow> 'e list \<Rightarrow> 'e list" where
  "weave [] es = es"
| "weave (x # xs) [] = x @ weave xs []"
| "weave (x # xs) (e # es) = x @ e # weave xs es"

lemma weave_append: "length xs = length es \<Longrightarrow> weave (xs @ ys) (es @ fs) = weave xs es @ weave ys fs"
  by (induction xs es rule: list_induct2) simp_all

lemma weave_separator:
  "length xs = Suc (length es) \<Longrightarrow> weave (xs @ ys) (es @ f # fs) = weave xs es @ f # weave ys fs"
proof (induction xs arbitrary: es)
  case (Cons x xs)
  show ?case
  proof (cases es)
    case Nil
    with Cons.prems show ?thesis by simp
  next
    case (Cons e es')
    with Cons.prems Cons.IH [of es'] show ?thesis by simp
  qed
qed simp

lemma weave_Cons: "weave (x # xs) es = x @ weave ([] # xs) es"
  by (cases es) simp_all

fun inorder :: "('k, 'v) node \<Rightarrow> ('k \<times> 'v) list" where
  "inorder (Node ks vs cs) = weave (map inorder cs) (zip ks vs)"

text \<open>The entries to the left and to the right of a child.\<close>

definition before :: "'k list \<Rightarrow> 'v list \<Rightarrow> ('k, 'v) node list \<Rightarrow> ('k \<times> 'v) list" where
  "before ks vs cs = weave (map inorder cs) (zip ks vs)"

definition after :: "'k list \<Rightarrow> 'v list \<Rightarrow> ('k, 'v) node list \<Rightarrow> ('k \<times> 'v) list" where
  "after ks vs cs = weave ([] # map inorder cs) (zip ks vs)"

lemma before_Nil [simp]: "before [] [] [] = []"
  by (simp add: before_def)

lemma after_Nil [simp]: "after [] [] [] = []"
  by (simp add: after_def)

lemma after_Cons [simp]: "after (k # ks) (v # vs) (c # cs) = (k, v) # inorder c @ after ks vs cs"
  by (simp add: after_def weave_Cons [of "inorder c"])

lemma before_snoc:
  "length ks = length cs \<Longrightarrow> length vs = length cs \<Longrightarrow>
     before (ks @ [k]) (vs @ [v]) (cs @ [c]) = before ks vs cs @ inorder c @ [(k, v)]"
  by (simp add: before_def weave_append)

lemma before_snoc2:
  "length ks = length cs \<Longrightarrow> length vs = length cs \<Longrightarrow> ks' = ks @ [k] \<Longrightarrow> vs' = vs @ [v] \<Longrightarrow>
     cs' = cs @ [c] \<Longrightarrow> before ks' vs' cs' = before ks vs cs @ inorder c @ [(k, v)]"
  by (simp add: before_snoc)

text \<open>The entries of a node, seen from one of its children.\<close>

lemma inorder_at_child:
  "length k1 = length c1 \<Longrightarrow> length v1 = length c1 \<Longrightarrow>
     inorder (Node (k1 @ k2) (v1 @ v2) (c1 @ c # c2)) = before k1 v1 c1 @ inorder c @ after k2 v2 c2"
  by (simp add: before_def after_def weave_append weave_Cons [of "inorder c"])

lemma inorder_leaf [simp]: "inorder (Node ks vs []) = zip ks vs"
  by simp

declare inorder.simps [simp del]

section \<open>Shape\<close>

fun shape :: "nat \<Rightarrow> nat \<Rightarrow> ('k, 'v) node \<Rightarrow> bool" where
  "shape t 0 (Node ks vs cs) \<longleftrightarrow> cs = [] \<and> length vs = length ks \<and> length ks \<le> 2 * t - 1"
| "shape t (Suc h) (Node ks vs cs) \<longleftrightarrow>
     length cs = length ks + 1 \<and> length vs = length ks \<and> length ks \<le> 2 * t - 1 \<and>
     (\<forall>c \<in> set cs. shape t h c \<and> t - 1 \<le> length (keys c))"

lemma shape_lengths:
  "shape t h n \<Longrightarrow> length (vals n) = length (keys n) \<and> length (keys n) \<le> 2 * t - 1"
  by (cases n; cases h) auto

lemma shape_isLeaf: "shape t h n \<Longrightarrow> isLeaf n \<longleftrightarrow> h = 0"
  by (cases n; cases h) (auto simp: isLeaf_def)

lemma shape_0_inorder: "shape t 0 n \<Longrightarrow> inorder n = zip (keys n) (vals n)"
  by (cases n) simp

lemma shape_children:
  "shape t (Suc h) n \<Longrightarrow> length (children n) = length (keys n) + 1 \<and>
     (\<forall>c \<in> set (children n). shape t h c \<and> t - 1 \<le> length (keys c))"
  by (cases n) simp

text \<open>Cut an internal node open at a child.\<close>

lemma shape_Suc_split:
  assumes "shape t (Suc h) n" and "i \<le> length (keys n)"
  obtains k1 k2 v1 v2 c1 c c2 where
    "n = Node (k1 @ k2) (v1 @ v2) (c1 @ c # c2)"
    "length k1 = i" "length v1 = i" "length c1 = i" "length v2 = length k2" "length c2 = length k2"
    "shape t h c" "t - 1 \<le> length (keys c)"
proof -
  obtain ks vs cs where n: "n = Node ks vs cs" by (cases n)
  with assms have l: "length cs = length ks + 1" "length vs = length ks" "i \<le> length ks"
    and sub: "\<forall>c \<in> set cs. shape t h c \<and> t - 1 \<le> length (keys c)" by auto
  then have cs: "cs = take i cs @ cs ! i # drop (Suc i) cs" by (simp add: id_take_nth_drop)
  have "cs ! i \<in> set cs" using l by simp
  with sub have c: "shape t h (cs ! i)" "t - 1 \<le> length (keys (cs ! i))" by simp_all
  show ?thesis
  proof (rule that [of "take i ks" "drop i ks" "take i vs" "drop i vs" "take i cs" "cs ! i" "drop (Suc i) cs"])
    show "n = Node (take i ks @ drop i ks) (take i vs @ drop i vs) (take i cs @ cs ! i # drop (Suc i) cs)"
      using n cs by simp
  qed (use l c in auto)
qed

text \<open>Cut an internal node open at a separator and its two neighbours.\<close>

lemma shape_Suc_split2:
  assumes "shape t (Suc h) n" and "i < length (keys n)"
  obtains k1 k k2 v1 v v2 c1 l r c2 where
    "n = Node (k1 @ k # k2) (v1 @ v # v2) (c1 @ l # r # c2)"
    "length k1 = i" "length v1 = i" "length c1 = i" "length v2 = length k2" "length c2 = length k2"
    "shape t h l" "t - 1 \<le> length (keys l)" "shape t h r" "t - 1 \<le> length (keys r)"
proof -
  from assms(2) have "i \<le> length (keys n)" by simp
  with assms(1) obtain k1 k2 v1 v2 c1 l c2 where *:
    "n = Node (k1 @ k2) (v1 @ v2) (c1 @ l # c2)"
    "length k1 = i" "length v1 = i" "length c1 = i" "length v2 = length k2" "length c2 = length k2"
    "shape t h l" "t - 1 \<le> length (keys l)"
    by (rule shape_Suc_split)
  from * assms(2) obtain k k2' where k2: "k2 = k # k2'" by (cases k2) auto
  with * obtain v v2' where v2: "v2 = v # v2'" by (cases v2) auto
  from * k2 obtain r c2' where c2: "c2 = r # c2'" by (cases c2) auto
  have "shape t h r" "t - 1 \<le> length (keys r)" using assms(1) * c2 by auto
  with * k2 v2 c2 show ?thesis by (intro that [of k1 k k2' v1 v v2' c1 l r c2']) simp_all
qed

section \<open>The invariant of the tree\<close>

text \<open>The entries of the whole tree, and what holds of it between operations.\<close>

definition entries :: "('k, 'v) btree \<Rightarrow> ('k \<times> 'v) list" where
  "entries bt = (case root bt of None \<Rightarrow> [] | Some r \<Rightarrow> inorder r)"

definition btree_inv :: "('k::linorder, 'v) btree \<Rightarrow> bool" where
  "btree_inv bt \<longleftrightarrow> 2 \<le> min_degree bt \<and> ksorted (entries bt) \<and>
     btree_size bt = length (entries bt) \<and>
     (case root bt of None \<Rightarrow> True | Some r \<Rightarrow> keys r \<noteq> [] \<and> (\<exists>h. shape (min_degree bt) h r))"

lemma new_btree_inv: "new_btree d = Inr bt \<Longrightarrow> btree_inv bt \<and> entries bt = [] \<and> root bt = None"
  by (auto simp: new_btree_def btree_inv_def entries_def split: if_splits)

lemma btree_inv_ksorted: "btree_inv bt \<Longrightarrow> ksorted (entries bt)"
  by (simp add: btree_inv_def)

end
