(* ===== verification/BTree_Insert.thy ===== *)
theory BTree_Insert
  imports BTree_Inv
begin

text \<open>
  Correctness of descent and insertion: the lower bound leads to the only child that can hold
  a key, splitting a full child keeps the entries and leaves two minimal halves, and
  \<open>insertNonFull\<close> inserts into the sorted entries while keeping the shape.
\<close>

section \<open>Descent\<close>

lemma takeWhile_length_split:
  assumes "length (takeWhile P (xs @ ys)) = length xs"
  shows "\<forall>x \<in> set xs. P x" and "ys \<noteq> [] \<Longrightarrow> \<not> P (hd ys)"
proof -
  have "takeWhile P (xs @ ys) = xs"
    using assms takeWhile_eq_take [of P "xs @ ys"] by simp
  then show *: "\<forall>x \<in> set xs. P x" by (metis set_takeWhileD)
  show "\<not> P (hd ys)" if "ys \<noteq> []"
  proof
    assume "P (hd ys)"
    with that * have "length xs < length (takeWhile P (xs @ ys))" by (cases ys) auto
    with assms show False by simp
  qed
qed

lemma lowerBound_split:
  assumes "length k1 = lowerBound (Node (k1 @ k2) vs cs) key"
  shows "\<forall>x \<in> set k1. x < key" and "k2 \<noteq> [] \<Longrightarrow> key \<le> hd k2"
proof -
  have l: "length (takeWhile (\<lambda>x. x < key) (k1 @ k2)) = length k1"
    using assms [symmetric] unfolding lowerBound_def node.sel .
  show "\<forall>x \<in> set k1. x < key" using takeWhile_length_split(1) [OF l] .
  show "key \<le> hd k2" if "k2 \<noteq> []" using takeWhile_length_split(2) [OF l that] by simp
qed

lemma key_at_split: "length k1 = i \<Longrightarrow> key_at (Node (k1 @ k2) vs cs) i key \<longleftrightarrow> k2 \<noteq> [] \<and> hd k2 = key"
  by (cases k2) (auto simp: key_at_def nth_append)

lemma lowerBound_le: "lowerBound n key \<le> length (keys n)"
  by (simp add: lowerBound_def length_takeWhile_le)

lemma before_all_less:
  assumes "ksorted (before k1 v1 c1)" and "length k1 = length c1" "length v1 = length c1"
    and "\<forall>x \<in> set k1. x < key"
  shows "all_less (before k1 v1 c1) key"
proof (cases c1 rule: rev_cases)
  case Nil
  with assms show ?thesis by simp
next
  case (snoc c' c)
  with assms obtain ks k where k: "k1 = ks @ [k]" by (cases k1 rule: rev_cases) auto
  from snoc assms obtain vs v where v: "v1 = vs @ [v]" by (cases v1 rule: rev_cases) auto
  have b: "before k1 v1 c1 = (before ks vs c' @ inorder c) @ [(k, v)]"
    using assms snoc k v by (simp add: before_snoc)
  have "k < key" using assms(4) k by simp
  moreover have "all_less (before ks vs c' @ inorder c) k"
    using assms(1) unfolding b ksorted_append all_less_def by simp
  ultimately show ?thesis unfolding b by (auto simp: all_less_def intro: less_trans)
qed

lemma after_all_greater:
  assumes "ksorted (after k2 v2 c2)" and "length v2 = length k2" "length c2 = length k2"
    and "k2 \<noteq> [] \<Longrightarrow> key < hd k2"
  shows "all_greater (after k2 v2 c2) key"
proof (cases k2)
  case Nil
  with assms show ?thesis by simp
next
  case (Cons k ks)
  with assms obtain v vs c cs where vc: "v2 = v # vs" "c2 = c # cs"
    by (cases v2; cases c2) auto
  have "key < k" using assms(4) Cons by simp
  with assms(1) show ?thesis unfolding Cons vc by (auto simp: ksorted_Cons all_greater_def intro: less_trans)
qed

text \<open>Where a key can be: in the child the lower bound selects, or at the separator there.\<close>

lemma descend:
  assumes sh: "shape t (Suc h) n" and so: "ksorted (inorder n)"
  obtains k1 k2 v1 v2 c1 c c2 where
    "n = Node (k1 @ k2) (v1 @ v2) (c1 @ c # c2)"
    "length k1 = lowerBound n key" "length v1 = lowerBound n key" "length c1 = lowerBound n key"
    "length v2 = length k2" "length c2 = length k2"
    "shape t h c" "t - 1 \<le> length (keys c)"
    "inorder n = before k1 v1 c1 @ inorder c @ after k2 v2 c2"
    "all_less (before k1 v1 c1) key"
    "\<not> key_at n (lowerBound n key) key \<longrightarrow> all_greater (after k2 v2 c2) key"
    "key_at n (lowerBound n key) key \<longleftrightarrow> k2 \<noteq> [] \<and> hd k2 = key"
    "\<forall>x \<in> set k1. x < key" "k2 \<noteq> [] \<longrightarrow> key \<le> hd k2"
    "ksorted (inorder c)"
proof -
  obtain k1 k2 v1 v2 c1 c c2 where n: "n = Node (k1 @ k2) (v1 @ v2) (c1 @ c # c2)"
    and l: "length k1 = lowerBound n key" "length v1 = lowerBound n key" "length c1 = lowerBound n key"
      "length v2 = length k2" "length c2 = length k2"
    and c: "shape t h c" "t - 1 \<le> length (keys c)"
    using shape_Suc_split [OF sh lowerBound_le] by blast
  have io: "inorder n = before k1 v1 c1 @ inorder c @ after k2 v2 c2"
    unfolding n using l by (intro inorder_at_child) simp_all
  have s: "ksorted (before k1 v1 c1)" "ksorted (inorder c)" "ksorted (after k2 v2 c2)"
    using so unfolding io by (simp_all add: ksorted_append)
  have lb: "\<forall>x \<in> set k1. x < key" "k2 \<noteq> [] \<longrightarrow> key \<le> hd k2"
    using lowerBound_split l(1) unfolding n by blast+
  have ka: "key_at n (lowerBound n key) key \<longleftrightarrow> k2 \<noteq> [] \<and> hd k2 = key"
    using key_at_split [of k1 "lowerBound n key" k2 "v1 @ v2" "c1 @ c # c2" key] l(1) unfolding n by simp
  have bl: "all_less (before k1 v1 c1) key"
    by (rule before_all_less [OF s(1)]) (use l lb in simp_all)
  have ag: "\<not> key_at n (lowerBound n key) key \<longrightarrow> all_greater (after k2 v2 c2) key"
    by (rule impI, rule after_all_greater [OF s(3)]) (use l lb ka in \<open>auto simp: le_less\<close>)
  show ?thesis by (rule that [OF n l c io bl ag ka lb s(2)])
qed

text \<open>The same on a leaf.\<close>

lemma descend_leaf:
  assumes sh: "shape t 0 n" and so: "ksorted (inorder n)"
  obtains k1 k2 v1 v2 where
    "n = Node (k1 @ k2) (v1 @ v2) []"
    "length k1 = lowerBound n key" "length v1 = lowerBound n key" "length v2 = length k2"
    "inorder n = zip k1 v1 @ zip k2 v2"
    "all_less (zip k1 v1) key"
    "\<not> key_at n (lowerBound n key) key \<longrightarrow> all_greater (zip k2 v2) key"
    "key_at n (lowerBound n key) key \<longleftrightarrow> k2 \<noteq> [] \<and> hd k2 = key"
proof -
  obtain ks vs where n: "n = Node ks vs []" and l: "length vs = length ks"
    using sh by (cases n) auto
  let ?i = "lowerBound n key"
  have i: "?i \<le> length ks" using lowerBound_le [of n key] by (simp add: n)
  define k1 k2 v1 v2 where kv: "k1 = take ?i ks" "k2 = drop ?i ks" "v1 = take ?i vs" "v2 = drop ?i vs"
  have n': "n = Node (k1 @ k2) (v1 @ v2) []" by (simp add: kv n)
  have l': "length k1 = ?i" "length v1 = ?i" "length v2 = length k2" using i l by (simp_all add: kv)
  have io: "inorder n = zip k1 v1 @ zip k2 v2" using l' by (simp add: n')
  have lb: "\<forall>x \<in> set k1. x < key" "k2 \<noteq> [] \<longrightarrow> key \<le> hd k2"
    using lowerBound_split l'(1) unfolding n' by blast+
  have ka: "key_at n ?i key \<longleftrightarrow> k2 \<noteq> [] \<and> hd k2 = key"
    using key_at_split [of k1 ?i k2 "v1 @ v2" "[]" key] l'(1) unfolding n' by simp
  have bl: "all_less (zip k1 v1) key" using lb(1) by (auto simp: all_less_def dest: set_zip_leftD)
  have ag: "\<not> key_at n ?i key \<longrightarrow> all_greater (zip k2 v2) key"
  proof (cases k2)
    case (Cons k ks')
    with l' obtain v vs' where v: "v2 = v # vs'" by (cases v2) auto
    have "ksorted (zip k2 v2)" using so unfolding io by (simp add: ksorted_append)
    moreover have "\<not> key_at n ?i key \<longrightarrow> key < k" using lb(2) ka Cons by (auto simp: le_less)
    ultimately show ?thesis by (auto simp: Cons v ksorted_Cons all_greater_def intro: less_trans)
  qed simp
  show ?thesis by (rule that [OF n' l' io bl ag ka])
qed

section \<open>Splitting\<close>

lemma split_at_length:
  assumes "length xs = Suc (2 * m)"
  obtains ys x zs where "xs = ys @ x # zs" "length ys = m" "length zs = m"
proof (rule that)
  show "xs = take m xs @ xs ! m # drop (Suc m) xs" by (rule id_take_nth_drop) (use assms in simp)
qed (use assms in simp_all)

lemma half_shapes:
  assumes t: "2 \<le> t" and c: "c = Node (kl @ k # kr) (vl @ v # vr) cs" "shape t h c"
    and l: "length kl = t - 1" "length kr = t - 1" "length vl = t - 1"
  shows "shape t h (left_half (t - 1) c)" "shape t h (right_half (t - 1) c)"
    "keys (left_half (t - 1) c) = kl" "keys (right_half (t - 1) c) = kr"
    "inorder c = inorder (left_half (t - 1) c) @ (k, v) # inorder (right_half (t - 1) c)"
proof -
  have vr: "length vr = t - 1" using shape_lengths [OF c(2)] l unfolding c(1) by simp
  show "keys (left_half (t - 1) c) = kl" "keys (right_half (t - 1) c) = kr"
    using l by (simp_all add: left_half_def right_half_def c)
  have *: "shape t h (left_half (t - 1) c) \<and> shape t h (right_half (t - 1) c) \<and>
    inorder c = inorder (left_half (t - 1) c) @ (k, v) # inorder (right_half (t - 1) c)"
  proof (cases h)
    case 0
    with c l vr show ?thesis by (simp add: left_half_def right_half_def isLeaf_def)
  next
    case (Suc g)
    define cl cr where clr: "cl = take t cs" "cr = drop t cs"
    have cs: "cs = cl @ cr" by (simp add: clr)
    have lcs: "length cs = 2 * t" using c l t Suc by simp
    have "length cl = t" using lcs t by (simp add: clr)
    then have e: "left_half (t - 1) c = Node kl vl cl" "right_half (t - 1) c = Node kr vr cr"
      using t l lcs by (auto simp: left_half_def right_half_def isLeaf_def c(1) cs)
    have "inorder c = weave (map inorder cl @ map inorder cr) (zip kl vl @ (k, v) # zip kr vr)"
      using l by (simp add: c(1) cs inorder.simps)
    also have "\<dots> = inorder (Node kl vl cl) @ (k, v) # inorder (Node kr vr cr)"
      by (subst weave_separator) (use l t \<open>length cl = t\<close> in \<open>simp_all add: inorder.simps\<close>)
    finally show ?thesis
      using c(2) l t vr lcs \<open>length cl = t\<close> unfolding e by (simp add: Suc c(1) cs)
  qed
  then show "shape t h (left_half (t - 1) c)" "shape t h (right_half (t - 1) c)"
    "inorder c = inorder (left_half (t - 1) c) @ (k, v) # inorder (right_half (t - 1) c)" by simp_all
qed

lemma splitChild_correct:
  assumes t: "2 \<le> t" and c: "shape t h c" "isFull t c"
    and i: "length k1 = i" "length v1 = i" "length c1 = i"
    and p: "p = Node (k1 @ k2) (v1 @ v2) (c1 @ c # c2)"
  obtains l m mv r where
    "splitChild t p i = Inr (Node (k1 @ m # k2) (v1 @ mv # v2) (c1 @ l # r # c2))"
    "shape t h l" "shape t h r" "length (keys l) = t - 1" "length (keys r) = t - 1"
    "inorder c = inorder l @ (m, mv) # inorder r"
proof -
  obtain ks vs cs where cc: "c = Node ks vs cs" by (cases c)
  have len: "length ks = Suc (2 * (t - 1))" "length vs = Suc (2 * (t - 1))"
    using c t shape_lengths [OF c(1)] by (auto simp: cc isFull_def)
  obtain kl k kr where ks: "ks = kl @ k # kr" "length kl = t - 1" "length kr = t - 1"
    using len(1) by (rule split_at_length)
  obtain vl v vr where vs: "vs = vl @ v # vr" "length vl = t - 1" "length vr = t - 1"
    using len(2) by (rule split_at_length)
  note hs = half_shapes [OF t cc [unfolded ks(1) vs(1)] c(1) ks(2,3) vs(2)]
  have kids: "isLeaf c \<or> t - 1 + 1 \<le> length cs"
    using c(1) len(1) t by (cases h) (auto simp: cc isLeaf_def)
  have "splitChild t p i = Inr (Node (k1 @ k # k2) (v1 @ v # v2)
      (c1 @ left_half (t - 1) c # right_half (t - 1) c # c2))"
  proof -
    have pc: "vec_at (children p) i = Inr c" using i by (simp add: p vec_simps)
    have "keys c ! (t - 1) = k" "vals c ! (t - 1) = v" "t - 1 < length (keys c)" "t - 1 < length (vals c)"
      using ks vs by (simp_all add: cc vec_simps)
    moreover have "i \<le> length (keys p)" "i \<le> length (vals p)" "isLeaf c \<or> t - 1 + 1 \<le> length (children c)"
      using i kids by (simp_all add: p cc)
    ultimately show ?thesis
      unfolding splitChild_def pc bind_result_Inr Let_def by (simp add: p i vec_simps)
  qed
  from this hs(1,2) _ _ hs(5) show ?thesis by (rule that) (use hs(3,4) ks in simp_all)
qed

section \<open>Insertion below a node that is not full\<close>

lemma shape_replace_child:
  "shape t (Suc h) (Node ks vs (c1 @ c # c2)) \<Longrightarrow> shape t h c' \<Longrightarrow> t - 1 \<le> length (keys c') \<Longrightarrow>
     shape t (Suc h) (Node ks vs (c1 @ c' # c2))"
  by simp

lemma set_child_at:
  "length c1 = i \<Longrightarrow> set_child (Node ks vs (c1 @ c # c2)) i c' = Node ks vs (c1 @ c' # c2)"
  by (simp add: set_child_def vec_simps)

lemma set_child_at_Suc:
  "length c1 = i \<Longrightarrow> set_child (Node ks vs (c1 @ l # r # c2)) (Suc i) r' = Node ks vs (c1 @ l # r' # c2)"
  by (simp add: set_child_def vec_simps)

lemma ins_spec_leaf:
  assumes "shape t 0 n" and "ksorted (inorder n)" and "\<not> isFull t n" and "1 \<le> t"
  shows "\<exists>b n'. insertNonFull t n key v = Inr (b, n') \<and> shape t 0 n' \<and>
    length (keys n) \<le> length (keys n') \<and> ins_spec key v (inorder n) b (inorder n')"
proof -
  obtain k1 k2 v1 v2 where n: "n = Node (k1 @ k2) (v1 @ v2) []"
    and l: "length k1 = lowerBound n key" "length v1 = lowerBound n key" "length v2 = length k2"
    and io: "inorder n = zip k1 v1 @ zip k2 v2" and less: "all_less (zip k1 v1) key"
    and gr: "\<not> key_at n (lowerBound n key) key \<longrightarrow> all_greater (zip k2 v2) key"
    and ka: "key_at n (lowerBound n key) key \<longleftrightarrow> k2 \<noteq> [] \<and> hd k2 = key"
    using assms(1,2) by (rule descend_leaf)
  show ?thesis
  proof (cases "key_at n (lowerBound n key) key")
    case True
    then have "insertNonFull t n key v = Inr (False, n)"
      by (subst insertNonFull.simps) (simp add: Let_def)
    moreover have "key \<in> fst ` set (inorder n)"
      using True ka l(3) by (cases k2; cases v2) (auto simp: io)
    ultimately show ?thesis using assms(1) by (auto intro: ins_spec_present)
  next
    case False
    then have "insertNonFull t n key v = Inr (True, Node (k1 @ key # k2) (v1 @ v # v2) [])"
      using l by (subst insertNonFull.simps) (simp add: Let_def isLeaf_def n vec_simps)
    moreover have "ins_spec key v (inorder n) True (inorder (Node (k1 @ key # k2) (v1 @ v # v2) []))"
      using less gr False l not_in_all_less [OF less] not_in_all_greater [of "zip k2 v2" key]
      by (auto simp: ins_spec_def io ins_entry_here image_Un)
    moreover have "shape t 0 (Node (k1 @ key # k2) (v1 @ v # v2) [])"
      using assms(1,3,4) l by (auto simp: n isFull_def)
    ultimately show ?thesis by (auto simp: n)
  qed
qed

text \<open>The branches of \<open>insertNonFull\<close> on an internal node, one at a time.\<close>

lemma insertNonFull_found: "key_at n (lowerBound n key) key \<Longrightarrow> insertNonFull t n key v = Inr (False, n)"
  by (subst insertNonFull.simps) (simp add: Let_def)

lemma insertNonFull_down:
  assumes "\<not> key_at n (lowerBound n key) key" and "\<not> isLeaf n"
    and "vec_at (children n) (lowerBound n key) = Inr c" and "\<not> isFull t c"
  shows "insertNonFull t n key v =
    bind_result (insertNonFull t c key v) (\<lambda>(b, c'). Inr (b, set_child n (lowerBound n key) c'))"
  using assms by (subst insertNonFull.simps) (simp add: Let_def)

lemma insertNonFull_split:
  assumes "\<not> key_at n (lowerBound n key) key" and "\<not> isLeaf n"
    and "vec_at (children n) (lowerBound n key) = Inr c" and "isFull t c"
    and "splitChild t n (lowerBound n key) = Inr n'" and "vec_at (keys n') (lowerBound n key) = Inr m"
  shows "insertNonFull t n key v =
    (if m = key then Inr (False, n')
     else let j = (if m < key then lowerBound n key + 1 else lowerBound n key) in
       bind_result (vec_at (children n') j) (\<lambda>c. bind_result (insertNonFull t c key v)
         (\<lambda>(b, c'). Inr (b, set_child n' j c'))))"
  using assms by (subst insertNonFull.simps) (simp add: Let_def)

text \<open>
  Descending into a full child: the child is split first, and the key then goes to the half
  its comparison with the median selects. The induction hypothesis is the premise \<open>IH\<close>.
\<close>

lemma insertNonFull_split_correct:
  assumes t: "2 \<le> t" and i: "i = lowerBound n key"
    and n: "n = Node (k1 @ k2) (v1 @ v2) (c1 @ c # c2)"
    and l: "length k1 = i" "length v1 = i" "length c1 = i"
    and sh: "shape t (Suc h) n" and few: "length (k1 @ k2) < 2 * t - 1"
    and c: "shape t h c" "isFull t c" and cs: "ksorted (inorder c)"
    and less: "all_less (before k1 v1 c1) key" and gr: "all_greater (after k2 v2 c2) key"
    and nk: "\<not> key_at n i key"
    and IH: "\<And>c. shape t h c \<Longrightarrow> \<not> isFull t c \<Longrightarrow> ksorted (inorder c) \<Longrightarrow>
      \<exists>b c'. insertNonFull t c key v = Inr (b, c') \<and> shape t h c' \<and>
        length (keys c) \<le> length (keys c') \<and> ins_spec key v (inorder c) b (inorder c')"
  shows "\<exists>b n'. insertNonFull t n key v = Inr (b, n') \<and> shape t (Suc h) n' \<and>
    length (keys n) \<le> length (keys n') \<and> ins_spec key v (inorder n) b (inorder n')"
proof -
  obtain l' m mv r where sp: "splitChild t n i = Inr (Node (k1 @ m # k2) (v1 @ mv # v2) (c1 @ l' # r # c2))"
    and lr: "shape t h l'" "shape t h r" "length (keys l') = t - 1" "length (keys r) = t - 1"
    and ic: "inorder c = inorder l' @ (m, mv) # inorder r"
    by (rule splitChild_correct [OF t c l n])
  let ?p = "\<lambda>x y. Node (k1 @ m # k2) (v1 @ mv # v2) (c1 @ x # y # c2)"
  have ip: "inorder (?p x y) = before k1 v1 c1 @ inorder x @ (m, mv) # inorder y @ after k2 v2 c2" for x y
    using l inorder_at_child [of k1 c1 v1 "m # k2" "mv # v2" x "y # c2"] by simp
  have io: "inorder n = inorder (?p l' r)"
    unfolding ip n using l inorder_at_child [of k1 c1 v1 k2 v2 c c2] by (simp add: ic)
  have shp: "shape t (Suc h) (?p x y) \<and> length (keys n) \<le> length (keys (?p x y))"
    if "shape t h x" "shape t h y" "t - 1 \<le> length (keys x)" "t - 1 \<le> length (keys y)" for x y
    using sh few that unfolding n by auto
  have nf: "\<not> isFull t l'" "\<not> isFull t r" using lr t by (auto simp: isFull_def)
  have srt: "ksorted (inorder l')" "ksorted (inorder r)" "all_less (inorder l') m" "all_greater (inorder r) m"
    using cs unfolding ic by (auto simp: ksorted_append ksorted_Cons all_less_def all_greater_def)
  have "vec_at (children n) i = Inr c" "\<not> isLeaf n" using l by (simp_all add: n isLeaf_def vec_simps)
  from insertNonFull_split [OF nk [unfolded i] this(2) this(1) [unfolded i] c(2) sp [unfolded i]]
  have step: "insertNonFull t n key v =
      (if m = key then Inr (False, ?p l' r)
       else let j = (if m < key then i + 1 else i) in
         bind_result (vec_at (children (?p l' r)) j) (\<lambda>c. bind_result (insertNonFull t c key v)
           (\<lambda>(b, c'). Inr (b, set_child (?p l' r) j c'))))"
    using l unfolding i by (simp add: vec_simps)
  consider "m = key" | "m < key" | "key < m" by force
  then show ?thesis
  proof cases
    case 1
    have "key \<in> fst ` set (inorder n)" unfolding io ip by (simp add: 1 image_Un)
    with 1 shp [of l' r] lr show ?thesis
      by (intro exI [of _ False] exI [of _ "?p l' r"]) (simp add: step io ins_spec_present)
  next
    case 2
    obtain b r' where r': "insertNonFull t r key v = Inr (b, r')" "shape t h r'"
      "length (keys r) \<le> length (keys r')" "ins_spec key v (inorder r) b (inorder r')"
      using IH [OF lr(2) nf(2) srt(2)] by blast
    have "insertNonFull t n key v = Inr (b, ?p l' r')"
      using 2 r'(1) l by (auto simp: step vec_simps set_child_at_Suc)
    moreover have "all_less (before k1 v1 c1 @ inorder l' @ [(m, mv)]) key"
      using less srt(3) 2 by (auto simp: all_less_def)
    from ins_spec_between [OF r'(4) this gr]
    have "ins_spec key v (inorder n) b (inorder (?p l' r'))" unfolding io ip by simp
    ultimately show ?thesis using shp [of l' r'] lr r' by auto
  next
    case 3
    obtain b l'' where l'': "insertNonFull t l' key v = Inr (b, l'')" "shape t h l''"
      "length (keys l') \<le> length (keys l'')" "ins_spec key v (inorder l') b (inorder l'')"
      using IH [OF lr(1) nf(1) srt(1)] by blast
    have "insertNonFull t n key v = Inr (b, ?p l'' r)"
      using 3 l''(1) l by (auto simp: step vec_simps set_child_at)
    moreover have "all_greater ((m, mv) # inorder r @ after k2 v2 c2) key"
      using gr srt(4) 3 by (auto simp: all_greater_def)
    from ins_spec_between [OF l''(4) less this]
    have "ins_spec key v (inorder n) b (inorder (?p l'' r))" unfolding io ip by simp
    ultimately show ?thesis using shp [of l'' r] lr l'' by auto
  qed
qed

theorem insertNonFull_correct:
  assumes "2 \<le> t" and "shape t h n" and "\<not> isFull t n" and "ksorted (inorder n)"
  shows "\<exists>b n'. insertNonFull t n key v = Inr (b, n') \<and> shape t h n' \<and>
    length (keys n) \<le> length (keys n') \<and> ins_spec key v (inorder n) b (inorder n')"
  using assms
proof (induction h arbitrary: n)
  case 0
  then show ?case by (intro ins_spec_leaf) simp_all
next
  case (Suc h)
  let ?i = "lowerBound n key"
  obtain k1 k2 v1 v2 c1 c c2 where n: "n = Node (k1 @ k2) (v1 @ v2) (c1 @ c # c2)"
    and l: "length k1 = ?i" "length v1 = ?i" "length c1 = ?i" "length v2 = length k2" "length c2 = length k2"
    and c: "shape t h c" "t - 1 \<le> length (keys c)"
    and io: "inorder n = before k1 v1 c1 @ inorder c @ after k2 v2 c2"
    and less: "all_less (before k1 v1 c1) key"
    and gr: "\<not> key_at n ?i key \<longrightarrow> all_greater (after k2 v2 c2) key"
    and ka: "key_at n ?i key \<longleftrightarrow> k2 \<noteq> [] \<and> hd k2 = key"
    and cs: "ksorted (inorder c)"
    using Suc.prems(2,4) by (rule descend)
  have nl: "\<not> isLeaf n" by (simp add: n isLeaf_def)
  have at: "vec_at (children n) ?i = Inr c" using l(3) unfolding n by (simp add: vec_simps)
  have few: "length (k1 @ k2) < 2 * t - 1"
    using Suc.prems(3) shape_lengths [OF Suc.prems(2)] by (auto simp: n isFull_def)
  show ?case
  proof (cases "key_at n ?i key")
    case True
    moreover have "key \<in> fst ` set (inorder n)"
      using True ka l(4,5) unfolding io by (cases k2; cases v2; cases c2) auto
    ultimately show ?thesis
      using Suc.prems(2) by (auto simp: insertNonFull_found intro: ins_spec_present)
  next
    case nk: False
    with gr have gr: "all_greater (after k2 v2 c2) key" by simp
    show ?thesis
    proof (cases "isFull t c")
      case False
      obtain b c' where c': "insertNonFull t c key v = Inr (b, c')" "shape t h c'"
        "length (keys c) \<le> length (keys c')" "ins_spec key v (inorder c) b (inorder c')"
        using Suc.IH [OF Suc.prems(1) c(1) False cs] by blast
      let ?n' = "Node (k1 @ k2) (v1 @ v2) (c1 @ c' # c2)"
      have "insertNonFull t n key v = Inr (b, set_child n ?i c')"
        by (simp add: insertNonFull_down [OF nk nl at False] c'(1))
      also have "set_child n ?i c' = ?n'" using l(3) by (subst n) (rule set_child_at)
      finally have "insertNonFull t n key v = Inr (b, ?n')" .
      moreover have "shape t (Suc h) ?n'"
        by (rule shape_replace_child [OF Suc.prems(2) [unfolded n] c'(2)]) (use c' c(2) in simp)
      moreover have "inorder ?n' = before k1 v1 c1 @ inorder c' @ after k2 v2 c2"
        using l by (intro inorder_at_child) simp_all
      ultimately show ?thesis
        using ins_spec_between [OF c'(4) less gr] by (simp add: io) (simp add: n)
    next
      case True
      show ?thesis
        by (rule insertNonFull_split_correct [OF Suc.prems(1) refl n l(1-3) Suc.prems(2) few c(1) True cs less gr nk])
          (rule Suc.IH [OF Suc.prems(1)])
    qed
  qed
qed

section \<open>Insertion into the tree\<close>

text \<open>A full root gets a new parent and is split there; the tree grows one level.\<close>

lemma split_root:
  assumes t: "2 \<le> t" and r: "shape t h r" "isFull t r" 
  shows "\<exists>r'. splitChild t (Node [] [] [r]) 0 = Inr r' \<and> shape t (Suc h) r' \<and> \<not> isFull t r' \<and>
    keys r' \<noteq> [] \<and> inorder r' = inorder r"
proof -
  obtain l m mv r2 where sp: "splitChild t (Node [] [] [r]) 0 = Inr (Node [m] [mv] [l, r2])"
    and lr: "shape t h l" "shape t h r2" "length (keys l) = t - 1" "length (keys r2) = t - 1"
    and io: "inorder r = inorder l @ (m, mv) # inorder r2"
    by (rule splitChild_correct [OF t r, of "[]" 0 "[]" "[]" "Node [] [] [r]" "[]" "[]" "[]"])
      (auto intro: that)
  have "inorder (Node [m] [mv] [l, r2]) = inorder r"
    by (simp add: io inorder.simps)
  with sp lr t show ?thesis by (auto simp: isFull_def)
qed

theorem btree_insert_correct:
  assumes inv: "btree_inv bt"
  shows "\<exists>b bt'. btree_insert bt key v = Inr (b, bt') \<and> btree_inv bt' \<and>
    min_degree bt' = min_degree bt \<and> ins_spec key v (entries bt) b (entries bt')"
proof (cases "root bt")
  case None
  then show ?thesis
    using inv by (auto simp: btree_insert_def btree_inv_def entries_def ins_spec_def ksorted_Cons
        intro!: exI [of _ 0])
next
  case (Some r)
  let ?t = "min_degree bt"
  obtain h where t: "2 \<le> ?t" and h: "shape ?t h r" and so: "ksorted (inorder r)"
    and ne: "keys r \<noteq> []" and sz: "btree_size bt = length (inorder r)"
    using inv by (auto simp: btree_inv_def entries_def Some)
  obtain r1 h1 where r1: "(if isFull ?t r then splitChild ?t (Node [] [] [r]) 0 else Inr r) = Inr r1"
    "shape ?t h1 r1" "\<not> isFull ?t r1" "keys r1 \<noteq> []" "inorder r1 = inorder r"
  proof (cases "isFull ?t r")
    case True
    from split_root [OF t h this] that True show ?thesis by auto
  next
    case False
    with that [of r h] h ne show ?thesis by simp
  qed
  have "ksorted (inorder r1)" using r1(5) so by simp
  from insertNonFull_correct [OF t r1(2,3) this] obtain b r2 where
    r2: "insertNonFull ?t r1 key v = Inr (b, r2)" "shape ?t h1 r2" "length (keys r1) \<le> length (keys r2)"
      "ins_spec key v (inorder r) b (inorder r2)"
    unfolding r1(5) by blast
  let ?bt' = "bt\<lparr>root := Some r2, btree_size := (if b then btree_size bt + 1 else btree_size bt)\<rparr>"
  have "btree_insert bt key v = Inr (b, ?bt')"
    unfolding btree_insert_def Let_def Some option.case r1(1) bind_result_Inr r2(1) by simp
  moreover have "btree_inv ?bt'"
    using t r1(4) r2 sz ins_spec_ksorted [OF r2(4) so] ins_spec_length [OF r2(4)]
    by (auto simp: btree_inv_def entries_def)
  moreover have "ins_spec key v (entries bt) b (entries ?bt')"
    using r2(4) by (simp add: entries_def Some)
  ultimately show ?thesis by auto
qed

end
