(* ===== verification/BTree_Remove.thy ===== *)
theory BTree_Remove
  imports BTree_Insert
begin

text \<open>
  Correctness of removal. Borrowing and merging move entries across a separator without
  changing the entries of the parent; \<open>fillChild\<close> therefore hands over a child with at least
  \<open>t\<close> keys that covers the entries of the one it filled. On top of that, \<open>takeMax\<close>, \<open>takeMin\<close>
  and \<open>removeFrom\<close> remove exactly one entry.
\<close>

section \<open>Rotation and merging\<close>

lemma rotate_right:
  assumes "shape t h l" and "shape t h c" and "keys l \<noteq> []" and "length (keys c) < 2 * t - 1"
  shows "shape t h (drop_back l)" "shape t h (give_front s sv l c)"
    "length (keys (drop_back l)) = length (keys l) - 1" "length (keys (give_front s sv l c)) = Suc (length (keys c))"
    "\<exists>X. inorder l = inorder (drop_back l) @ (last (keys l), last (vals l)) # X \<and>
       inorder (give_front s sv l c) = X @ (s, sv) # inorder c"
proof -
  obtain ks k vs v where l: "keys l = ks @ [k]" "vals l = vs @ [v]" "length vs = length ks"
    using assms(3) shape_lengths [OF assms(1)]
    by (cases "keys l" rule: rev_cases; cases "vals l" rule: rev_cases) auto
  show "length (keys (drop_back l)) = length (keys l) - 1" "length (keys (give_front s sv l c)) = Suc (length (keys c))"
    by (simp_all add: drop_back_def give_front_def)
  have "shape t h (drop_back l) \<and> shape t h (give_front s sv l c) \<and>
    (\<exists>X. inorder l = inorder (drop_back l) @ (k, v) # X \<and> inorder (give_front s sv l c) = X @ (s, sv) # inorder c)"
  proof (cases h)
    case 0
    with assms l show ?thesis
      by (cases l; cases c) (auto simp: drop_back_def give_front_def isLeaf_def)
  next
    case (Suc g)
    with assms(1) l have "length (children l) = Suc (Suc (length ks))" by (cases l) auto
    then obtain cs x where cs: "children l = cs @ [x]" "length cs = Suc (length ks)"
      by (cases "children l" rule: rev_cases) auto
    have ll: "l = Node (ks @ [k]) (vs @ [v]) (cs @ [x])" using l cs by (cases l) simp
    have il: "inorder l = inorder (Node ks vs cs) @ (k, v) # inorder x"
      unfolding ll inorder.simps using weave_separator [of "map inorder cs" "zip ks vs" "[inorder x]" "(k, v)" "[]"]
      by (simp add: l(3) cs(2))
    have ic: "inorder (Node (s # keys c) (sv # vals c) (x # children c)) = inorder x @ (s, sv) # inorder c"
      by (cases c) (simp add: inorder.simps)
    have e: "drop_back l = Node ks vs cs" "give_front s sv l c = Node (s # keys c) (sv # vals c) (x # children c)"
      by (simp_all add: drop_back_def give_front_def ll isLeaf_def)
    have "shape t h (Node ks vs cs)" using assms(1) l(3) cs(2) unfolding ll Suc by simp
    moreover have "shape t h (Node (s # keys c) (sv # vals c) (x # children c))"
      using assms(1,2,4) unfolding ll Suc by (cases c) auto
    ultimately show ?thesis unfolding e il ic by simp
  qed
  then show "shape t h (drop_back l)" "shape t h (give_front s sv l c)"
    "\<exists>X. inorder l = inorder (drop_back l) @ (last (keys l), last (vals l)) # X \<and>
       inorder (give_front s sv l c) = X @ (s, sv) # inorder c"
    by (simp_all add: l)
qed

lemma rotate_left:
  assumes "shape t h r" and "shape t h c" and "keys r \<noteq> []" and "length (keys c) < 2 * t - 1"
  shows "shape t h (drop_front r)" "shape t h (give_back s sv r c)"
    "length (keys (drop_front r)) = length (keys r) - 1" "length (keys (give_back s sv r c)) = Suc (length (keys c))"
    "\<exists>Y. inorder r = Y @ (hd (keys r), hd (vals r)) # inorder (drop_front r) \<and>
       inorder (give_back s sv r c) = inorder c @ (s, sv) # Y"
proof -
  obtain ks k vs v where r: "keys r = k # ks" "vals r = v # vs" "length vs = length ks"
    using assms(3) shape_lengths [OF assms(1)] by (cases "keys r"; cases "vals r") auto
  show "length (keys (drop_front r)) = length (keys r) - 1" "length (keys (give_back s sv r c)) = Suc (length (keys c))"
    by (simp_all add: drop_front_def give_back_def)
  have "shape t h (drop_front r) \<and> shape t h (give_back s sv r c) \<and>
    (\<exists>Y. inorder r = Y @ (k, v) # inorder (drop_front r) \<and> inorder (give_back s sv r c) = inorder c @ (s, sv) # Y)"
  proof (cases h)
    case 0
    with assms r show ?thesis
      by (cases r; cases c) (auto simp: drop_front_def give_back_def isLeaf_def)
  next
    case (Suc g)
    with assms(1) r have "length (children r) = Suc (Suc (length ks))" by (cases r) auto
    then obtain cs x where cs: "children r = x # cs" "length cs = Suc (length ks)"
      by (cases "children r") auto
    have rr: "r = Node (k # ks) (v # vs) (x # cs)" using r cs by (cases r) simp
    obtain kc vc cc where c: "c = Node kc vc cc" by (cases c)
    have lc: "length cc = Suc (length kc)" "length vc = length kc" using assms(2) by (simp_all add: c Suc)
    have ir: "inorder r = inorder x @ (k, v) # inorder (Node ks vs cs)"
      by (simp add: rr inorder.simps)
    have ic: "inorder (Node (kc @ [s]) (vc @ [sv]) (cc @ [x])) = inorder c @ (s, sv) # inorder x"
      unfolding c inorder.simps using weave_separator [of "map inorder cc" "zip kc vc" "[inorder x]" "(s, sv)" "[]"]
      by (simp add: lc)
    have e: "drop_front r = Node ks vs cs" "give_back s sv r c = Node (kc @ [s]) (vc @ [sv]) (cc @ [x])"
      by (simp_all add: drop_front_def give_back_def rr c isLeaf_def)
    have "shape t h (Node ks vs cs)" using assms(1) r(3) cs(2) unfolding rr Suc by simp
    moreover have "shape t h (Node (kc @ [s]) (vc @ [sv]) (cc @ [x]))"
      using assms(1,2,4) unfolding rr Suc c by auto
    ultimately show ?thesis unfolding e ir ic by simp
  qed
  then show "shape t h (drop_front r)" "shape t h (give_back s sv r c)"
    "\<exists>Y. inorder r = Y @ (hd (keys r), hd (vals r)) # inorder (drop_front r) \<and>
       inorder (give_back s sv r c) = inorder c @ (s, sv) # Y"
    by (simp_all add: r)
qed

lemma merged_correct:
  assumes "shape t h l" and "shape t h r" and "length (keys l) + length (keys r) + 1 \<le> 2 * t - 1"
  shows "shape t h (merged l s sv r)" "length (keys (merged l s sv r)) = length (keys l) + length (keys r) + 1"
    "inorder (merged l s sv r) = inorder l @ (s, sv) # inorder r"
proof -
  obtain kl vl cl kr vr cr where lr: "l = Node kl vl cl" "r = Node kr vr cr" by (cases l; cases r)
  show "length (keys (merged l s sv r)) = length (keys l) + length (keys r) + 1"
    by (simp add: merged_def)
  have "shape t h (merged l s sv r) \<and> inorder (merged l s sv r) = inorder l @ (s, sv) # inorder r"
  proof (cases h)
    case 0
    with assms show ?thesis by (simp add: merged_def lr isLeaf_def)
  next
    case (Suc g)
    with assms have "length cl = Suc (length kl)" "length vl = length kl" "length cr = Suc (length kr)"
      by (simp_all add: lr)
    then have "inorder (merged l s sv r) = inorder l @ (s, sv) # inorder r"
      using weave_separator [of "map inorder cl" "zip kl vl" "map inorder cr" "(s, sv)" "zip kr vr"]
      by (auto simp: merged_def lr isLeaf_def inorder.simps)
    moreover have "shape t h (merged l s sv r)"
      using assms Suc by (auto simp: merged_def lr isLeaf_def)
    ultimately show ?thesis by simp
  qed
  then show "shape t h (merged l s sv r)" "inorder (merged l s sv r) = inorder l @ (s, sv) # inorder r"
    by simp_all
qed

section \<open>Filling a child\<close>

text \<open>
  \<open>n'\<close> is the node after the child \<open>d\<close>, between the separators \<open>a1\<close> and \<open>a2\<close>, was filled:
  some child of \<open>n'\<close> has at least \<open>t\<close> keys and covers the entries of \<open>d\<close>, extended by
  entries taken from its left (\<open>X\<close>) and from its right (\<open>Y\<close>).
\<close>

definition fills ::
    "nat \<Rightarrow> nat \<Rightarrow> 'k list \<Rightarrow> 'v list \<Rightarrow> ('k, 'v) node list \<Rightarrow> ('k, 'v) node \<Rightarrow>
     'k list \<Rightarrow> 'v list \<Rightarrow> ('k, 'v) node list \<Rightarrow> ('k, 'v) node \<Rightarrow> bool" where
  "fills t h a1 b1 d1 d a2 b2 d2 n' \<longleftrightarrow>
     (\<exists>k1 k2 v1 v2 c1 c c2 X Y. n' = Node (k1 @ k2) (v1 @ v2) (c1 @ c # c2) \<and>
        length v1 = length k1 \<and> length c1 = length k1 \<and> length v2 = length k2 \<and> length c2 = length k2 \<and>
        shape t (Suc h) n' \<and> shape t h c \<and> t \<le> length (keys c) \<and>
        length (a1 @ a2) \<le> Suc (length (k1 @ k2)) \<and>
        before a1 b1 d1 = before k1 v1 c1 @ X \<and> after a2 b2 d2 = Y @ after k2 v2 c2 \<and>
        inorder c = X @ inorder d @ Y)"

lemma fillsI:
  assumes "n' = Node (k1 @ k2) (v1 @ v2) (c1 @ c # c2)"
    and "length v1 = length k1" "length c1 = length k1" "length v2 = length k2" "length c2 = length k2"
    and "shape t (Suc h) n'" "shape t h c" "t \<le> length (keys c)"
    and "length (a1 @ a2) \<le> Suc (length (k1 @ k2))"
    and "before a1 b1 d1 = before k1 v1 c1 @ X" "after a2 b2 d2 = Y @ after k2 v2 c2"
    and "inorder c = X @ inorder d @ Y"
  shows "fills t h a1 b1 d1 d a2 b2 d2 n'"
  unfolding fills_def using assms by blast

lemma borrowFromPrev_fills:
  assumes t: "2 \<le> t" and n: "n = Node (k1 @ s # k2) (v1 @ sv # v2) (c1 @ l # d # c2)"
    and len: "length k1 = j" "length v1 = j" "length c1 = j" "length v2 = length k2" "length c2 = length k2"
    and sh: "shape t (Suc h) n" and l: "t \<le> length (keys l)" and d: "length (keys d) = t - 1"
  shows "\<exists>n'. borrowFromPrev n (Suc j) = Inr n' \<and>
    fills t h (k1 @ [s]) (v1 @ [sv]) (c1 @ [l]) d k2 v2 c2 n'"
proof -
  have shl: "shape t h l" "shape t h d" using sh by (auto simp: n)
  have ne: "keys l \<noteq> []" "vals l \<noteq> []" using l t shape_lengths [OF shl(1)] by auto
  have dl: "length (keys d) < 2 * t - 1" using d t by simp
  note rl = rotate_right(1,3) [OF shl ne(1) dl] and rd = rotate_right(2,4,5) [OF shl ne(1) dl, of s sv]
  let ?m = "last (keys l)" and ?mv = "last (vals l)"
  let ?n' = "Node ((k1 @ [?m]) @ k2) ((v1 @ [?mv]) @ v2) ((c1 @ [drop_back l]) @ give_front s sv l d # c2)"
  obtain X where X: "inorder l = inorder (drop_back l) @ (?m, ?mv) # X"
    "inorder (give_front s sv l d) = X @ (s, sv) # inorder d"
    using rd(3) by blast
  have "borrowFromPrev n (Suc j) = Inr ?n'"
    using len ne by (simp add: borrowFromPrev_def n Let_def vec_simps)
  moreover have "fills t h (k1 @ [s]) (v1 @ [sv]) (c1 @ [l]) d k2 v2 c2 ?n'"
  proof (rule fillsI [OF refl])
    show "shape t (Suc h) ?n'" using sh rl rd(1,2) l d t unfolding n by auto
    show "before (k1 @ [s]) (v1 @ [sv]) (c1 @ [l]) =
        before (k1 @ [?m]) (v1 @ [?mv]) (c1 @ [drop_back l]) @ X @ [(s, sv)]"
      using len by (simp add: before_snoc X)
    show "inorder (give_front s sv l d) = (X @ [(s, sv)]) @ inorder d @ []" by (simp add: X)
  qed (use len rd d t in simp_all)
  ultimately show ?thesis by blast
qed

lemma borrowFromNext_fills:
  assumes t: "2 \<le> t" and n: "n = Node (k1 @ s # k2) (v1 @ sv # v2) (c1 @ d # r # c2)"
    and len: "length k1 = j" "length v1 = j" "length c1 = j" "length v2 = length k2" "length c2 = length k2"
    and sh: "shape t (Suc h) n" and r: "t \<le> length (keys r)" and d: "length (keys d) = t - 1"
  shows "\<exists>n'. borrowFromNext n j = Inr n' \<and>
    fills t h k1 v1 c1 d (s # k2) (sv # v2) (r # c2) n'"
proof -
  have shl: "shape t h r" "shape t h d" using sh by (auto simp: n)
  have ne: "keys r \<noteq> []" "vals r \<noteq> []" using r t shape_lengths [OF shl(1)] by auto
  have dl: "length (keys d) < 2 * t - 1" using d t by simp
  note rr = rotate_left(1,3) [OF shl ne(1) dl] and rd = rotate_left(2,4,5) [OF shl ne(1) dl, of s sv]
  let ?m = "hd (keys r)" and ?mv = "hd (vals r)"
  let ?n' = "Node (k1 @ ?m # k2) (v1 @ ?mv # v2) (c1 @ give_back s sv r d # drop_front r # c2)"
  obtain Y where Y: "inorder r = Y @ (?m, ?mv) # inorder (drop_front r)"
    "inorder (give_back s sv r d) = inorder d @ (s, sv) # Y"
    using rd(3) by blast
  have "borrowFromNext n j = Inr ?n'"
    using len ne by (simp add: borrowFromNext_def n Let_def vec_simps)
  moreover have "fills t h k1 v1 c1 d (s # k2) (sv # v2) (r # c2) ?n'"
  proof (rule fillsI [OF refl])
    show "shape t (Suc h) ?n'" using sh rr rd(1,2) r d t unfolding n by auto
    show "after (s # k2) (sv # v2) (r # c2) = ((s, sv) # Y) @ after (?m # k2) (?mv # v2) (drop_front r # c2)"
      by (simp add: Y)
    show "inorder (give_back s sv r d) = [] @ inorder d @ (s, sv) # Y" by (simp add: Y)
  qed (use len rd d t in simp_all)
  ultimately show ?thesis by blast
qed

lemma mergeChildren_at:
  assumes n: "n = Node (k1 @ s # k2) (v1 @ sv # v2) (c1 @ l # r # c2)"
    and len: "length k1 = j" "length v1 = j" "length c1 = j"
  shows "mergeChildren n j = Inr (Node (k1 @ k2) (v1 @ v2) (c1 @ merged l s sv r # c2))"
  using len by (simp add: mergeChildren_def n Let_def vec_simps)

lemma mergeChildren_shape:
  assumes t: "2 \<le> t" and n: "n = Node (k1 @ s # k2) (v1 @ sv # v2) (c1 @ l # r # c2)"
    and sh: "shape t (Suc h) n" and lr: "length (keys l) = t - 1" "length (keys r) = t - 1"
  shows "shape t (Suc h) (Node (k1 @ k2) (v1 @ v2) (c1 @ merged l s sv r # c2))"
    "shape t h (merged l s sv r)" "length (keys (merged l s sv r)) = 2 * t - 1"
    "inorder (merged l s sv r) = inorder l @ (s, sv) # inorder r"
proof -
  have shl: "shape t h l" "shape t h r" using sh by (auto simp: n)
  have le: "length (keys l) + length (keys r) + 1 \<le> 2 * t - 1" using lr t by simp
  note m = merged_correct [OF shl le, of s sv]
  show "shape t h (merged l s sv r)" "inorder (merged l s sv r) = inorder l @ (s, sv) # inorder r"
    by (rule m)+
  show mk: "length (keys (merged l s sv r)) = 2 * t - 1" using m(2) lr t by simp
  show "shape t (Suc h) (Node (k1 @ k2) (v1 @ v2) (c1 @ merged l s sv r # c2))"
    using sh m(1) mk t unfolding n by auto
qed

lemma merge_left_fills:
  assumes t: "2 \<le> t" and n: "n = Node (k1 @ s # k2) (v1 @ sv # v2) (c1 @ l # d # c2)"
    and len: "length k1 = j" "length v1 = j" "length c1 = j" "length v2 = length k2" "length c2 = length k2"
    and sh: "shape t (Suc h) n" and lr: "length (keys l) = t - 1" "length (keys d) = t - 1"
  shows "\<exists>n'. mergeChildren n j = Inr n' \<and> fills t h (k1 @ [s]) (v1 @ [sv]) (c1 @ [l]) d k2 v2 c2 n'"
proof -
  note m = mergeChildren_shape [OF t n sh lr]
  have "fills t h (k1 @ [s]) (v1 @ [sv]) (c1 @ [l]) d k2 v2 c2
    (Node (k1 @ k2) (v1 @ v2) (c1 @ merged l s sv d # c2))"
  proof (rule fillsI [OF refl])
    show "before (k1 @ [s]) (v1 @ [sv]) (c1 @ [l]) = before k1 v1 c1 @ inorder l @ [(s, sv)]"
      using len by (simp add: before_snoc)
    show "inorder (merged l s sv d) = (inorder l @ [(s, sv)]) @ inorder d @ []" using m(4) by simp
  qed (use len m t in simp_all)
  with mergeChildren_at [OF n len(1-3)] show ?thesis by blast
qed

lemma merge_right_fills:
  assumes t: "2 \<le> t" and n: "n = Node (k1 @ s # k2) (v1 @ sv # v2) (c1 @ d # r # c2)"
    and len: "length k1 = j" "length v1 = j" "length c1 = j" "length v2 = length k2" "length c2 = length k2"
    and sh: "shape t (Suc h) n" and lr: "length (keys d) = t - 1" "length (keys r) = t - 1"
  shows "\<exists>n'. mergeChildren n j = Inr n' \<and> fills t h k1 v1 c1 d (s # k2) (sv # v2) (r # c2) n'"
proof -
  note m = mergeChildren_shape [OF t n sh lr]
  have "fills t h k1 v1 c1 d (s # k2) (sv # v2) (r # c2)
    (Node (k1 @ k2) (v1 @ v2) (c1 @ merged d s sv r # c2))"
  proof (rule fillsI [OF refl])
    show "after (s # k2) (sv # v2) (r # c2) = ((s, sv) # inorder r) @ after k2 v2 c2" by simp
    show "inorder (merged d s sv r) = [] @ inorder d @ (s, sv) # inorder r" using m(4) by simp
  qed (use len m t in simp_all)
  with mergeChildren_at [OF n len(1-3)] show ?thesis by blast
qed

text \<open>
  The four outcomes of \<open>fillChild\<close>, on a node cut open at the child \<open>d\<close>.
\<close>

lemma fillChild_next:
  assumes n: "n = Node (k1 @ k2) (v1 @ v2) (c1 @ d # c2)" and len: "length c1 = i"
    and l: "0 < i \<Longrightarrow> length (keys (last c1)) < t" and k2: "c2 = r # c2'" "t \<le> length (keys r)"
  shows "fillChild t n i = borrowFromNext n i"
  using len l k2 by (cases c1 rule: rev_cases) (auto simp: fillChild_def n nth_append)

lemma fillChild_merge:
  assumes n: "n = Node (k1 @ k2) (v1 @ v2) (c1 @ d # c2)" and len: "length c1 = i"
    and l: "0 < i \<Longrightarrow> length (keys (last c1)) < t" and r: "c2 \<noteq> [] \<Longrightarrow> length (keys (hd c2)) < t"
  shows "fillChild t n i = mergeChildren n (i - 1)"
  using len l r by (cases c1 rule: rev_cases; cases c2) (auto simp: fillChild_def n nth_append)

lemma fillChild_prev:
  assumes n: "n = Node (k1 @ k2) (v1 @ v2) (c1 @ d # c2)" and len: "length c1 = Suc j"
    and l: "t \<le> length (keys (last c1))"
  shows "fillChild t n (Suc j) = borrowFromPrev n (Suc j)"
  using len l by (cases c1 rule: rev_cases) (auto simp: fillChild_def n nth_append)

lemma fillChild_correct:
  assumes t: "2 \<le> t" and n: "n = Node (k1 @ k2) (v1 @ v2) (c1 @ d # c2)"
    and len: "length k1 = i" "length v1 = i" "length c1 = i" "length v2 = length k2" "length c2 = length k2"
    and sh: "shape t (Suc h) n" and ne: "k1 @ k2 \<noteq> []" and d: "length (keys d) = t - 1"
  shows "\<exists>n'. fillChild t n i = Inr n' \<and> fills t h k1 v1 c1 d k2 v2 c2 n'"
proof (cases "k2 \<noteq> [] \<and> t \<le> length (keys (hd c2)) \<and> \<not> (0 < i \<and> t \<le> length (keys (last c1)))")
  case True
  then obtain s k2' sv v2' r c2' where r: "k2 = s # k2'" "v2 = sv # v2'" "c2 = r # c2'"
    using len by (cases k2; cases v2; cases c2) auto
  have "fillChild t n i = borrowFromNext n i"
    by (rule fillChild_next [OF n len(3) _ r(3)]) (use True r in auto)
  moreover have "\<exists>n'. borrowFromNext n i = Inr n' \<and>
      fills t h k1 v1 c1 d (s # k2') (sv # v2') (r # c2') n'"
    by (rule borrowFromNext_fills [OF t n [unfolded r] len(1-3) _ _ sh]) (use True r d len in auto)
  ultimately show ?thesis by (simp add: r)
next
  case no_next: False
  show ?thesis
  proof (cases i)
    case 0
    with ne len obtain s k2' sv v2' r c2' where r: "k2 = s # k2'" "v2 = sv # v2'" "c2 = r # c2'"
      by (cases k2; cases v2; cases c2) auto
    have rk: "length (keys r) = t - 1" using no_next 0 r sh by (auto simp: n)
    have "fillChild t n i = mergeChildren n (i - 1)"
      by (rule fillChild_merge [OF n len(3)]) (use 0 rk r t in auto)
    moreover have "\<exists>n'. mergeChildren n i = Inr n' \<and>
        fills t h k1 v1 c1 d (s # k2') (sv # v2') (r # c2') n'"
      by (rule merge_right_fills [OF t n [unfolded r] len(1-3) _ _ sh d rk]) (use r len in auto)
    ultimately show ?thesis by (simp add: r 0)
  next
    case (Suc j)
    with len obtain k1' s v1' sv c1' l where l: "k1 = k1' @ [s]" "v1 = v1' @ [sv]" "c1 = c1' @ [l]"
      by (cases k1 rule: rev_cases; cases v1 rule: rev_cases; cases c1 rule: rev_cases) auto
    have len': "length k1' = j" "length v1' = j" "length c1' = j" using len l Suc by simp_all
    have n': "n = Node (k1' @ s # k2) (v1' @ sv # v2) (c1' @ l # d # c2)" by (simp add: n l)
    show ?thesis
    proof (cases "t \<le> length (keys l)")
      case True
      have "fillChild t n i = borrowFromPrev n (Suc j)"
        unfolding Suc by (rule fillChild_prev [OF n]) (use True len Suc l in auto)
      with borrowFromPrev_fills [OF t n' len' len(4,5) sh True d] show ?thesis by (simp add: l)
    next
      case False
      then have lk: "length (keys l) = t - 1" using sh by (auto simp: n')
      have "fillChild t n i = mergeChildren n (i - 1)"
        by (rule fillChild_merge [OF n len(3)]) (use lk no_next l t Suc len in auto)
      with merge_left_fills [OF t n' len' len(4,5) sh lk d] show ?thesis by (simp add: l Suc)
    qed
  qed
qed

text \<open>A child that has \<open>t\<close> keys already is left alone; either way the descent can go on.\<close>

lemma prepare_child:
  assumes t: "2 \<le> t" and n: "n = Node (k1 @ k2) (v1 @ v2) (c1 @ d # c2)"
    and len: "length k1 = i" "length v1 = i" "length c1 = i" "length v2 = length k2" "length c2 = length k2"
    and sh: "shape t (Suc h) n" and ne: "k1 @ k2 \<noteq> []"
  shows "\<exists>n'. (if length (keys d) < t then fillChild t n i else Inr n) = Inr n' \<and>
    fills t h k1 v1 c1 d k2 v2 c2 n'"
proof (cases "length (keys d) < t")
  case True
  then have d: "length (keys d) = t - 1" using sh by (auto simp: n)
  from fillChild_correct [OF t n len sh ne d] True show ?thesis by simp
next
  case False
  have "fills t h k1 v1 c1 d k2 v2 c2 n"
    by (rule fillsI [OF n, where X = "[]" and Y = "[]"]) (use len sh False in \<open>auto simp: n\<close>)
  with False show ?thesis by simp
qed

lemma fillsE:
  assumes "fills t h a1 b1 d1 d a2 b2 d2 n'"
  obtains k1 k2 v1 v2 c1 c c2 X Y where "n' = Node (k1 @ k2) (v1 @ v2) (c1 @ c # c2)"
    "length v1 = length k1" "length c1 = length k1" "length v2 = length k2" "length c2 = length k2"
    "shape t (Suc h) n'" "shape t h c" "t \<le> length (keys c)"
    "length (a1 @ a2) \<le> Suc (length (k1 @ k2))"
    "before a1 b1 d1 = before k1 v1 c1 @ X" "after a2 b2 d2 = Y @ after k2 v2 c2"
    "inorder c = X @ inorder d @ Y"
  using assms unfolding fills_def by blast

lemma before_eq_Nil: "length v = length k \<Longrightarrow> length c = length k \<Longrightarrow> before k v c = [] \<longleftrightarrow> k = []"
  by (cases k rule: rev_cases; cases v rule: rev_cases; cases c rule: rev_cases) (auto simp: before_snoc)

lemma after_eq_Nil: "length v = length k \<Longrightarrow> length c = length k \<Longrightarrow> after k v c = [] \<longleftrightarrow> k = []"
  by (cases k; cases v; cases c) auto

section \<open>Removal of the extreme entries\<close>

lemma takeMax_leaf:
  "isLeaf n \<Longrightarrow> keys n \<noteq> [] \<Longrightarrow> vals n \<noteq> [] \<Longrightarrow>
     takeMax t n = Inr ((last (keys n), last (vals n)), Node (butlast (keys n)) (butlast (vals n)) (children n))"
  by (subst takeMax.simps) simp

lemma takeMin_leaf:
  "isLeaf n \<Longrightarrow> keys n \<noteq> [] \<Longrightarrow> vals n \<noteq> [] \<Longrightarrow>
     takeMin t n = Inr ((hd (keys n), hd (vals n)), Node (tl (keys n)) (tl (vals n)) (children n))"
  by (subst takeMin.simps) simp

lemma takeMax_down:
  assumes n: "n = Node k v (c1 @ [d])" and f: "(if length (keys d) < t then fillChild t n (length c1) else Inr n) = Inr n'"
    and n': "n' = Node k' v' (c1' @ [c])"
  shows "takeMax t n = bind_result (takeMax t c) (\<lambda>(e, c'). Inr (e, Node k' v' (c1' @ [c'])))"
  using f unfolding n n'
  by (subst takeMax.simps) (auto simp: isLeaf_def set_child_def simp del: takeMax.simps split: if_splits)

lemma takeMin_down:
  assumes n: "n = Node k v (d # c2)" and f: "(if length (keys d) < t then fillChild t n 0 else Inr n) = Inr n'"
    and n': "n' = Node k' v' (c # c2')"
  shows "takeMin t n = bind_result (takeMin t c) (\<lambda>(e, c'). Inr (e, Node k' v' (c' # c2')))"
  using f unfolding n n'
  by (subst takeMin.simps) (auto simp: isLeaf_def set_child_def simp del: takeMin.simps split: if_splits)

lemma zip_butlast_last:
  "length xs = length ys \<Longrightarrow> xs \<noteq> [] \<Longrightarrow> zip xs ys = zip (butlast xs) (butlast ys) @ [(last xs, last ys)]"
  by (cases xs rule: rev_cases; cases ys rule: rev_cases) auto

lemma zip_hd_tl:
  "length xs = length ys \<Longrightarrow> xs \<noteq> [] \<Longrightarrow> zip xs ys = (hd xs, hd ys) # zip (tl xs) (tl ys)"
  by (cases xs; cases ys) auto

lemma takeMax_correct:
  assumes t: "2 \<le> t"
  shows "shape t h n \<Longrightarrow> t \<le> length (keys n) \<Longrightarrow> \<exists>e n'. takeMax t n = Inr (e, n') \<and> shape t h n' \<and>
    length (keys n) \<le> Suc (length (keys n')) \<and> inorder n = inorder n' @ [e]"
proof (induction h arbitrary: n)
  case 0
  have "0 < length (keys n)" using 0(2) t by linarith
  then obtain ks vs where n: "n = Node ks vs []" and l: "length vs = length ks" "ks \<noteq> []"
    using 0(1) by (cases n) auto
  then have "vs \<noteq> []" by auto
  then show ?case using takeMax_leaf [of n t] zip_butlast_last [of ks vs] 0(1) l
    by (auto simp: n isLeaf_def)
next
  case (Suc h)
  obtain k1 k2 v1 v2 c1 d c2 where n: "n = Node (k1 @ k2) (v1 @ v2) (c1 @ d # c2)"
    and l: "length k1 = length (keys n)" "length v1 = length (keys n)" "length c1 = length (keys n)"
      "length v2 = length k2" "length c2 = length k2"
    and "shape t h d" "t - 1 \<le> length (keys d)"
    by (rule shape_Suc_split [OF Suc.prems(1) le_refl])
  then have [simp]: "k2 = []" "v2 = []" "c2 = []" by auto
  have lc: "length k1 = length c1" "length v1 = length c1" by (simp_all only: l)
  have ne: "k1 @ k2 \<noteq> []" using l Suc.prems t by auto
  obtain n' where f: "(if length (keys d) < t then fillChild t n (length c1) else Inr n) = Inr n'"
    and fi: "fills t h k1 v1 c1 d k2 v2 c2 n'"
    using prepare_child [OF t n l Suc.prems(1) ne] unfolding l(3) by blast
  from fi obtain k1' k2' v1' v2' c1' c c2' X Y where n': "n' = Node (k1' @ k2') (v1' @ v2') (c1' @ c # c2')"
    and l': "length v1' = length k1'" "length c1' = length k1'" "length v2' = length k2'" "length c2' = length k2'"
    and c: "shape t (Suc h) n'" "shape t h c" "t \<le> length (keys c)" "length (k1 @ k2) \<le> Suc (length (k1' @ k2'))"
    and io: "before k1 v1 c1 = before k1' v1' c1' @ X" "after k2 v2 c2 = Y @ after k2' v2' c2'"
      "inorder c = X @ inorder d @ Y"
    by (rule fillsE)
  from io(2) l' have [simp]: "Y = []" "k2' = []" "v2' = []" "c2' = []" using after_eq_Nil [of v2' k2' c2'] by auto
  from Suc.IH [OF c(2,3)] obtain e c' where c': "takeMax t c = Inr (e, c')" "shape t h c'"
    "length (keys c) \<le> Suc (length (keys c'))" "inorder c = inorder c' @ [e]" by blast
  let ?m = "Node k1' v1' (c1' @ [c'])"
  have "takeMax t n = Inr (e, ?m)"
    using takeMax_down [of n k1 v1 c1 d t n' k1' v1' c1' c] f n n' c'(1) by simp
  moreover have "shape t (Suc h) ?m"
    using shape_replace_child [of t h k1' v1' c1' c "[]" c'] c n' c'(2,3) by simp
  moreover have "inorder n = inorder ?m @ [e]"
    using inorder_at_child [of k1 c1 v1 "[]" "[]" d "[]"] inorder_at_child [of k1' c1' v1' "[]" "[]" c' "[]"]
      lc l' io c'(4) by (simp add: n)
  ultimately show ?case using c(4) by (auto simp: n)
qed

lemma takeMin_correct:
  assumes t: "2 \<le> t"
  shows "shape t h n \<Longrightarrow> t \<le> length (keys n) \<Longrightarrow> \<exists>e n'. takeMin t n = Inr (e, n') \<and> shape t h n' \<and>
    length (keys n) \<le> Suc (length (keys n')) \<and> inorder n = e # inorder n'"
proof (induction h arbitrary: n)
  case 0
  have "0 < length (keys n)" using 0(2) t by linarith
  then obtain ks vs where n: "n = Node ks vs []" and l: "length vs = length ks" "ks \<noteq> []"
    using 0(1) by (cases n) auto
  then have "vs \<noteq> []" by auto
  then show ?case using takeMin_leaf [of n t] zip_hd_tl [of ks vs] 0(1) l
    by (auto simp: n isLeaf_def)
next
  case (Suc h)
  obtain k1 k2 v1 v2 c1 d c2 where n: "n = Node (k1 @ k2) (v1 @ v2) (c1 @ d # c2)"
    and l: "length k1 = 0" "length v1 = 0" "length c1 = 0" "length v2 = length k2" "length c2 = length k2"
    and "shape t h d" "t - 1 \<le> length (keys d)"
    by (rule shape_Suc_split [OF Suc.prems(1) le0])
  then have [simp]: "k1 = []" "v1 = []" "c1 = []" by auto
  have ne: "k1 @ k2 \<noteq> []" using n Suc.prems t by auto
  obtain n' where f: "(if length (keys d) < t then fillChild t n 0 else Inr n) = Inr n'"
    and fi: "fills t h k1 v1 c1 d k2 v2 c2 n'"
    using prepare_child [OF t n l Suc.prems(1) ne] by blast
  from fi obtain k1' k2' v1' v2' c1' c c2' X Y where n': "n' = Node (k1' @ k2') (v1' @ v2') (c1' @ c # c2')"
    and l': "length v1' = length k1'" "length c1' = length k1'" "length v2' = length k2'" "length c2' = length k2'"
    and c: "shape t (Suc h) n'" "shape t h c" "t \<le> length (keys c)" "length (k1 @ k2) \<le> Suc (length (k1' @ k2'))"
    and io: "before k1 v1 c1 = before k1' v1' c1' @ X" "after k2 v2 c2 = Y @ after k2' v2' c2'"
      "inorder c = X @ inorder d @ Y"
    by (rule fillsE)
  from io(1) l' have [simp]: "X = []" "k1' = []" "v1' = []" "c1' = []" using before_eq_Nil [of v1' k1' c1'] by auto
  from Suc.IH [OF c(2,3)] obtain e c' where c': "takeMin t c = Inr (e, c')" "shape t h c'"
    "length (keys c) \<le> Suc (length (keys c'))" "inorder c = e # inorder c'" by blast
  let ?m = "Node k2' v2' (c' # c2')"
  have "takeMin t n = Inr (e, ?m)"
    using takeMin_down [of n k2 v2 d c2 t n' k2' v2' c c2'] f n n' c'(1) by simp
  moreover have "shape t (Suc h) ?m"
    using shape_replace_child [of t h k2' v2' "[]" c c2' c'] c n' c'(2,3) by simp
  moreover have "inorder n = e # inorder ?m"
    using inorder_at_child [of "[]" "[]" "[]" k2 v2 d c2] inorder_at_child [of "[]" "[]" "[]" k2' v2' c' c2']
      io c'(4) by (simp add: n)
  ultimately show ?case using c(4) by (auto simp: n)
qed

section \<open>Removal of a key\<close>

text \<open>One equation per branch of \<open>removeFrom\<close>.\<close>

lemma removeFrom_leaf:
  assumes "isLeaf n"
  shows "removeFrom t n key =
    (if \<not> key_at n (lowerBound n key) key then Inr (False, n)
     else if lowerBound n key < length (vals n)
     then Inr (True, Node (erase_at (lowerBound n key) (keys n)) (erase_at (lowerBound n key) (vals n)) (children n))
     else Inl Undefined_behaviour)"
  using assms by (subst removeFrom.simps) (simp add: Let_def)

lemma removeFrom_pred:
  assumes "key_at n (lowerBound n key) key" and "\<not> isLeaf n" and "length (vals n) > lowerBound n key"
    and "vec_at (children n) (lowerBound n key) = Inr left" and "vec_at (children n) (lowerBound n key + 1) = Inr right"
    and "t \<le> length (keys left)"
  shows "removeFrom t n key = bind_result (takeMax t left) (\<lambda>((predKey, predValue), left').
    Inr (True, Node ((keys n)[lowerBound n key := predKey]) ((vals n)[lowerBound n key := predValue])
      ((children n)[lowerBound n key := left'])))"
  using assms by (subst removeFrom.simps) (simp add: Let_def)

lemma removeFrom_succ:
  assumes "key_at n (lowerBound n key) key" and "\<not> isLeaf n" and "length (vals n) > lowerBound n key"
    and "vec_at (children n) (lowerBound n key) = Inr left" and "vec_at (children n) (lowerBound n key + 1) = Inr right"
    and "\<not> t \<le> length (keys left)" and "t \<le> length (keys right)"
  shows "removeFrom t n key = bind_result (takeMin t right) (\<lambda>((succKey, succValue), right').
    Inr (True, Node ((keys n)[lowerBound n key := succKey]) ((vals n)[lowerBound n key := succValue])
      ((children n)[lowerBound n key + 1 := right'])))"
  using assms by (subst removeFrom.simps) (simp add: Let_def)

lemma removeFrom_merge:
  assumes "key_at n (lowerBound n key) key" and "\<not> isLeaf n" and "length (vals n) > lowerBound n key"
    and "vec_at (children n) (lowerBound n key) = Inr left" and "vec_at (children n) (lowerBound n key + 1) = Inr right"
    and "\<not> t \<le> length (keys left)" and "\<not> t \<le> length (keys right)"
  shows "removeFrom t n key = bind_result (mergeChildren n (lowerBound n key)) (\<lambda>n'.
    bind_result (vec_at (children n') (lowerBound n key)) (\<lambda>c.
    bind_result (removeFrom t c key) (\<lambda>(b, c'). Inr (b, set_child n' (lowerBound n key) c'))))"
  using assms by (subst removeFrom.simps) (simp add: Let_def)

lemma removeFrom_down:
  assumes "\<not> key_at n (lowerBound n key) key" and "\<not> isLeaf n"
    and "vec_at (children n) (lowerBound n key) = Inr d"
    and "(if length (keys d) < t then fillChild t n (lowerBound n key) else Inr n) = Inr n'"
    and "lowerBound n' key = j" and "\<not> key_at n' j key" and "vec_at (children n') j = Inr c"
  shows "removeFrom t n key = bind_result (removeFrom t c key) (\<lambda>(b, c'). Inr (b, set_child n' j c'))"
proof (cases "length (keys d) < t")
  case True
  with assms show ?thesis by (subst removeFrom.simps) (simp add: Let_def)
next
  case False
  with assms(4) have "n' = n" by simp
  with False assms show ?thesis by (subst removeFrom.simps) (simp add: Let_def)
qed

text \<open>
  After the fill the key still lies strictly between the separators around the child, so the
  branch of \<open>removeFrom\<close> for a key that moved up into the node is never taken.
\<close>

lemma lowerBound_at:
  assumes "\<forall>x \<in> set k1. x < key" and "k2 \<noteq> [] \<longrightarrow> key < hd k2"
  shows "lowerBound (Node (k1 @ k2) vs cs) key = length k1"
    "\<not> key_at (Node (k1 @ k2) vs cs) (length k1) key"
proof -
  have "takeWhile (\<lambda>x. x < key) k2 = []" using assms(2) by (cases k2) auto
  then show "lowerBound (Node (k1 @ k2) vs cs) key = length k1"
    using assms(1) takeWhile_append2 [of k1 "\<lambda>x. x < key" k2] by (simp add: lowerBound_def)
  show "\<not> key_at (Node (k1 @ k2) vs cs) (length k1) key"
    using assms(2) key_at_split [OF refl, of k1 k2 vs cs key] by auto
qed

lemma before_keys:
  "length v = length k \<Longrightarrow> length c = length k \<Longrightarrow> set k \<subseteq> fst ` set (before k v c)"
proof (induction k arbitrary: v c rule: rev_induct)
  case (snoc x k)
  then obtain v' y c' d where "v = v' @ [y]" "c = c' @ [d]"
    by (cases v rule: rev_cases; cases c rule: rev_cases) auto
  with snoc show ?case by (auto simp: before_snoc)
qed simp

lemma after_hd:
  "length v = length k \<Longrightarrow> length c = length k \<Longrightarrow> all_greater (after k v c) key \<Longrightarrow> k \<noteq> [] \<longrightarrow> key < hd k"
  by (cases k; cases v; cases c) (auto simp: all_greater_def)

lemma fills_lowerBound:
  assumes l: "length v1 = length k1" "length c1 = length k1" "length v2 = length k2" "length c2 = length k2"
    and "all_less (before k1 v1 c1) key" "all_greater (after k2 v2 c2) key"
  shows "lowerBound (Node (k1 @ k2) vs cs) key = length k1"
    "\<not> key_at (Node (k1 @ k2) vs cs) (length k1) key"
proof -
  have "\<forall>x \<in> set k1. x < key"
    using before_keys [OF l(1,2)] assms(5) by (auto simp: all_less_def)
  moreover have "k2 \<noteq> [] \<longrightarrow> key < hd k2" by (rule after_hd [OF l(3,4) assms(6)])
  ultimately show "lowerBound (Node (k1 @ k2) vs cs) key = length k1"
    "\<not> key_at (Node (k1 @ k2) vs cs) (length k1) key"
    by (rule lowerBound_at)+
qed

definition rem_ok :: "nat \<Rightarrow> nat \<Rightarrow> 'k::linorder \<Rightarrow> ('k, 'v) node \<Rightarrow> bool" where
  "rem_ok t h key n \<longleftrightarrow> (\<exists>b n'. removeFrom t n key = Inr (b, n') \<and> shape t h n' \<and>
     length (keys n) \<le> Suc (length (keys n')) \<and> del_spec key (inorder n) b (inorder n'))"

lemma rem_okI:
  "removeFrom t n key = Inr (b, n') \<Longrightarrow> shape t h n' \<Longrightarrow> length (keys n) \<le> Suc (length (keys n')) \<Longrightarrow>
     del_spec key (inorder n) b (inorder n') \<Longrightarrow> rem_ok t h key n"
  unfolding rem_ok_def by blast

lemma rem_ok_leaf:
  assumes "shape t 0 n" and "ksorted (inorder n)"
  shows "rem_ok t 0 key n"
proof -
  obtain k1 k2 v1 v2 where n: "n = Node (k1 @ k2) (v1 @ v2) []"
    and l: "length k1 = lowerBound n key" "length v1 = lowerBound n key" "length v2 = length k2"
    and io: "inorder n = zip k1 v1 @ zip k2 v2" and less: "all_less (zip k1 v1) key"
    and gr: "\<not> key_at n (lowerBound n key) key \<longrightarrow> all_greater (zip k2 v2) key"
    and ka: "key_at n (lowerBound n key) key \<longleftrightarrow> k2 \<noteq> [] \<and> hd k2 = key"
    using assms by (rule descend_leaf)
  have leaf: "isLeaf n" by (simp add: n isLeaf_def)
  show ?thesis
  proof (cases "key_at n (lowerBound n key) key")
    case False
    with gr io less have "del_spec key (inorder n) False (inorder n)" by (simp add: del_spec_absent)
    with removeFrom_leaf [OF leaf, of t key] False assms show ?thesis by (auto intro: rem_okI)
  next
    case True
    with ka obtain k2' where k2: "k2 = key # k2'" by (cases k2) auto
    with l obtain v v2' where v2: "v2 = v # v2'" "length v2' = length k2'" by (cases v2) auto
    obtain i where i: "lowerBound n key = i" "length k1 = i" "length v1 = i" using l by simp
    let ?n' = "Node (k1 @ k2') (v1 @ v2') []"
    have "removeFrom t n key = Inr (True, ?n')"
      using removeFrom_leaf [OF leaf, of t key] True i(2,3) unfolding i(1)
      by (simp add: n k2 v2 vec_simps)
    moreover have "all_greater (zip k2' v2') key"
      using assms(2) unfolding io k2 v2 by (auto simp: ksorted_append ksorted_Cons all_greater_def)
    then have "del_spec key (inorder n) True (inorder ?n')"
      unfolding io using less i(2,3) by (simp add: k2 v2 del_spec_here)
    ultimately show ?thesis using assms(1) by (auto simp: n k2 v2 intro: rem_okI)
  qed
qed

text \<open>The key is not in the node: fill the child and go down.\<close>

lemma rem_ok_down:
  fixes n :: "('k::linorder, 'v) node"
  assumes t: "2 \<le> t" and sh: "shape t (Suc h) n" and so: "ksorted (inorder n)" and ne: "keys n \<noteq> []"
    and absent: "\<not> key_at n (lowerBound n key) key"
    and IH: "\<And>c :: ('k, 'v) node. shape t h c \<Longrightarrow> keys c \<noteq> [] \<Longrightarrow> ksorted (inorder c) \<Longrightarrow> rem_ok t h key c"
  shows "rem_ok t (Suc h) key n"
proof -
  obtain a1 a2 b1 b2 d1 d d2 where n: "n = Node (a1 @ a2) (b1 @ b2) (d1 @ d # d2)"
    and l: "length a1 = lowerBound n key" "length b1 = lowerBound n key" "length d1 = lowerBound n key"
      "length b2 = length a2" "length d2 = length a2" and "shape t h d" "t - 1 \<le> length (keys d)"
    and io: "inorder n = before a1 b1 d1 @ inorder d @ after a2 b2 d2"
    and less: "all_less (before a1 b1 d1) key"
    and gr: "\<not> key_at n (lowerBound n key) key \<longrightarrow> all_greater (after a2 b2 d2) key"
    and "key_at n (lowerBound n key) key \<longleftrightarrow> a2 \<noteq> [] \<and> hd a2 = key"
    and "\<forall>x \<in> set a1. x < key" "a2 \<noteq> [] \<longrightarrow> key \<le> hd a2" and "ksorted (inorder d)"
    using sh so by (rule descend)
  have "a1 @ a2 \<noteq> []" using ne by (simp add: n)
  then obtain n' where f: "(if length (keys d) < t then fillChild t n (lowerBound n key) else Inr n) = Inr n'"
    and fi: "fills t h a1 b1 d1 d a2 b2 d2 n'"
    using prepare_child [OF t n l sh] by blast
  from fi obtain k1 k2 v1 v2 c1 c c2 X Y where n': "n' = Node (k1 @ k2) (v1 @ v2) (c1 @ c # c2)"
    and l': "length v1 = length k1" "length c1 = length k1" "length v2 = length k2" "length c2 = length k2"
    and c: "shape t (Suc h) n'" "shape t h c" "t \<le> length (keys c)" "length (a1 @ a2) \<le> Suc (length (k1 @ k2))"
    and io': "before a1 b1 d1 = before k1 v1 c1 @ X" "after a2 b2 d2 = Y @ after k2 v2 c2"
      "inorder c = X @ inorder d @ Y"
    by (rule fillsE)
  have inn: "inorder n = before k1 v1 c1 @ inorder c @ after k2 v2 c2" by (simp add: io io')
  have lg: "all_less (before k1 v1 c1) key" "all_greater (after k2 v2 c2) key"
    using less gr absent unfolding io' by simp_all
  have j: "lowerBound n' key = length k1" "\<not> key_at n' (length k1) key"
    unfolding n' by (rule fills_lowerBound [OF l' lg])+
  have "ksorted (inorder c)" using so unfolding inn by (simp add: ksorted_append)
  moreover have "keys c \<noteq> []" using c(3) t by auto
  ultimately obtain b c' where rc: "removeFrom t c key = Inr (b, c')" "shape t h c'"
    "length (keys c) \<le> Suc (length (keys c'))" "del_spec key (inorder c) b (inorder c')"
    using IH [OF c(2)] unfolding rem_ok_def by blast
  let ?m = "Node (k1 @ k2) (v1 @ v2) (c1 @ c' # c2)"
  have vd: "vec_at (children n) (lowerBound n key) = Inr d" unfolding l(3) [symmetric] by (simp add: n)
  have vc: "vec_at (children n') (length k1) = Inr c" unfolding l'(2) [symmetric] by (simp add: n')
  have nl: "\<not> isLeaf n" by (simp add: n isLeaf_def)
  show ?thesis
  proof (rule rem_okI)
    show "removeFrom t n key = Inr (b, ?m)"
      unfolding removeFrom_down [OF absent nl vd f j vc] rc(1) using l'(2) by (simp add: n' set_child_at)
    show "shape t (Suc h) ?m"
      by (rule shape_replace_child [OF c(1) [unfolded n'] rc(2)]) (use c(3) rc(3) in simp)
    show "length (keys n) \<le> Suc (length (keys ?m))" using c(4) by (simp add: n)
    show "del_spec key (inorder n) b (inorder ?m)"
      using del_spec_between [OF rc(4) lg] l' by (simp add: inn inorder_at_child)
  qed
qed

text \<open>The key is a separator of the node.\<close>

lemma inorder_at_separator:
  "length k1 = length c1 \<Longrightarrow> length v1 = length c1 \<Longrightarrow>
     inorder (Node (k1 @ s # k2) (v1 @ v # v2) (c1 @ l # r # c2)) =
       before k1 v1 c1 @ inorder l @ (s, v) # inorder r @ after k2 v2 c2"
  by (simp add: inorder_at_child)

lemma rem_ok_pred:
  assumes t: "2 \<le> t" and n: "n = Node (k1 @ key # k2) (v1 @ v # v2) (c1 @ l # r # c2)"
    and len: "length k1 = i" "length v1 = i" "length c1 = i" and i: "lowerBound n key = i" "key_at n i key"
    and sh: "shape t (Suc h) n" and so: "ksorted (inorder n)" and lt: "t \<le> length (keys l)"
  shows "rem_ok t (Suc h) key n"
proof -
  have io: "inorder n = before k1 v1 c1 @ inorder l @ (key, v) # inorder r @ after k2 v2 c2"
    unfolding n by (rule inorder_at_separator) (simp_all only: len)
  have lg: "all_less (before k1 v1 c1 @ inorder l) key" "all_greater (inorder r @ after k2 v2 c2) key"
    using so unfolding io by (auto simp: ksorted_append ksorted_Cons all_less_def all_greater_def)
  have "shape t h l" using sh by (simp add: n)
  from takeMax_correct [OF t this lt] obtain pk pv l' where l': "takeMax t l = Inr ((pk, pv), l')" "shape t h l'"
    "length (keys l) \<le> Suc (length (keys l'))" "inorder l = inorder l' @ [(pk, pv)]" by fastforce
  let ?n' = "Node (k1 @ pk # k2) (v1 @ pv # v2) (c1 @ l' # r # c2)"
  have "removeFrom t n key = Inr (True, ?n')"
    by (subst removeFrom_pred [where left = l and right = r])
      (use len i(2) lt in \<open>simp_all add: i(1) [unfolded n] n isLeaf_def l'(1) vec_simps\<close>)
  moreover have "shape t (Suc h) ?n'" using sh l'(2,3) lt unfolding n by auto
  moreover have "inorder ?n' = before k1 v1 c1 @ inorder l' @ (pk, pv) # inorder r @ after k2 v2 c2"
    by (rule inorder_at_separator) (simp_all only: len)
  then have "del_spec key (inorder n) True (inorder ?n')"
    using del_spec_here [OF lg, of v] unfolding io l'(4) by simp
  ultimately show ?thesis by (intro rem_okI) (auto simp: n)
qed

lemma rem_ok_succ:
  assumes t: "2 \<le> t" and n: "n = Node (k1 @ key # k2) (v1 @ v # v2) (c1 @ l # r # c2)"
    and len: "length k1 = i" "length v1 = i" "length c1 = i" and i: "lowerBound n key = i" "key_at n i key"
    and sh: "shape t (Suc h) n" and so: "ksorted (inorder n)"
    and lt: "\<not> t \<le> length (keys l)" and rt: "t \<le> length (keys r)"
  shows "rem_ok t (Suc h) key n"
proof -
  have io: "inorder n = before k1 v1 c1 @ inorder l @ (key, v) # inorder r @ after k2 v2 c2"
    unfolding n by (rule inorder_at_separator) (simp_all only: len)
  have lg: "all_less (before k1 v1 c1 @ inorder l) key" "all_greater (inorder r @ after k2 v2 c2) key"
    using so unfolding io by (auto simp: ksorted_append ksorted_Cons all_less_def all_greater_def)
  have "shape t h r" using sh by (simp add: n)
  from takeMin_correct [OF t this rt] obtain sk sv r' where r': "takeMin t r = Inr ((sk, sv), r')" "shape t h r'"
    "length (keys r) \<le> Suc (length (keys r'))" "inorder r = (sk, sv) # inorder r'" by fastforce
  let ?n' = "Node (k1 @ sk # k2) (v1 @ sv # v2) (c1 @ l # r' # c2)"
  have "removeFrom t n key = Inr (True, ?n')"
    by (subst removeFrom_succ [where left = l and right = r])
      (use len i(2) lt rt in \<open>simp_all add: i(1) [unfolded n] n isLeaf_def r'(1) vec_simps\<close>)
  moreover have "shape t (Suc h) ?n'" using sh r'(2,3) rt unfolding n by auto
  moreover have "inorder ?n' = before k1 v1 c1 @ inorder l @ (sk, sv) # inorder r' @ after k2 v2 c2"
    by (rule inorder_at_separator) (simp_all only: len)
  then have "del_spec key (inorder n) True (inorder ?n')"
    using del_spec_here [OF lg, of v] unfolding io r'(4) by simp
  ultimately show ?thesis by (intro rem_okI) (auto simp: n)
qed

lemma rem_ok_merge:
  fixes n :: "('k::linorder, 'v) node"
  assumes t: "2 \<le> t" and n: "n = Node (k1 @ key # k2) (v1 @ v # v2) (c1 @ l # r # c2)"
    and len: "length k1 = i" "length v1 = i" "length c1 = i" and i: "lowerBound n key = i" "key_at n i key"
    and sh: "shape t (Suc h) n" and so: "ksorted (inorder n)"
    and lt: "\<not> t \<le> length (keys l)" "\<not> t \<le> length (keys r)"
    and IH: "\<And>c :: ('k, 'v) node. shape t h c \<Longrightarrow> keys c \<noteq> [] \<Longrightarrow> ksorted (inorder c) \<Longrightarrow> rem_ok t h key c"
  shows "rem_ok t (Suc h) key n"
proof -
  have lr: "length (keys l) = t - 1" "length (keys r) = t - 1" using sh lt by (auto simp: n)
  let ?c = "merged l key v r"
  note m = mergeChildren_shape [OF t n sh lr]
  have io: "inorder n = before k1 v1 c1 @ inorder ?c @ after k2 v2 c2"
    unfolding n m(4) using inorder_at_separator [of k1 c1 v1] len by simp
  have lg: "all_less (before k1 v1 c1) key" "all_greater (after k2 v2 c2) key"
    using so unfolding io m(4) by (auto simp: ksorted_append ksorted_Cons all_less_def all_greater_def)
  have "ksorted (inorder ?c)" using so unfolding io by (simp add: ksorted_append)
  moreover have "keys ?c \<noteq> []" using m(3) t by auto
  ultimately obtain b c' where rc: "removeFrom t ?c key = Inr (b, c')" "shape t h c'"
    "length (keys ?c) \<le> Suc (length (keys c'))" "del_spec key (inorder ?c) b (inorder c')"
    using IH [OF m(2)] unfolding rem_ok_def by blast
  let ?n' = "Node (k1 @ k2) (v1 @ v2) (c1 @ c' # c2)"
  have "removeFrom t n key = Inr (b, ?n')"
    by (subst removeFrom_merge [where left = l and right = r])
      (use len i(2) lt mergeChildren_at [OF n len] rc(1) in \<open>simp_all add: i(1) [unfolded n] n isLeaf_def set_child_at vec_simps\<close>)
  moreover have "shape t (Suc h) ?n'"
    by (rule shape_replace_child [OF m(1) rc(2)]) (use m(3) rc(3) t in simp)
  moreover have "del_spec key (inorder n) b (inorder ?n')"
    using del_spec_between [OF rc(4) lg] len by (simp add: io inorder_at_child)
  ultimately show ?thesis by (intro rem_okI) (auto simp: n)
qed

lemma removeFrom_correct:
  assumes t: "2 \<le> t"
  shows "shape t h n \<Longrightarrow> keys n \<noteq> [] \<Longrightarrow> ksorted (inorder n) \<Longrightarrow> rem_ok t h key n"
proof (induction h arbitrary: n)
  case 0
  then show ?case by (simp add: rem_ok_leaf)
next
  case (Suc h)
  show ?case
  proof (cases "key_at n (lowerBound n key) key")
    case False
    then show ?thesis using rem_ok_down [OF t Suc.prems(1,3,2)] Suc.IH by blast
  next
    case True
    obtain k1 k2 v1 v2 c1 l c2 where n: "n = Node (k1 @ k2) (v1 @ v2) (c1 @ l # c2)"
      and len: "length k1 = lowerBound n key" "length v1 = lowerBound n key" "length c1 = lowerBound n key"
        "length v2 = length k2" "length c2 = length k2" and "shape t h l" "t - 1 \<le> length (keys l)"
      and "inorder n = before k1 v1 c1 @ inorder l @ after k2 v2 c2" "all_less (before k1 v1 c1) key"
        "\<not> key_at n (lowerBound n key) key \<longrightarrow> all_greater (after k2 v2 c2) key"
      and ka: "key_at n (lowerBound n key) key \<longleftrightarrow> k2 \<noteq> [] \<and> hd k2 = key"
      and "\<forall>x \<in> set k1. x < key" "k2 \<noteq> [] \<longrightarrow> key \<le> hd k2" and "ksorted (inorder l)"
      using Suc.prems(1,3) by (rule descend)
    from True ka obtain k2' where "k2 = key # k2'" by (cases k2) auto
    moreover with len(4,5) obtain v v2' r c2' where "v2 = v # v2'" "c2 = r # c2'" by (cases v2; cases c2) auto
    ultimately have n': "n = Node (k1 @ key # k2') (v1 @ v # v2') (c1 @ l # r # c2')" using n by simp
    note cut = t n' len(1-3) refl True Suc.prems(1,3)
    show ?thesis
      using rem_ok_pred [OF cut] rem_ok_succ [OF cut] rem_ok_merge [OF cut _ _ Suc.IH] by blast
  qed
qed

text \<open>
  \<open>remove\<close> never fails on a tree that satisfies the invariant, reports whether the key was
  present, removes exactly its entry and keeps the invariant.
\<close>

lemma btree_remove_correct:
  assumes inv: "btree_inv bt"
  shows "\<exists>b bt'. btree_remove bt key = Inr (b, bt') \<and> btree_inv bt' \<and> min_degree bt' = min_degree bt \<and>
    del_spec key (entries bt) b (entries bt')"
proof (cases "root bt")
  case None
  with inv show ?thesis by (auto simp: btree_remove_def del_spec_def entries_def)
next
  case (Some r)
  let ?t = "min_degree bt"
  from inv Some obtain h where t: "2 \<le> ?t" and r: "shape ?t h r" "keys r \<noteq> []" "ksorted (inorder r)"
    and sz: "btree_size bt = length (inorder r)"
    by (auto simp: btree_inv_def entries_def)
  from removeFrom_correct [OF t r, of key] obtain b r' where r': "removeFrom ?t r key = Inr (b, r')" "shape ?t h r'"
    "length (keys r) \<le> Suc (length (keys r'))" "del_spec key (inorder r) b (inorder r')"
    unfolding rem_ok_def by blast
  note len = del_spec_length [OF r'(4) r(3)]
  show ?thesis
  proof (cases "keys r' = [] \<and> \<not> isLeaf r'")
    case False
    then show ?thesis using r'(1,2,4) len t Some sz shape_0_inorder [of ?t r'] shape_isLeaf [OF r'(2)]
      by (auto simp: btree_remove_def btree_inv_def entries_def Let_def)
  next
    case True
    with r'(2) shape_isLeaf [OF r'(2)] obtain g where h: "h = Suc g" by (cases h) auto
    with True r'(2) obtain c where c: "r' = Node [] [] [c]" "shape ?t g c" "?t - 1 \<le> length (keys c)"
      by (cases r'; cases "children r'") auto
    then have "inorder r' = inorder c" "keys c \<noteq> []" using t by (auto simp: inorder.simps)
    with c r'(1,4) len t Some sz show ?thesis
      by (auto simp: btree_remove_def btree_inv_def entries_def Let_def isLeaf_def)
  qed
qed

end
