(* ===== verification/BTree_Query.thy ===== *)
theory BTree_Query
  imports BTree_Remove
begin

text \<open>
  Correctness of the read side of the B-tree: \<open>search\<close> and the pointer it returns, the in-order
  and the range visitors, the height and the self-check \<open>checkInvariants\<close>.
\<close>

section \<open>Search, and access through the pointer it returns\<close>

text \<open>
  Either the key is absent and the pointer null, or the pointer leads to the value of the key,
  and a store through it changes that value only.
\<close>

definition search_ok :: "nat \<Rightarrow> nat \<Rightarrow> 'k::linorder \<Rightarrow> ('k, 'v) node \<Rightarrow> bool" where
  "search_ok t h key n \<longleftrightarrow>
     search_node n key = Inr None \<and> key \<notin> fst ` set (inorder n) \<or>
     (\<exists>path j xs v ys. search_node n key = Inr (Some (path, j)) \<and> inorder n = xs @ (key, v) # ys \<and>
        deref_node n path j = Inr v \<and>
        (\<forall>v'. \<exists>n'. store_node n path j v' = Inr n' \<and> shape t h n' \<and> keys n' = keys n \<and>
           inorder n' = xs @ (key, v') # ys \<and> search_node n' key = Inr (Some (path, j))))"

lemma search_here:
  "key_at n (lowerBound n key) key \<Longrightarrow> search_node n key = Inr (Some ([], lowerBound n key))"
  by (subst search_node.simps) (simp add: Let_def)

lemma search_leaf:
  "isLeaf n \<Longrightarrow> \<not> key_at n (lowerBound n key) key \<Longrightarrow> search_node n key = Inr None"
  by (subst search_node.simps) (simp add: Let_def)

lemma search_down:
  "\<not> isLeaf n \<Longrightarrow> \<not> key_at n (lowerBound n key) key \<Longrightarrow> vec_at (children n) (lowerBound n key) = Inr c \<Longrightarrow>
     search_node n key = bind_result (search_node c key) (\<lambda>r.
       Inr (map_option (\<lambda>(path, j). (lowerBound n key # path, j)) r))"
  by (subst search_node.simps) (simp add: Let_def)

lemma search_keys:
  "keys n' = keys n \<Longrightarrow> lowerBound n' key = lowerBound n key"
  "keys n' = keys n \<Longrightarrow> key_at n' i key \<longleftrightarrow> key_at n i key"
  by (simp_all add: lowerBound_def key_at_def)

lemma search_ok_leaf:
  assumes "shape t 0 n" and "ksorted (inorder n)"
  shows "search_ok t 0 key n"
proof -
  obtain k1 k2 v1 v2 where n: "n = Node (k1 @ k2) (v1 @ v2) []"
    and l: "length k1 = lowerBound n key" "length v1 = lowerBound n key" "length v2 = length k2"
    and io: "inorder n = zip k1 v1 @ zip k2 v2" and less: "all_less (zip k1 v1) key"
    and gr: "\<not> key_at n (lowerBound n key) key \<longrightarrow> all_greater (zip k2 v2) key"
    and ka: "key_at n (lowerBound n key) key \<longleftrightarrow> k2 \<noteq> [] \<and> hd k2 = key"
    using assms by (rule descend_leaf)
  obtain i where i: "lowerBound n key = i" "length k1 = i" "length v1 = i" using l by simp
  show ?thesis
  proof (cases "key_at n i key")
    case False
    with gr i(1) have "all_greater (zip k2 v2) key" by simp
    with less have "key \<notin> fst ` set (inorder n)"
      unfolding io by (auto dest: not_in_all_less not_in_all_greater)
    with search_leaf [of n key] False i(1) show ?thesis by (simp add: search_ok_def n isLeaf_def)
  next
    case True
    with ka i(1) obtain k2' where k2: "k2 = key # k2'" by (cases k2) auto
    with l(3) obtain v v2' where v2: "v2 = v # v2'" by (cases v2) auto
    have "\<exists>n'. store_node n [] i v' = Inr n' \<and> shape t 0 n' \<and> keys n' = keys n \<and>
        inorder n' = zip k1 v1 @ (key, v') # zip k2' v2' \<and> search_node n' key = Inr (Some ([], i))" for v'
    proof -
      let ?n' = "Node (k1 @ k2) (v1 @ v' # v2') []"
      have "search_node ?n' key = Inr (Some ([], i))"
        using search_here [of ?n' key] search_keys [of ?n' n] True i(1) by (simp add: n)
      then show ?thesis using i(2,3) assms(1) by (auto simp: n k2 v2 vec_simps)
    qed
    moreover have "deref_node n [] i = Inr v" using i(2,3) by (simp add: n v2 vec_simps)
    moreover have "search_node n key = Inr (Some ([], i))" using search_here True unfolding i(1) [symmetric] .
    moreover have "inorder n = zip k1 v1 @ (key, v) # zip k2' v2'" by (simp add: io k2 v2)
    ultimately show ?thesis unfolding search_ok_def by blast
  qed
qed

lemma search_ok_internal:
  fixes n :: "('k::linorder, 'v) node"
  assumes sh: "shape t (Suc h) n" and so: "ksorted (inorder n)"
    and IH: "\<And>c :: ('k, 'v) node. shape t h c \<Longrightarrow> ksorted (inorder c) \<Longrightarrow> search_ok t h key c"
  shows "search_ok t (Suc h) key n"
proof -
  obtain k1 k2 v1 v2 c1 c c2 where n: "n = Node (k1 @ k2) (v1 @ v2) (c1 @ c # c2)"
    and l: "length k1 = lowerBound n key" "length v1 = lowerBound n key" "length c1 = lowerBound n key"
      "length v2 = length k2" "length c2 = length k2" and c: "shape t h c" "t - 1 \<le> length (keys c)"
    and io: "inorder n = before k1 v1 c1 @ inorder c @ after k2 v2 c2"
    and less: "all_less (before k1 v1 c1) key"
    and gr: "\<not> key_at n (lowerBound n key) key \<longrightarrow> all_greater (after k2 v2 c2) key"
    and ka: "key_at n (lowerBound n key) key \<longleftrightarrow> k2 \<noteq> [] \<and> hd k2 = key"
    and "\<forall>x \<in> set k1. x < key" "k2 \<noteq> [] \<longrightarrow> key \<le> hd k2" and sc: "ksorted (inorder c)"
    using sh so by (rule descend)
  obtain i where i: "lowerBound n key = i" "length k1 = i" "length v1 = i" "length c1 = i" using l by simp
  show ?thesis
  proof (cases "key_at n i key")
    case True
    with ka i(1) obtain k2' where k2: "k2 = key # k2'" by (cases k2) auto
    with l(4,5) obtain v v2' r c2' where v2: "v2 = v # v2'" "c2 = r # c2'" by (cases v2; cases c2) auto
    let ?xs = "before k1 v1 c1 @ inorder c" and ?ys = "inorder r @ after k2' v2' c2'"
    have "\<exists>n'. store_node n [] i v' = Inr n' \<and> shape t (Suc h) n' \<and> keys n' = keys n \<and>
        inorder n' = ?xs @ (key, v') # ?ys \<and> search_node n' key = Inr (Some ([], i))" for v'
    proof -
      let ?n' = "Node (k1 @ k2) (v1 @ v' # v2') (c1 @ c # c2)"
      have "search_node ?n' key = Inr (Some ([], i))"
        using search_here [of ?n' key] search_keys [of ?n' n] True i(1) by (simp add: n)
      then show ?thesis using i(2-4) sh by (auto simp: n k2 v2 vec_simps inorder_at_child)
    qed
    moreover have "deref_node n [] i = Inr v" using i(2-4) by (simp add: n v2 vec_simps)
    moreover have "search_node n key = Inr (Some ([], i))" using search_here True unfolding i(1) [symmetric] .
    moreover have "inorder n = ?xs @ (key, v) # ?ys" by (simp add: io k2 v2)
    ultimately show ?thesis unfolding search_ok_def by blast
  next
    case False
    have ni: "children n ! i = c" "i < length (children n)" using i(4) by (simp_all add: n nth_append)
    have s: "search_node n key = bind_result (search_node c key) (\<lambda>r.
        Inr (map_option (\<lambda>(path, j). (i # path, j)) r))"
      using search_down [of n key c] False i(1) ni by (simp add: vec_at_def n isLeaf_def)
    from IH [OF c(1) sc] show ?thesis unfolding search_ok_def
    proof (elim disjE exE conjE, goal_cases)
      case 1
      with False gr less i(1) have "key \<notin> fst ` set (inorder n)"
        unfolding io by (auto dest: not_in_all_less not_in_all_greater)
      with 1 s show ?case by simp
    next
      case (2 path j xs v ys)
      have "\<exists>n'. store_node n (i # path) j v' = Inr n' \<and> shape t (Suc h) n' \<and> keys n' = keys n \<and>
          inorder n' = (before k1 v1 c1 @ xs) @ (key, v') # ys @ after k2 v2 c2 \<and>
          search_node n' key = Inr (Some (i # path, j))" for v'
      proof -
        from 2(4) obtain c' where c': "store_node c path j v' = Inr c'" "shape t h c'" "keys c' = keys c"
          "inorder c' = xs @ (key, v') # ys" "search_node c' key = Inr (Some (path, j))" by blast
        let ?n' = "Node (k1 @ k2) (v1 @ v2) (c1 @ c' # c2)"
        have "shape t (Suc h) ?n'"
          by (rule shape_replace_child [OF sh [unfolded n] c'(2)]) (use c c'(3) in simp)
        moreover have "lowerBound ?n' key = i" "\<not> key_at ?n' i key"
          using search_keys [of ?n' n] False i(1) by (simp_all add: n)
        then have "search_node ?n' key = Inr (Some (i # path, j))"
          using search_down [of ?n' key c'] i(4) c'(5) by (simp add: isLeaf_def vec_at_def nth_append)
        ultimately show ?thesis using c'(1-4) ni i by (auto simp: vec_at_def n set_child_at inorder_at_child)
      qed
      moreover have "deref_node n (i # path) j = Inr v" using 2(3) ni by (simp add: vec_at_def)
      moreover have "search_node n key = Inr (Some (i # path, j))" using s 2(1) by simp
      moreover have "inorder n = (before k1 v1 c1 @ xs) @ (key, v) # ys @ after k2 v2 c2" by (simp add: io 2)
      ultimately show ?case by blast
    qed
  qed
qed

lemma search_node_correct: "shape t h n \<Longrightarrow> ksorted (inorder n) \<Longrightarrow> search_ok t h key n"
  by (induction h arbitrary: n) (simp_all add: search_ok_leaf search_ok_internal)

lemma btree_search_correct:
  assumes inv: "btree_inv bt"
  shows "btree_search bt key = Inr None \<and> map_of (entries bt) key = None \<or>
    (\<exists>p v. btree_search bt key = Inr (Some p) \<and> map_of (entries bt) key = Some v \<and> btree_deref bt p = Inr v \<and>
      (\<forall>v'. \<exists>bt'. btree_store bt p v' = Inr bt' \<and> btree_inv bt' \<and> min_degree bt' = min_degree bt \<and>
         entries bt' = upd_entry key v' (entries bt) \<and> btree_search bt' key = Inr (Some p)))"
proof (cases "root bt")
  case None
  then show ?thesis by (simp add: btree_search_def entries_def)
next
  case (Some r)
  let ?t = "min_degree bt"
  from inv Some obtain h where t: "2 \<le> ?t" and r: "shape ?t h r" "keys r \<noteq> []" "ksorted (inorder r)"
    and sz: "btree_size bt = length (inorder r)"
    by (auto simp: btree_inv_def entries_def)
  from search_node_correct [OF r(1,3), of key] show ?thesis unfolding search_ok_def
  proof (elim disjE exE conjE, goal_cases)
    case 1
    then show ?case by (simp add: btree_search_def entries_def Some map_of_eq_None_iff)
  next
    case (2 path j xs v ys)
    have "\<exists>bt'. btree_store bt (path, j) v' = Inr bt' \<and> btree_inv bt' \<and> min_degree bt' = min_degree bt \<and>
        entries bt' = upd_entry key v' (entries bt) \<and> btree_search bt' key = Inr (Some (path, j))" for v'
    proof -
      from 2(4) obtain r' where r': "store_node r path j v' = Inr r'" "shape ?t h r'" "keys r' = keys r"
        "inorder r' = xs @ (key, v') # ys" "search_node r' key = Inr (Some (path, j))" by blast
      have e: "inorder r' = upd_entry key v' (inorder r)"
        using upd_entry_at [of xs key v ys v'] r(3) by (simp add: r'(4) 2(2))
      with r'(1-3,5) r t sz show ?thesis
        by (auto simp: btree_store_def btree_search_def Some btree_inv_def entries_def)
    qed
    moreover have "map_of (entries bt) key = Some v"
      using map_of_is_SomeI [OF ksorted_distinct [OF r(3)], of key v] by (simp add: entries_def Some 2(2))
    moreover have "btree_search bt key = Inr (Some (path, j))" "btree_deref bt (path, j) = Inr v"
      using 2(1,3) by (simp_all add: btree_search_def btree_deref_def Some)
    ultimately show ?case by blast
  qed
qed

lemma btree_contains_correct:
  "btree_inv bt \<Longrightarrow> btree_contains bt key = Inr (key \<in> dom (map_of (entries bt)))"
  using btree_search_correct [of bt key] by (auto simp: btree_contains_def)

section \<open>In-order traversal\<close>

lemma weave_nth:
  "length xs = Suc (length es) \<Longrightarrow>
     weave xs es = concat (map (\<lambda>i. xs ! i @ [es ! i]) [0..<length es]) @ last xs"
proof (induction es arbitrary: xs)
  case Nil
  then show ?case by (cases xs) auto
next
  case (Cons e es)
  then obtain x xs' where xs: "xs = x # xs'" "length xs' = Suc (length es)" by (cases xs) auto
  then have "last xs = last xs'" by (cases xs') auto
  moreover have "concat (map (\<lambda>i. xs ! i @ [(e # es) ! i]) [0..<length (e # es)]) =
      x @ e # concat (map (\<lambda>i. xs' ! i @ [es ! i]) [0..<length es])"
    unfolding list.size(4) add_Suc_right add_0_right map_upt_Suc by (simp add: xs(1))
  ultimately show ?case using Cons.IH [OF xs(2)] by (simp add: xs(1))
qed

lemma inOrder_leaf:
  assumes "length vs = length ks"
  shows "inOrder (Node ks vs []) = Inr (zip ks vs)"
proof -
  have "zip ks vs = map (\<lambda>i. (ks ! i, vs ! i)) [0..<length ks]"
    using assms by (intro nth_equalityI) auto
  moreover have "map_result (\<lambda>i. bind_result (vec_at ks i) (\<lambda>k. bind_result (vec_at vs i) (\<lambda>v. Inr [(k, v)]))) [0..<length ks] =
      Inr (map (\<lambda>i. [(ks ! i, vs ! i)]) [0..<length ks])"
    by (rule map_result_Inr) (use assms in \<open>simp add: vec_at_def\<close>)
  moreover have "concat (map (\<lambda>i. [f i]) xs) = map f xs" for f :: "nat \<Rightarrow> 'a \<times> 'b" and xs by (induction xs) auto
  ultimately show ?thesis by (subst inOrder.simps) (simp add: isLeaf_def)
qed

lemma inOrder_correct: "shape t h n \<Longrightarrow> inOrder n = Inr (inorder n)"
proof (induction h arbitrary: n)
  case 0
  then show ?case by (cases n) (auto simp: inOrder_leaf)
next
  case (Suc h)
  then obtain ks vs cs where n: "n = Node ks vs cs" and l: "length cs = Suc (length ks)" "length vs = length ks"
    and sub: "\<forall>c \<in> set cs. shape t h c" by (cases n) auto
  have IH: "inOrder (cs ! i) = Inr (inorder (cs ! i))" if "i < length cs" for i
    using Suc.IH sub that by simp
  have ne: "cs \<noteq> []" using l by auto
  let ?g = "\<lambda>i. inorder (cs ! i) @ [(ks ! i, vs ! i)]"
  have "map_result (\<lambda>i. bind_result (bind_result (vec_at cs i) inOrder) (\<lambda>l.
      bind_result (vec_at ks i) (\<lambda>k. bind_result (vec_at vs i) (\<lambda>v. Inr (l @ [(k, v)]))))) [0..<length ks] =
      Inr (map ?g [0..<length ks])"
    by (rule map_result_Inr) (use l IH in \<open>simp add: vec_at_def\<close>)
  moreover have g: "map ?g [0..<length ks] = map (\<lambda>i. map inorder cs ! i @ [zip ks vs ! i]) [0..<length ks]"
    using l by simp
  have "concat (map ?g [0..<length ks]) @ inorder (last cs) = inorder n"
    unfolding g using weave_nth [of "map inorder cs" "zip ks vs"] l ne
    by (simp add: n inorder.simps last_map)
  moreover have "inOrder (last cs) = Inr (inorder (last cs))" using IH [of "length ks"] l ne by (simp add: last_conv_nth)
  ultimately show ?case using l ne
    by (subst inOrder.simps) (simp add: n isLeaf_def vec_at_def last_conv_nth)
qed

lemma forEachInOrder_correct: "btree_inv bt \<Longrightarrow> forEachInOrder bt = Inr (entries bt)"
  by (auto simp: forEachInOrder_def btree_inv_def entries_def inOrder_correct split: option.splits)

section \<open>Range visits\<close>

text \<open>One round of the loop: the child, then the separator unless it is past the end of the range.\<close>

lemma rangeLoop_round:
  assumes "n = Node (k1 @ k2) (v1 @ v2) cs" and "length k1 = i" and "length v1 = i"
  shows "rangeLoop n lo hi i =
    bind_result (if isLeaf n then Inr [] else
      bind_result (vec_at cs i) (\<lambda>c. rangeLoop c lo hi (lowerBound c lo))) (\<lambda>l.
    if k2 = [] \<or> hi < hd k2 then Inr l
    else bind_result (vec_at v2 0) (\<lambda>v.
      bind_result (rangeLoop n lo hi (i + 1)) (\<lambda>rest. Inr (l @ (hd k2, v) # rest))))"
  using assms by (subst rangeLoop.simps, cases k2) (auto simp: nth_append vec_at_def intro!: bind_result_cong)

lemma rangeLoop_leaf:
  "n = Node (k1 @ k2) (v1 @ v2) [] \<Longrightarrow> length k1 = i \<Longrightarrow> length v1 = i \<Longrightarrow> length v2 = length k2 \<Longrightarrow>
     k2 \<noteq> [] \<longrightarrow> lo \<le> hd k2 \<Longrightarrow> ksorted (zip k2 v2) \<Longrightarrow>
     rangeLoop n lo hi i = Inr (filter (in_range lo hi) (zip k2 v2))"
proof (induction k2 arbitrary: k1 v1 v2 i)
  case Nil
  then show ?case unfolding rangeLoop_round [OF Nil.prems(1-3)] by (simp add: isLeaf_def)
next
  case (Cons k k2)
  then obtain v v2' where v2: "v2 = v # v2'" by (cases v2) auto
  have gr: "all_greater (zip k2 v2') k" using Cons.prems(6) by (auto simp: v2 ksorted_Cons all_greater_def)
  have "k2 \<noteq> [] \<longrightarrow> lo \<le> hd k2"
    using gr Cons.prems(4,5) by (cases k2; cases v2') (auto simp: v2)
  then have IH: "rangeLoop n lo hi (i + 1) = Inr (filter (in_range lo hi) (zip k2 v2'))"
    using Cons.prems by (intro Cons.IH [of "k1 @ [k]" "v1 @ [v]"]) (auto simp: v2 ksorted_Cons)
  have leaf: "isLeaf n" using Cons.prems(1) by (simp add: isLeaf_def)
  have "filter (in_range lo hi) (zip k2 v2') = []" if "hi < k" using filter_above [OF gr that] .
  then show ?case unfolding rangeLoop_round [OF Cons.prems(1-3)] IH using Cons.prems(5)
    by (auto simp: leaf v2 vec_at_def)
qed

lemma rangeLoop_internal:
  assumes "\<And>c. c \<in> set (children n) \<Longrightarrow>
    rangeLoop c lo hi (lowerBound c lo) = Inr (filter (in_range lo hi) (inorder c))"
  shows "n = Node (k1 @ k2) (v1 @ v2) (c1 @ c # c2) \<Longrightarrow> length k1 = i \<Longrightarrow> length v1 = i \<Longrightarrow> length c1 = i \<Longrightarrow>
     length v2 = length k2 \<Longrightarrow> length c2 = length k2 \<Longrightarrow> k2 \<noteq> [] \<longrightarrow> lo \<le> hd k2 \<Longrightarrow>
     ksorted (after k2 v2 c2) \<Longrightarrow>
     rangeLoop n lo hi i = Inr (filter (in_range lo hi) (inorder c @ after k2 v2 c2))"
proof (induction k2 arbitrary: k1 v1 v2 c1 c c2 i)
  case Nil
  have "rangeLoop c lo hi (lowerBound c lo) = Inr (filter (in_range lo hi) (inorder c))"
    using assms Nil.prems(1) by simp
  then show ?case unfolding rangeLoop_round [OF Nil.prems(1-3)] using Nil.prems
    by (auto simp: isLeaf_def vec_at_def nth_append)
next
  case (Cons k k2)
  from Cons.prems(5,6) obtain v v2' d c2' where v2: "v2 = v # v2'" "c2 = d # c2'" by (cases v2; cases c2) auto
  have sub: "rangeLoop c lo hi (lowerBound c lo) = Inr (filter (in_range lo hi) (inorder c))"
    using assms Cons.prems(1) by simp
  have gr: "all_greater (inorder d @ after k2 v2' c2') k" and so: "ksorted (after k2 v2' c2')"
    using Cons.prems(8) by (auto simp: v2 ksorted_Cons ksorted_append all_greater_def)
  have "k2 \<noteq> [] \<longrightarrow> k < hd k2" using gr Cons.prems(5,6) by (intro after_hd) (auto simp: v2)
  then have "k2 \<noteq> [] \<longrightarrow> lo \<le> hd k2" using Cons.prems(7) by auto
  then have IH: "rangeLoop n lo hi (i + 1) = Inr (filter (in_range lo hi) (inorder d @ after k2 v2' c2'))"
    using Cons.prems so by (intro Cons.IH [of "k1 @ [k]" "v1 @ [v]" v2' "c1 @ [c]" d c2']) (auto simp: v2)
  have "filter (in_range lo hi) (inorder d @ after k2 v2' c2') = []" if "hi < k" using filter_above [OF gr that] .
  moreover have "vec_at (c1 @ c # c2) i = Inr c" "\<not> isLeaf n"
    using Cons.prems(1,4) by (simp_all add: isLeaf_def vec_at_def nth_append)
  ultimately show ?case unfolding rangeLoop_round [OF Cons.prems(1-3)] IH using Cons.prems(7)
    by (auto simp: vec_at_def [of v2] v2 sub)
qed

lemma rangeVisit_correct:
  "shape t h n \<Longrightarrow> ksorted (inorder n) \<Longrightarrow> rangeVisit n lo hi = Inr (filter (in_range lo hi) (inorder n))"
  unfolding rangeVisit_def
proof (induction h arbitrary: n)
  case 0
  obtain k1 k2 v1 v2 where n: "n = Node (k1 @ k2) (v1 @ v2) []"
    and l: "length k1 = lowerBound n lo" "length v1 = lowerBound n lo" "length v2 = length k2"
    and io: "inorder n = zip k1 v1 @ zip k2 v2" and less: "all_less (zip k1 v1) lo"
    and gr: "\<not> key_at n (lowerBound n lo) lo \<longrightarrow> all_greater (zip k2 v2) lo"
    and ka: "key_at n (lowerBound n lo) lo \<longleftrightarrow> k2 \<noteq> [] \<and> hd k2 = lo"
    using 0 by (rule descend_leaf)
  have "ksorted (zip k2 v2)" using 0(2) unfolding io by (simp add: ksorted_append)
  moreover have "k2 \<noteq> [] \<longrightarrow> lo \<le> hd k2" using gr ka l(3) by (cases k2; cases v2) auto
  ultimately show ?case
    using rangeLoop_leaf [OF n l(1,2,3)] filter_below [OF less] by (simp add: io)
next
  case (Suc h)
  obtain k1 k2 v1 v2 c1 c c2 where n: "n = Node (k1 @ k2) (v1 @ v2) (c1 @ c # c2)"
    and l: "length k1 = lowerBound n lo" "length v1 = lowerBound n lo" "length c1 = lowerBound n lo"
      "length v2 = length k2" "length c2 = length k2" and "shape t h c" "t - 1 \<le> length (keys c)"
    and io: "inorder n = before k1 v1 c1 @ inorder c @ after k2 v2 c2"
    and less: "all_less (before k1 v1 c1) lo"
    and "\<not> key_at n (lowerBound n lo) lo \<longrightarrow> all_greater (after k2 v2 c2) lo"
    and "key_at n (lowerBound n lo) lo \<longleftrightarrow> k2 \<noteq> [] \<and> hd k2 = lo"
    and "\<forall>x \<in> set k1. x < lo" and lb: "k2 \<noteq> [] \<longrightarrow> lo \<le> hd k2" and "ksorted (inorder c)"
    using Suc.prems by (rule descend)
  have sub: "rangeLoop c lo hi (lowerBound c lo) = Inr (filter (in_range lo hi) (inorder c))"
    if c: "c \<in> set (children n)" for c
  proof (rule Suc.IH)
    show "shape t h c" using shape_children [OF Suc.prems(1)] c by blast
    from c obtain i where i: "i \<le> length (keys n)" "children n ! i = c"
      using shape_children [OF Suc.prems(1)] by (metis Suc_eq_plus1 in_set_conv_nth less_Suc_eq_le)
    obtain k1 k2 v1 v2 c1 d c2 where n: "n = Node (k1 @ k2) (v1 @ v2) (c1 @ d # c2)"
      and l: "length k1 = i" "length v1 = i" "length c1 = i" "length v2 = length k2" "length c2 = length k2"
      and "shape t h d" "t - 1 \<le> length (keys d)"
      using Suc.prems(1) i(1) by (rule shape_Suc_split)
    then have "d = c" using i(2) by (simp add: nth_append)
    with Suc.prems(2) l show "ksorted (inorder c)"
      using inorder_at_child [of k1 c1 v1 k2 v2 d c2] by (simp add: n ksorted_append)
  qed
  have "ksorted (after k2 v2 c2)" using Suc.prems(2) unfolding io by (simp add: ksorted_append)
  from rangeLoop_internal [OF sub n l lb this] show ?case
    using filter_below [OF less] by (simp add: io)
qed

lemma forEachRange_correct:
  "btree_inv bt \<Longrightarrow> forEachRange bt lo hi = Inr (filter (in_range lo hi) (entries bt))"
  by (auto simp: forEachRange_def btree_inv_def entries_def rangeVisit_correct split: option.splits)

section \<open>Height\<close>

lemma node_height_shape: "shape t h n \<Longrightarrow> node_height n = Suc h"
proof (induction h arbitrary: n)
  case 0
  then show ?case by (subst node_height.simps) (simp add: shape_isLeaf)
next
  case (Suc h)
  from shape_children [OF Suc.prems] have "shape t h (children n ! 0)" by auto
  with Suc shape_isLeaf [OF Suc.prems] show ?case by (subst node_height.simps) simp
qed

lemma length_weave: "length (weave xs es) = length (concat xs) + length es"
  by (induction xs es rule: weave.induct) auto

lemma length_inorder:
  "shape t (Suc h) n \<Longrightarrow> length (inorder n) = sum_list (map (\<lambda>c. length (inorder c)) (children n)) + length (keys n)"
  by (cases n) (auto simp: inorder.simps length_weave length_concat comp_def)

text \<open>A node that holds \<open>k\<close> keys and sits \<open>h\<close> levels above the leaves has at least \<open>(k + 1) t\<^sup>h - 1\<close> entries.\<close>

lemma entries_lower_bound:
  assumes t: "1 \<le> t"
  shows "shape t h n \<Longrightarrow> (length (keys n) + 1) * t ^ h \<le> length (inorder n) + 1"
proof (induction h arbitrary: n)
  case 0
  then show ?case by (cases n) simp
next
  case (Suc h)
  have ge: "t * t ^ h \<le> length (inorder c) + 1" if "c \<in> set (children n)" for c
  proof -
    from that shape_children [OF Suc.prems] have c: "shape t h c" "t \<le> length (keys c) + 1" by auto
    from c(2) have "t * t ^ h \<le> (length (keys c) + 1) * t ^ h" by (rule mult_right_mono) simp
    with Suc.IH [OF c(1)] show ?thesis by linarith
  qed
  have "length cs * (t * t ^ h) \<le> sum_list (map (\<lambda>c. length (inorder c)) cs) + length cs"
    if "set cs \<subseteq> set (children n)" for cs
    using that by (induction cs) (use ge in \<open>force+\<close>)
  from this [of "children n"] show ?case
    using shape_children [OF Suc.prems] length_inorder [OF Suc.prems] by simp
qed

end
