(* ===== verification/BTree_Check.thy ===== *)
theory BTree_Check
  imports BTree_Query
begin

text \<open>
  The self-check \<open>checkInvariants\<close> decides exactly the invariant the other operations keep: it
  accepts a tree if and only if \<open>btree_inv\<close> holds of it.
\<close>

section \<open>Bounds\<close>

definition inside :: "'k::linorder option \<Rightarrow> 'k option \<Rightarrow> 'k \<Rightarrow> bool" where
  "inside lower upper k \<longleftrightarrow>
     (case lower of None \<Rightarrow> True | Some l \<Rightarrow> l < k) \<and> (case upper of None \<Rightarrow> True | Some u \<Rightarrow> k < u)"

definition within :: "'k::linorder option \<Rightarrow> 'k option \<Rightarrow> ('k \<times> 'v) list \<Rightarrow> bool" where
  "within lower upper es \<longleftrightarrow> (\<forall>e \<in> set es. inside lower upper (fst e))"

lemma within_simps [simp]:
  "within lower upper []" "within lower upper (e # es) \<longleftrightarrow> inside lower upper (fst e) \<and> within lower upper es"
  "within lower upper (es @ fs) \<longleftrightarrow> within lower upper es \<and> within lower upper fs"
  by (auto simp: within_def)

lemma checkKeys_iff:
  "checkKeys ks lower upper \<longleftrightarrow> sorted_wrt (<) ks \<and> (\<forall>k \<in> set ks. inside lower upper k)"
proof -
  have "(\<forall>i < length ks. 0 < i \<longrightarrow> ks ! (i - 1) < ks ! i) \<longleftrightarrow> (\<forall>i. Suc i < length ks \<longrightarrow> ks ! i < ks ! Suc i)"
    by (metis Suc_pred diff_Suc_1 zero_less_Suc)
  also have "\<dots> \<longleftrightarrow> sorted_wrt (<) ks" by (subst sorted_wrt_iff_nth_Suc_transp) (auto intro: transpI)
  finally show ?thesis
    using all_set_conv_all_nth [of ks "inside lower upper"]
    unfolding checkKeys_def list_all_iff inside_def by auto
qed

lemma ksorted_zip: "length vs = length ks \<Longrightarrow> ksorted (zip ks vs) \<longleftrightarrow> sorted_wrt (<) ks"
  by (simp add: ksorted_def)

lemma within_zip: "length vs = length ks \<Longrightarrow> within lower upper (zip ks vs) \<longleftrightarrow> (\<forall>k \<in> set ks. inside lower upper k)"
  by (induction vs ks rule: list_induct2) auto

text \<open>A separator cuts the requirement on a node into one on each side.\<close>

lemma cut_at_separator:
  "ksorted (xs @ (k, v) # ys) \<and> within lower upper (xs @ (k, v) # ys) \<longleftrightarrow>
     ksorted xs \<and> within lower (Some k) xs \<and> inside lower upper k \<and> ksorted ys \<and> within (Some k) upper ys"
proof -
  have "within lower upper ys" if "within (Some k) upper ys" "inside lower upper k"
    using that by (auto simp: within_def inside_def split: option.splits intro: less_trans)
  moreover have "within lower upper xs" if "within lower (Some k) xs" "inside lower upper k"
    using that by (auto simp: within_def inside_def split: option.splits intro: less_trans)
  moreover have "within lower (Some k) xs" if "within lower upper xs" "\<forall>x \<in> set xs. fst x < k"
    using that by (auto simp: within_def inside_def)
  moreover have "within (Some k) upper ys" if "within lower upper ys" "\<forall>y \<in> set ys. k < fst y"
    using that by (auto simp: within_def inside_def)
  moreover have "\<forall>x \<in> set xs. fst x < k" if "within lower (Some k) xs"
    using that by (auto simp: within_def inside_def)
  moreover have "\<forall>y \<in> set ys. k < fst y" if "within (Some k) upper ys"
    using that by (auto simp: within_def inside_def)
  ultimately show ?thesis by (auto simp: ksorted_append ksorted_Cons intro: less_trans)
qed

section \<open>What the loop over the children checks\<close>

definition child_ok :: "nat \<Rightarrow> nat \<Rightarrow> 'k::linorder option \<Rightarrow> 'k option \<Rightarrow> ('k, 'v) node \<Rightarrow> bool" where
  "child_ok t h lower upper c \<longleftrightarrow> shape t h c \<and> t - 1 \<le> length (keys c) \<and>
     ksorted (inorder c) \<and> within lower upper (inorder c)"

fun kids_ok :: "nat \<Rightarrow> nat \<Rightarrow> 'k::linorder option \<Rightarrow> 'k option \<Rightarrow> ('k, 'v) node list \<Rightarrow> 'k list \<Rightarrow> bool" where
  "kids_ok t h lower upper [c] [] \<longleftrightarrow> child_ok t h lower upper c"
| "kids_ok t h lower upper (c # cs) (k # ks) \<longleftrightarrow>
     child_ok t h lower (Some k) c \<and> kids_ok t h (Some k) upper cs ks"
| "kids_ok t h lower upper cs ks \<longleftrightarrow> False"

lemma kids_ok_iff:
  "length cs = Suc (length ks) \<Longrightarrow> length vs = length ks \<Longrightarrow>
     kids_ok t h lower upper cs ks \<and> sorted_wrt (<) ks \<and> (\<forall>k \<in> set ks. inside lower upper k) \<longleftrightarrow>
     (\<forall>c \<in> set cs. shape t h c \<and> t - 1 \<le> length (keys c)) \<and>
     ksorted (weave (map inorder cs) (zip ks vs)) \<and> within lower upper (weave (map inorder cs) (zip ks vs))"
proof (induction ks arbitrary: lower cs vs)
  case Nil
  then obtain c where "cs = [c]" by (cases cs) auto
  then show ?case by (auto simp: child_ok_def)
next
  case (Cons k ks)
  then obtain c cs' v vs' where cs: "cs = c # cs'" "vs = v # vs'" by (cases cs; cases vs) auto
  let ?W = "weave (map inorder cs') (zip ks vs')"
  have b: "sorted_wrt (<) (k # ks) \<and> (\<forall>x \<in> set (k # ks). inside lower upper x) \<longleftrightarrow>
      inside lower upper k \<and> sorted_wrt (<) ks \<and> (\<forall>x \<in> set ks. inside (Some k) upper x)"
    by (auto simp: inside_def split: option.splits intro: less_trans)
  have "kids_ok t h lower upper cs (k # ks) \<and> sorted_wrt (<) (k # ks) \<and> (\<forall>x \<in> set (k # ks). inside lower upper x) \<longleftrightarrow>
      child_ok t h lower (Some k) c \<and> inside lower upper k \<and>
      (kids_ok t h (Some k) upper cs' ks \<and> sorted_wrt (<) ks \<and> (\<forall>x \<in> set ks. inside (Some k) upper x))"
    unfolding b by (auto simp: cs)
  also have "\<dots> \<longleftrightarrow> child_ok t h lower (Some k) c \<and> inside lower upper k \<and>
      (\<forall>c \<in> set cs'. shape t h c \<and> t - 1 \<le> length (keys c)) \<and> ksorted ?W \<and> within (Some k) upper ?W"
    using Cons.IH [of cs' vs' "Some k"] Cons.prems by (simp add: cs)
  also have "\<dots> \<longleftrightarrow> (\<forall>c \<in> set cs. shape t h c \<and> t - 1 \<le> length (keys c)) \<and>
      (ksorted (inorder c @ (k, v) # ?W) \<and> within lower upper (inorder c @ (k, v) # ?W))"
    unfolding cut_at_separator by (auto simp: child_ok_def cs)
  finally show ?case by (simp add: cs)
qed

lemma kids_ok_length: "kids_ok t h lower upper cs ks \<Longrightarrow> length cs = Suc (length ks)"
  by (induction t h lower upper cs ks rule: kids_ok.induct) auto

section \<open>The node check\<close>

definition node_ok :: "nat \<Rightarrow> nat \<Rightarrow> bool \<Rightarrow> 'k::linorder option \<Rightarrow> 'k option \<Rightarrow> ('k, 'v) node \<Rightarrow> bool" where
  "node_ok t h isRoot lower upper n \<longleftrightarrow> shape t h n \<and> (if isRoot then keys n \<noteq> [] else t - 1 \<le> length (keys n)) \<and>
     ksorted (inorder n) \<and> within lower upper (inorder n)"

text \<open>The depth of the leaves seen so far agrees with leaves at depth \<open>d\<close>.\<close>

abbreviation leaves_at :: "int \<Rightarrow> int \<Rightarrow> bool" where
  "leaves_at leafDepth d \<equiv> leafDepth = -1 \<or> leafDepth = d"

lemma checkNode_leaf:
  "checkNode t (Node ks vs []) d isRoot lower upper ld counted = (True, ld', counted') \<longleftrightarrow>
     node_ok t 0 isRoot lower upper (Node ks vs []) \<and> leaves_at ld d \<and> ld' = d \<and> counted' = counted + length ks"
  by (auto simp: Let_def checkKeys_iff node_ok_def ksorted_zip within_zip)

lemma shape_internal_iff:
  "shape t h (Node ks vs cs) \<and> cs \<noteq> [] \<longleftrightarrow> (\<exists>g. h = Suc g \<and> shape t (Suc g) (Node ks vs cs))"
  by (cases h) auto

lemma checkNode_internal:
  assumes "cs \<noteq> []"
  shows "checkNode t (Node ks vs cs) d isRoot lower upper ld counted = (True, ld', counted') \<longleftrightarrow>
     length vs = length ks \<and> length ks \<le> 2 * t - 1 \<and> (if isRoot then ks \<noteq> [] else t - 1 \<le> length ks) \<and>
     checkKeys ks lower upper \<and> length cs = Suc (length ks) \<and>
     checkChildren t cs ks 0 d lower upper ld (counted + length ks) = (True, ld', counted')"
  using assms by (auto simp: Let_def)

lemma checkChildren_Cons:
  "checkChildren t (c # cs) ks i d lower upper ld counted = (True, ld', counted') \<longleftrightarrow>
     (\<exists>ld1 counted1. checkNode t c (d + 1) False (if i = 0 then lower else Some (ks ! (i - 1)))
        (if i = length ks then upper else Some (ks ! i)) ld counted = (True, ld1, counted1) \<and>
      checkChildren t cs ks (i + 1) d lower upper ld1 counted1 = (True, ld', counted'))"
  by (auto simp: Let_def split: prod.splits if_splits)

lemma node_ok_internal:
  "node_ok t (Suc h) isRoot lower upper (Node ks vs cs) \<longleftrightarrow>
     length vs = length ks \<and> length ks \<le> 2 * t - 1 \<and> (if isRoot then ks \<noteq> [] else t - 1 \<le> length ks) \<and>
     checkKeys ks lower upper \<and> length cs = Suc (length ks) \<and> kids_ok t h lower upper cs ks"
  using kids_ok_iff [of cs ks vs t h lower upper]
  by (auto simp: node_ok_def checkKeys_iff inorder.simps)

lemma child_ok_node_ok: "child_ok t h lower upper c \<longleftrightarrow> node_ok t h False lower upper c"
  by (simp add: child_ok_def node_ok_def)

lemma checkNode_correct:
  fixes n :: "('k::linorder, 'v) node" and cs :: "('k, 'v) node list"
  shows "0 \<le> d \<Longrightarrow> checkNode t n d isRoot lower upper ld counted = (True, ld', counted') \<longleftrightarrow>
     (\<exists>h. node_ok t h isRoot lower upper n \<and> leaves_at ld (d + int h) \<and> ld' = d + int h \<and>
        counted' = counted + length (inorder n))"
    and "0 \<le> d \<Longrightarrow> length cs + i = Suc (length ks) \<Longrightarrow> cs \<noteq> [] \<Longrightarrow>
     checkChildren t cs ks i d lower upper ld counted = (True, ld', counted') \<longleftrightarrow>
     (\<exists>h. kids_ok t h (if i = 0 then lower else Some (ks ! (i - 1))) upper cs (drop i ks) \<and>
        leaves_at ld (d + 1 + int h) \<and> ld' = d + 1 + int h \<and>
        counted' = counted + sum_list (map (\<lambda>c. length (inorder c)) cs))"
proof (induction t n d isRoot lower upper ld counted and t cs ks i d lower upper ld counted
    arbitrary: ld' counted' and ld' counted' rule: checkNode_checkChildren.induct)
  case (1 t ks vs cs d isRoot lower upper ld counted)
  show ?case
  proof (cases "cs = []")
    case True
    have "node_ok t h isRoot lower upper (Node ks vs []) \<Longrightarrow> h = 0" for h
      by (cases h) (auto simp: node_ok_def)
    then show ?thesis unfolding True checkNode_leaf
      by (fastforce simp: node_ok_def)
  next
    case False
    have "length cs = Suc (length ks) \<Longrightarrow> length vs = length ks \<Longrightarrow> length ks \<le> 2 * t - 1 \<Longrightarrow>
        (if isRoot then ks \<noteq> [] else t - 1 \<le> length ks) \<Longrightarrow> checkKeys ks lower upper \<Longrightarrow>
        checkChildren t cs ks 0 d lower upper ld (counted + length ks) = (True, ld', counted') \<longleftrightarrow>
        (\<exists>h. kids_ok t h lower upper cs ks \<and> leaves_at ld (d + 1 + int h) \<and> ld' = d + 1 + int h \<and>
          counted' = counted + length ks + sum_list (map (\<lambda>c. length (inorder c)) cs))"
      using "1.IH" [OF refl] "1.prems" False by (auto split: if_splits)
    moreover have len: "length (inorder (Node ks vs cs)) = length ks + sum_list (map (\<lambda>c. length (inorder c)) cs)"
      if "node_ok t (Suc h) isRoot lower upper (Node ks vs cs)" for h
      using length_inorder [of t h "Node ks vs cs"] that unfolding node_ok_def by simp
    ultimately have "checkNode t (Node ks vs cs) d isRoot lower upper ld counted = (True, ld', counted') \<longleftrightarrow>
        (\<exists>h. node_ok t (Suc h) isRoot lower upper (Node ks vs cs) \<and> leaves_at ld (d + 1 + int h) \<and>
          ld' = d + 1 + int h \<and> counted' = counted + length ks + sum_list (map (\<lambda>c. length (inorder c)) cs))"
      unfolding checkNode_internal [OF False] node_ok_internal by blast
    also have "\<dots> \<longleftrightarrow> (\<exists>h. node_ok t (Suc h) isRoot lower upper (Node ks vs cs) \<and>
        leaves_at ld (d + int (Suc h)) \<and> ld' = d + int (Suc h) \<and> counted' = counted + length (inorder (Node ks vs cs)))"
      by (rule ex_cong1) (auto simp: len simp del: shape.simps)
    also have "\<dots> \<longleftrightarrow> (\<exists>h. node_ok t h isRoot lower upper (Node ks vs cs) \<and>
        leaves_at ld (d + int h) \<and> ld' = d + int h \<and> counted' = counted + length (inorder (Node ks vs cs)))"
      using False by (metis node_ok_def shape_internal_iff)
    finally show ?thesis .
  qed
next
  case (2 t ks i d lower upper ld counted)
  then show ?case by simp
next
  case (3 t c cs ks i d lower upper ld counted)
  let ?lo = "if i = 0 then lower else Some (ks ! (i - 1))"
  let ?up = "if i = length ks then upper else Some (ks ! i)"
  have d: "0 \<le> d + 1" using "3.prems" by simp
  note A = "3.IH"(1) [OF refl refl d]
  show ?case
  proof (cases "cs = []")
    case True
    with "3.prems" have i: "i = length ks" by simp
    show ?thesis unfolding checkChildren_Cons A using True i by (auto simp: child_ok_node_ok)
  next
    case False
    with "3.prems" have i: "i < length ks" "length cs + (i + 1) = Suc (length ks)" by (cases cs; simp)+
    have drop: "drop i ks = ks ! i # drop (i + 1) ks" using i by (simp add: Cons_nth_drop_Suc)
    have B: "checkChildren t cs ks (i + 1) d lower upper ld1 counted1 = (True, ld', counted') \<longleftrightarrow>
        (\<exists>h. kids_ok t h (Some (ks ! i)) upper cs (drop (i + 1) ks) \<and>
          leaves_at ld1 (d + 1 + int h) \<and> ld' = d + 1 + int h \<and>
          counted' = counted1 + sum_list (map (\<lambda>c. length (inorder c)) cs))"
      if "checkNode t c (d + 1) False ?lo ?up ld counted = (True, ld1, counted1)" for ld1 counted1
      using "3.IH"(2) [OF refl refl refl that [symmetric] refl TrueI "3.prems"(1) i(2) False] by simp
    have "checkChildren t (c # cs) ks i d lower upper ld counted = (True, ld', counted') \<longleftrightarrow>
        (\<exists>ld1 counted1 h. checkNode t c (d + 1) False ?lo ?up ld counted = (True, ld1, counted1) \<and>
          kids_ok t h (Some (ks ! i)) upper cs (drop (i + 1) ks) \<and> leaves_at ld1 (d + 1 + int h) \<and>
          ld' = d + 1 + int h \<and> counted' = counted1 + sum_list (map (\<lambda>c. length (inorder c)) cs))"
      unfolding checkChildren_Cons using B by blast
    also have "\<dots> \<longleftrightarrow> (\<exists>h. node_ok t h False ?lo (Some (ks ! i)) c \<and>
          kids_ok t h (Some (ks ! i)) upper cs (drop (i + 1) ks) \<and> leaves_at ld (d + 1 + int h) \<and>
          ld' = d + 1 + int h \<and> counted' = counted + length (inorder c) + sum_list (map (\<lambda>c. length (inorder c)) cs))"
      unfolding A using i d by auto
    finally show ?thesis unfolding drop by (simp add: child_ok_node_ok algebra_simps)
  qed
qed

lemma within_None [simp]: "within None None es"
  by (simp add: within_def inside_def)

lemma checkInvariants_iff:
  assumes "2 \<le> min_degree bt"
  shows "checkInvariants bt \<longleftrightarrow> btree_inv bt"
proof (cases "root bt")
  case None
  with assms show ?thesis by (auto simp: checkInvariants_def btree_inv_def entries_def)
next
  case (Some r)
  have "checkInvariants bt \<longleftrightarrow> (\<exists>ld. checkNode (min_degree bt) r 0 True None None (-1) 0 = (True, ld, btree_size bt))"
    by (auto simp: checkInvariants_def Some split: prod.splits)
  also have "\<dots> \<longleftrightarrow> (\<exists>h. node_ok (min_degree bt) h True None None r) \<and> btree_size bt = length (inorder r)"
    unfolding checkNode_correct(1) [OF order_refl] by auto
  also have "\<dots> \<longleftrightarrow> btree_inv bt" using assms by (auto simp: btree_inv_def entries_def node_ok_def Some)
  finally show ?thesis .
qed

end
