(* ===== verification/Ordered_Index.thy ===== *)
theory Ordered_Index
  imports Sorted_Entries
begin

text \<open>
  The contract between the ordered index and its client, the table: which operations the table
  calls and what each promises, stated on the sorted list of entries. The lemmas proved from
  the contract read the index as a finite map and follow whole sequences of operations.
\<close>

section \<open>The abstract index\<close>

text \<open>The mutations of an index, and their effect and answer on a finite map.\<close>

datatype ('k, 'v) index_op =
  Index_insert 'k 'v
| Index_remove 'k
| Index_assign 'k 'v

fun map_step :: "('k, 'v) index_op \<Rightarrow> ('k \<rightharpoonup> 'v) \<Rightarrow> bool \<times> ('k \<rightharpoonup> 'v)" where
  "map_step (Index_insert k v) m = (if m k = None then (True, m(k \<mapsto> v)) else (False, m))"
| "map_step (Index_remove k) m = (m k \<noteq> None, m(k := None))"
| "map_step (Index_assign k v) m = (if m k = None then (False, m) else (True, m(k \<mapsto> v)))"

fun map_run :: "('k, 'v) index_op list \<Rightarrow> ('k \<rightharpoonup> 'v) \<Rightarrow> bool list \<times> ('k \<rightharpoonup> 'v)" where
  "map_run [] m = ([], m)"
| "map_run (x # xs) m = (let (b, m') = map_step x m; (bs, m'') = map_run xs m' in (b # bs, m''))"

text \<open>
  The same on an implementation: an assignment is a search followed by a store through the
  pointer it returns.
\<close>

fun index_step ::
    "('m \<Rightarrow> 'k \<Rightarrow> 'v \<Rightarrow> (bool \<times> 'm) result) \<Rightarrow> ('m \<Rightarrow> 'k \<Rightarrow> (bool \<times> 'm) result) \<Rightarrow>
     ('m \<Rightarrow> 'k \<Rightarrow> 'p option result) \<Rightarrow> ('m \<Rightarrow> 'p \<Rightarrow> 'v \<Rightarrow> 'm result) \<Rightarrow>
     ('k, 'v) index_op \<Rightarrow> 'm \<Rightarrow> (bool \<times> 'm) result" where
  "index_step ins rem srch sto (Index_insert k v) m = ins m k v"
| "index_step ins rem srch sto (Index_remove k) m = rem m k"
| "index_step ins rem srch sto (Index_assign k v) m =
     bind_result (srch m k) (\<lambda>p. case p of
       None \<Rightarrow> Inr (False, m)
     | Some q \<Rightarrow> bind_result (sto m q v) (\<lambda>m'. Inr (True, m')))"

fun index_run :: "(('k, 'v) index_op \<Rightarrow> 'm \<Rightarrow> (bool \<times> 'm) result) \<Rightarrow>
    ('k, 'v) index_op list \<Rightarrow> 'm \<Rightarrow> (bool list \<times> 'm) result" where
  "index_run step [] m = Inr ([], m)"
| "index_run step (x # xs) m =
     bind_result (step x m) (\<lambda>(b, m'). bind_result (index_run step xs m') (\<lambda>(bs, m''). Inr (b # bs, m'')))"

section \<open>The contract\<close>

locale ordered_index =
  fixes inv :: "'m \<Rightarrow> bool"
    and ents :: "'m \<Rightarrow> ('k::linorder \<times> 'v) list"
    and ins :: "'m \<Rightarrow> 'k \<Rightarrow> 'v \<Rightarrow> (bool \<times> 'm) result"
    and rem :: "'m \<Rightarrow> 'k \<Rightarrow> (bool \<times> 'm) result"
    and srch :: "'m \<Rightarrow> 'k \<Rightarrow> 'p option result"
    and drf :: "'m \<Rightarrow> 'p \<Rightarrow> 'v result"
    and sto :: "'m \<Rightarrow> 'p \<Rightarrow> 'v \<Rightarrow> 'm result"
    and visit :: "'m \<Rightarrow> ('k \<times> 'v) list result"
    and range :: "'m \<Rightarrow> 'k \<Rightarrow> 'k \<Rightarrow> ('k \<times> 'v) list result"
    and sz :: "'m \<Rightarrow> nat"
  assumes sorted_ents: "inv m \<Longrightarrow> ksorted (ents m)"
    and size_ents: "inv m \<Longrightarrow> sz m = length (ents m)"
    and ins_law: "inv m \<Longrightarrow> \<exists>b m'. ins m k v = Inr (b, m') \<and> inv m' \<and> ins_spec k v (ents m) b (ents m')"
    and rem_law: "inv m \<Longrightarrow> \<exists>b m'. rem m k = Inr (b, m') \<and> inv m' \<and> del_spec k (ents m) b (ents m')"
    and srch_law: "inv m \<Longrightarrow> srch m k = Inr None \<and> map_of (ents m) k = None \<or>
      (\<exists>p v. srch m k = Inr (Some p) \<and> map_of (ents m) k = Some v \<and> drf m p = Inr v \<and>
        (\<forall>v'. \<exists>m'. sto m p v' = Inr m' \<and> inv m' \<and> ents m' = upd_entry k v' (ents m) \<and>
           srch m' k = Inr (Some p)))"
    and visit_law: "inv m \<Longrightarrow> visit m = Inr (ents m)"
    and range_law: "inv m \<Longrightarrow> range m lo hi = Inr (filter (in_range lo hi) (ents m))"
begin

lemma entry_iff: "inv m \<Longrightarrow> (k, v) \<in> set (ents m) \<longleftrightarrow> map_of (ents m) k = Some v"
  by (simp add: map_of_eq_Some_iff ksorted_distinct sorted_ents)

lemma size_map: "inv m \<Longrightarrow> sz m = card (dom (map_of (ents m)))"
  using ksorted_distinct [OF sorted_ents, of m] size_ents [of m]
  by (simp add: dom_map_of_conv_image_fst distinct_card flip: set_map)

lemma ins_fresh:
  assumes "inv m" and "map_of (ents m) k = None"
  obtains m' where "ins m k v = Inr (True, m')" "inv m'" "map_of (ents m') = (map_of (ents m))(k \<mapsto> v)"
    "ents m' = ins_entry k v (ents m)"
proof -
  from ins_law [OF assms(1), of k v] obtain b m' where
    *: "ins m k v = Inr (b, m')" "inv m'" "ins_spec k v (ents m) b (ents m')" by blast
  have "k \<notin> fst ` set (ents m)" using assms(2) by (simp add: map_of_eq_None_iff)
  then have e: "b" "ents m' = ins_entry k v (ents m)"
    using *(3) by (auto simp: ins_spec_def)
  moreover have "map_of (ents m') = (map_of (ents m))(k \<mapsto> v)"
    using map_of_ins [OF sorted_ents [OF assms(1)] \<open>k \<notin> fst ` set (ents m)\<close>] by (simp add: e)
  ultimately show ?thesis using * that by simp
qed

lemma ins_taken:
  assumes "inv m" and "map_of (ents m) k \<noteq> None"
  obtains m' where "ins m k v = Inr (False, m')" "inv m'" "ents m' = ents m"
proof -
  from ins_law [OF assms(1), of k v] obtain b m' where
    *: "ins m k v = Inr (b, m')" "inv m'" "ins_spec k v (ents m) b (ents m')" by blast
  moreover have "\<not> b" using *(3) assms(2) by (auto simp: ins_spec_def map_of_eq_None_iff)
  ultimately show ?thesis using that by (simp add: ins_spec_def)
qed

lemma rem_any:
  assumes "inv m"
  obtains m' where "rem m k = Inr (map_of (ents m) k \<noteq> None, m')" "inv m'" "map_of (ents m') = (map_of (ents m))(k := None)"
    "ents m' = del_entry k (ents m)"
proof -
  from rem_law [OF assms, of k] obtain b m' where
    *: "rem m k = Inr (b, m')" "inv m'" "del_spec k (ents m) b (ents m')" by blast
  moreover from *(3) have "b \<longleftrightarrow> map_of (ents m) k \<noteq> None" by (simp add: del_spec_def map_of_eq_None_iff)
  moreover have "map_of (ents m') = (map_of (ents m))(k := None)" using *(3) by (simp add: del_spec_def map_of_del)
  ultimately show ?thesis using that by (simp add: del_spec_def)
qed

lemma srch_None: "inv m \<Longrightarrow> map_of (ents m) k = None \<Longrightarrow> srch m k = Inr None"
  using srch_law [of m k] by auto

lemma srch_Some:
  assumes "inv m" and "map_of (ents m) k = Some v"
  obtains p where "srch m k = Inr (Some p)" "drf m p = Inr v"
    "\<And>v'. \<exists>m'. sto m p v' = Inr m' \<and> inv m' \<and> map_of (ents m') = (map_of (ents m))(k \<mapsto> v') \<and>
       ents m' = upd_entry k v' (ents m) \<and> srch m' k = Inr (Some p)"
proof -
  have "k \<in> fst ` set (ents m)" using assms(2) by (force dest: map_of_SomeD)
  then have "map_of (ents m') = (map_of (ents m))(k \<mapsto> v')" if "ents m' = upd_entry k v' (ents m)" for m' v'
    using map_of_upd that by simp
  then show ?thesis using srch_law [OF assms(1), of k] assms(2) that by fastforce
qed

text \<open>A pointer a search returned is valid, and stays so after a store through it.\<close>

lemma ptr_valid:
  "inv m \<Longrightarrow> srch m k = Inr (Some p) \<Longrightarrow> \<exists>v. map_of (ents m) k = Some v \<and> drf m p = Inr v \<and>
     (\<forall>v'. \<exists>m'. sto m p v' = Inr m' \<and> inv m' \<and> ents m' = upd_entry k v' (ents m) \<and> srch m' k = Inr (Some p))"
  using srch_law [of m k] by auto

text \<open>One operation refines the map, and so does every sequence of them.\<close>

lemma step_refines:
  assumes "inv m"
  shows "\<exists>m'. index_step ins rem srch sto x m = Inr (fst (map_step x (map_of (ents m))), m') \<and> inv m' \<and>
    map_of (ents m') = snd (map_step x (map_of (ents m)))"
proof (cases x)
  case (Index_insert k v)
  show ?thesis
  proof (cases "map_of (ents m) k")
    case None
    obtain m' where "ins m k v = Inr (True, m')" "inv m'" "map_of (ents m') = (map_of (ents m))(k \<mapsto> v)"
      using ins_fresh [OF assms None] by metis
    with Index_insert None show ?thesis by simp
  next
    case (Some w)
    then have "map_of (ents m) k \<noteq> None" by simp
    from ins_taken [OF assms this] obtain m' where "ins m k v = Inr (False, m')" "inv m'" "ents m' = ents m"
      by metis
    with Index_insert Some show ?thesis by simp
  qed
next
  case (Index_remove k)
  obtain m' where "rem m k = Inr (map_of (ents m) k \<noteq> None, m')" "inv m'"
    "map_of (ents m') = (map_of (ents m))(k := None)"
    using rem_any [OF assms] by metis
  with Index_remove show ?thesis by simp
next
  case (Index_assign k v)
  show ?thesis
  proof (cases "map_of (ents m) k")
    case None
    with assms Index_assign srch_None [of m k] show ?thesis by simp
  next
    case (Some w)
    obtain p m' where "srch m k = Inr (Some p)" "sto m p v = Inr m'" "inv m'"
      "map_of (ents m') = (map_of (ents m))(k \<mapsto> v)"
      using srch_Some [OF assms Some] by metis
    with Index_assign Some show ?thesis by simp
  qed
qed

lemma run_refines:
  "inv m \<Longrightarrow> \<exists>m'. index_run (index_step ins rem srch sto) xs m = Inr (fst (map_run xs (map_of (ents m))), m') \<and>
     inv m' \<and> map_of (ents m') = snd (map_run xs (map_of (ents m)))"
proof (induction xs arbitrary: m)
  case (Cons x xs)
  from step_refines [OF Cons.prems, of x] obtain m1 where
    1: "index_step ins rem srch sto x m = Inr (fst (map_step x (map_of (ents m))), m1)" "inv m1"
    "map_of (ents m1) = snd (map_step x (map_of (ents m)))" by blast
  with Cons.IH [OF 1(2)] show ?case by (auto simp: Let_def split: prod.splits)
qed simp

end

end
