(* ===== verification/BTree_Spec.thy ===== *)
theory BTree_Spec
  imports BTree_Check Ordered_Index
begin

text \<open>
  The B-tree implements the ordered index: the contract of \<open>ordered_index\<close> holds of the
  operations of \<^verbatim>\<open>BTree.hpp\<close>, and the properties of the tree as a whole follow.
\<close>

interpretation bt: ordered_index btree_inv entries btree_insert btree_remove btree_search btree_deref
  btree_store forEachInOrder forEachRange btree_size
proof unfold_locales
  fix bt :: "('k::linorder, 'v) btree" and k :: 'k and v :: 'v
  assume inv: "btree_inv bt"
  show "ksorted (entries bt)" "btree_size bt = length (entries bt)"
    using inv by (simp_all add: btree_inv_def)
  show "\<exists>b bt'. btree_insert bt k v = Inr (b, bt') \<and> btree_inv bt' \<and> ins_spec k v (entries bt) b (entries bt')"
    using btree_insert_correct [OF inv] by metis
  show "\<exists>b bt'. btree_remove bt k = Inr (b, bt') \<and> btree_inv bt' \<and> del_spec k (entries bt) b (entries bt')"
    using btree_remove_correct [OF inv] by metis
  show "btree_search bt k = Inr None \<and> map_of (entries bt) k = None \<or>
    (\<exists>p v. btree_search bt k = Inr (Some p) \<and> map_of (entries bt) k = Some v \<and> btree_deref bt p = Inr v \<and>
      (\<forall>v'. \<exists>bt'. btree_store bt p v' = Inr bt' \<and> btree_inv bt' \<and> entries bt' = upd_entry k v' (entries bt) \<and>
         btree_search bt' k = Inr (Some p)))"
    using btree_search_correct [OF inv, of k] by fast
  show "forEachInOrder bt = Inr (entries bt)" using inv by (rule forEachInOrder_correct)
next
  fix bt :: "('k::linorder, 'v) btree" and lo hi :: 'k
  assume inv: "btree_inv bt"
  show "forEachRange bt lo hi = Inr (filter (in_range lo hi) (entries bt))" using inv by (rule forEachRange_correct)
qed

section \<open>The tree as a map\<close>

abbreviation btree_step :: "('k::linorder, 'v) index_op \<Rightarrow> ('k, 'v) btree \<Rightarrow> (bool \<times> ('k, 'v) btree) result" where
  "btree_step \<equiv> index_step btree_insert btree_remove btree_search btree_store"

lemma new_btree_ok: "2 \<le> d \<Longrightarrow> \<exists>bt. new_btree d = Inr bt \<and> btree_inv bt \<and> entries bt = []"
  by (simp add: new_btree_def btree_inv_def entries_def)


definition demo_ops :: "(nat, nat) index_op list" where
  "demo_ops = [Index_insert 3 30, Index_insert 1 10, Index_insert 3 99, Index_assign 1 11, Index_remove 3]"


text \<open>A concrete tree of minimum degree two, on which the properties below are instantiated.\<close>

definition demo_tree :: "(nat, nat) btree" where
  "demo_tree = \<lparr>root = Some (Node [4] [40] [Node [1, 2] [10, 20] [], Node [6] [60] []]),
     min_degree = 2, btree_size = 4\<rparr>"

lemma demo_tree_entries: "entries demo_tree = [(1, 10), (2, 20), (4, 40), (6, 60)]"
  by (simp add: entries_def demo_tree_def inorder.simps)

lemma demo_tree_inv: "btree_inv demo_tree"
  unfolding btree_inv_def demo_tree_entries
  by (auto simp: demo_tree_def ksorted_def intro!: exI [of _ "1::nat"])

text \<open>
  Removal: on a tree that satisfies the invariant, \<open>remove\<close> returns normally, its flag says
  whether the key was present, exactly the entry of that key disappears from the visit order and
  the invariant still holds. In particular, no borrow or merge ever reads out of range.
\<close>

theorem btree_remove_spec:
  assumes "btree_inv bt"
  shows "\<exists>bt'. btree_remove bt key = Inr (key \<in> fst ` set (entries bt), bt') \<and> btree_inv bt' \<and>
    min_degree bt' = min_degree bt \<and> forEachInOrder bt' = Inr (filter (\<lambda>e. fst e \<noteq> key) (entries bt))"
proof -
  from btree_remove_correct [OF assms, of key] obtain b bt' where
    *: "btree_remove bt key = Inr (b, bt')" "btree_inv bt'" "min_degree bt' = min_degree bt"
    "del_spec key (entries bt) b (entries bt')" by blast
  with forEachInOrder_correct [OF *(2)] show ?thesis by (auto simp: del_spec_def del_entry_def)
qed

theorem btree_remove_spec_witness:
  "\<exists>bt'. btree_remove demo_tree 4 = Inr (True, bt') \<and> btree_inv bt' \<and> min_degree bt' = 2 \<and>
    forEachInOrder bt' = Inr [(1, 10), (2, 20), (6, 60)]"
  using btree_remove_spec [OF demo_tree_inv, of 4] unfolding demo_tree_entries by (simp add: demo_tree_def)



text \<open>
  Lookup: on a tree that satisfies the invariant, \<open>search\<close> returns the null pointer exactly for
  an absent key; otherwise the pointer reads the value stored under the key, and a store
  through it changes that value and nothing else.
\<close>

theorem btree_search_spec:
  assumes "btree_inv bt"
  shows "btree_contains bt key = Inr (key \<in> dom (map_of (entries bt))) \<and>
    (case map_of (entries bt) key of
      None \<Rightarrow> btree_search bt key = Inr None
    | Some v \<Rightarrow> \<exists>p. btree_search bt key = Inr (Some p) \<and> btree_deref bt p = Inr v \<and>
        (\<forall>w. \<exists>bt'. btree_store bt p w = Inr bt' \<and> btree_inv bt' \<and>
           map_of (entries bt') = (map_of (entries bt))(key \<mapsto> w)))"
proof (rule conjI)
  show "btree_contains bt key = Inr (key \<in> dom (map_of (entries bt)))"
    using assms by (rule btree_contains_correct)
  show "case map_of (entries bt) key of
      None \<Rightarrow> btree_search bt key = Inr None
    | Some v \<Rightarrow> \<exists>p. btree_search bt key = Inr (Some p) \<and> btree_deref bt p = Inr v \<and>
        (\<forall>w. \<exists>bt'. btree_store bt p w = Inr bt' \<and> btree_inv bt' \<and>
           map_of (entries bt') = (map_of (entries bt))(key \<mapsto> w))"
  proof (cases "map_of (entries bt) key")
    case None
    with bt.srch_None [OF assms] show ?thesis by simp
  next
    case (Some v)
    from bt.srch_Some [OF assms this] show ?thesis unfolding Some option.case by metis
  qed
qed

theorem btree_search_spec_witness:
  "btree_contains demo_tree 6 = Inr True \<and> btree_search demo_tree 5 = Inr None \<and>
   (\<exists>p. btree_search demo_tree 2 = Inr (Some p) \<and> btree_deref demo_tree p = Inr 20)"
  using btree_search_spec [OF demo_tree_inv, of 6] btree_search_spec [OF demo_tree_inv, of 5]
    btree_search_spec [OF demo_tree_inv, of 2]
  by (auto simp: demo_tree_entries)

text \<open>
  C24. Range visit: \<open>forEachRange\<close>, which skips subtrees outside the range, visits exactly the
  entries whose key lies in the closed interval, in ascending order, also when it is empty.
\<close>

theorem forEachRange_spec:
  assumes "btree_inv bt"
  shows "forEachRange bt lo hi = Inr (filter (\<lambda>e. lo \<le> fst e \<and> fst e \<le> hi) (entries bt)) \<and>
    sorted_wrt (<) (map fst (entries bt))"
  using bt.range_law [OF assms, of lo hi] bt.sorted_ents [OF assms]
  by (simp add: in_range_def ksorted_def cong: filter_cong)

theorem forEachRange_spec_witness:
  "forEachRange demo_tree 2 5 = Inr [(2, 20), (4, 40)] \<and> forEachRange demo_tree 5 2 = Inr []"
  using forEachRange_spec [OF demo_tree_inv, of 2 5] forEachRange_spec [OF demo_tree_inv, of 5 2]
  by (simp add: demo_tree_entries)

text \<open>
  C29. Height: a non-empty tree of minimum degree \<open>t\<close> and height \<open>h\<close> holds at least
  \<open>2 t\<^sup>h\<^sup>-\<^sup>1 - 1\<close> entries, so its height is logarithmic in its size.
\<close>

theorem btree_height_bound:
  assumes "btree_inv bt" and "\<not> btree_empty bt"
  shows "2 * min_degree bt ^ (btree_height bt - 1) \<le> btree_size bt + 1"
proof -
  from assms obtain r h where r: "root bt = Some r" "shape (min_degree bt) h r" "keys r \<noteq> []" "2 \<le> min_degree bt"
    "btree_size bt = length (inorder r)"
    by (auto simp: btree_inv_def entries_def btree_empty_def split: option.splits)
  have "2 * min_degree bt ^ h \<le> (length (keys r) + 1) * min_degree bt ^ h"
    using r(3) by (intro mult_right_mono) (cases "keys r"; simp)+
  also have "\<dots> \<le> btree_size bt + 1" using entries_lower_bound [OF _ r(2)] r(4,5) by simp
  finally show ?thesis using node_height_shape [OF r(2)] by (simp add: btree_height_def r(1))
qed

theorem btree_height_bound_witness:
  "btree_height demo_tree = 2 \<and> 2 * min_degree demo_tree ^ (2 - 1) \<le> btree_size demo_tree + 1"
proof -
  have "btree_height demo_tree = 2"
    by (simp add: btree_height_def demo_tree_def node_height.simps isLeaf_def)
  moreover have "\<not> btree_empty demo_tree" by (simp add: btree_empty_def demo_tree_def)
  ultimately show ?thesis using btree_height_bound [OF demo_tree_inv] by metis
qed

end
