(* ===== verification/HashMap_Inv.thy ===== *)
theory HashMap_Inv
  imports HashMap
begin

unbundle bit_operations_syntax

text \<open>
  The invariant of the hash map, and what probing finds under it. A key sits in at most one
  slot, and every slot on the way from its home index to that slot is in use; the slots in use
  stay below 70\%, so a probe always meets an empty slot.
\<close>

section \<open>Probe sequences\<close>

definition probe :: "nat \<Rightarrow> nat \<Rightarrow> nat \<Rightarrow> nat" where
  "probe len h d = (h + d) mod len"

lemma and_mask_mod: "(x::nat) AND (2 ^ n - Suc 0) = x mod 2 ^ n"
  using take_bit_eq_mask [of n x] by (simp add: take_bit_eq_mod mask_eq_exp_minus_1)

lemma homeIndex_probe: "length s = 2 ^ n \<Longrightarrow> homeIndex hf s key = probe (length s) (unat (hf key)) 0"
  by (simp add: homeIndex_def hm_mask_def probe_def and_mask_mod)

lemma next_index_probe: "length s = 2 ^ n \<Longrightarrow> next_index s (probe (length s) h d) = probe (length s) h (Suc d)"
  by (simp add: next_index_def hm_mask_def probe_def and_mask_mod mod_Suc_eq)

lemma probe_less: "length s = 2 ^ n \<Longrightarrow> probe (length s) h d < length s"
  by (simp add: probe_def)

text \<open>As many probes as there are slots visit every slot.\<close>

lemma probe_covers:
  assumes "i < len"
  shows "\<exists>d < len. probe len h d = i"
proof (intro exI conjI)
  let ?d = "(i + (len - h mod len)) mod len"
  show "?d < len" using assms by simp
  have lt: "h mod len < len" using assms by simp
  have "(h + ?d) mod len = (h mod len + (i + (len - h mod len))) mod len" by (simp add: mod_simps)
  also have "h mod len + (i + (len - h mod len)) = i + len" using lt by linarith
  finally show "probe len h ?d = i" using assms by (simp add: probe_def)
qed

section \<open>The slots\<close>

definition slot_wf :: "('k, 'v) Slot \<Rightarrow> bool" where
  "slot_wf slot \<longleftrightarrow> (state slot = OCCUPIED \<longleftrightarrow> kv slot \<noteq> None)"

definition has_key :: "'k \<Rightarrow> ('k, 'v) Slot \<Rightarrow> bool" where
  "has_key key slot \<longleftrightarrow> (\<exists>v. kv slot = Some (key, v))"

lemma holds_key_wf: "slot_wf slot \<Longrightarrow> holds_key slot key = Inr (has_key key slot)"
  by (cases "kv slot") (auto simp: holds_key_def slot_wf_def has_key_def)

lemma has_key_not_empty: "slot_wf slot \<Longrightarrow> has_key key slot \<Longrightarrow> state slot = OCCUPIED"
  by (auto simp: slot_wf_def has_key_def)

text \<open>The slot \<open>i\<close> is reached from the home index of the key over slots in use.\<close>

definition reach :: "('k \<Rightarrow> 64 word) \<Rightarrow> ('k, 'v) Slot list \<Rightarrow> 'k \<Rightarrow> nat \<Rightarrow> bool" where
  "reach hf s key i \<longleftrightarrow> (\<exists>d < length s. i = probe (length s) (unat (hf key)) d \<and>
     (\<forall>e < d. state (s ! probe (length s) (unat (hf key)) e) \<noteq> EMPTY))"

definition slots_ok :: "('k \<Rightarrow> 64 word) \<Rightarrow> ('k, 'v) Slot list \<Rightarrow> bool" where
  "slots_ok hf s \<longleftrightarrow> (\<exists>n. length s = 2 ^ n) \<and> (\<forall>x \<in> set s. slot_wf x) \<and>
     (\<forall>i < length s. \<forall>j < length s. \<forall>k. has_key k (s ! i) \<and> has_key k (s ! j) \<longrightarrow> i = j) \<and>
     (\<forall>i < length s. \<forall>k. has_key k (s ! i) \<longrightarrow> reach hf s k i)"

lemma slots_ok_length: "slots_ok hf s \<Longrightarrow> \<exists>n. length s = 2 ^ n"
  by (simp add: slots_ok_def)

lemma slots_ok_wf: "slots_ok hf s \<Longrightarrow> i < length s \<Longrightarrow> slot_wf (s ! i)"
  by (simp add: slots_ok_def)

lemma slots_ok_unique: "slots_ok hf s \<Longrightarrow> i < length s \<Longrightarrow> j < length s \<Longrightarrow> has_key k (s ! i) \<Longrightarrow> has_key k (s ! j) \<Longrightarrow> i = j"
  unfolding slots_ok_def by blast

lemma slots_ok_reach: "slots_ok hf s \<Longrightarrow> i < length s \<Longrightarrow> has_key k (s ! i) \<Longrightarrow> reach hf s k i"
  unfolding slots_ok_def by blast

section \<open>What the probing loops return\<close>

text \<open>A probe stops at an empty slot and at the key.\<close>

definition stops :: "'k \<Rightarrow> ('k, 'v) Slot \<Rightarrow> bool" where
  "stops key slot \<longleftrightarrow> state slot = EMPTY \<or> has_key key slot"

lemma find_loop_at:
  assumes n: "length s = 2 ^ n" and wf: "\<And>i. i < length s \<Longrightarrow> slot_wf (s ! i)"
    and go: "\<And>e'. e' < e \<Longrightarrow> \<not> stops key (s ! probe (length s) h (d + e'))"
    and stop: "stops key (s ! probe (length s) h (d + e))" and fuel: "e < fuel"
  shows "find_loop s key (probe (length s) h d) fuel =
    Inr (if has_key key (s ! probe (length s) h (d + e)) then Some (probe (length s) h (d + e)) else None)"
  using go stop fuel
proof (induction e arbitrary: d fuel)
  case 0
  then obtain f where "fuel = Suc f" by (cases fuel) auto
  with 0 show ?case
    using probe_less [OF n, of h d] holds_key_wf [OF wf [OF probe_less [OF n]], of h d key] has_key_not_empty [OF wf [OF probe_less [OF n]], of key h d]
    by (auto simp: stops_def)
next
  case (Suc e)
  from Suc.prems(3) obtain f where f: "fuel = Suc f" "e < f" by (cases fuel) auto
  have "\<not> stops key (s ! probe (length s) h d)" using Suc.prems(1) [of 0] by simp
  moreover have "find_loop s key (probe (length s) h (Suc d)) f =
      Inr (if has_key key (s ! probe (length s) h (Suc d + e)) then Some (probe (length s) h (Suc d + e)) else None)"
    using Suc.prems(2) f(2) by (intro Suc.IH) (use Suc.prems(1) [of "Suc _"] in auto)
  ultimately show ?case
    using probe_less [OF n, of h d] holds_key_wf [OF wf [OF probe_less [OF n]], of h d key]
    by (simp add: f(1) stops_def next_index_probe [OF n])
qed

lemma place_loop_at:
  assumes n: "length s = 2 ^ n" and wf: "\<And>i. i < length s \<Longrightarrow> slot_wf (s ! i)"
    and go: "\<And>e'. e' < e \<Longrightarrow> \<not> stops key (s ! probe (length s) h (d + e'))"
    and stop: "stops key (s ! probe (length s) h (d + e))" and fuel: "e < fuel"
  shows "if has_key key (s ! probe (length s) h (d + e))
    then place_loop s key (probe (length s) h d) fd fuel = Inr (Present (probe (length s) h (d + e)))
    else \<exists>t. place_loop s key (probe (length s) h d) fd fuel = Inr (Free t) \<and>
      (case fd of Some x \<Rightarrow> t = x
       | None \<Rightarrow> \<exists>e' \<le> e. t = probe (length s) h (d + e') \<and> state (s ! t) \<noteq> OCCUPIED)"
  using go stop fuel
proof (induction e arbitrary: d fd fuel)
  case 0
  then obtain f where "fuel = Suc f" by (cases fuel) auto
  with 0 show ?case
    using probe_less [OF n, of h d] holds_key_wf [OF wf [OF probe_less [OF n]], of h d key]
    by (auto simp: stops_def Let_def split: option.splits)
next
  case (Suc e)
  let ?p = "probe (length s) h d"
  from Suc.prems(3) obtain f where f: "fuel = Suc f" "e < f" by (cases fuel) auto
  have ns: "\<not> stops key (s ! ?p)" using Suc.prems(1) [of 0] by simp
  let ?fd = "if state (s ! ?p) = DELETED \<and> fd = None then Some ?p else fd"
  have "place_loop s key ?p fd fuel = place_loop s key (probe (length s) h (Suc d)) ?fd f"
    using ns probe_less [OF n, of h d] holds_key_wf [OF wf [OF probe_less [OF n]], of h d key]
    by (simp add: f(1) stops_def next_index_probe [OF n] Let_def)
  moreover have "if has_key key (s ! probe (length s) h (Suc d + e))
    then place_loop s key (probe (length s) h (Suc d)) ?fd f = Inr (Present (probe (length s) h (Suc d + e)))
    else \<exists>t. place_loop s key (probe (length s) h (Suc d)) ?fd f = Inr (Free t) \<and>
      (case ?fd of Some x \<Rightarrow> t = x
       | None \<Rightarrow> \<exists>e' \<le> e. t = probe (length s) h (Suc d + e') \<and> state (s ! t) \<noteq> OCCUPIED)"
    using Suc.prems(2) f(2) by (intro Suc.IH) (use Suc.prems(1) [of "Suc _"] in auto)
  ultimately show ?case
  proof (cases "fd = None \<and> state (s ! ?p) \<noteq> DELETED")
    case True
    then show ?thesis using \<open>place_loop s key ?p fd fuel = _\<close> \<open>if _ then _ else _\<close>
      by (fastforce intro: exI [of _ "Suc _"])
  next
    case False
    have "\<exists>e' \<le> Suc e. ?p = probe (length s) h (d + e')" by (intro exI [of _ 0]) simp
    with False show ?thesis using \<open>place_loop s key ?p fd fuel = _\<close> \<open>if _ then _ else _\<close>
      by (cases fd) auto
  qed
qed

text \<open>
  Under the invariant the first stop of the probe for a key is the slot that holds it, if there is one.
\<close>

lemma first_stop:
  fixes s :: "('k, 'v) Slot list"
  assumes "\<exists>e < len. stops key (s ! probe len h e)"
  obtains e where "e < len" "stops key (s ! probe len h e)" "\<forall>e' < e. \<not> stops key (s ! probe len h e')"
proof -
  from assms obtain e0 where e0: "e0 < len" "stops key (s ! probe len h e0)" by blast
  let ?P = "\<lambda>e. stops key (s ! probe len h e)"
  from e0(2) have "?P (LEAST e. ?P e)" by (rule LeastI)
  moreover have "(LEAST e. ?P e) < len" using Least_le [of ?P, OF e0(2)] e0(1) by simp
  moreover have "\<not> ?P e'" if "e' < (LEAST e. ?P e)" for e' using not_less_Least [OF that] .
  ultimately show ?thesis using that by blast
qed

lemma stop_at_key:
  assumes ok: "slots_ok hf s" and e: "e < length s" "stops key (s ! probe (length s) (unat (hf key)) e)"
    and min: "\<forall>e' < e. \<not> stops key (s ! probe (length s) (unat (hf key)) e')"
    and i: "i < length s" "has_key key (s ! i)"
  shows "has_key key (s ! probe (length s) (unat (hf key)) e)" "probe (length s) (unat (hf key)) e = i"
proof -
  let ?p = "probe (length s) (unat (hf key))"
  from slots_ok_length [OF ok] obtain n where n: "length s = 2 ^ n" by blast
  from slots_ok_reach [OF ok i] obtain d where d: "d < length s" "i = ?p d" "\<forall>e < d. state (s ! ?p e) \<noteq> EMPTY"
    unfolding reach_def by blast
  have "\<not> d < e" using min d(2) i(2) by (auto simp: stops_def)
  moreover have "state (s ! i) \<noteq> EMPTY" using has_key_not_empty [OF slots_ok_wf [OF ok i(1)] i(2)] by simp
  ultimately have "state (s ! ?p e) \<noteq> EMPTY" using d(2,3) by (cases "e = d") auto
  with e(2) show k: "has_key key (s ! ?p e)" by (simp add: stops_def)
  show "?p e = i" using slots_ok_unique [OF ok probe_less [OF n] i(1) k i(2)] .
qed

lemma findSlot_hit:
  assumes ok: "slots_ok (hash_fn m) (slots m)" and i: "i < length (slots m)" "has_key key (slots m ! i)"
  shows "findSlot m key = Inr (Some i)"
proof -
  let ?s = "slots m" and ?h = "unat (hash_fn m key)"
  from slots_ok_length [OF ok] obtain n where n: "length ?s = 2 ^ n" by blast
  from probe_covers [OF i(1)] i(2) have "\<exists>e < length ?s. stops key (?s ! probe (length ?s) ?h e)"
    by (metis stops_def)
  then obtain e where e: "e < length ?s" "stops key (?s ! probe (length ?s) ?h e)"
    "\<forall>e' < e. \<not> stops key (?s ! probe (length ?s) ?h e')" by (rule first_stop)
  note k = stop_at_key [OF ok e i]
  have "find_loop ?s key (probe (length ?s) ?h 0) (length ?s) =
      Inr (if has_key key (?s ! probe (length ?s) ?h (0 + e)) then Some (probe (length ?s) ?h (0 + e)) else None)"
    by (rule find_loop_at [OF n slots_ok_wf [OF ok]]) (use e in simp_all)
  then show ?thesis using k by (simp add: findSlot_def homeIndex_probe [OF n])
qed

lemma find_loop_none:
  assumes n: "length s = 2 ^ n" and wf: "\<And>i. i < length s \<Longrightarrow> slot_wf (s ! i)"
    and go: "\<And>i. i < length s \<Longrightarrow> \<not> has_key key (s ! i)"
  shows "find_loop s key (probe (length s) h d) fuel = Inr None"
proof (induction fuel arbitrary: d)
  case (Suc fuel)
  then show ?case using probe_less [OF n, of h d] holds_key_wf [OF wf [OF probe_less [OF n]], of h d key] go
    by (simp add: next_index_probe [OF n])
qed simp

lemma findSlot_miss:
  assumes ok: "slots_ok (hash_fn m) (slots m)" and "\<And>i. i < length (slots m) \<Longrightarrow> \<not> has_key key (slots m ! i)"
  shows "findSlot m key = Inr None"
  using slots_ok_length [OF ok] find_loop_none [OF _ slots_ok_wf [OF ok] assms(2)]
  by (auto simp: findSlot_def homeIndex_probe)

section \<open>Contents\<close>

definition slot_entries :: "('k, 'v) Slot list \<Rightarrow> ('k \<times> 'v) list" where
  "slot_entries s = concat (map (\<lambda>x. case kv x of None \<Rightarrow> [] | Some p \<Rightarrow> [p]) s)"

lemma slot_entries_simps [simp]:
  "slot_entries [] = []" "slot_entries (x # s) = (case kv x of None \<Rightarrow> [] | Some p \<Rightarrow> [p]) @ slot_entries s"
  "slot_entries (s @ s') = slot_entries s @ slot_entries s'"
  by (simp_all add: slot_entries_def)

lemma set_slot_entries: "(k, v) \<in> set (slot_entries s) \<longleftrightarrow> (\<exists>x \<in> set s. kv x = Some (k, v))"
  by (induction s) (auto split: option.splits)

definition contents :: "('k, 'v) hashmap \<Rightarrow> 'k \<rightharpoonup> 'v" where
  "contents m = map_of (slot_entries (slots m))"

lemma distinct_slot_entries:
  "(\<forall>i < length s. \<forall>j < length s. \<forall>k. has_key k (s ! i) \<and> has_key k (s ! j) \<longrightarrow> i = j) \<Longrightarrow>
     distinct (map fst (slot_entries s))"
proof (induction s)
  case (Cons x s)
  have u: "i = j" if "i < length (x # s)" "j < length (x # s)" "has_key k ((x # s) ! i)" "has_key k ((x # s) ! j)" for i j k
    using Cons.prems that by blast
  have "\<forall>i < length s. \<forall>j < length s. \<forall>k. has_key k (s ! i) \<and> has_key k (s ! j) \<longrightarrow> i = j"
    using u [of "Suc _" "Suc _"] by auto
  then have IH: "distinct (map fst (slot_entries s))" by (rule Cons.IH)
  show ?case
  proof (cases "kv x")
    case None
    with IH show ?thesis by simp
  next
    case (Some p)
    have "fst p \<notin> fst ` set (slot_entries s)"
    proof
      assume "fst p \<in> fst ` set (slot_entries s)"
      then obtain v where "(fst p, v) \<in> set (slot_entries s)" by force
      then obtain y where "y \<in> set s" "kv y = Some (fst p, v)" by (auto simp: set_slot_entries)
      then obtain j where "j < length s" "has_key (fst p) (s ! j)" by (auto simp: in_set_conv_nth has_key_def)
      moreover have "has_key (fst p) x" using Some by (cases p) (simp add: has_key_def)
      ultimately show False using u [of 0 "Suc j" "fst p"] by simp
    qed
    with IH Some show ?thesis by simp
  qed
qed simp

lemma contents_iff:
  assumes "slots_ok (hash_fn m) (slots m)"
  shows "contents m k = Some v \<longleftrightarrow> (\<exists>i < length (slots m). kv (slots m ! i) = Some (k, v))"
proof -
  have "distinct (map fst (slot_entries (slots m)))"
    using assms by (intro distinct_slot_entries) (simp add: slots_ok_def)
  moreover have "(\<exists>x \<in> set (slots m). kv x = Some (k, v)) \<longleftrightarrow> (\<exists>i < length (slots m). kv (slots m ! i) = Some (k, v))"
    by (metis in_set_conv_nth)
  ultimately show ?thesis by (simp add: contents_def map_of_eq_Some_iff set_slot_entries)
qed

lemma contents_None:
  assumes "slots_ok (hash_fn m) (slots m)"
  shows "contents m k = None \<longleftrightarrow> (\<forall>i < length (slots m). \<not> has_key k (slots m ! i))"
  using contents_iff [OF assms, of k] by (auto simp: has_key_def) (metis option.exhaust)

lemma map_eqI: "(\<And>k v. f k = Some v \<longleftrightarrow> g k = Some v) \<Longrightarrow> f = (g :: 'k \<rightharpoonup> 'v)"
  by (metis ext option.exhaust)

text \<open>Counting slots after one of them changed.\<close>

lemma count_update:
  "t < length s \<Longrightarrow> length (filter P (s[t := x])) + (if P (s ! t) then 1 else 0) =
     length (filter P s) + (if P x then 1 else 0)"
proof (induction s arbitrary: t)
  case (Cons y s)
  show ?case
  proof (cases t)
    case (Suc j)
    with Cons.IH [of j] Cons.prems show ?thesis by simp
  qed simp
qed simp

end
