(* ===== verification/HashMap_Ops.thy ===== *)
theory HashMap_Ops
  imports HashMap_Inv
begin

text \<open>
  Every operation of the hash map keeps the invariant, returns normally (in particular the
  unbounded loop of \<open>place\<close> leaves) and changes the contents as a finite map would.
\<close>

section \<open>Changing one slot\<close>

lemma reach_update:
  assumes "length s = 2 ^ n" and "t < length s" and "state x \<noteq> EMPTY" and "reach hf s k i"
  shows "reach hf (s[t := x]) k i"
  using assms probe_less [OF assms(1)] unfolding reach_def
  by (auto simp: nth_list_update)

lemma slots_ok_update:
  assumes ok: "slots_ok hf s" and t: "t < length s" and x: "slot_wf x" "state x \<noteq> EMPTY"
    and new: "\<And>k i. has_key k x \<Longrightarrow> i < length s \<Longrightarrow> has_key k (s ! i) \<Longrightarrow> i = t"
    and path: "\<And>k. has_key k x \<Longrightarrow> reach hf s k t"
  shows "slots_ok hf (s[t := x])"
  unfolding slots_ok_def
proof (intro conjI allI impI ballI)
  from slots_ok_length [OF ok] obtain n where n: "length s = 2 ^ n" by blast
  then show "\<exists>n. length (s[t := x]) = 2 ^ n" by simp
  show "slot_wf y" if "y \<in> set (s[t := x])" for y
  proof -
    from that have "y = x \<or> y \<in> set s" using set_update_subset_insert [of s t x] by blast
    with ok x(1) show ?thesis by (auto simp: slots_ok_def)
  qed
  fix i j k assume "i < length (s[t := x])" "j < length (s[t := x])"
    "has_key k (s[t := x] ! i) \<and> has_key k (s[t := x] ! j)"
  then show "i = j" using new [of k i] new [of k j] slots_ok_unique [OF ok, of i j k] t
    by (auto simp: nth_list_update split: if_splits)
next
  from slots_ok_length [OF ok] obtain n where n: "length s = 2 ^ n" by blast
  fix i k assume i: "i < length (s[t := x])" "has_key k (s[t := x] ! i)"
  then have "reach hf s k i"
    using path [of k] slots_ok_reach [OF ok, of i k] t by (auto simp: nth_list_update split: if_splits)
  with reach_update [OF n t x(2)] show "reach hf (s[t := x]) k i" .
qed

section \<open>The invariant\<close>

definition hm_core :: "('k, 'v) hashmap \<Rightarrow> bool" where
  "hm_core m \<longleftrightarrow> slots_ok (hash_fn m) (slots m) \<and>
     hm_size m = length (filter (\<lambda>x. state x = OCCUPIED) (slots m)) \<and>
     hm_used m = length (filter (\<lambda>x. state x \<noteq> EMPTY) (slots m))"

definition hm_inv :: "('k, 'v) hashmap \<Rightarrow> bool" where
  "hm_inv m \<longleftrightarrow> hm_core m \<and> kMinCapacity \<le> length (slots m) \<and> hm_used m * 10 \<le> length (slots m) * 7"

lemma hm_core_ok: "hm_core m \<Longrightarrow> slots_ok (hash_fn m) (slots m)"
  by (simp add: hm_core_def)

text \<open>The contents after a slot changed, when its old and new key are known.\<close>

lemma contents_update:
  assumes ok: "slots_ok (hash_fn m) (slots m)" "slots_ok (hash_fn m') (slots m')"
    and s': "slots m' = (slots m)[t := x]" and t: "t < length (slots m)"
    and old: "\<And>p. kv (slots m ! t) = Some p \<Longrightarrow> fst p = k" and new: "\<And>p. kv x = Some p \<Longrightarrow> fst p = k"
    and absent: "\<And>i. i < length (slots m) \<Longrightarrow> i \<noteq> t \<Longrightarrow> \<not> has_key k (slots m ! i)"
  shows "contents m' = (contents m)(k := map_option snd (kv x))"
proof (rule map_eqI)
  fix k' v
  have "contents m' k' = Some v \<longleftrightarrow> kv x = Some (k', v) \<or> (\<exists>i < length (slots m). i \<noteq> t \<and> kv (slots m ! i) = Some (k', v))"
    unfolding contents_iff [OF ok(2)] s' using t by (auto simp: nth_list_update)
  also have "\<dots> \<longleftrightarrow> ((contents m)(k := map_option snd (kv x))) k' = Some v"
  proof (cases "k' = k")
    case True
    have "\<not> (\<exists>i < length (slots m). i \<noteq> t \<and> kv (slots m ! i) = Some (k', v))"
      using absent True by (auto simp: has_key_def)
    with True new show ?thesis by auto
  next
    case False
    then have "kv (slots m ! t) \<noteq> Some (k', v)" "kv x \<noteq> Some (k', v)" using old [of "(k', v)"] new [of "(k', v)"] by auto
    then show ?thesis using False t by (auto simp: contents_iff [OF ok(1)])
  qed
  finally show "contents m' k' = Some v \<longleftrightarrow> ((contents m)(k := map_option snd (kv x))) k' = Some v" .
qed

section \<open>Insertion\<close>

lemma exists_empty:
  assumes "hm_core m" and "hm_used m < length (slots m)"
  shows "\<exists>i < length (slots m). state (slots m ! i) = EMPTY"
proof (rule ccontr)
  assume "\<not> ?thesis"
  then have "\<forall>x \<in> set (slots m). state x \<noteq> EMPTY" by (auto simp: in_set_conv_nth)
  then have "filter (\<lambda>x. state x \<noteq> EMPTY) (slots m) = slots m" by simp
  with assms show False by (simp add: hm_core_def)
qed

text \<open>
  The loop of \<open>place\<close> leaves, within as many rounds as there are slots, because some slot is empty.
\<close>

lemma place_loop_leaves:
  assumes core: "hm_core m" and room: "hm_used m < length (slots m)"
  shows "(\<exists>i < length (slots m). has_key key (slots m ! i) \<and>
      place_loop (slots m) key (homeIndex (hash_fn m) (slots m) key) None (length (slots m)) = Inr (Present i)) \<or>
    (\<forall>i < length (slots m). \<not> has_key key (slots m ! i)) \<and> (\<exists>t < length (slots m).
      place_loop (slots m) key (homeIndex (hash_fn m) (slots m) key) None (length (slots m)) = Inr (Free t) \<and>
      state (slots m ! t) \<noteq> OCCUPIED \<and> reach (hash_fn m) (slots m) key t)"
proof -
  let ?s = "slots m" and ?h = "unat (hash_fn m key)"
  let ?p = "probe (length ?s) ?h"
  note ok = hm_core_ok [OF core]
  from slots_ok_length [OF ok] obtain n where n: "length ?s = 2 ^ n" by blast
  from exists_empty [OF core room] probe_covers have "\<exists>e < length ?s. stops key (?s ! ?p e)"
    by (metis stops_def)
  then obtain e where e: "e < length ?s" "stops key (?s ! ?p e)" "\<forall>e' < e. \<not> stops key (?s ! ?p e')"
    by (rule first_stop)
  note loop = place_loop_at [OF n slots_ok_wf [OF ok], where d = 0 and h = ?h and e = e and key = key and fd = None
    and fuel = "length ?s", simplified, OF _ e(2,1)]
  show ?thesis
  proof (cases "has_key key (?s ! ?p e)")
    case True
    with loop e(3) probe_less [OF n, of ?h e] show ?thesis by (auto simp: homeIndex_probe [OF n])
  next
    case False
    then have "\<forall>i < length ?s. \<not> has_key key (?s ! i)" using stop_at_key(1) [OF ok e] by blast
    moreover from False loop e(3) obtain t e' where t: "place_loop ?s key (?p 0) None (length ?s) = Inr (Free t)"
      "e' \<le> e" "t = ?p e'" "state (?s ! t) \<noteq> OCCUPIED" by auto
    moreover have "\<forall>d < e'. state (?s ! ?p d) \<noteq> EMPTY" using e(3) t(2) by (auto simp: stops_def)
    then have "reach (hash_fn m) ?s key t" using t(2,3) e(1) unfolding reach_def by (auto intro!: exI [of _ e'])
    ultimately show ?thesis using probe_less [OF n, of ?h e'] by (auto simp: homeIndex_probe [OF n])
  qed
qed

lemma hm_write_present:
  assumes ok: "slots_ok (hash_fn m) (slots m)" and i: "i < length (slots m)" "has_key key (slots m ! i)"
  obtains m' where "hm_write m i v = Inr m'" "slots_ok (hash_fn m') (slots m')" "hash_fn m' = hash_fn m"
    "map state (slots m') = map state (slots m)" "hm_size m' = hm_size m" "hm_used m' = hm_used m"
    "contents m' = (contents m)(key \<mapsto> v)"
proof -
  let ?x = "(slots m ! i)\<lparr>kv := Some (key, v)\<rparr>"
  let ?m' = "m\<lparr>slots := (slots m)[i := ?x]\<rparr>"
  from i(2) have w: "hm_write m i v = Inr ?m'" using i(1) by (auto simp: hm_write_def has_key_def)
  have occ: "state (slots m ! i) = OCCUPIED" using has_key_not_empty [OF slots_ok_wf [OF ok i(1)] i(2)] .
  have keys: "has_key k ?x \<longleftrightarrow> k = key" for k by (auto simp: has_key_def)
  have "slots_ok (hash_fn m) ((slots m)[i := ?x])"
  proof (rule slots_ok_update [OF ok i(1)])
    show "slot_wf ?x" "state ?x \<noteq> EMPTY" using occ by (simp_all add: slot_wf_def)
    show "j = i" if "has_key k ?x" "j < length (slots m)" "has_key k (slots m ! j)" for k j
      using slots_ok_unique [OF ok that(2) i(1) that(3)] that(1) i(2) by (simp only: keys)
    show "reach (hash_fn m) (slots m) k i" if "has_key k ?x" for k
      using slots_ok_reach [OF ok i] that by (simp only: keys)
  qed
  then have ok': "slots_ok (hash_fn ?m') (slots ?m')" by simp
  moreover have "contents ?m' = (contents m)(key := map_option snd (kv ?x))"
  proof (rule contents_update [OF ok ok' _ i(1)])
    show "fst p = key" if "kv (slots m ! i) = Some p" for p using i(2) that by (auto simp: has_key_def)
    show "\<not> has_key key (slots m ! j)" if "j < length (slots m)" "j \<noteq> i" for j
      using slots_ok_unique [OF ok that(1) i(1) _ i(2)] that(2) by blast
  qed auto
  moreover have "map state (slots ?m') = map state (slots m)"
    using i(1) by (simp add: map_update list_update_same_conv)
  ultimately show ?thesis using w that by simp
qed

lemma filter_state: "length (filter (\<lambda>x. P (state x)) s) = length (filter P (map state s))"
  by (induction s) auto

lemma hm_core_states:
  assumes "hm_core m" and "slots_ok (hash_fn m') (slots m')" and "map state (slots m') = map state (slots m)"
    and "hm_size m' = hm_size m" "hm_used m' = hm_used m"
  shows "hm_core m'"
  using assms unfolding hm_core_def filter_state [of "\<lambda>x. x = OCCUPIED"] filter_state [of "\<lambda>x. x \<noteq> EMPTY"] by simp

lemma place_free:
  assumes core: "hm_core m" and t: "t < length (slots m)" "state (slots m ! t) \<noteq> OCCUPIED"
    and path: "reach (hash_fn m) (slots m) key t"
    and absent: "\<forall>i < length (slots m). \<not> has_key key (slots m ! i)"
    and m': "m' = m\<lparr>slots := (slots m)[t := \<lparr>state = OCCUPIED, kv = Some (key, v)\<rparr>],
      hm_used := (if state (slots m ! t) = EMPTY then hm_used m + 1 else hm_used m), hm_size := hm_size m + 1\<rparr>"
  shows "hm_core m'" "contents m' = (contents m)(key \<mapsto> v)"
proof -
  let ?x = "\<lparr>state = OCCUPIED, kv = Some (key, v)\<rparr>"
  note ok = hm_core_ok [OF core]
  have keys: "has_key k ?x \<longleftrightarrow> k = key" for k by (auto simp: has_key_def)
  have "slots_ok (hash_fn m) ((slots m)[t := ?x])"
  proof (rule slots_ok_update [OF ok t(1)])
    show "slot_wf ?x" "state ?x \<noteq> EMPTY" by (simp_all add: slot_wf_def)
    show "j = t" if "has_key k ?x" "j < length (slots m)" "has_key k (slots m ! j)" for k j
      using absent that by (simp only: keys)
    show "reach (hash_fn m) (slots m) k t" if "has_key k ?x" for k
      using path that by (simp only: keys)
  qed
  then have ok': "slots_ok (hash_fn m') (slots m')" by (simp add: m')
  have none: "kv (slots m ! t) = None" using slots_ok_wf [OF ok t(1)] t(2)
    by (cases "kv (slots m ! t)") (auto simp: slot_wf_def)
  show "hm_core m'"
    using core ok' count_update [OF t(1), of "\<lambda>x. state x = OCCUPIED" ?x] t(2)
      count_update [OF t(1), of "\<lambda>x. state x \<noteq> EMPTY" ?x]
    unfolding hm_core_def by (auto simp: m')
  have "contents m' = (contents m)(key := map_option snd (kv ?x))"
    by (rule contents_update [OF ok ok' _ t(1)]) (use none absent in \<open>auto simp: m'\<close>)
  then show "contents m' = (contents m)(key \<mapsto> v)" by simp
qed

lemma place_spec:
  assumes core: "hm_core m" and room: "hm_used m < length (slots m)"
  shows "\<exists>m'. place m key v asg = Inr (contents m key = None, m') \<and> hm_core m' \<and> hash_fn m' = hash_fn m \<and>
    length (slots m') = length (slots m) \<and> hm_used m' \<le> hm_used m + 1 \<and>
    contents m' = (if contents m key = None \<or> asg then (contents m)(key \<mapsto> v) else contents m)"
proof -
  let ?s = "slots m"
  note ok = hm_core_ok [OF core]
  from place_loop_leaves [OF core room, of key] show ?thesis
  proof (elim disjE exE conjE)
    fix i assume i: "i < length ?s" "has_key key (?s ! i)"
      and p: "place_loop ?s key (homeIndex (hash_fn m) ?s key) None (length ?s) = Inr (Present i)"
    have some: "contents m key \<noteq> None" using contents_None [OF ok] i by blast
    from hm_write_present [OF ok i, of v] obtain m' where m': "hm_write m i v = Inr m'"
      "slots_ok (hash_fn m') (slots m')" "hash_fn m' = hash_fn m"
      "map state (slots m') = map state ?s" "hm_size m' = hm_size m" "hm_used m' = hm_used m"
      "contents m' = (contents m)(key \<mapsto> v)" by metis
    have "hm_core m'" by (rule hm_core_states [OF core m'(2,4-6)])
    moreover have "length (slots m') = length ?s" using m'(4) by (metis length_map)
    ultimately show ?thesis using p some m' core by (cases asg) (auto simp: place_def)
  next
    fix t assume absent: "\<forall>i < length ?s. \<not> has_key key (?s ! i)" and t: "t < length ?s"
      "state (?s ! t) \<noteq> OCCUPIED" "reach (hash_fn m) ?s key t"
      and p: "place_loop ?s key (homeIndex (hash_fn m) ?s key) None (length ?s) = Inr (Free t)"
    let ?m' = "m\<lparr>slots := ?s[t := \<lparr>state = OCCUPIED, kv = Some (key, v)\<rparr>],
      hm_used := (if state (?s ! t) = EMPTY then hm_used m + 1 else hm_used m), hm_size := hm_size m + 1\<rparr>"
    have none: "contents m key = None" using contents_None [OF ok] absent by blast
    note f = place_free [OF core t absent refl, of v]
    have "place m key v asg = Inr (True, ?m')" using p t(1) by (simp add: place_def)
    with f none show ?thesis by auto
  qed
qed

section \<open>Growth\<close>

lemma replicate_core:
  "hm_core (m\<lparr>slots := replicate (2 ^ n) empty_slot, hm_size := 0, hm_used := 0\<rparr>)"
  "contents (m\<lparr>slots := replicate (2 ^ n) empty_slot, hm_size := 0, hm_used := 0\<rparr>) = Map.empty"
  by (auto simp: hm_core_def slots_ok_def slot_wf_def has_key_def empty_slot_def contents_def slot_entries_def)

text \<open>Re-inserting the entries of some slots into a table with room for them.\<close>

lemma rehash_loop:
  assumes "hm_core m" and "\<forall>x \<in> set xs. slot_wf x" and "distinct (map fst (slot_entries xs))"
    and "hm_used m + length (slot_entries xs) < length (slots m)"
    and "\<forall>p \<in> set (slot_entries xs). contents m (fst p) = None"
  shows "\<exists>m'. fold_result rehash_step xs m = Inr m' \<and> hm_core m' \<and> hash_fn m' = hash_fn m \<and>
    length (slots m') = length (slots m) \<and> hm_used m' \<le> hm_used m + length (slot_entries xs) \<and>
    contents m' = contents m ++ map_of (slot_entries xs)"
  using assms
proof (induction xs arbitrary: m)
  case (Cons x xs)
  show ?case
  proof (cases "kv x")
    case None
    then have "rehash_step x m = Inr m" using Cons.prems(2) by (simp add: rehash_step_def slot_wf_def)
    with Cons None show ?thesis by simp
  next
    case (Some p)
    obtain k v where p: "p = (k, v)" by (cases p)
    have occ: "state x = OCCUPIED" using Cons.prems(2) Some by (simp add: slot_wf_def)
    have none: "contents m k = None" using Cons.prems(5) Some p by auto
    have "hm_used m < length (slots m)" using Cons.prems(4) by simp
    from place_spec [OF Cons.prems(1) this, of k v False] none obtain m1 where m1:
      "place m k v False = Inr (True, m1)" "hm_core m1" "hash_fn m1 = hash_fn m" "length (slots m1) = length (slots m)"
      "hm_used m1 \<le> hm_used m + 1" "contents m1 = (contents m)(k \<mapsto> v)" by auto
    have s: "rehash_step x m = Inr m1" using occ Some p m1(1) by (simp add: rehash_step_def)
    have dom: "k \<notin> fst ` set (slot_entries xs)" using Cons.prems(3) Some p by simp
    then have none': "map_of (slot_entries xs) k = None" by (simp add: map_of_eq_None_iff)
    have "\<exists>m'. fold_result rehash_step xs m1 = Inr m' \<and> hm_core m' \<and> hash_fn m' = hash_fn m1 \<and>
      length (slots m') = length (slots m1) \<and> hm_used m' \<le> hm_used m1 + length (slot_entries xs) \<and>
      contents m' = contents m1 ++ map_of (slot_entries xs)"
    proof (rule Cons.IH [OF m1(2)])
      show "hm_used m1 + length (slot_entries xs) < length (slots m1)"
        using Cons.prems(4) m1(4,5) Some by simp
      show "\<forall>p \<in> set (slot_entries xs). contents m1 (fst p) = None"
        using Cons.prems(5) Some dom by (auto simp: m1(6))
    qed (use Cons.prems(2,3) Some in auto)
    then obtain m2 where m2: "fold_result rehash_step xs m1 = Inr m2" "hm_core m2" "hash_fn m2 = hash_fn m1"
      "length (slots m2) = length (slots m1)" "hm_used m2 \<le> hm_used m1 + length (slot_entries xs)"
      "contents m2 = contents m1 ++ map_of (slot_entries xs)" by blast
    have c: "contents m2 = contents m ++ map_of (slot_entries (x # xs))"
      unfolding m2(6) using none' by (auto simp: Some p m1(6) map_add_def fun_eq_iff split: option.splits)
    have "fold_result rehash_step (x # xs) m = Inr m2" by (simp add: s m2(1))
    moreover have "hm_used m2 \<le> hm_used m + length (slot_entries (x # xs))" using m1(5) m2(5) Some by simp
    ultimately show ?thesis using m2(2,3,4) m1(3,4) c by metis
  qed
qed simp

lemma length_slot_entries: "\<forall>x \<in> set s. slot_wf x \<Longrightarrow> length (slot_entries s) = length (filter (\<lambda>x. state x = OCCUPIED) s)"
  by (induction s) (auto simp: slot_wf_def split: option.splits)

lemma rehash_spec:
  assumes core: "hm_core m" and room: "hm_size m < 2 ^ n"
  shows "\<exists>m'. rehash m (2 ^ n) = Inr m' \<and> hm_core m' \<and> hash_fn m' = hash_fn m \<and>
    length (slots m') = 2 ^ n \<and> hm_used m' \<le> hm_size m \<and> contents m' = contents m"
proof -
  let ?m0 = "m\<lparr>slots := replicate (2 ^ n) empty_slot, hm_size := 0, hm_used := 0\<rparr>"
  note ok = hm_core_ok [OF core]
  have wf: "\<forall>x \<in> set (slots m). slot_wf x" using ok by (simp add: slots_ok_def)
  have len: "length (slot_entries (slots m)) = hm_size m"
    using length_slot_entries [OF wf] core by (simp add: hm_core_def)
  have "distinct (map fst (slot_entries (slots m)))"
    using ok by (intro distinct_slot_entries) (simp add: slots_ok_def)
  from rehash_loop [OF replicate_core(1) [where m = m and n = n] wf this] len room
  show ?thesis unfolding rehash_def replicate_core(2) by (simp add: contents_def [of m])
qed

lemma reserve_spec:
  fixes m :: "('a, 'b) hashmap"
  assumes inv: "hm_inv m"
  shows "\<exists>m'. reserveForOneMore m = Inr m' \<and> hm_inv m' \<and> hash_fn m' = hash_fn m \<and>
    (hm_used m' + 1) * 10 \<le> length (slots m') * 7 \<and> contents m' = contents m"
proof (cases "(hm_used m + 1) * 10 \<le> length (slots m) * 7")
  case True
  with inv show ?thesis by (simp add: reserveForOneMore_def)
next
  case False
  let ?c = "length (slots m)" and ?live = "(hm_size m + 1) * 10 > length (slots m) * 4"
  from inv have core: "hm_core m" and c: "16 \<le> ?c" "hm_used m * 10 \<le> ?c * 7"
    by (auto simp: hm_inv_def kMinCapacity_def)
  from slots_ok_length [OF hm_core_ok [OF core]] obtain n where n: "?c = 2 ^ n" by blast
  have "length (filter (\<lambda>x. state x = OCCUPIED) s) \<le> length (filter (\<lambda>x. state x \<noteq> EMPTY) s)" for s :: "('a, 'b) Slot list"
    by (induction s) auto
  then have size: "hm_size m \<le> hm_used m" using core by (simp add: hm_core_def)
  define k K where "k = (if ?live then Suc n else n)" and "K = (if ?live then ?c * 2 else ?c)"
  have k: "2 ^ k = K" by (simp add: k_def K_def n)
  have room: "(hm_size m + 1) * 10 \<le> K * 7"
  proof (cases ?live)
    case True
    then have K: "K = ?c * 2" by (simp add: K_def)
    have "hm_size m * 10 \<le> hm_used m * 10" using size by (rule mult_le_mono1)
    then have "(hm_size m + 1) * 10 \<le> ?c * 7 + 10" using c(2) by (simp add: add_mult_distrib)
    also have "\<dots> \<le> K * 7" using K c(1) by (simp add: add_mult_distrib)
    finally show ?thesis .
  next
    case False
    then have "K = ?c" by (simp add: K_def)
    then show ?thesis using False by linarith
  qed
  then have "hm_size m < 2 ^ k" unfolding k by (simp add: add_mult_distrib)
  from rehash_spec [OF core this] obtain m' where m': "rehash m K = Inr m'" "hm_core m'"
    "hash_fn m' = hash_fn m" "length (slots m') = K" "hm_used m' \<le> hm_size m" "contents m' = contents m" unfolding k by blast
  have "?c \<le> K" by (simp add: K_def)
  then have "hm_inv m'" using m'(2,4,5) room c by (simp add: hm_inv_def kMinCapacity_def add_mult_distrib)
  moreover have "reserveForOneMore m = Inr m'" using m'(1) False by (simp add: reserveForOneMore_def Let_def K_def)
  moreover have "(hm_used m' + 1) * 10 \<le> length (slots m') * 7" using room m'(4,5) by (simp add: add_mult_distrib)
  ultimately show ?thesis using m' by blast
qed

end
