(* ===== verification/Dictionary.thy ===== *)
theory Dictionary
  imports Prelude
begin

text \<open>
  The contract between the hash map and its clients, the cache and the catalogue of tables:
  what each operation returns and what it does to the contents, read as a finite map.
\<close>

datatype ('k, 'v) dict_op =
  Dict_insert 'k 'v
| Dict_assign 'k 'v
| Dict_erase 'k

text \<open>The effect of an operation on a finite map, and its boolean answer.\<close>

fun dict_map_step :: "('k, 'v) dict_op \<Rightarrow> ('k \<rightharpoonup> 'v) \<Rightarrow> bool \<times> ('k \<rightharpoonup> 'v)" where
  "dict_map_step (Dict_insert k v) m = (m k = None, if m k = None then m(k \<mapsto> v) else m)"
| "dict_map_step (Dict_assign k v) m = (m k = None, m(k \<mapsto> v))"
| "dict_map_step (Dict_erase k) m = (m k \<noteq> None, m(k := None))"

fun dict_map_run :: "('k, 'v) dict_op list \<Rightarrow> ('k \<rightharpoonup> 'v) \<Rightarrow> bool list \<times> ('k \<rightharpoonup> 'v)" where
  "dict_map_run [] m = ([], m)"
| "dict_map_run (x # xs) m =
     (let (b, m') = dict_map_step x m; (bs, m'') = dict_map_run xs m' in (b # bs, m''))"

text \<open>The same on an implementation.\<close>

fun dict_step ::
    "('m \<Rightarrow> 'k \<Rightarrow> 'v \<Rightarrow> (bool \<times> 'm) result) \<Rightarrow> ('m \<Rightarrow> 'k \<Rightarrow> 'v \<Rightarrow> (bool \<times> 'm) result) \<Rightarrow>
     ('m \<Rightarrow> 'k \<Rightarrow> (bool \<times> 'm) result) \<Rightarrow> ('k, 'v) dict_op \<Rightarrow> 'm \<Rightarrow> (bool \<times> 'm) result" where
  "dict_step ins asg era (Dict_insert k v) m = ins m k v"
| "dict_step ins asg era (Dict_assign k v) m = asg m k v"
| "dict_step ins asg era (Dict_erase k) m = era m k"

fun dict_run :: "(('k, 'v) dict_op \<Rightarrow> 'm \<Rightarrow> (bool \<times> 'm) result) \<Rightarrow>
    ('k, 'v) dict_op list \<Rightarrow> 'm \<Rightarrow> (bool list \<times> 'm) result" where
  "dict_run step [] m = Inr ([], m)"
| "dict_run step (x # xs) m =
     bind_result (step x m) (\<lambda>(b, m'). bind_result (dict_run step xs m') (\<lambda>(bs, m''). Inr (b # bs, m'')))"

locale dictionary =
  fixes inv :: "'m \<Rightarrow> bool"
    and cts :: "'m \<Rightarrow> 'k \<rightharpoonup> 'v"
    and ins :: "'m \<Rightarrow> 'k \<Rightarrow> 'v \<Rightarrow> (bool \<times> 'm) result"
    and asg :: "'m \<Rightarrow> 'k \<Rightarrow> 'v \<Rightarrow> (bool \<times> 'm) result"
    and fnd :: "'m \<Rightarrow> 'k \<Rightarrow> 'p option result"
    and rd :: "'m \<Rightarrow> 'p \<Rightarrow> 'v result"
    and era :: "'m \<Rightarrow> 'k \<Rightarrow> (bool \<times> 'm) result"
    and each :: "'m \<Rightarrow> ('k \<times> 'v) list result"
    and sz :: "'m \<Rightarrow> nat"
  assumes ins_law: "inv m \<Longrightarrow> \<exists>m'. ins m k v = Inr (cts m k = None, m') \<and> inv m' \<and>
      cts m' = (if cts m k = None then (cts m)(k \<mapsto> v) else cts m)"
    and asg_law: "inv m \<Longrightarrow> \<exists>m'. asg m k v = Inr (cts m k = None, m') \<and> inv m' \<and> cts m' = (cts m)(k \<mapsto> v)"
    and fnd_law: "inv m \<Longrightarrow> (case cts m k of None \<Rightarrow> fnd m k = Inr None
      | Some v \<Rightarrow> \<exists>p. fnd m k = Inr (Some p) \<and> rd m p = Inr v)"
    and era_law: "inv m \<Longrightarrow> \<exists>m'. era m k = Inr (cts m k \<noteq> None, m') \<and> inv m' \<and> cts m' = (cts m)(k := None)"
    and each_law: "inv m \<Longrightarrow> \<exists>ps. each m = Inr ps \<and> distinct (map fst ps) \<and> map_of ps = cts m"
    and size_law: "inv m \<Longrightarrow> sz m = card (dom (cts m))"
begin

text \<open>A lookup as the clients write it: find, then follow the pointer if it is not null.\<close>

lemma fnd_None: "inv m \<Longrightarrow> cts m k = None \<Longrightarrow> fnd m k = Inr None"
  using fnd_law [of m k] by simp

lemma fnd_Some: "inv m \<Longrightarrow> cts m k = Some v \<Longrightarrow> \<exists>p. fnd m k = Inr (Some p) \<and> rd m p = Inr v"
  using fnd_law [of m k] by simp

lemma finite_cts: "inv m \<Longrightarrow> finite (dom (cts m))"
  using each_law [of m] by (metis finite_dom_map_of)

lemma dict_step_refines:
  "inv m \<Longrightarrow> \<exists>m'. dict_step ins asg era x m = Inr (fst (dict_map_step x (cts m)), m') \<and> inv m' \<and>
     cts m' = snd (dict_map_step x (cts m))"
  using ins_law [of m] asg_law [of m] era_law [of m] by (cases x) simp_all

lemma dict_run_refines:
  "inv m \<Longrightarrow> \<exists>m'. dict_run (dict_step ins asg era) xs m = Inr (fst (dict_map_run xs (cts m)), m') \<and>
     inv m' \<and> cts m' = snd (dict_map_run xs (cts m))"
proof (induction xs arbitrary: m)
  case (Cons x xs)
  from dict_step_refines [OF Cons.prems, of x] obtain m1 where
    1: "dict_step ins asg era x m = Inr (fst (dict_map_step x (cts m)), m1)" "inv m1"
    "cts m1 = snd (dict_map_step x (cts m))" by blast
  with Cons.IH [OF 1(2)] show ?case by (auto simp: Let_def split: prod.splits)
qed simp

end

end
