(* ===== verification/HashMap_Spec.thy ===== *)
theory HashMap_Spec
  imports HashMap_Ops Dictionary
begin

text \<open>
  The hash map implements the dictionary, whatever the hash function: the contract holds of
  the operations of \<^verbatim>\<open>HashMap.hpp\<close>, and the constructor returns for every capacity up to \<open>2\<^sup>6\<^sup>3\<close>.
\<close>

section \<open>The operations\<close>

lemma hm_inv_core: "hm_inv m \<Longrightarrow> hm_core m"
  by (simp add: hm_inv_def)

lemma insert_place_spec:
  assumes inv: "hm_inv m"
  shows "\<exists>m'. bind_result (reserveForOneMore m) (\<lambda>m'. place m' key v asg) = Inr (contents m key = None, m') \<and>
    hm_inv m' \<and> hash_fn m' = hash_fn m \<and>
    contents m' = (if contents m key = None \<or> asg then (contents m)(key \<mapsto> v) else contents m)"
proof -
  from reserve_spec [OF inv] obtain m1 where m1: "reserveForOneMore m = Inr m1" "hm_inv m1"
    "hash_fn m1 = hash_fn m" "(hm_used m1 + 1) * 10 \<le> length (slots m1) * 7" "contents m1 = contents m" by blast
  then have "hm_used m1 < length (slots m1)" by (simp add: add_mult_distrib)
  from place_spec [OF hm_inv_core [OF m1(2)] this, of key v asg] obtain m2 where
    m2: "place m1 key v asg = Inr (contents m key = None, m2)" "hm_core m2" "hash_fn m2 = hash_fn m"
    "length (slots m2) = length (slots m1)" "hm_used m2 \<le> hm_used m1 + 1"
    "contents m2 = (if contents m key = None \<or> asg then (contents m)(key \<mapsto> v) else contents m)"
    unfolding m1(3,5) by blast
  have "hm_used m2 * 10 \<le> (hm_used m1 + 1) * 10" using m2(5) by (rule mult_le_mono1)
  then have "hm_inv m2" using m1(2,4) m2(2,4) by (simp add: hm_inv_def)
  then show ?thesis using m1(1) m2 by auto
qed

lemma hm_insert_spec:
  "hm_inv m \<Longrightarrow> \<exists>m'. hm_insert m key v = Inr (contents m key = None, m') \<and> hm_inv m' \<and>
     contents m' = (if contents m key = None then (contents m)(key \<mapsto> v) else contents m)"
  using insert_place_spec [of m key v False] by (auto simp: hm_insert_def)

lemma insertOrAssign_spec:
  "hm_inv m \<Longrightarrow> \<exists>m'. insertOrAssign m key v = Inr (contents m key = None, m') \<and> hm_inv m' \<and>
     contents m' = (contents m)(key \<mapsto> v)"
  using insert_place_spec [of m key v True] by (auto simp: insertOrAssign_def)

lemma find_cases:
  assumes "hm_core m"
  shows "contents m key = None \<and> findSlot m key = Inr None \<or>
    (\<exists>i v. contents m key = Some v \<and> findSlot m key = Inr (Some i) \<and> i < length (slots m) \<and>
       kv (slots m ! i) = Some (key, v))"
proof (cases "contents m key")
  case None
  with findSlot_miss [OF hm_core_ok [OF assms], of key] contents_None [OF hm_core_ok [OF assms], of key]
  show ?thesis by simp
next
  case (Some v)
  then obtain i where i: "i < length (slots m)" "kv (slots m ! i) = Some (key, v)"
    using contents_iff [OF hm_core_ok [OF assms]] by blast
  with findSlot_hit [OF hm_core_ok [OF assms] i(1), of key] Some show ?thesis by (auto simp: has_key_def)
qed

lemma hm_find_spec:
  "hm_inv m \<Longrightarrow> (case contents m key of None \<Rightarrow> hm_find m key = Inr None
     | Some v \<Rightarrow> \<exists>i. hm_find m key = Inr (Some i) \<and> hm_read m i = Inr v)"
  using find_cases [OF hm_inv_core, of m key] by (auto simp: hm_find_def hm_read_def)

lemma hm_erase_spec:
  assumes inv: "hm_inv m"
  shows "\<exists>m'. hm_erase m key = Inr (contents m key \<noteq> None, m') \<and> hm_inv m' \<and> contents m' = (contents m)(key := None)"
  using find_cases [OF hm_inv_core [OF inv], of key]
proof (elim disjE exE conjE)
  assume "contents m key = None" "findSlot m key = Inr None"
  with inv show ?thesis by (auto simp: hm_erase_def)
next
  fix i v assume c: "contents m key = Some v" and f: "findSlot m key = Inr (Some i)"
    and i: "i < length (slots m)" "kv (slots m ! i) = Some (key, v)"
  let ?x = "\<lparr>state = DELETED, kv = None\<rparr> :: ('a, 'b) Slot"
  let ?m' = "m\<lparr>slots := (slots m)[i := ?x], hm_size := hm_size m - 1\<rparr>"
  note core = hm_inv_core [OF inv] and ok = hm_core_ok [OF hm_inv_core [OF inv]]
  have k: "has_key key (slots m ! i)" using i(2) by (simp add: has_key_def)
  have occ: "state (slots m ! i) = OCCUPIED" using has_key_not_empty [OF slots_ok_wf [OF ok i(1)] k] .
  have "slots_ok (hash_fn m) ((slots m)[i := ?x])"
    by (rule slots_ok_update [OF ok i(1)]) (auto simp: slot_wf_def has_key_def)
  then have ok': "slots_ok (hash_fn ?m') (slots ?m')" by simp
  have "hm_core ?m'" using core ok' occ count_update [OF i(1), of "\<lambda>x. state x = OCCUPIED" ?x]
      count_update [OF i(1), of "\<lambda>x. state x \<noteq> EMPTY" ?x]
    unfolding hm_core_def by auto
  then have "hm_inv ?m'" using inv by (simp add: hm_inv_def)
  moreover have "contents ?m' = (contents m)(key := map_option snd (kv ?x))"
  proof (rule contents_update [OF ok ok' _ i(1)])
    show "\<not> has_key key (slots m ! j)" if "j < length (slots m)" "j \<noteq> i" for j
      using slots_ok_unique [OF ok that(1) i(1) _ k] that(2) by blast
  qed (use i(2) in auto)
  ultimately show ?thesis using f c by (simp add: hm_erase_def)
qed

lemma for_each_slots_eq: "\<forall>x \<in> set s. slot_wf x \<Longrightarrow> for_each_slots s = Inr (slot_entries s)"
  by (induction s) (auto simp: slot_wf_def split: option.splits)

lemma hm_forEach_spec:
  assumes "hm_inv m"
  shows "hm_forEach m = Inr (slot_entries (slots m))" "distinct (map fst (slot_entries (slots m)))"
  using hm_core_ok [OF hm_inv_core [OF assms]] for_each_slots_eq [of "slots m"] distinct_slot_entries [of "slots m"]
  by (simp_all add: hm_forEach_def slots_ok_def)

lemma hm_size_spec:
  assumes "hm_inv m"
  shows "hm_size m = card (dom (contents m))"
proof -
  have "hm_size m = length (slot_entries (slots m))"
    using hm_inv_core [OF assms] length_slot_entries [of "slots m"] by (simp add: hm_core_def slots_ok_def)
  with hm_forEach_spec(2) [OF assms] show ?thesis
    by (simp add: contents_def dom_map_of_conv_image_fst distinct_card flip: set_map)
qed

interpretation hm: dictionary hm_inv contents hm_insert insertOrAssign hm_find hm_read hm_erase hm_forEach hm_size
proof unfold_locales
  fix m :: "('k, 'v) hashmap" and k v
  assume inv: "hm_inv m"
  show "\<exists>m'. hm_insert m k v = Inr (contents m k = None, m') \<and> hm_inv m' \<and>
      contents m' = (if contents m k = None then (contents m)(k \<mapsto> v) else contents m)"
    using inv by (rule hm_insert_spec)
  show "\<exists>m'. insertOrAssign m k v = Inr (contents m k = None, m') \<and> hm_inv m' \<and> contents m' = (contents m)(k \<mapsto> v)"
    using inv by (rule insertOrAssign_spec)
  show "case contents m k of None \<Rightarrow> hm_find m k = Inr None
      | Some v \<Rightarrow> \<exists>p. hm_find m k = Inr (Some p) \<and> hm_read m p = Inr v"
    using inv by (rule hm_find_spec)
  show "\<exists>m'. hm_erase m k = Inr (contents m k \<noteq> None, m') \<and> hm_inv m' \<and> contents m' = (contents m)(k := None)"
    using inv by (rule hm_erase_spec)
  show "\<exists>ps. hm_forEach m = Inr ps \<and> distinct (map fst ps) \<and> map_of ps = contents m"
    using hm_forEach_spec [OF inv] by (auto simp: contents_def)
  show "hm_size m = card (dom (contents m))" using inv by (rule hm_size_spec)
qed

section \<open>Fuel\<close>

text \<open>
  The bound on the rounds of \<open>place_loop\<close> is exact: a probe that does not stop within as many
  rounds as there are slots never stops.
\<close>

lemma place_loop_runs:
  assumes n: "length s = 2 ^ n" and wf: "\<And>i. i < length s \<Longrightarrow> slot_wf (s ! i)"
    and go: "\<And>i. i < length s \<Longrightarrow> \<not> stops key (s ! i)"
  shows "place_loop s key (probe (length s) h d) fd fuel = Inl Nontermination"
proof (induction fuel arbitrary: d fd)
  case (Suc fuel)
  then show ?case
    using probe_less [OF n, of h d] holds_key_wf [OF wf [OF probe_less [OF n]], of h d key] go [OF probe_less [OF n], of h d]
    by (simp add: next_index_probe [OF n] stops_def Let_def)
qed simp

lemma place_loop_fuel_exact:
  assumes n: "length s = 2 ^ n" and wf: "\<And>i. i < length s \<Longrightarrow> slot_wf (s ! i)"
    and out: "place_loop s key (probe (length s) h 0) None (length s) = Inl Nontermination"
  shows "place_loop s key (probe (length s) h 0) None fuel = Inl Nontermination"
proof (rule place_loop_runs [OF n wf])
  fix i assume "i < length s"
  show "\<not> stops key (s ! i)"
  proof
    assume "stops key (s ! i)"
    with probe_covers [OF \<open>i < length s\<close>, of h] have "\<exists>e < length s. stops key (s ! probe (length s) h e)" by blast
    then obtain e where e: "e < length s" "stops key (s ! probe (length s) h e)"
      "\<forall>e' < e. \<not> stops key (s ! probe (length s) h e')" by (rule first_stop)
    show False
      using place_loop_at [OF n wf, where d = 0 and h = h and e = e and key = key and fd = None and fuel = "length s"]
        e out by (auto split: if_splits)
  qed
qed

lemma grow_from_zero: "0 < x \<Longrightarrow> grow_capacity fuel 0 x = Inl Nontermination"
  by (induction fuel) simp_all

lemma unat_pow2:
  assumes "i < 64"
  shows "unat (2 ^ i :: 64 word) = 2 ^ i"
proof -
  have "unat (of_nat (2 ^ i) :: 64 word) = 2 ^ i mod 2 ^ 64" by (simp only: unat_of_nat) simp
  also have "\<dots> = 2 ^ i" using assms by (intro mod_less power_strict_increasing) simp_all
  finally show ?thesis by simp
qed

lemma pow2_64: "(2 :: 64 word) ^ 64 = 0"
  by simp

lemma grow_diverges:
  assumes "2 ^ 63 < unat x"
  shows "i < 64 \<Longrightarrow> grow_capacity fuel (2 ^ i) x = Inl Nontermination"
proof (induction fuel arbitrary: i)
  have lt: "(2 ^ i :: 64 word) < x" if "i < 64" for i
  proof -
    have "(2::nat) ^ i \<le> 2 ^ 63" using that by (intro power_increasing) simp_all
    then show ?thesis using assms unat_pow2 [OF that] by (simp add: word_less_nat_alt)
  qed
  case 0
  then show ?case using lt by simp
  case (Suc fuel)
  have "x > 0" using assms by (auto simp: word_gt_0)
  have step: "(2 ^ i * 2 :: 64 word) = 2 ^ Suc i" by simp
  show ?case
  proof (cases "i = 63")
    case True
    then have "(2 ^ i * 2 :: 64 word) = 0" using pow2_64 by simp
    then show ?thesis using lt [OF Suc.prems] grow_from_zero [OF \<open>x > 0\<close>] by simp
  next
    case False
    then have "Suc i < 64" using Suc.prems by simp
    from Suc.IH [OF this] show ?thesis using lt [OF Suc.prems] unfolding grow_capacity.simps step by simp
  qed
qed

lemma grow_returns:
  assumes "unat x \<le> 2 ^ 63"
  shows "i \<le> 63 \<Longrightarrow> 63 - i \<le> fuel \<Longrightarrow> \<exists>j. i \<le> j \<and> j \<le> 63 \<and> grow_capacity fuel (2 ^ i) x = Inr (2 ^ j) \<and>
    unat x \<le> 2 ^ j \<and> (j = i \<or> 2 ^ j < 2 * unat x)"
proof (induction fuel arbitrary: i)
  case 0
  then have "i = 63" by simp
  moreover have "\<not> (2 ^ 63 :: 64 word) < x" using assms unat_pow2 [of 63] by (simp add: word_less_nat_alt)
  ultimately show ?case using assms by auto
next
  case (Suc fuel)
  have lt: "(2 ^ i :: 64 word) < x \<longleftrightarrow> 2 ^ i < unat x"
    using unat_pow2 [of i] Suc.prems(1) by (simp add: word_less_nat_alt)
  show ?case
  proof (cases "2 ^ i < unat x")
    case False
    with lt Suc.prems(1) show ?thesis by (intro exI [of _ i]) simp
  next
    case True
    then have "(2::nat) ^ i < 2 ^ 63" using assms by (rule less_le_trans)
    then have "i < 63" by (rule power_less_imp_less_exp [rotated]) simp
    then have i: "Suc i \<le> 63" "63 - Suc i \<le> fuel" using Suc.prems(2) by simp_all
    have step: "(2 ^ i * 2 :: 64 word) = 2 ^ Suc i" by simp
    from Suc.IH [OF i] obtain j where j: "Suc i \<le> j" "j \<le> 63" "grow_capacity fuel (2 ^ Suc i) x = Inr (2 ^ j)"
      "unat x \<le> 2 ^ j" "j = Suc i \<or> 2 ^ j < 2 * unat x" by blast
    from j(5) have "2 ^ j < 2 * unat x" using True by auto
    then show ?thesis using j lt True unfolding grow_capacity.simps step by (intro exI [of _ j]) simp
  qed
qed

section \<open>The map as a whole\<close>

lemma default_hashmap_inv: "hm_inv (default_hashmap h)" "contents (default_hashmap h) = Map.empty"
proof -
  have d: "default_hashmap h =
      (default_hashmap h)\<lparr>slots := replicate (2 ^ 4) empty_slot, hm_size := 0, hm_used := 0\<rparr>"
    by (simp add: default_hashmap_def kMinCapacity_def)
  show "contents (default_hashmap h) = Map.empty" by (subst d) (rule replicate_core)
  have "hm_core (default_hashmap h)" by (subst d) (rule replicate_core)
  then show "hm_inv (default_hashmap h)" by (simp add: hm_inv_def default_hashmap_def)
qed

abbreviation hm_step :: "('k, 'v) dict_op \<Rightarrow> ('k, 'v) hashmap \<Rightarrow> (bool \<times> ('k, 'v) hashmap) result" where
  "hm_step \<equiv> dict_step hm_insert insertOrAssign hm_erase"

text \<open>
  C8. For every hash function, every sequence of \<open>insert\<close>, \<open>insertOrAssign\<close> and \<open>erase\<close> on a
  default-constructed map runs through without exception, out-of-range access or endless probing,
  answers as a finite map does, and ends in a map whose \<open>find\<close> agrees with that finite map on
  every key, whose size is the number of its keys and whose used slots are at most 70\%.
\<close>

theorem hashmap_refines_map:
  "\<exists>m. dict_run hm_step xs (default_hashmap h) = Inr (fst (dict_map_run xs Map.empty), m) \<and>
    (\<forall>k. bind_result (hm_find m k) (\<lambda>p. case p of None \<Rightarrow> Inr None | Some i \<Rightarrow> bind_result (hm_read m i) (\<lambda>v. Inr (Some v))) =
       Inr (snd (dict_map_run xs Map.empty) k)) \<and>
    hm_size m = card (dom (snd (dict_map_run xs Map.empty))) \<and> hm_used m * 10 \<le> hm_capacity m * 7"
proof -
  from hm.dict_run_refines [OF default_hashmap_inv(1), of xs h] obtain m where
    m: "dict_run hm_step xs (default_hashmap h) = Inr (fst (dict_map_run xs Map.empty), m)" "hm_inv m"
    "contents m = snd (dict_map_run xs Map.empty)" unfolding default_hashmap_inv(2) by blast
  have "bind_result (hm_find m k) (\<lambda>p. case p of None \<Rightarrow> Inr None | Some i \<Rightarrow> bind_result (hm_read m i) (\<lambda>v. Inr (Some v))) =
      Inr (contents m k)" for k
    using hm.fnd_law [OF m(2), of k] by (cases "contents m k") auto
  then show ?thesis using m hm.size_law [OF m(2)] by (auto simp: hm_inv_def hm_capacity_def)
qed



end
