(* ===== verification/LRUCache_Spec.thy ===== *)
theory LRUCache_Spec
  imports LRUCache HashMap_Spec
begin

text \<open>
  The cache against its specification, a list of entries in order of recency: a write or a hit
  moves the entry to the front, and a write into a full cache drops the entry at the back. The
  index and the list stay in step, so no operation follows a stale iterator.
\<close>

section \<open>The specification\<close>

definition recent :: "'k \<Rightarrow> 'v \<Rightarrow> ('k \<times> 'v) list \<Rightarrow> ('k \<times> 'v) list" where
  "recent k v es = (k, v) # filter (\<lambda>e. fst e \<noteq> k) es"

definition spec_put :: "nat \<Rightarrow> 'k \<Rightarrow> 'v \<Rightarrow> ('k \<times> 'v) list \<Rightarrow> ('k \<times> 'v) list" where
  "spec_put capacity k v es = take capacity (recent k v es)"

definition spec_get :: "'k \<Rightarrow> ('k \<times> 'v) list \<Rightarrow> ('k \<times> 'v) list" where
  "spec_get k es = (case map_of es k of None \<Rightarrow> es | Some v \<Rightarrow> recent k v es)"

definition spec_erase :: "'k \<Rightarrow> ('k \<times> 'v) list \<Rightarrow> ('k \<times> 'v) list" where
  "spec_erase k es = filter (\<lambda>e. fst e \<noteq> k) es"

section \<open>The contract\<close>

locale recency_cache =
  fixes inv :: "'c \<Rightarrow> bool"
    and cap :: "'c \<Rightarrow> nat"
    and ents :: "'c \<Rightarrow> ('k \<times> 'v) list"
    and put :: "'c \<Rightarrow> 'k \<Rightarrow> 'v \<Rightarrow> 'c result"
    and get :: "'c \<Rightarrow> 'k \<Rightarrow> ('v option \<times> 'c) result"
    and era :: "'c \<Rightarrow> 'k \<Rightarrow> (bool \<times> 'c) result"
  assumes distinct_ents: "inv c \<Longrightarrow> distinct (map fst (ents c))"
    and cap_pos: "inv c \<Longrightarrow> 0 < cap c"
    and size_ents: "inv c \<Longrightarrow> length (ents c) \<le> cap c"
    and put_law: "inv c \<Longrightarrow> \<exists>c'. put c k v = Inr c' \<and> inv c' \<and> cap c' = cap c \<and>
      ents c' = spec_put (cap c) k v (ents c)"
    and get_law: "inv c \<Longrightarrow> \<exists>c'. get c k = Inr (map_of (ents c) k, c') \<and> inv c' \<and> cap c' = cap c \<and>
      ents c' = spec_get k (ents c)"
    and era_law: "inv c \<Longrightarrow> \<exists>c'. era c k = Inr (k \<in> fst ` set (ents c), c') \<and> inv c' \<and> cap c' = cap c \<and>
      ents c' = spec_erase k (ents c)"
begin

text \<open>
  What a client that caches a map \<open>m\<close> needs: every cached entry agrees with \<open>m\<close>. A hit then
  answers from \<open>m\<close>, filling with a value of \<open>m\<close> keeps the agreement, and so does changing \<open>m\<close>
  at a key that is erased from the cache.
\<close>

lemma get_coherent:
  assumes "inv c" and coh: "\<forall>(k, v) \<in> set (ents c). m k = Some v"
  obtains v c' where "get c k = Inr (v, c')" "inv c'" "\<forall>(k, v) \<in> set (ents c'). m k = Some v"
    "\<forall>w. v = Some w \<longrightarrow> m k = Some w"
proof -
  from get_law [OF assms(1), of k] obtain c' where c': "get c k = Inr (map_of (ents c) k, c')" "inv c'"
    "ents c' = spec_get k (ents c)" by blast
  have hit: "m k = Some w" if "map_of (ents c) k = Some w" for w using coh map_of_SomeD [OF that] by blast
  then have "\<forall>(k, v) \<in> set (ents c'). m k = Some v"
    using coh unfolding c'(3) spec_get_def recent_def by (auto split: option.splits)
  with c' hit that show ?thesis by blast
qed

lemma put_coherent:
  assumes "inv c" and coh: "\<forall>(k, v) \<in> set (ents c). m k = Some v" and "m k = Some v"
  obtains c' where "put c k v = Inr c'" "inv c'" "\<forall>(k, v) \<in> set (ents c'). m k = Some v"
proof -
  from put_law [OF assms(1), of k v] obtain c' where c': "put c k v = Inr c'" "inv c'"
    "ents c' = spec_put (cap c) k v (ents c)" by blast
  have "\<forall>(k, v) \<in> set (ents c'). m k = Some v"
    using coh assms(3) unfolding c'(3) spec_put_def recent_def by (auto dest!: in_set_takeD)
  with c' that show ?thesis by blast
qed

lemma era_coherent:
  assumes "inv c" and coh: "\<forall>(k, v) \<in> set (ents c). m k = Some v" and same: "\<And>k'. k' \<noteq> k \<Longrightarrow> m' k' = m k'"
  obtains b c' where "era c k = Inr (b, c')" "inv c'" "\<forall>(k, v) \<in> set (ents c'). m' k = Some v"
proof -
  from era_law [OF assms(1), of k] obtain c' where c': "era c k = Inr (k \<in> fst ` set (ents c), c')" "inv c'"
    "ents c' = spec_erase k (ents c)" by blast
  have "\<forall>(k, v) \<in> set (ents c'). m' k = Some v"
    using coh same unfolding c'(3) spec_erase_def by auto
  with c' that show ?thesis by blast
qed

end

section \<open>The invariant\<close>

abbreviation key_iters :: "('k, 'v) list_node list \<Rightarrow> ('k \<times> iter) list" where
  "key_iters xs \<equiv> map (\<lambda>x. (fst (snd x), fst x)) xs"

definition lru_entries :: "('k, 'v) lru \<Rightarrow> ('k \<times> 'v) list" where
  "lru_entries c = map snd (items c)"

definition lru_inv :: "('k, 'v) lru \<Rightarrow> bool" where
  "lru_inv c \<longleftrightarrow> 0 < lru_capacity c \<and> length (items c) \<le> lru_capacity c \<and>
     distinct (map fst (items c)) \<and> distinct (map (\<lambda>x. fst (snd x)) (items c)) \<and>
     (\<forall>x \<in> set (items c). fst x < next_iter c) \<and>
     hm_inv (index c) \<and> contents (index c) = map_of (key_iters (items c))"

lemma new_lru_inv: "new_lru h n = Inr c \<Longrightarrow> lru_inv c \<and> lru_entries c = [] \<and> lru_capacity c = n"
  using default_hashmap_inv by (auto simp: new_lru_def lru_inv_def lru_entries_def split: if_splits)

text \<open>The index leads to the node of the key, which cuts the list in two.\<close>

lemma index_find_eq:
  assumes "lru_inv c"
  shows "index_find c key = Inr (map_of (key_iters (items c)) key)"
  using assms hm.fnd_law [of "index c" key]
  by (cases "map_of (key_iters (items c)) key") (auto simp: lru_inv_def index_find_def)

lemma find_append: "find P xs = None \<Longrightarrow> find P (xs @ ys) = find P ys"
  by (induction xs) (auto split: if_splits)

lemma index_find_cases:
  assumes inv: "lru_inv c"
  obtains (miss) "index_find c key = Inr None" "key \<notin> fst ` set (lru_entries c)" "map_of (lru_entries c) key = None"
  | (hit) it v xs ys where "index_find c key = Inr (Some it)" "items c = xs @ (it, key, v) # ys"
    "map_of (lru_entries c) key = Some v" "key \<in> fst ` set (lru_entries c)"
    "filter (\<lambda>e. fst e \<noteq> key) (lru_entries c) = map snd (xs @ ys)"
    "without_node (items c) it = xs @ ys" "node_at (items c) it = Inr (it, key, v)"
proof (cases "map_of (key_iters (items c)) key")
  case None
  then have "key \<notin> fst ` set (lru_entries c)" by (force simp: map_of_eq_None_iff lru_entries_def)
  with miss index_find_eq [OF inv] None show ?thesis by (simp add: map_of_eq_None_iff)
next
  case (Some it)
  from map_of_SomeD [OF this] obtain v where "(it, key, v) \<in> set (items c)" by auto
  then obtain xs ys where xy: "items c = xs @ (it, key, v) # ys" by (meson split_list)
  have d: "distinct (map fst (items c))" "distinct (map (\<lambda>x. fst (snd x)) (items c))"
    using inv by (simp_all add: lru_inv_def)
  have other: "fst x \<noteq> it" "fst (snd x) \<noteq> key" if "x \<in> set (xs @ ys)" for x
    using d that unfolding xy by (auto simp: rev_image_eqI)
  have "filter (\<lambda>x. fst x \<noteq> it) (xs @ ys) = xs @ ys" using other(1) by (simp only: filter_id_conv) blast
  moreover have "find (\<lambda>x. fst x = it) xs = None" unfolding find_None_iff using other(1) by fastforce
  ultimately have n: "without_node (items c) it = xs @ ys" "node_at (items c) it = Inr (it, key, v)"
    unfolding without_node_def node_at_def xy by (simp_all add: find_append)
  have f: "filter (\<lambda>e. fst e \<noteq> key) (map snd (xs @ ys)) = map snd (xs @ ys)"
    using other(2) by (auto simp: filter_id_conv)
  have "distinct (map fst (lru_entries c))" using d(2) by (simp add: lru_entries_def comp_def)
  then have "map_of (lru_entries c) key = Some v"
    by (rule map_of_is_SomeI) (simp add: lru_entries_def xy)
  moreover have "key \<in> fst ` set (lru_entries c)" by (simp add: lru_entries_def xy)
  moreover have "filter (\<lambda>e. fst e \<noteq> key) (lru_entries c) = map snd (xs @ ys)"
    using f by (simp add: lru_entries_def xy)
  ultimately show ?thesis using index_find_eq [OF inv] Some n xy by (intro hit) simp_all
qed

text \<open>Moving a node to the front, with a value that may be new.\<close>

lemma lru_inv_front:
  assumes inv: "lru_inv c" and xy: "items c = xs @ (it, key, v) # ys"
  shows "lru_inv (c\<lparr>items := (it, key, w) # xs @ ys\<rparr>)"
proof -
  have "key \<notin> (\<lambda>x. fst (snd x)) ` set xs" using inv unfolding lru_inv_def xy by auto
  then have "map_of (key_iters xs) key = None" by (force simp: map_of_eq_None_iff)
  then have "map_of (key_iters ((it, key, w) # xs @ ys)) = map_of (key_iters (xs @ (it, key, v) # ys))"
    by (auto simp: fun_eq_iff map_add_def split: option.splits)
  then show ?thesis using inv unfolding lru_inv_def xy by auto
qed

lemma lru_get_spec:
  assumes inv: "lru_inv c"
  shows "\<exists>c'. lru_get c k = Inr (map_of (lru_entries c) k, c') \<and> lru_inv c' \<and> lru_capacity c' = lru_capacity c \<and>
    lru_entries c' = spec_get k (lru_entries c)"
  using inv
proof (cases rule: index_find_cases [where key = k])
  case miss
  then show ?thesis using inv by (auto simp: lru_get_def spec_get_def lru_inv_def lru_entries_def)
next
  case (hit it v xs ys)
  then show ?thesis using lru_inv_front [OF inv hit(2), of v]
    by (simp add: lru_get_def touch_def spec_get_def recent_def) (simp add: lru_inv_def lru_entries_def)
qed

lemma lru_peek_spec:
  assumes inv: "lru_inv c"
  shows "lru_peek c k = Inr (map_of (lru_entries c) k)"
  using inv by (cases rule: index_find_cases [where key = k]) (simp_all add: lru_peek_def)

lemma lru_erase_spec:
  assumes inv: "lru_inv c"
  shows "\<exists>c'. lru_erase c k = Inr (k \<in> fst ` set (lru_entries c), c') \<and> lru_inv c' \<and> lru_capacity c' = lru_capacity c \<and>
    lru_entries c' = spec_erase k (lru_entries c)"
  using inv
proof (cases rule: index_find_cases [where key = k])
  case miss
  then have "filter (\<lambda>e. fst e \<noteq> k) (lru_entries c) = lru_entries c" by (auto simp: filter_id_conv)
  with miss inv show ?thesis by (auto simp: lru_erase_def spec_erase_def)
next
  case (hit it v xs ys)
  have "hm_inv (index c)" using inv by (simp add: lru_inv_def)
  from hm.era_law [OF this, of k] obtain b ix where ix: "hm_erase (index c) k = Inr (b, ix)" "hm_inv ix"
    "contents ix = (contents (index c))(k := None)" by blast
  have "contents ix = map_of (key_iters (xs @ ys))"
  proof -
    have "k \<notin> (\<lambda>x. fst (snd x)) ` set (xs @ ys)" using inv unfolding lru_inv_def hit(2) by auto
    then have "map_of (key_iters (xs @ ys)) k = None" by (force simp: map_of_eq_None_iff)
    moreover have "contents (index c) = map_of (key_iters (xs @ (it, k, v) # ys))"
      using inv unfolding lru_inv_def hit(2) by blast
    ultimately show ?thesis unfolding ix(3) by (auto simp: fun_eq_iff map_add_def split: option.splits)
  qed
  with ix(2) inv have "lru_inv (c\<lparr>items := xs @ ys, index := ix\<rparr>)" unfolding lru_inv_def hit(2) by auto
  with hit ix(1) show ?thesis by (simp add: lru_erase_def spec_erase_def lru_entries_def)
qed

lemma evict_spec:
  assumes inv: "lru_inv c"
  shows "\<exists>c'. evict c = Inr c' \<and> lru_inv c' \<and> lru_capacity c' = lru_capacity c \<and>
    lru_entries c' = take (lru_capacity c - 1) (lru_entries c)"
proof (cases "length (items c) = lru_capacity c")
  case False
  then have "length (items c) \<le> lru_capacity c - 1" using inv by (auto simp: lru_inv_def)
  with False inv show ?thesis by (simp add: evict_def lru_entries_def take_map)
next
  case True
  then have ne: "items c \<noteq> []" using inv by (auto simp: lru_inv_def)
  then obtain xs it k v where xs: "items c = xs @ [(it, k, v)]" by (metis prod_cases3 rev_exhaust)
  have "hm_inv (index c)" using inv by (simp add: lru_inv_def)
  from hm.era_law [OF this, of k] obtain b ix where ix: "hm_erase (index c) k = Inr (b, ix)" "hm_inv ix"
    "contents ix = (contents (index c))(k := None)" by blast
  have "k \<notin> (\<lambda>x. fst (snd x)) ` set xs" using inv unfolding lru_inv_def xs by auto
  then have "map_of (key_iters xs) k = None" by (force simp: map_of_eq_None_iff)
  moreover have "contents (index c) = map_of (key_iters (xs @ [(it, k, v)]))"
    using inv unfolding lru_inv_def xs by blast
  ultimately have "contents ix = map_of (key_iters xs)"
    unfolding ix(3) by (auto simp: fun_eq_iff map_add_def split: option.splits)
  with ix(2) inv have "lru_inv (c\<lparr>index := ix, items := xs\<rparr>)" unfolding lru_inv_def xs by auto
  moreover have "lru_entries (c\<lparr>index := ix, items := xs\<rparr>) = take (lru_capacity c - 1) (lru_entries c)"
    using True by (simp add: lru_entries_def xs)
  ultimately show ?thesis using True ix(1) by (auto simp: evict_def xs)
qed

lemma lru_put_hit:
  assumes inv: "lru_inv c" and xy: "items c = xs @ (it, key, v) # ys"
  shows "bind_result (set_value (items c) it w) (\<lambda>zs. touch zs it) = Inr ((it, key, w) # xs @ ys)"
proof -
  have other: "fst x \<noteq> it" if "x \<in> set xs \<or> x \<in> set ys" for x
    using inv that unfolding lru_inv_def xy by (auto simp: rev_image_eqI)
  let ?upd = "\<lambda>x. if fst x = it then (it, fst (snd x), w) else x"
  have id: "map ?upd xs = xs" "map ?upd ys = ys" by (rule map_idI, simp add: other)+
  have none: "find (\<lambda>x. fst x = it) xs = None" unfolding find_None_iff using other by fastforce
  have f: "filter (\<lambda>x. fst x \<noteq> it) xs = xs" "filter (\<lambda>x. fst x \<noteq> it) ys = ys"
    unfolding filter_id_conv using other by blast+
  show ?thesis
    unfolding set_value_def touch_def node_at_def without_node_def xy by (simp add: find_append none id f)
qed

lemma lru_put_spec:
  assumes inv: "lru_inv c"
  shows "\<exists>c'. lru_put c k v = Inr c' \<and> lru_inv c' \<and> lru_capacity c' = lru_capacity c \<and>
    lru_entries c' = spec_put (lru_capacity c) k v (lru_entries c)"
  using inv
proof (cases rule: index_find_cases [where key = k])
  case (hit it w xs ys)
  have "lru_put c k v = Inr (c\<lparr>items := (it, k, v) # xs @ ys\<rparr>)"
    using lru_put_hit [OF inv hit(2), of v] hit(1)
    by (auto simp: lru_put_def bind_result_eq_Inr bind_result_assoc [symmetric])
  moreover have "length xs + length ys < lru_capacity c" using inv unfolding lru_inv_def hit(2) by simp
  then have "spec_put (lru_capacity c) k v (lru_entries c) = (k, v) # map snd (xs @ ys)"
    using hit(5) by (simp add: spec_put_def recent_def)
  ultimately show ?thesis using lru_inv_front [OF inv hit(2), of v] by (simp add: lru_entries_def)
next
  case miss
  from evict_spec [OF inv] obtain c1 where c1: "evict c = Inr c1" "lru_inv c1" "lru_capacity c1 = lru_capacity c"
    "lru_entries c1 = take (lru_capacity c - 1) (lru_entries c)" by blast
  have "hm_inv (index c1)" using c1(2) by (simp add: lru_inv_def)
  from hm.asg_law [OF this, of k "next_iter c1"] obtain b ix where ix:
    "insertOrAssign (index c1) k (next_iter c1) = Inr (b, ix)" "hm_inv ix"
    "contents ix = (contents (index c1))(k \<mapsto> next_iter c1)" by blast
  let ?c = "c1\<lparr>items := (next_iter c1, k, v) # items c1, index := ix, next_iter := next_iter c1 + 1\<rparr>"
  have "lru_put c k v = Inr ?c" using miss(1) c1(1) ix(1) by (simp add: lru_put_def Let_def)
  moreover have fresh: "k \<notin> fst ` set (lru_entries c1)"
    using miss(2) unfolding c1(4) by (auto dest!: in_set_takeD simp: rev_image_eqI)
  have "length (lru_entries c1) \<le> lru_capacity c - 1" unfolding c1(4) by simp
  then have "lru_inv ?c" using c1(2,3) ix(2,3) fresh unfolding lru_inv_def lru_entries_def
    by (auto simp: image_image)
  moreover have "lru_entries ?c = spec_put (lru_capacity c) k v (lru_entries c)"
  proof -
    have "filter (\<lambda>e. fst e \<noteq> k) (lru_entries c) = lru_entries c"
      unfolding filter_id_conv using miss(2) by (auto simp: rev_image_eqI)
    moreover have "0 < lru_capacity c" using inv by (simp add: lru_inv_def)
    ultimately show ?thesis using c1(4)
      by (cases "lru_capacity c") (simp_all add: spec_put_def recent_def lru_entries_def)
  qed
  ultimately show ?thesis using c1(3) by auto
qed

interpretation lru: recency_cache lru_inv lru_capacity lru_entries lru_put lru_get lru_erase
proof unfold_locales
  fix c :: "('k, 'v) lru" and k v
  assume inv: "lru_inv c"
  show "distinct (map fst (lru_entries c))" "0 < lru_capacity c" "length (lru_entries c) \<le> lru_capacity c"
    using inv by (simp_all add: lru_inv_def lru_entries_def comp_def)
  show "\<exists>c'. lru_put c k v = Inr c' \<and> lru_inv c' \<and> lru_capacity c' = lru_capacity c \<and>
    lru_entries c' = spec_put (lru_capacity c) k v (lru_entries c)" using inv by (rule lru_put_spec)
  show "\<exists>c'. lru_get c k = Inr (map_of (lru_entries c) k, c') \<and> lru_inv c' \<and> lru_capacity c' = lru_capacity c \<and>
    lru_entries c' = spec_get k (lru_entries c)" using inv by (rule lru_get_spec)
  show "\<exists>c'. lru_erase c k = Inr (k \<in> fst ` set (lru_entries c), c') \<and> lru_inv c' \<and> lru_capacity c' = lru_capacity c \<and>
    lru_entries c' = spec_erase k (lru_entries c)" using inv by (rule lru_erase_spec)
qed

section \<open>Sequences of operations\<close>

datatype ('k, 'v) lru_op = Lru_put 'k 'v | Lru_get 'k | Lru_erase 'k

datatype 'v lru_answer = Answer_done | Answer_value "'v option" | Answer_erased bool

fun lru_spec_step :: "nat \<Rightarrow> ('k, 'v) lru_op \<Rightarrow> ('k \<times> 'v) list \<Rightarrow> 'v lru_answer \<times> ('k \<times> 'v) list" where
  "lru_spec_step n (Lru_put k v) es = (Answer_done, spec_put n k v es)"
| "lru_spec_step n (Lru_get k) es = (Answer_value (map_of es k), spec_get k es)"
| "lru_spec_step n (Lru_erase k) es = (Answer_erased (k \<in> fst ` set es), spec_erase k es)"

fun lru_spec_run :: "nat \<Rightarrow> ('k, 'v) lru_op list \<Rightarrow> ('k \<times> 'v) list \<Rightarrow> 'v lru_answer list \<times> ('k \<times> 'v) list" where
  "lru_spec_run n [] es = ([], es)"
| "lru_spec_run n (x # xs) es =
     (let (a, es') = lru_spec_step n x es; (as, es'') = lru_spec_run n xs es' in (a # as, es''))"

fun lru_step :: "('k, 'v) lru_op \<Rightarrow> ('k, 'v) lru \<Rightarrow> ('v lru_answer \<times> ('k, 'v) lru) result" where
  "lru_step (Lru_put k v) c = bind_result (lru_put c k v) (\<lambda>c'. Inr (Answer_done, c'))"
| "lru_step (Lru_get k) c = bind_result (lru_get c k) (\<lambda>(v, c'). Inr (Answer_value v, c'))"
| "lru_step (Lru_erase k) c = bind_result (lru_erase c k) (\<lambda>(b, c'). Inr (Answer_erased b, c'))"

fun lru_run :: "('k, 'v) lru_op list \<Rightarrow> ('k, 'v) lru \<Rightarrow> ('v lru_answer list \<times> ('k, 'v) lru) result" where
  "lru_run [] c = Inr ([], c)"
| "lru_run (x # xs) c =
     bind_result (lru_step x c) (\<lambda>(a, c'). bind_result (lru_run xs c') (\<lambda>(as, c''). Inr (a # as, c'')))"

text \<open>The counters: a \<open>get\<close> counts one hit or one miss, the other operations none.\<close>

definition hit_answers :: "'v lru_answer list \<Rightarrow> nat" where
  "hit_answers as = length (filter (\<lambda>a. case a of Answer_value (Some v) \<Rightarrow> True | _ \<Rightarrow> False) as)"

definition miss_answers :: "'v lru_answer list \<Rightarrow> nat" where
  "miss_answers as = length (filter (\<lambda>a. case a of Answer_value None \<Rightarrow> True | _ \<Rightarrow> False) as)"

lemma lru_get_counters:
  "lru_get c k = Inr (r, c') \<Longrightarrow> hits c' = hits c + (if r = None then 0 else 1) \<and> misses c' = misses c + (if r = None then 1 else 0)"
  by (auto simp: lru_get_def exn_simps split: option.splits if_splits)

lemma lru_put_counters: "lru_put c k v = Inr c' \<Longrightarrow> hits c' = hits c \<and> misses c' = misses c"
  by (auto simp: lru_put_def evict_def exn_simps Let_def split: option.splits if_splits)

lemma lru_erase_counters: "lru_erase c k = Inr (b, c') \<Longrightarrow> hits c' = hits c \<and> misses c' = misses c"
  by (auto simp: lru_erase_def exn_simps split: option.splits)

lemma lru_step_spec:
  assumes inv: "lru_inv c"
  shows "\<exists>c'. lru_step x c = Inr (fst (lru_spec_step (lru_capacity c) x (lru_entries c)), c') \<and> lru_inv c' \<and>
    lru_capacity c' = lru_capacity c \<and> lru_entries c' = snd (lru_spec_step (lru_capacity c) x (lru_entries c)) \<and>
    hits c' = hits c + hit_answers [fst (lru_spec_step (lru_capacity c) x (lru_entries c))] \<and>
    misses c' = misses c + miss_answers [fst (lru_spec_step (lru_capacity c) x (lru_entries c))]"
proof (cases x)
  case (Lru_put k v)
  from lru.put_law [OF inv, of k v] obtain c' where "lru_put c k v = Inr c'" "lru_inv c'"
    "lru_capacity c' = lru_capacity c" "lru_entries c' = spec_put (lru_capacity c) k v (lru_entries c)" by blast
  with lru_put_counters [of c k v c'] Lru_put show ?thesis by (simp add: hit_answers_def miss_answers_def)
next
  case (Lru_get k)
  from lru.get_law [OF inv, of k] obtain c' where "lru_get c k = Inr (map_of (lru_entries c) k, c')" "lru_inv c'"
    "lru_capacity c' = lru_capacity c" "lru_entries c' = spec_get k (lru_entries c)" by blast
  with lru_get_counters [of c k _ c'] Lru_get show ?thesis
    by (cases "map_of (lru_entries c) k") (simp_all add: hit_answers_def miss_answers_def)
next
  case (Lru_erase k)
  from lru.era_law [OF inv, of k] obtain c' where "lru_erase c k = Inr (k \<in> fst ` set (lru_entries c), c')" "lru_inv c'"
    "lru_capacity c' = lru_capacity c" "lru_entries c' = spec_erase k (lru_entries c)" by blast
  with lru_erase_counters [of c k _ c'] Lru_erase show ?thesis by (simp add: hit_answers_def miss_answers_def)
qed

lemma answers_Cons:
  "hit_answers (a # as) = hit_answers [a] + hit_answers as" "miss_answers (a # as) = miss_answers [a] + miss_answers as"
  by (simp_all add: hit_answers_def miss_answers_def)

lemma lru_run_spec:
  "lru_inv c \<Longrightarrow> \<exists>c'. lru_run xs c = Inr (fst (lru_spec_run (lru_capacity c) xs (lru_entries c)), c') \<and> lru_inv c' \<and>
    lru_capacity c' = lru_capacity c \<and> lru_entries c' = snd (lru_spec_run (lru_capacity c) xs (lru_entries c)) \<and>
    hits c' = hits c + hit_answers (fst (lru_spec_run (lru_capacity c) xs (lru_entries c))) \<and>
    misses c' = misses c + miss_answers (fst (lru_spec_run (lru_capacity c) xs (lru_entries c)))"
proof (induction xs arbitrary: c)
  case Nil
  then show ?case by (simp add: hit_answers_def miss_answers_def)
next
  case (Cons x xs)
  obtain a es where a: "lru_spec_step (lru_capacity c) x (lru_entries c) = (a, es)" by fastforce
  from lru_step_spec [OF Cons.prems, of x] a obtain c1 where c1: "lru_step x c = Inr (a, c1)" "lru_inv c1"
    "lru_capacity c1 = lru_capacity c" "lru_entries c1 = es" "hits c1 = hits c + hit_answers [a]"
    "misses c1 = misses c + miss_answers [a]" by auto
  obtain as fs where r: "lru_spec_run (lru_capacity c) xs es = (as, fs)" by fastforce
  from Cons.IH [OF c1(2)] r c1(3,4) obtain c2 where c2: "lru_run xs c1 = Inr (as, c2)" "lru_inv c2"
    "lru_capacity c2 = lru_capacity c" "lru_entries c2 = fs" "hits c2 = hits c1 + hit_answers as"
    "misses c2 = misses c1 + miss_answers as" by auto
  show ?case using c1 c2 answers_Cons [of a as] by (simp add: a r)
qed

text \<open>
  C20. Every sequence of \<open>put\<close>, \<open>get\<close> and \<open>erase\<close> on a fresh cache runs without following a stale
  iterator, answers as the recency list does, keeps the entries in order of recency and at most
  as many as its capacity, and counts the hits and misses its answers show.
\<close>

theorem lru_refines_recency_list:
  fixes xs :: "('k, 'v) lru_op list"
  assumes "0 < n"
  shows "\<exists>c c'. new_lru h n = Inr c \<and> lru_run xs c = Inr (fst (lru_spec_run n xs []), c') \<and>
    lru_entries c' = snd (lru_spec_run n xs []) \<and> lru_size c' \<le> n \<and>
    hits c' = hit_answers (fst (lru_spec_run n xs [])) \<and> misses c' = miss_answers (fst (lru_spec_run n xs []))"
proof -
  obtain c :: "('k, 'v) lru" where c: "new_lru h n = Inr c" "hits c = 0" "misses c = 0" using assms by (simp add: new_lru_def)
  note i = new_lru_inv [OF c(1)]
  then have inv: "lru_inv c" and e: "lru_entries c = []" "lru_capacity c = n" by simp_all
  from lru_run_spec [OF inv, of xs] obtain c' where c': "lru_run xs c = Inr (fst (lru_spec_run n xs []), c')"
    "lru_inv c'" "lru_capacity c' = n" "lru_entries c' = snd (lru_spec_run n xs [])"
    "hits c' = hit_answers (fst (lru_spec_run n xs []))" "misses c' = miss_answers (fst (lru_spec_run n xs []))"
    unfolding e c(2,3) by auto
  have "lru_size c' \<le> n" using lru.size_ents [OF c'(2)] c'(3) by (simp add: lru_size_def lru_entries_def)
  with c(1) c' show ?thesis by blast
qed

definition demo_lru_ops :: "(nat, nat) lru_op list" where
  "demo_lru_ops = [Lru_put 1 10, Lru_put 2 20, Lru_get 1, Lru_put 3 30, Lru_get 2]"

theorem lru_refines_recency_list_witness:
  "\<exists>c c'. new_lru of_nat 2 = Inr c \<and>
    lru_run demo_lru_ops c =
      Inr ([Answer_done, Answer_done, Answer_value (Some 10), Answer_done, Answer_value None], c') \<and>
    lru_entries c' = [(3, 30), (1, 10)] \<and> lru_size c' \<le> 2 \<and> hits c' = 1 \<and> misses c' = 1"
proof -
  have r: "lru_spec_run 2 demo_lru_ops [] =
      ([Answer_done, Answer_done, Answer_value (Some 10), Answer_done, Answer_value None], [(3, 30), (1, 10)])"
    by (simp add: demo_lru_ops_def spec_put_def spec_get_def recent_def)
  from lru_refines_recency_list [of 2 of_nat demo_lru_ops] show ?thesis
    unfolding r by (simp add: hit_answers_def miss_answers_def)
qed

end
