(* ===== verification/Table_Spec.thy ===== *)
theory Table_Spec
  imports Table BTree_Spec LRUCache_Spec
begin

text \<open>
  The table against its abstract state, a finite map from ids to rows. The invariant says that
  every stored row is complete, typed, of the table's schema and filed under its own id, and
  that the cache never holds anything else than what the tree holds. Every member keeps it,
  whatever is cached.
\<close>

section \<open>The invariant\<close>

definition stored_ok :: "Schema \<Rightarrow> int64 \<times> Row \<Rightarrow> bool" where
  "stored_ok sc e \<longleftrightarrow> row_schema (snd e) = sc \<and> row_wf (snd e) \<and> isComplete (snd e) \<and>
     row_getInt (snd e) kIdColumn = Inr (fst e)"

definition id_schema :: "Schema \<Rightarrow> bool" where
  "id_schema sc \<longleftrightarrow> schema_wf sc \<and> (\<exists>c. findColumn sc kIdColumn = Some c \<and> col_type c = DT_INT)"

definition table_map :: "table \<Rightarrow> int64 \<rightharpoonup> Row" where
  "table_map t = map_of (entries (rows t))"

definition table_rows :: "table \<Rightarrow> Row list" where
  "table_rows t = map snd (entries (rows t))"

definition tbl_inv :: "table \<Rightarrow> bool" where
  "tbl_inv t \<longleftrightarrow> id_schema (tbl_schema t) \<and> btree_inv (rows t) \<and> lru_inv (cache t) \<and>
     (\<forall>e \<in> set (entries (rows t)). stored_ok (tbl_schema t) e) \<and>
     (\<forall>(i, r) \<in> set (lru_entries (cache t)). table_map t i = Some r)"

lemma tbl_invD:
  assumes "tbl_inv t"
  shows "id_schema (tbl_schema t)" "btree_inv (rows t)" "lru_inv (cache t)"
    "\<forall>e \<in> set (entries (rows t)). stored_ok (tbl_schema t) e"
    "\<forall>(i, r) \<in> set (lru_entries (cache t)). map_of (entries (rows t)) i = Some r"
  using assms by (simp_all add: tbl_inv_def table_map_def)

lemma columns_inject: "columns a = columns b \<longleftrightarrow> a = (b :: Schema)"
  by (cases a; cases b) simp

lemma new_table_ok:
  assumes "id_schema sc" and "0 < n"
  shows "\<exists>t. new_table h sc n = Inr t \<and> tbl_inv t \<and> tbl_schema t = sc \<and> entries (rows t) = []"
proof -
  obtain bt :: "(int64, Row) btree" where bt: "new_btree default_min_degree = Inr bt" "btree_inv bt" "entries bt = []"
    using new_btree_ok [of default_min_degree] by (auto simp: default_min_degree_def)
  obtain c :: "(int64, Row) lru" where c: "new_lru h n = Inr c" using assms(2) by (simp add: new_lru_def)
  show ?thesis using assms(1) bt c new_lru_inv [OF c]
    by (auto simp: new_table_def id_schema_def tbl_inv_def table_map_def)
qed

lemma stored_map: "tbl_inv t \<Longrightarrow> table_map t i = Some r \<Longrightarrow> stored_ok (tbl_schema t) (i, r)"
  by (auto simp: tbl_inv_def table_map_def dest: map_of_SomeD)

section \<open>Point operations\<close>

lemma findById_correct:
  assumes inv: "tbl_inv t"
  shows "\<exists>t'. findById t i = Inr (table_map t i, t') \<and> tbl_inv t' \<and> rows t' = rows t \<and> tbl_schema t' = tbl_schema t"
proof -
  note d = tbl_invD [OF inv]
  from lru.get_coherent [OF d(3,5), of i] obtain hit c where c: "lru_get (cache t) i = Inr (hit, c)" "lru_inv c"
    "\<forall>(k, v) \<in> set (lru_entries c). map_of (entries (rows t)) k = Some v"
    "\<forall>w. hit = Some w \<longrightarrow> map_of (entries (rows t)) i = Some w" by blast
  have keep: "tbl_inv (t\<lparr>cache := c\<rparr>)" using inv c(2,3) by (simp add: tbl_inv_def table_map_def)
  show ?thesis
  proof (cases hit)
    case (Some row)
    with c keep show ?thesis by (simp add: findById_def table_map_def)
  next
    case None
    show ?thesis
    proof (cases "map_of (entries (rows t)) i")
      case none: None
      with None c keep bt.srch_None [OF d(2), of i] show ?thesis by (simp add: findById_def table_map_def)
    next
      case (Some row)
      from bt.srch_Some [OF d(2) Some] obtain p where
        p: "btree_search (rows t) i = Inr (Some p)" "btree_deref (rows t) p = Inr row" by metis
      from lru.put_coherent [OF c(2,3) Some] obtain c' where c': "lru_put c i row = Inr c'" "lru_inv c'"
        "\<forall>(k, v) \<in> set (lru_entries c'). map_of (entries (rows t)) k = Some v" by blast
      have "tbl_inv (t\<lparr>cache := c'\<rparr>)" using inv c'(2,3) by (simp add: tbl_inv_def table_map_def)
      with None c(1) p c'(1) Some show ?thesis by (simp add: findById_def table_map_def)
    qed
  qed
qed

lemma id_of_complete:
  assumes "id_schema (row_schema r)" and "row_wf r" and "isComplete r"
  obtains i where "row_getInt r kIdColumn = Inr i"
  using assms isComplete_getInt unfolding id_schema_def by blast

lemma table_insert_correct:
  assumes inv: "tbl_inv t" and wf: "row_wf row"
  shows "if row_schema row \<noteq> tbl_schema t
    then table_insert t row = Inl (Invalid_argument ''Table: row schema does not match table schema'')
    else if \<not> isComplete row
    then table_insert t row = Inl (Invalid_argument ''Table: row is incomplete or fails type checks'')
    else \<exists>i t'. row_getInt row kIdColumn = Inr i \<and> table_insert t row = Inr (table_map t i = None, t') \<and>
      tbl_inv t' \<and> tbl_schema t' = tbl_schema t \<and>
      table_map t' = (if table_map t i = None then (table_map t)(i \<mapsto> row) else table_map t) \<and>
      entries (rows t') = (if table_map t i = None then ins_entry i row (entries (rows t)) else entries (rows t))"
proof (cases "row_schema row = tbl_schema t \<and> isComplete row")
  case False
  then show ?thesis using validate_iff_isComplete [OF wf, of "tbl_schema t"]
    by (auto simp: table_insert_def columns_inject)
next
  case True
  note d = tbl_invD [OF inv]
  from True have ids: "id_schema (row_schema row)" using d(1) by simp
  obtain i where i: "row_getInt row kIdColumn = Inr i" using id_of_complete [OF ids wf] True by blast
  have val: "validate (tbl_schema t) row" using True validate_iff_isComplete [OF wf, of "tbl_schema t"] by simp
  have ok: "stored_ok (tbl_schema t) (i, row)" using True wf i by (simp add: stored_ok_def)
  show ?thesis
  proof (cases "map_of (entries (rows t)) i")
    case None
    from bt.ins_fresh [OF d(2) None] obtain bt' where b: "btree_insert (rows t) i row = Inr (True, bt')" "btree_inv bt'"
      "map_of (entries bt') = (map_of (entries (rows t)))(i \<mapsto> row)" "entries bt' = ins_entry i row (entries (rows t))"
      by metis
    have "map_of (entries bt') k = Some v" if "(k, v) \<in> set (lru_entries (cache t))" for k v
      using d(5) that None unfolding b(3) by (cases "k = i") auto
    then have "tbl_inv (t\<lparr>rows := bt'\<rparr>)" using d b(2,4) ok by (auto simp: tbl_inv_def table_map_def)
    then show ?thesis using True val i b(1,3,4) None by (simp add: table_insert_def table_map_def)
  next
    case (Some r)
    then have "map_of (entries (rows t)) i \<noteq> None" by simp
    from bt.ins_taken [OF d(2) this] obtain bt' where b: "btree_insert (rows t) i row = Inr (False, bt')" "btree_inv bt'"
      "entries bt' = entries (rows t)" by metis
    have "tbl_inv (t\<lparr>rows := bt'\<rparr>)" using d b(2,3) by (auto simp: tbl_inv_def table_map_def)
    then show ?thesis using True val i b(1,3) Some by (simp add: table_insert_def table_map_def)
  qed
qed

lemma set_del_entry: "e \<in> set (del_entry k es) \<longleftrightarrow> e \<in> set es \<and> fst e \<noteq> k"
  by (auto simp: del_entry_def)

lemma doomed_step_correct:
  assumes inv: "tbl_inv t"
  shows "\<exists>t'. doomed_step i t = Inr t' \<and> tbl_inv t' \<and> tbl_schema t' = tbl_schema t \<and>
    entries (rows t') = del_entry i (entries (rows t))"
proof -
  note d = tbl_invD [OF inv]
  from bt.rem_any [OF d(2)] obtain bt' where b: "btree_remove (rows t) i = Inr (map_of (entries (rows t)) i \<noteq> None, bt')"
    "btree_inv bt'" "map_of (entries bt') = (map_of (entries (rows t)))(i := None)" "entries bt' = del_entry i (entries (rows t))"
    by metis
  have "map_of (entries bt') k = map_of (entries (rows t)) k" if "k \<noteq> i" for k unfolding b(3) using that by simp
  from lru.era_coherent [OF d(3,5) this] obtain e c where c: "lru_erase (cache t) i = Inr (e, c)" "lru_inv c"
    "\<forall>(k, v) \<in> set (lru_entries c). map_of (entries bt') k = Some v" by blast
  have "tbl_inv (t\<lparr>rows := bt', cache := c\<rparr>)"
    using d b(2,4) c(2,3) by (auto simp: tbl_inv_def table_map_def set_del_entry)
  then show ?thesis using b(1,4) c(1) by (simp add: doomed_step_def)
qed

lemma deleteById_correct:
  assumes inv: "tbl_inv t"
  shows "\<exists>t'. deleteById t i = Inr (table_map t i \<noteq> None, t') \<and> tbl_inv t' \<and> tbl_schema t' = tbl_schema t \<and>
    table_map t' = (table_map t)(i := None) \<and> entries (rows t') = del_entry i (entries (rows t))"
proof (cases "table_map t i")
  case None
  note d = tbl_invD [OF inv]
  from bt.rem_any [OF d(2)] obtain bt' where b: "btree_remove (rows t) i = Inr (map_of (entries (rows t)) i \<noteq> None, bt')"
    "btree_inv bt'" "map_of (entries bt') = (map_of (entries (rows t)))(i := None)" "entries bt' = del_entry i (entries (rows t))"
    by metis
  have "map_of (entries bt') = map_of (entries (rows t))" using None unfolding b(3) by (simp add: table_map_def fun_upd_idem)
  then have "tbl_inv (t\<lparr>rows := bt'\<rparr>)" using d b(2,4) by (auto simp: tbl_inv_def table_map_def set_del_entry)
  with b(1,3,4) None show ?thesis by (simp add: deleteById_def table_map_def)
next
  case (Some r)
  from doomed_step_correct [OF inv, of i] obtain t' where t': "doomed_step i t = Inr t'" "tbl_inv t'"
    "tbl_schema t' = tbl_schema t" "entries (rows t') = del_entry i (entries (rows t))" by blast
  obtain bt' where rm: "btree_remove (rows t) i = Inr (True, bt')"
    using bt.rem_any [OF tbl_invD(2) [OF inv], of i] Some unfolding table_map_def by (metis option.discI)
  have "deleteById t i = bind_result (doomed_step i t) (\<lambda>t'. Inr (True, t'))"
    unfolding deleteById_def doomed_step_def rm by (cases "lru_erase (cache t) i") auto
  then have "deleteById t i = Inr (True, t')" by (simp add: t'(1))
  with t' Some show ?thesis by (auto simp: table_map_def map_of_del)
qed

section \<open>Scans\<close>

text \<open>A predicate that does not throw on the rows of the table.\<close>

definition total_on :: "table \<Rightarrow> predicate \<Rightarrow> (Row \<Rightarrow> bool) \<Rightarrow> bool" where
  "total_on t p P \<longleftrightarrow> (\<forall>r \<in> set (table_rows t). p r = Inr (P r))"

lemma matching_total:
  "\<forall>e \<in> set es. p (snd e) = Inr (P (snd e)) \<Longrightarrow> matching p es = Inr (filter (\<lambda>e. P (snd e)) es)"
  by (induction es) auto

lemma matching_rows:
  "total_on t p P \<Longrightarrow> matching p (entries (rows t)) = Inr (filter (\<lambda>e. P (snd e)) (entries (rows t)))"
  by (rule matching_total) (auto simp: total_on_def table_rows_def)

lemma selectWhere_correct:
  assumes "tbl_inv t" and "total_on t p P"
  shows "selectWhere t p = Inr (filter P (table_rows t))"
  using bt.visit_law [OF tbl_invD(2) [OF assms(1)]] matching_rows [OF assms(2)]
  by (simp add: selectWhere_def table_rows_def filter_map comp_def)

lemma matched_ids:
  assumes "ksorted es" and "e \<in> set es"
  shows "fst e \<in> set (map fst (filter (\<lambda>e. P (snd e)) es)) \<longleftrightarrow> P (snd e)"
proof -
  have inj: "x = e" if "x \<in> set es" "fst x = fst e" for x
    using ksorted_distinct [OF assms(1)] assms(2) that by (auto simp: distinct_map dest: inj_onD)
  show ?thesis using assms(2) by (auto dest: inj)
qed

lemma doomed_fold:
  "tbl_inv t \<Longrightarrow> \<exists>t'. fold_result doomed_step ids t = Inr t' \<and> tbl_inv t' \<and> tbl_schema t' = tbl_schema t \<and>
     entries (rows t') = filter (\<lambda>e. fst e \<notin> set ids) (entries (rows t))"
proof (induction ids arbitrary: t)
  case (Cons i ids)
  from doomed_step_correct [OF Cons.prems, of i] obtain t1 where t1: "doomed_step i t = Inr t1" "tbl_inv t1"
    "tbl_schema t1 = tbl_schema t" "entries (rows t1) = del_entry i (entries (rows t))" by blast
  from Cons.IH [OF t1(2)] t1 show ?case by (auto simp: del_entry_def conj_commute)
qed simp

lemma deleteWhere_correct:
  assumes inv: "tbl_inv t" and p: "total_on t p P"
  shows "\<exists>t'. deleteWhere t p = Inr (length (filter P (table_rows t)), t') \<and> tbl_inv t' \<and>
    tbl_schema t' = tbl_schema t \<and> table_rows t' = filter (\<lambda>r. \<not> P r) (table_rows t) \<and>
    entries (rows t') = filter (\<lambda>e. \<not> P (snd e)) (entries (rows t)) \<and>
    (\<forall>i. table_map t' i = (case table_map t i of Some r \<Rightarrow> if P r then None else Some r | None \<Rightarrow> None))"
proof -
  let ?es = "entries (rows t)"
  let ?ids = "map fst (filter (\<lambda>e. P (snd e)) ?es)"
  note d = tbl_invD [OF inv] and so = bt.sorted_ents [OF tbl_invD(2) [OF inv]]
  from doomed_fold [OF inv, of ?ids] obtain t' where t': "fold_result doomed_step ?ids t = Inr t'" "tbl_inv t'"
    "tbl_schema t' = tbl_schema t" "entries (rows t') = filter (\<lambda>e. fst e \<notin> set ?ids) ?es" by blast
  have "filter (\<lambda>e. fst e \<notin> set ?ids) ?es = filter (\<lambda>e. \<not> P (snd e)) ?es"
    by (rule filter_cong [OF refl]) (simp only: matched_ids [OF so])
  with t'(4) have e: "entries (rows t') = filter (\<lambda>e. \<not> P (snd e)) ?es" by simp
  have "deleteWhere t p = Inr (length (filter P (table_rows t)), t')"
    using bt.visit_law [OF d(2)] matching_rows [OF p] t'(1)
    by (simp add: deleteWhere_def table_rows_def filter_map comp_def)
  moreover have "table_rows t' = filter (\<lambda>r. \<not> P r) (table_rows t)"
    by (simp add: table_rows_def e filter_map comp_def)
  moreover have "table_map t' i = (case table_map t i of Some r \<Rightarrow> if P r then None else Some r | None \<Rightarrow> None)" for i
  proof -
    have iff: "table_map t' i = Some r \<longleftrightarrow> table_map t i = Some r \<and> \<not> P r" for r
      using bt.entry_iff [OF d(2), of i r] bt.entry_iff [OF tbl_invD(2) [OF t'(2)], of i r]
      unfolding table_map_def e by auto
    show ?thesis
    proof (cases "table_map t' i")
      case None
      with iff show ?thesis by (cases "table_map t i") auto
    next
      case (Some r)
      with iff [of r] show ?thesis by simp
    qed
  qed
  ultimately show ?thesis using t'(2,3) e by blast
qed

lemma selectIdRange_correct:
  assumes "tbl_inv t"
  shows "selectIdRange t lo hi = Inr (map snd (filter (\<lambda>e. lo \<le> fst e \<and> fst e \<le> hi) (entries (rows t))))"
  using bt.range_law [OF tbl_invD(2) [OF assms], of lo hi] by (simp add: selectIdRange_def) (simp add: in_range_def [abs_def])

section \<open>Updates\<close>

definition valid_assignment :: "Schema \<Rightarrow> string \<times> string \<Rightarrow> bool" where
  "valid_assignment sc a \<longleftrightarrow> fst a \<noteq> kIdColumn \<and>
     (\<exists>c. findColumn sc (fst a) = Some c \<and> isValidValueFor (col_type c) (snd a))"

lemma check_assignments:
  "(\<forall>a \<in> set as. valid_assignment sc a) \<Longrightarrow> fold_result (check_assignment sc) as () = Inr ()"
  "\<not> (\<forall>a \<in> set as. valid_assignment sc a) \<Longrightarrow> \<exists>msg. fold_result (check_assignment sc) as () = Inl (Invalid_argument msg)"
  by (induction as) (auto simp: check_assignment_def valid_assignment_def split: option.splits)

text \<open>The row after one assignment, and after all of them.\<close>

definition assign :: "string \<times> string \<Rightarrow> Row \<Rightarrow> Row" where
  "assign a r = (case row_set r (fst a) (snd a) of Inr r' \<Rightarrow> r' | Inl _ \<Rightarrow> r)"

lemma assign_ok:
  assumes ok: "stored_ok sc (i, r)" and a: "valid_assignment sc a"
  shows "row_set r (fst a) (snd a) = Inr (assign a r)" "stored_ok sc (i, assign a r)"
proof -
  have wf: "row_wf r" "row_schema r = sc" "isComplete r" "row_getInt r kIdColumn = Inr i"
    using ok by (simp_all add: stored_ok_def)
  from row_set_Inr_iff [OF wf(1), of "fst a" "snd a"] a wf(2) obtain r' where r': "row_set r (fst a) (snd a) = Inr r'"
    by (auto simp: valid_assignment_def)
  then show "row_set r (fst a) (snd a) = Inr (assign a r)" by (simp add: assign_def)
  have "row_wf r'" using row_set_wf [OF wf(1) r'] .
  moreover have "row_value r' kIdColumn = row_value r kIdColumn"
    using row_set_value [OF wf(1) r', of kIdColumn] a by (auto simp: valid_assignment_def)
  ultimately show "stored_ok sc (i, assign a r)"
    using wf r' row_set_schema [OF r'] row_set_complete [OF wf(1,3) r']
    by (simp add: stored_ok_def assign_def row_getInt_Inr_iff)
qed

lemma assigns_ok: "stored_ok sc (i, r) \<Longrightarrow> \<forall>a \<in> set as. valid_assignment sc a \<Longrightarrow> stored_ok sc (i, fold assign as r)"
  by (induction as arbitrary: r) (auto simp: assign_ok(2))

lemma upd_entry_twice: "upd_entry k v (upd_entry k w es) = upd_entry k v es"
  by (auto simp: upd_entry_def)

lemma upd_entry_same:
  assumes "ksorted es" and "map_of es k = Some v"
  shows "upd_entry k v es = es"
  unfolding upd_entry_def
proof (rule map_idI)
  fix e assume "e \<in> set es"
  then have "map_of es (fst e) = Some (snd e)" using ksorted_distinct [OF assms(1)] by simp
  with assms(2) show "(if fst e = k then (k, v) else e) = e" by (cases e) auto
qed

text \<open>Assignments through the pointer into the tree change the value of that id only.\<close>

lemma set_in_place_fold:
  "btree_inv bt \<Longrightarrow> btree_search bt i = Inr (Some q) \<Longrightarrow> map_of (entries bt) i = Some r \<Longrightarrow>
     stored_ok sc (i, r) \<Longrightarrow> \<forall>a \<in> set as. valid_assignment sc a \<Longrightarrow>
     \<exists>bt'. fold_result (set_in_place q) as bt = Inr bt' \<and> btree_inv bt' \<and>
       entries bt' = upd_entry i (fold assign as r) (entries bt)"
proof (induction as arbitrary: bt r)
  case Nil
  then show ?case by (simp add: upd_entry_same bt.sorted_ents)
next
  case (Cons a as)
  from bt.ptr_valid [OF Cons.prems(1,2)] Cons.prems(3) have "btree_deref bt q = Inr r" by auto
  moreover from bt.ptr_valid [OF Cons.prems(1,2)] obtain bt1 where b: "btree_store bt q (assign a r) = Inr bt1"
    "btree_inv bt1" "entries bt1 = upd_entry i (assign a r) (entries bt)" "btree_search bt1 i = Inr (Some q)" by blast
  moreover have a: "row_set r (fst a) (snd a) = Inr (assign a r)" "stored_ok sc (i, assign a r)"
    using assign_ok [OF Cons.prems(4)] Cons.prems(5) by simp_all
  ultimately have s: "set_in_place q a bt = Inr bt1" by (simp add: set_in_place_def)
  have "map_of (entries bt1) i = Some (assign a r)" using Cons.prems(3) by (simp add: b(3) map_of_upd_apply)
  from Cons.IH [OF b(2,4) this a(2)] Cons.prems(5) show ?case
    by (auto simp: s b(3) upd_entry_twice)
qed

lemma update_row_correct:
  assumes inv: "btree_inv bt" and r: "map_of (entries bt) i = Some r" and ok: "stored_ok sc (i, r)"
    and as: "\<forall>a \<in> set as. valid_assignment sc a"
  shows "\<exists>bt'. update_row as i bt = Inr bt' \<and> btree_inv bt' \<and> entries bt' = upd_entry i (fold assign as r) (entries bt)"
proof -
  from bt.srch_Some [OF inv r] obtain q where q: "btree_search bt i = Inr (Some q)" by metis
  from set_in_place_fold [OF inv q r ok as] q inv show ?thesis by (cases as) (auto simp: update_row_def)
qed

definition upd_rows :: "(string \<times> string) list \<Rightarrow> int64 set \<Rightarrow> (int64 \<times> Row) list \<Rightarrow> (int64 \<times> Row) list" where
  "upd_rows as ids es = map (\<lambda>e. if fst e \<in> ids then (fst e, fold assign as (snd e)) else e) es"

lemma map_of_upd_rows:
  "map_of (upd_rows as ids es) k = map_option (if k \<in> ids then fold assign as else id) (map_of es k)"
  by (induction es) (auto simp: upd_rows_def)

lemma upd_rows_Cons:
  assumes "ksorted es" and "map_of es i = Some r" and "i \<notin> ids"
  shows "upd_rows as ids (upd_entry i (fold assign as r) es) = upd_rows as (insert i ids) es"
proof -
  have "e = (i, r)" if "e \<in> set es" "fst e = i" for e
    using map_of_is_SomeI [OF ksorted_distinct [OF assms(1)], of "fst e" "snd e"] that assms(2) by (cases e) auto
  then show ?thesis using assms(3) by (auto simp: upd_rows_def upd_entry_def)
qed

lemma update_fold:
  "btree_inv bt \<Longrightarrow> distinct ids \<Longrightarrow> \<forall>i \<in> set ids. \<exists>r. map_of (entries bt) i = Some r \<and> stored_ok sc (i, r) \<Longrightarrow>
     \<forall>a \<in> set as. valid_assignment sc a \<Longrightarrow>
     \<exists>bt'. fold_result (update_row as) ids bt = Inr bt' \<and> btree_inv bt' \<and> entries bt' = upd_rows as (set ids) (entries bt)"
proof (induction ids arbitrary: bt)
  case Nil
  then show ?case by (simp add: upd_rows_def)
next
  case (Cons i ids)
  from Cons.prems(3) obtain r where r: "map_of (entries bt) i = Some r" "stored_ok sc (i, r)" by auto
  from update_row_correct [OF Cons.prems(1) r Cons.prems(4)] obtain bt1 where
    b: "update_row as i bt = Inr bt1" "btree_inv bt1" "entries bt1 = upd_entry i (fold assign as r) (entries bt)" by blast
  have "map_of (entries bt1) k = map_of (entries bt) k" if "k \<in> set ids" for k
    using that Cons.prems(2) by (auto simp: b(3) map_of_upd_apply)
  then have "\<forall>k \<in> set ids. \<exists>r. map_of (entries bt1) k = Some r \<and> stored_ok sc (k, r)" using Cons.prems(3) by simp
  from Cons.IH [OF b(2) _ this Cons.prems(4)] Cons.prems(2) obtain bt2 where
    "fold_result (update_row as) ids bt1 = Inr bt2" "btree_inv bt2" "entries bt2 = upd_rows as (set ids) (entries bt1)" by auto
  with upd_rows_Cons [OF bt.sorted_ents [OF Cons.prems(1)] r(1), of "set ids" as] Cons.prems(2) b(1)
  show ?case by (simp add: b(3))
qed

lemma erase_fold:
  "lru_inv c \<Longrightarrow> \<exists>c'. fold_result erase_cached ids c = Inr c' \<and> lru_inv c' \<and>
     lru_entries c' = filter (\<lambda>e. fst e \<notin> set ids) (lru_entries c)"
proof (induction ids arbitrary: c)
  case (Cons i ids)
  from lru.era_law [OF Cons.prems, of i] obtain b c1 where c1: "lru_erase c i = Inr (b, c1)" "lru_inv c1"
    "lru_entries c1 = spec_erase i (lru_entries c)" by blast
  from Cons.IH [OF c1(2)] c1 show ?case by (auto simp: erase_cached_def spec_erase_def conj_commute)
qed simp

lemma updateWhere_correct:
  assumes inv: "tbl_inv t" and p: "total_on t p P" and as: "\<forall>a \<in> set as. valid_assignment (tbl_schema t) a"
  shows "\<exists>t'. updateWhere t p as = Inr (length (filter P (table_rows t)), t') \<and> tbl_inv t' \<and>
    tbl_schema t' = tbl_schema t \<and>
    table_rows t' = map (\<lambda>r. if P r then fold assign as r else r) (table_rows t) \<and>
    entries (rows t') = map (\<lambda>e. if P (snd e) then (fst e, fold assign as (snd e)) else e) (entries (rows t)) \<and>
    (\<forall>i. table_map t' i = map_option (\<lambda>r. if P r then fold assign as r else r) (table_map t i))"
proof -
  let ?es = "entries (rows t)"
  let ?ids = "map fst (filter (\<lambda>e. P (snd e)) ?es)"
  note d = tbl_invD [OF inv] and so = bt.sorted_ents [OF tbl_invD(2) [OF inv]]
  note dis = ksorted_distinct [OF bt.sorted_ents [OF tbl_invD(2) [OF inv]]]
  have "\<exists>r. map_of ?es i = Some r \<and> stored_ok (tbl_schema t) (i, r)" if "i \<in> set ?ids" for i
    using that d(4) dis by (auto simp: map_of_is_SomeI)
  moreover have "distinct ?ids" using dis by (simp add: distinct_map_filter)
  ultimately obtain bt' where b: "fold_result (update_row as) ?ids (rows t) = Inr bt'" "btree_inv bt'"
    "entries bt' = upd_rows as (set ?ids) ?es" using update_fold [OF d(2) _ _ as, of ?ids] by blast
  from erase_fold [OF d(3), of ?ids] obtain c' where c: "fold_result erase_cached ?ids (cache t) = Inr c'" "lru_inv c'"
    "lru_entries c' = filter (\<lambda>e. fst e \<notin> set ?ids) (lru_entries (cache t))" by blast
  let ?t = "t\<lparr>rows := bt', cache := c'\<rparr>"
  have e: "entries bt' = map (\<lambda>e. if P (snd e) then (fst e, fold assign as (snd e)) else e) ?es"
    unfolding b(3) upd_rows_def by (rule map_cong [OF refl]) (simp only: matched_ids [OF so])
  have "stored_ok (tbl_schema t) x" if "x \<in> set (entries bt')" for x
    using that d(4) as unfolding e by (auto intro!: assigns_ok)
  moreover have "map_of (entries bt') i = Some r" if "(i, r) \<in> set (lru_entries c')" for i r
    using that d(5) unfolding b(3) map_of_upd_rows c(3) by auto
  ultimately have "tbl_inv ?t" using d(1) b(2) c(2) by (auto simp: tbl_inv_def table_map_def)
  moreover have "table_rows ?t = map (\<lambda>r. if P r then fold assign as r else r) (table_rows t)"
    by (simp add: table_rows_def e)
  moreover have "table_map ?t i = map_option (\<lambda>r. if P r then fold assign as r else r) (table_map t i)" for i
  proof (cases "map_of ?es i")
    case None
    then show ?thesis by (simp add: table_map_def b(3) map_of_upd_rows)
  next
    case (Some r)
    then have "i \<in> set ?ids \<longleftrightarrow> P r" using matched_ids [OF so map_of_SomeD [OF Some], of P] by simp
    with Some show ?thesis by (simp add: table_map_def b(3) map_of_upd_rows del: set_map)
  qed
  moreover have "updateWhere t p as = Inr (length (filter P (table_rows t)), ?t)"
    using bt.visit_law [OF d(2)] matching_rows [OF p] check_assignments(1) [OF as] b(1) c(1)
    by (simp add: updateWhere_def table_rows_def filter_map comp_def)
  ultimately show ?thesis using e by fastforce
qed

lemma updateWhere_rejects:
  assumes "\<not> (\<forall>a \<in> set as. valid_assignment (tbl_schema t) a)"
  shows "\<exists>msg. updateWhere t p as = Inl (Invalid_argument msg)"
  using check_assignments(2) [OF assms] by (auto simp: updateWhere_def)

end
