(* ===== verification/Table_Props.thy ===== *)
theory Table_Props
  imports Table_Spec
begin

text \<open>
  The table as its users see it: a list of rows in ascending id order. Any sequence of members,
  the failing calls included, acts on that list as the specification below says.
\<close>

section \<open>Sequences of calls\<close>

datatype table_op =
  T_insert Row
| T_find int64
| T_delete int64
| T_deleteWhere "Row \<Rightarrow> bool"
| T_updateWhere "Row \<Rightarrow> bool" "(string \<times> string) list"
| T_selectWhere "Row \<Rightarrow> bool"
| T_selectIdRange int64 int64

datatype table_answer =
  T_rejected
| T_flag bool
| T_row "Row option"
| T_count nat
| T_rows "Row list"

text \<open>The specification, on the entries in ascending id order.\<close>

fun table_spec_step :: "Schema \<Rightarrow> table_op \<Rightarrow> (int64 \<times> Row) list \<Rightarrow> table_answer \<times> (int64 \<times> Row) list" where
  "table_spec_step sc (T_insert row) es =
     (if row_schema row \<noteq> sc \<or> \<not> isComplete row then (T_rejected, es)
      else case row_getInt row kIdColumn of
        Inl _ \<Rightarrow> (T_rejected, es)
      | Inr i \<Rightarrow> if map_of es i = None then (T_flag True, ins_entry i row es) else (T_flag False, es))"
| "table_spec_step sc (T_find i) es = (T_row (map_of es i), es)"
| "table_spec_step sc (T_delete i) es = (T_flag (map_of es i \<noteq> None), del_entry i es)"
| "table_spec_step sc (T_deleteWhere P) es =
     (T_count (length (filter P (map snd es))), filter (\<lambda>e. \<not> P (snd e)) es)"
| "table_spec_step sc (T_updateWhere P as) es =
     (if \<forall>a \<in> set as. valid_assignment sc a
      then (T_count (length (filter P (map snd es))), map (\<lambda>e. if P (snd e) then (fst e, fold assign as (snd e)) else e) es)
      else (T_rejected, es))"
| "table_spec_step sc (T_selectWhere P) es = (T_rows (filter P (map snd es)), es)"
| "table_spec_step sc (T_selectIdRange lo hi) es =
     (T_rows (map snd (filter (\<lambda>e. lo \<le> fst e \<and> fst e \<le> hi) es)), es)"

fun table_spec_run :: "Schema \<Rightarrow> table_op list \<Rightarrow> (int64 \<times> Row) list \<Rightarrow> table_answer list \<times> (int64 \<times> Row) list" where
  "table_spec_run sc [] es = ([], es)"
| "table_spec_run sc (x # xs) es =
     (let (a, es') = table_spec_step sc x es; (as, es'') = table_spec_run sc xs es' in (a # as, es''))"

text \<open>A call that throws \<^verbatim>\<open>std::invalid_argument\<close> is answered as rejected; its caller keeps the table.\<close>

fun answered :: "('a \<Rightarrow> table_answer) \<Rightarrow> table \<Rightarrow> ('a \<times> table) result \<Rightarrow> (table_answer \<times> table) result" where
  "answered f t (Inr (x, t')) = Inr (f x, t')"
| "answered f t (Inl (Invalid_argument msg)) = Inr (T_rejected, t)"
| "answered f t (Inl e) = Inl e"

fun table_step :: "table_op \<Rightarrow> table \<Rightarrow> (table_answer \<times> table) result" where
  "table_step (T_insert row) t = answered T_flag t (table_insert t row)"
| "table_step (T_find i) t = answered T_row t (findById t i)"
| "table_step (T_delete i) t = answered T_flag t (deleteById t i)"
| "table_step (T_deleteWhere P) t = answered T_count t (deleteWhere t (\<lambda>r. Inr (P r)))"
| "table_step (T_updateWhere P as) t = answered T_count t (updateWhere t (\<lambda>r. Inr (P r)) as)"
| "table_step (T_selectWhere P) t = bind_result (selectWhere t (\<lambda>r. Inr (P r))) (\<lambda>rs. Inr (T_rows rs, t))"
| "table_step (T_selectIdRange lo hi) t = bind_result (selectIdRange t lo hi) (\<lambda>rs. Inr (T_rows rs, t))"

fun table_run :: "table_op list \<Rightarrow> table \<Rightarrow> (table_answer list \<times> table) result" where
  "table_run [] t = Inr ([], t)"
| "table_run (x # xs) t =
     bind_result (table_step x t) (\<lambda>(a, t'). bind_result (table_run xs t') (\<lambda>(as, t''). Inr (a # as, t'')))"

text \<open>Rows reach a table through \<open>makeRow\<close> and \<open>set\<close> only, which make well-formed rows.\<close>

fun op_wf :: "table_op \<Rightarrow> bool" where
  "op_wf (T_insert row) \<longleftrightarrow> row_wf row"
| "op_wf _ \<longleftrightarrow> True"

lemma total_pure: "total_on t (\<lambda>r. Inr (P r)) P"
  by (simp add: total_on_def)

lemma table_step_insert:
  assumes inv: "tbl_inv t" and wf: "row_wf row"
  shows "\<exists>t'. table_step (T_insert row) t = Inr (fst (table_spec_step (tbl_schema t) (T_insert row) (entries (rows t))), t') \<and>
    tbl_inv t' \<and> tbl_schema t' = tbl_schema t \<and>
    entries (rows t') = snd (table_spec_step (tbl_schema t) (T_insert row) (entries (rows t)))"
proof (cases "row_schema row = tbl_schema t \<and> isComplete row")
  case False
  then show ?thesis using table_insert_correct [OF inv wf] inv by (auto split: if_splits)
next
  case True
  with table_insert_correct [OF inv wf] obtain i t' where
    t': "row_getInt row kIdColumn = Inr i" "table_insert t row = Inr (table_map t i = None, t')" "tbl_inv t'"
      "tbl_schema t' = tbl_schema t"
      "entries (rows t') = (if table_map t i = None then ins_entry i row (entries (rows t)) else entries (rows t))" by auto
  with True show ?thesis by (cases "map_of (entries (rows t)) i") (simp_all add: table_map_def)
qed

lemma table_step_spec:
  assumes inv: "tbl_inv t" and wf: "op_wf x"
  shows "\<exists>t'. table_step x t = Inr (fst (table_spec_step (tbl_schema t) x (entries (rows t))), t') \<and>
    tbl_inv t' \<and> tbl_schema t' = tbl_schema t \<and>
    entries (rows t') = snd (table_spec_step (tbl_schema t) x (entries (rows t)))"
proof (cases x)
  case (T_insert row)
  with wf table_step_insert [OF inv] show ?thesis by simp
next
  case (T_find i)
  with findById_correct [OF inv, of i] show ?thesis by (auto simp: table_map_def)
next
  case (T_delete i)
  with deleteById_correct [OF inv, of i] show ?thesis by (auto simp: table_map_def)
next
  case (T_deleteWhere P)
  with deleteWhere_correct [OF inv total_pure, of P] show ?thesis by (auto simp: table_rows_def)
next
  case (T_updateWhere P as)
  show ?thesis
  proof (cases "\<forall>a \<in> set as. valid_assignment (tbl_schema t) a")
    case True
    with updateWhere_correct [OF inv total_pure True, of P] T_updateWhere show ?thesis by (auto simp: table_rows_def)
  next
    case False
    with updateWhere_rejects [OF False, of "\<lambda>r. Inr (P r)"] T_updateWhere inv show ?thesis by auto
  qed
next
  case (T_selectWhere P)
  with selectWhere_correct [OF inv total_pure, of P] inv show ?thesis by (simp add: table_rows_def)
next
  case (T_selectIdRange lo hi)
  with selectIdRange_correct [OF inv, of lo hi] inv show ?thesis by simp
qed

lemma table_run_spec:
  "tbl_inv t \<Longrightarrow> list_all op_wf xs \<Longrightarrow>
     \<exists>t'. table_run xs t = Inr (fst (table_spec_run (tbl_schema t) xs (entries (rows t))), t') \<and> tbl_inv t' \<and>
       tbl_schema t' = tbl_schema t \<and> entries (rows t') = snd (table_spec_run (tbl_schema t) xs (entries (rows t)))"
proof (induction xs arbitrary: t)
  case (Cons x xs)
  obtain a es where a: "table_spec_step (tbl_schema t) x (entries (rows t)) = (a, es)" by fastforce
  from Cons.prems table_step_spec [of t x] a obtain t1 where t1: "table_step x t = Inr (a, t1)" "tbl_inv t1"
    "tbl_schema t1 = tbl_schema t" "entries (rows t1) = es" by auto
  obtain as fs where r: "table_spec_run (tbl_schema t) xs es = (as, fs)" by fastforce
  from Cons.IH [OF t1(2)] Cons.prems(2) r t1(3,4) obtain t2 where "table_run xs t1 = Inr (as, t2)" "tbl_inv t2"
    "tbl_schema t2 = tbl_schema t" "entries (rows t2) = fs" by auto
  with t1 show ?case by (simp add: a r)
qed simp

section \<open>A concrete table\<close>

text \<open>Two rows, on which the properties are instantiated.\<close>

definition demo_schema :: Schema where
  "demo_schema = \<lparr>columns = [\<lparr>col_name = ''id'', col_type = DT_INT\<rparr>, \<lparr>col_name = ''name'', col_type = DT_TEXT\<rparr>]\<rparr>"

definition demo_row :: "int \<Rightarrow> string \<Rightarrow> Row" where
  "demo_row i s = \<lparr>row_schema = demo_schema, row_values = [Some (VInt (of_int64 i)), Some (VText s)]\<rparr>"

definition demo_table :: table where
  "demo_table = \<lparr>tbl_schema = demo_schema,
     rows = \<lparr>root = Some (Node [of_int64 1, of_int64 2] [demo_row 1 ''ann'', demo_row 2 ''bob''] []),
       min_degree = 16, btree_size = 2\<rparr>,
     cache = \<lparr>lru_capacity = 4, items = [], index = default_hashmap (\<lambda>_. 0), hits = 0, misses = 0, next_iter = 0\<rparr>\<rparr>"

lemma demo_schema_ok: "id_schema demo_schema"
  by (simp add: id_schema_def schema_wf_def demo_schema_def findColumn_def kIdColumn_def)

lemma demo_row_ok: "stored_ok demo_schema (of_int64 i, demo_row i s)"
proof -
  have "row_wf (demo_row i s)"
    using demo_schema_ok
    by (auto simp: row_wf_def demo_row_def id_schema_def columnCount_def demo_schema_def value_has_type_def less_Suc_eq)
  moreover have "row_getInt (demo_row i s) kIdColumn = Inr (of_int64 i)"
    by (simp add: row_getInt_def row_value_def findColumn_def columnIndex_def demo_row_def demo_schema_def kIdColumn_def)
  ultimately show ?thesis
    by (simp add: stored_ok_def isComplete_def columnCount_def) (simp add: demo_row_def demo_schema_def)
qed

lemma demo_ids: "of_int64 1 < of_int64 2"
  by (simp add: less_int64_def to_int_of_int64)

lemma demo_table_entries:
  "entries (rows demo_table) = [(of_int64 1, demo_row 1 ''ann''), (of_int64 2, demo_row 2 ''bob'')]"
  by (simp add: entries_def demo_table_def)

lemma demo_table_inv: "tbl_inv demo_table"
proof -
  have "btree_inv (rows demo_table)"
    unfolding btree_inv_def demo_table_entries using demo_ids
    by (auto simp: demo_table_def ksorted_def intro!: exI [of _ "0::nat"])
  moreover have "lru_inv (cache demo_table)" "lru_entries (cache demo_table) = []"
    by (simp_all add: lru_inv_def lru_entries_def demo_table_def default_hashmap_inv)
  ultimately show ?thesis using demo_schema_ok demo_row_ok
    by (simp add: tbl_inv_def demo_table_entries) (simp add: demo_table_def)
qed

definition demo_table_ops :: "table_op list" where
  "demo_table_ops = [T_insert (demo_row 2 ''bob''), T_insert (demo_row 1 ''ann''), T_insert (demo_row 2 ''eve''),
     T_find (of_int64 2), T_delete (of_int64 1), T_find (of_int64 1), T_updateWhere (\<lambda>_. True) [(''id'', ''7'')]]"

section \<open>Properties\<close>

text \<open>
  C6. Every sequence of calls on a fresh table (inserts, lookups through the cache, deletions,
  conditional deletions and updates, scans and range scans; calls that throw
  \<^verbatim>\<open>std::invalid_argument\<close> included) runs without undefined behaviour or endless loop, gives the answers of
  the sorted list of rows, and ends in a table whose tree holds exactly that list.
\<close>

theorem table_refines_sorted_rows:
  assumes "id_schema sc" and "0 < n" and "list_all op_wf xs"
  shows "\<exists>t t'. new_table h sc n = Inr t \<and> table_run xs t = Inr (fst (table_spec_run sc xs []), t') \<and>
    forEachInOrder (rows t') = Inr (snd (table_spec_run sc xs [])) \<and>
    rowCount t' = length (snd (table_spec_run sc xs [])) \<and> checkInvariants (rows t')"
proof -
  from new_table_ok [OF assms(1,2), of h] obtain t where t: "new_table h sc n = Inr t" "tbl_inv t" "tbl_schema t = sc"
    "entries (rows t) = []" by blast
  from table_run_spec [OF t(2) assms(3)] obtain t' where t': "table_run xs t = Inr (fst (table_spec_run sc xs []), t')"
    "tbl_inv t'" "entries (rows t') = snd (table_spec_run sc xs [])" unfolding t(3,4) by blast
  note b = tbl_invD(2) [OF t'(2)]
  have "checkInvariants (rows t')" using checkInvariants_iff [of "rows t'"] b by (auto simp: btree_inv_def)
  with t(1) t' bt.visit_law [OF b] bt.size_ents [OF b] show ?thesis by (auto simp: rowCount_def)
qed

theorem table_refines_sorted_rows_witness:
  "\<exists>t t'. new_table (\<lambda>i. bits i) demo_schema 1 = Inr t \<and>
    table_run demo_table_ops t = Inr ([T_flag True, T_flag True, T_flag False,
      T_row (Some (demo_row 2 ''bob'')), T_flag True, T_row None, T_rejected], t') \<and>
    forEachInOrder (rows t') = Inr [(of_int64 2, demo_row 2 ''bob'')] \<and> rowCount t' = 1 \<and> checkInvariants (rows t')"
proof -
  have "list_all op_wf demo_table_ops"
    using demo_row_ok by (simp add: demo_table_ops_def stored_ok_def)
  note run = table_refines_sorted_rows [OF demo_schema_ok _ this, of 1 "\<lambda>i. bits i", OF zero_less_one]
  have "table_spec_run demo_schema demo_table_ops [] = ([T_flag True, T_flag True, T_flag False,
      T_row (Some (demo_row 2 ''bob'')), T_flag True, T_row None, T_rejected], [(of_int64 2, demo_row 2 ''bob'')])"
    using demo_row_ok demo_ids by (auto simp: demo_table_ops_def stored_ok_def valid_assignment_def kIdColumn_def)
  then show ?thesis using run by simp
qed

lemma findById_caches:
  assumes inv: "tbl_inv t" and f: "findById t i = Inr (Some r, t')"
  shows "map_of (lru_entries (cache t')) i = Some r"
proof -
  note l = tbl_invD(3) [OF inv]
  from lru.get_law [OF l, of i] obtain c where c: "lru_get (cache t) i = Inr (map_of (lru_entries (cache t)) i, c)"
    "lru_inv c" "lru_entries c = spec_get i (lru_entries (cache t))" by blast
  show ?thesis
  proof (cases "map_of (lru_entries (cache t)) i")
    case (Some r0)
    with f c show ?thesis by (auto simp: findById_def spec_get_def recent_def)
  next
    case None
    from lru.put_law [OF c(2), of i r] obtain c' where c': "lru_put c i r = Inr c'"
      "lru_entries c' = spec_put (lru_capacity c) i r (lru_entries c)" by blast
    have "0 < lru_capacity c" using lru.cap_pos [OF c(2)] .
    then have "map_of (lru_entries c') i = Some r"
      by (cases "lru_capacity c") (simp_all add: c'(2) spec_put_def recent_def)
    then show ?thesis using f c(1) None c'(1) by (auto simp: findById_def exn_simps split: option.splits)
  qed
qed

text \<open>
  C17. The cache is transparent: whatever is cached, \<open>findById\<close> returns exactly the row the tree
  holds under the id, changes neither the rows nor the schema and keeps the invariant; a second
  lookup of a present id returns the same row and is a cache hit.
\<close>

theorem findById_cache_transparent:
  assumes "tbl_inv t"
  shows "\<exists>t' t''. findById t i = Inr (table_map t i, t') \<and> tbl_inv t' \<and> rows t' = rows t \<and> tbl_schema t' = tbl_schema t \<and>
    findById t' i = Inr (table_map t i, t'') \<and> (table_map t i \<noteq> None \<longrightarrow> cacheHits t'' = cacheHits t' + 1)"
proof -
  from findById_correct [OF assms, of i] obtain t' where t': "findById t i = Inr (table_map t i, t')" "tbl_inv t'"
    "rows t' = rows t" "tbl_schema t' = tbl_schema t" by blast
  then have same: "table_map t' i = table_map t i" by (simp add: table_map_def)
  from findById_correct [OF t'(2), of i] same obtain t'' where t'': "findById t' i = Inr (table_map t i, t'')" by auto
  have "cacheHits t'' = cacheHits t' + 1" if "table_map t i = Some r" for r
  proof -
    from findById_caches [OF assms, of i r t'] t'(1) that have hit: "map_of (lru_entries (cache t')) i = Some r" by simp
    from lru.get_law [OF tbl_invD(3) [OF t'(2)], of i] hit obtain c where c: "lru_get (cache t') i = Inr (Some r, c)" by auto
    then have "t'' = t'\<lparr>cache := c\<rparr>" using t'' by (simp add: findById_def)
    with lru_get_counters [OF c] show ?thesis by (simp add: cacheHits_def)
  qed
  with t' t'' show ?thesis by blast
qed

theorem findById_cache_transparent_witness:
  "\<exists>t' t''. findById demo_table (of_int64 2) = Inr (Some (demo_row 2 ''bob''), t') \<and>
    findById t' (of_int64 2) = Inr (Some (demo_row 2 ''bob''), t'') \<and> cacheHits t'' = cacheHits t' + 1"
proof -
  have "table_map demo_table (of_int64 2) = Some (demo_row 2 ''bob'')"
    using demo_ids by (auto simp: table_map_def demo_table_entries)
  with findById_cache_transparent [OF demo_table_inv, of "of_int64 2"] show ?thesis by auto
qed

lemma fold_assign_value:
  "stored_ok sc (i, r) \<Longrightarrow> \<forall>a \<in> set as. valid_assignment sc a \<Longrightarrow>
     row_value (fold assign as r) c = (case map_of (rev as) c of
       None \<Rightarrow> row_value r c | Some s \<Rightarrow> Inr (cell_of (col_type (the (findColumn sc c))) s))"
proof (induction as arbitrary: r)
  case (Cons a as)
  then have a: "row_set r (fst a) (snd a) = Inr (assign a r)" "stored_ok sc (i, assign a r)" using assign_ok by auto
  have "row_wf r" "row_schema r = sc" using Cons.prems(1) by (simp_all add: stored_ok_def)
  from row_set_value [OF this(1) a(1), of c] Cons.IH [OF a(2)] Cons.prems(2) this(2) show ?case
    by (auto simp: map_add_def split: option.splits)
qed simp



end
