(* ===== verification/Lexer.thy ===== *)
theory Lexer
  imports Prelude
begin

text \<open>
  The tokenizer of \<^verbatim>\<open>include/query/Token.hpp\<close>, \<^verbatim>\<open>include/query/Lexer.hpp\<close> and
  \<^verbatim>\<open>src/query/lexer.cpp\<close>. The loop index \<^verbatim>\<open>i\<close> is represented by the part of the input that is
  still to be read: \<^verbatim>\<open>i\<close> is the length of the input minus the length of that part, \<^verbatim>\<open>i < n\<close> is
  that it is not empty, and \<^verbatim>\<open>input_[i]\<close> its first character. One round of the loop is
  \<open>lex_round\<close>, with one definition per kind of token.
\<close>

section \<open>Data model\<close>

datatype TokenType = KEYWORD | IDENTIFIER | NUMBER | STRING | OPERATOR | PUNCTUATION | END

record Token =
  tok_type :: TokenType
  tok_value :: string
  tok_position :: nat

definition token :: "TokenType \<Rightarrow> string \<Rightarrow> nat \<Rightarrow> Token" where
  "token ty v i = \<lparr>tok_type = ty, tok_value = v, tok_position = i\<rparr>"

lemma token_sel [simp]:
  "tok_type (token ty v i) = ty" "tok_value (token ty v i) = v" "tok_position (token ty v i) = i"
  by (simp_all add: token_def)

section \<open>Character and keyword tests\<close>

definition kKeywords :: "string list" where
  "kKeywords =
     [''SELECT'', ''FROM'', ''WHERE'', ''INSERT'', ''INTO'', ''VALUES'', ''DELETE'',
      ''CREATE'', ''DROP'', ''TABLE'', ''INT'', ''TEXT'', ''AND'', ''UPDATE'', ''SET'']"

definition isKeyword :: "string \<Rightarrow> bool" where
  "isKeyword upper \<longleftrightarrow> list_ex (\<lambda>k. upper = k) kKeywords"

definition isIdentStart :: "char \<Rightarrow> bool" where
  "isIdentStart c \<longleftrightarrow> isalpha c \<or> c = CHR ''_''"

definition isIdentChar :: "char \<Rightarrow> bool" where
  "isIdentChar c \<longleftrightarrow> isalnum c \<or> c = CHR ''_''"

text \<open>\<^verbatim>\<open>i + 1 < n && p(input_[i + 1])\<close> with \<open>cs\<close> the input after position \<^verbatim>\<open>i\<close>.\<close>

definition next_is :: "(char \<Rightarrow> bool) \<Rightarrow> string \<Rightarrow> bool" where
  "next_is p cs \<longleftrightarrow> cs \<noteq> [] \<and> p (hd cs)"

lemma next_is_simps [simp]: "\<not> next_is p []" "next_is p (c # cs) = p c"
  by (simp_all add: next_is_def)

section \<open>Tokens\<close>

text \<open>A word: a keyword in any case, stored in upper case, or an identifier as it is spelt.\<close>

definition lex_word :: "nat \<Rightarrow> string \<Rightarrow> Token \<times> string" where
  "lex_word start s =
     (let word = takeWhile isIdentChar s;
          upper = map toupper word
      in (if isKeyword upper then token KEYWORD upper start else token IDENTIFIER word start,
          dropWhile isIdentChar s))"

text \<open>A number, whose first character is a digit or the minus sign.\<close>

definition lex_number :: "nat \<Rightarrow> char \<Rightarrow> string \<Rightarrow> Token \<times> string" where
  "lex_number start c cs = (token NUMBER (c # takeWhile isdigit cs) start, dropWhile isdigit cs)"

text \<open>
  The loop over the body of a string literal, from just after the opening quote; \<open>None\<close> is
  the literal that is not terminated.
\<close>

fun scan_string :: "char \<Rightarrow> string \<Rightarrow> string \<Rightarrow> (string \<times> string) option" where
  "scan_string quote [] content = None"
| "scan_string quote (c # cs) content =
     (if c = quote
      then if next_is (\<lambda>d. d = quote) cs
           then scan_string quote (tl cs) (content @ [quote])
           else Some (content, cs)
      else scan_string quote cs (content @ [c]))"

definition lex_string :: "nat \<Rightarrow> char \<Rightarrow> string \<Rightarrow> (Token \<times> string) result" where
  "lex_string start quote cs =
     (case scan_string quote cs [] of
        None \<Rightarrow> Inl (Query_error (''unterminated string literal at position '' @ to_string_size start))
      | Some (content, rest) \<Rightarrow> Inr (token STRING content start, rest))"

text \<open>\<^verbatim>\<open><\<close>, \<^verbatim>\<open><=\<close>, \<^verbatim>\<open>>\<close> and \<^verbatim>\<open>>=\<close>\<close>

definition lex_inequality :: "nat \<Rightarrow> char \<Rightarrow> string \<Rightarrow> Token \<times> string" where
  "lex_inequality start c cs =
     (if next_is (\<lambda>d. d = CHR ''='') cs then (token OPERATOR [c, CHR ''=''] start, tl cs)
      else (token OPERATOR [c] start, cs))"

definition lex_bang :: "nat \<Rightarrow> string \<Rightarrow> (Token \<times> string) result" where
  "lex_bang start cs =
     (if next_is (\<lambda>d. d = CHR ''='') cs then Inr (token OPERATOR ''!='' start, tl cs)
      else Inl (Query_error (''unexpected '' @ quoted ''!'' @ '' at position '' @ to_string_size start)))"

section \<open>The loop\<close>

text \<open>One round on a non-empty input; a space yields no token.\<close>

definition lex_round :: "nat \<Rightarrow> char \<Rightarrow> string \<Rightarrow> (Token option \<times> string) result" where
  "lex_round start c cs =
     (if isspace c then Inr (None, cs)
      else bind_result
        (if isIdentStart c then Inr (lex_word start (c # cs))
         else if isdigit c \<or> c = CHR ''-'' \<and> next_is isdigit cs then Inr (lex_number start c cs)
         else if c = CHR 0x27 \<or> c = CHR 0x22 then lex_string start c cs
         else if c = CHR ''='' then Inr (token OPERATOR ''='' start, cs)
         else if c = CHR ''<'' \<or> c = CHR ''>'' then Inr (lex_inequality start c cs)
         else if c = CHR ''!'' then lex_bang start cs
         else if c \<in> {CHR ''('', CHR '')'', CHR '','', CHR ''*''}
           then Inr (token PUNCTUATION [c] start, cs)
         else Inl (Query_error (''unexpected character '' @ quoted [c] @ '' at position '' @ to_string_size start)))
        (\<lambda>(t, rest). Inr (Some t, rest)))"

lemma scan_string_shorter: "scan_string q cs content = Some (s, rest) \<Longrightarrow> length rest < length cs"
proof (induction q cs content rule: scan_string.induct)
  case (2 quote c cs content)
  then show ?case by (cases cs) (auto split: if_splits)
qed simp

lemma isIdentStart_Char: "isIdentStart c \<Longrightarrow> isIdentChar c"
  by (auto simp: isIdentStart_def isIdentChar_def isalnum_def)

lemma lex_round_shorter: "lex_round start c cs = Inr (t, rest) \<Longrightarrow> length rest \<le> length cs"
  using length_dropWhile_le [of isIdentChar cs] length_dropWhile_le [of isdigit cs]
  by (auto simp: lex_round_def lex_word_def lex_number_def lex_string_def lex_inequality_def lex_bang_def
      Let_def isIdentStart_Char exn_simps split: if_splits option.splits dest!: scan_string_shorter)

function tokenize_loop :: "nat \<Rightarrow> string \<Rightarrow> Token list result" where
  "tokenize_loop n [] = Inr [token END [] n]"
| "tokenize_loop n (c # cs) =
     bind_result (lex_round (n - length (c # cs)) c cs) (\<lambda>(t, rest).
     bind_result (tokenize_loop n rest) (\<lambda>ts.
       Inr (case t of None \<Rightarrow> ts | Some u \<Rightarrow> u # ts)))"
  by pat_completeness auto
termination
  by (relation "measure (\<lambda>(n, s). length s)") (auto dest: lex_round_shorter)

definition tokenize :: "string \<Rightarrow> Token list result" where
  "tokenize input = tokenize_loop (length input) input"

end
