(* ===== verification/Parser.thy ===== *)
theory Parser
  imports Lexer Schema
begin

text \<open>
  The syntax tree of \<^verbatim>\<open>include/query/Ast.hpp\<close> and the recursive-descent parser of
  \<^verbatim>\<open>include/query/Parser.hpp\<close> and \<^verbatim>\<open>src/query/parser.cpp\<close>. The parser's fields \<^verbatim>\<open>tokens_\<close> and
  \<^verbatim>\<open>pos_\<close> are a record that every member returns updated. \<^verbatim>\<open>tokens_[pos_]\<close> is an unchecked vector
  access, so reading past the end is \<open>Undefined_behaviour\<close> here, not an error of the parser.
\<close>

section \<open>Syntax tree\<close>

datatype CompareOp = EQ | NE | LT | LE | GT | GE

record WhereClause =
  wc_column :: string
  wc_op :: CompareOp
  wc_value :: string

type_synonym WhereList = "WhereClause list"

record ColumnDef =
  cd_name :: string
  cd_type :: DataType

datatype Statement =
    CreateTableStatement string "ColumnDef list"
  | DropTableStatement string
  | InsertStatement string "string list" "string list"
  | SelectStatement string "string list" WhereList
  | UpdateStatement string "(string \<times> string) list" WhereList
  | DeleteStatement string WhereList

fun toString_CompareOp :: "CompareOp \<Rightarrow> string" where
  "toString_CompareOp EQ = ''=''"
| "toString_CompareOp NE = ''!=''"
| "toString_CompareOp LT = ''<''"
| "toString_CompareOp LE = ''<=''"
| "toString_CompareOp GT = ''>''"
| "toString_CompareOp GE = ''>=''"

definition compareOpFromToken :: "Token \<Rightarrow> CompareOp result" where
  "compareOpFromToken t =
     (if tok_value t = ''='' then Inr EQ
      else if tok_value t = ''!='' then Inr NE
      else if tok_value t = ''<'' then Inr LT
      else if tok_value t = ''<='' then Inr LE
      else if tok_value t = ''>'' then Inr GT
      else if tok_value t = ''>='' then Inr GE
      else Inl (Query_error (''unknown operator '' @ quoted (tok_value t) @ '' at position '' @
             to_string_size (tok_position t))))"

section \<open>The token cursor\<close>

record Parser =
  tokens :: "Token list"
  pos :: nat

type_synonym 'a parsed = "('a \<times> Parser) result"

definition peek :: "Parser \<Rightarrow> Token result" where
  "peek p = vec_at (tokens p) (pos p)"

definition advance :: "Parser \<Rightarrow> Token parsed" where
  "advance p =
     bind_result (peek p) (\<lambda>t. Inr (t, if tok_type t \<noteq> END then p\<lparr>pos := pos p + 1\<rparr> else p))"

definition fail :: "Parser \<Rightarrow> string \<Rightarrow> 'a result" where
  "fail p message =
     bind_result (peek p) (\<lambda>t.
       Inl (Query_error (message @ '' at position '' @ to_string_size (tok_position t) @
         (if tok_type t = END then '' (end of query)'' else '', got '' @ quoted (tok_value t)))))"

definition peekIsKeyword :: "string \<Rightarrow> Parser \<Rightarrow> bool result" where
  "peekIsKeyword keyword p =
     bind_result (peek p) (\<lambda>t. Inr (tok_type t = KEYWORD \<and> tok_value t = keyword))"

text \<open>\<^verbatim>\<open>peek().type == TokenType::PUNCTUATION && peek().value == ...\<close>, as the list loops test it.\<close>

definition peekIsPunctuation :: "string \<Rightarrow> Parser \<Rightarrow> bool result" where
  "peekIsPunctuation s p =
     bind_result (peek p) (\<lambda>t. Inr (tok_type t = PUNCTUATION \<and> tok_value t = s))"

definition expect :: "TokenType \<Rightarrow> string \<Rightarrow> Parser \<Rightarrow> Token parsed" where
  "expect ty what p =
     bind_result (peek p) (\<lambda>t. if tok_type t \<noteq> ty then fail p (''expected '' @ what) else advance p)"

definition expectKeyword :: "string \<Rightarrow> Parser \<Rightarrow> unit parsed" where
  "expectKeyword keyword p =
     bind_result (peekIsKeyword keyword p) (\<lambda>is.
       if \<not> is then fail p (''expected '' @ keyword)
       else bind_result (advance p) (\<lambda>(_, q). Inr ((), q)))"

definition expectPunctuation :: "char \<Rightarrow> Parser \<Rightarrow> unit parsed" where
  "expectPunctuation c p =
     bind_result (peek p) (\<lambda>t.
       if tok_type t \<noteq> PUNCTUATION \<or> tok_value t \<noteq> [c] then fail p (''expected '' @ quoted [c])
       else bind_result (advance p) (\<lambda>(_, q). Inr ((), q)))"

definition expectEnd :: "Parser \<Rightarrow> unit parsed" where
  "expectEnd p =
     bind_result (peek p) (\<lambda>t.
       if tok_type t \<noteq> END then fail p (''unexpected trailing input '' @ quoted (tok_value t))
       else Inr ((), p))"

section \<open>List items\<close>

text \<open>The bodies of the list loops, up to their test for another item.\<close>

definition parse_identifier :: "string \<Rightarrow> Parser \<Rightarrow> string parsed" where
  "parse_identifier what p =
     bind_result (expect IDENTIFIER what p) (\<lambda>(t, q). Inr (tok_value t, q))"

definition parseLiteral :: "Parser \<Rightarrow> string parsed" where
  "parseLiteral p =
     bind_result (peek p) (\<lambda>t.
       if tok_type t \<noteq> NUMBER \<and> tok_type t \<noteq> STRING then fail p ''expected a literal value''
       else bind_result (advance p) (\<lambda>(u, q). Inr (tok_value u, q)))"

definition parse_column_type :: "Parser \<Rightarrow> DataType parsed" where
  "parse_column_type p =
     bind_result (expect KEYWORD ''column type'' p) (\<lambda>(typeToken, q).
       case dataTypeFromString (tok_value typeToken) of
         None \<Rightarrow> fail q (''unknown column type '' @ quoted (tok_value typeToken))
       | Some ty \<Rightarrow> Inr (ty, q))"

definition parse_column_def :: "Parser \<Rightarrow> ColumnDef parsed" where
  "parse_column_def p =
     bind_result (parse_identifier ''column name'' p) (\<lambda>(name, q).
     bind_result (parse_column_type q) (\<lambda>(ty, r). Inr (\<lparr>cd_name = name, cd_type = ty\<rparr>, r)))"

definition parse_equals :: "Parser \<Rightarrow> unit parsed" where
  "parse_equals p =
     bind_result (expect OPERATOR (quoted ''='') p) (\<lambda>(eq, q).
       if tok_value eq \<noteq> ''='' then fail q (''expected '' @ quoted ''='' @ '' in SET assignment'')
       else Inr ((), q))"

definition parse_assignment :: "Parser \<Rightarrow> (string \<times> string) parsed" where
  "parse_assignment p =
     bind_result (parse_identifier ''column name'' p) (\<lambda>(column, q).
     bind_result (parse_equals q) (\<lambda>(_, r).
     bind_result (parseLiteral r) (\<lambda>(v, s). Inr ((column, v), s))))"

definition parse_operator :: "Parser \<Rightarrow> CompareOp parsed" where
  "parse_operator p =
     bind_result (expect OPERATOR ''comparison operator'' p) (\<lambda>(t, q).
     bind_result (compareOpFromToken t) (\<lambda>op. Inr (op, q)))"

definition parse_condition :: "Parser \<Rightarrow> WhereClause parsed" where
  "parse_condition p =
     bind_result (parse_identifier ''column name'' p) (\<lambda>(column, q).
     bind_result (parse_operator q) (\<lambda>(op, r).
     bind_result (parseLiteral r) (\<lambda>(v, s).
       Inr (\<lparr>wc_column = column, wc_op = op, wc_value = v\<rparr>, s))))"

text \<open>An item moves the cursor forward and leaves the tokens alone.\<close>

definition moves :: "Parser \<Rightarrow> Parser \<Rightarrow> bool" where
  "moves p q \<longleftrightarrow> tokens q = tokens p \<and> pos p < pos q \<and> pos q \<le> length (tokens p)"

lemma moves_trans: "moves p q \<Longrightarrow> moves q r \<Longrightarrow> moves p r"
  by (auto simp: moves_def)

lemma advance_moves: "advance p = Inr (t, q) \<Longrightarrow> tok_type t \<noteq> END \<Longrightarrow> moves p q"
  by (auto simp: advance_def peek_def exn_simps vec_at_eq_Inr moves_def)

lemma advance_weak:
  "advance p = Inr (t, q) \<Longrightarrow> tokens q = tokens p \<and> pos p \<le> pos q \<and> pos q \<le> length (tokens p)"
  by (auto simp: advance_def peek_def exn_simps vec_at_eq_Inr)

lemma fail_not_Inr [simp]: "fail p m \<noteq> Inr x"
  by (simp add: fail_def exn_simps)

lemma advance_peek: "peek p = Inr t \<Longrightarrow> advance p = Inr (u, q) \<Longrightarrow> u = t"
  by (simp add: advance_def)

lemma expect_moves: "expect ty what p = Inr (t, q) \<Longrightarrow> ty \<noteq> END \<Longrightarrow> moves p q"
  by (auto simp: expect_def exn_simps split: if_splits dest: advance_peek intro!: advance_moves)

lemma parse_identifier_moves: "parse_identifier what p = Inr (s, q) \<Longrightarrow> moves p q"
  by (auto simp: parse_identifier_def exn_simps dest: expect_moves)

lemma parseLiteral_moves: "parseLiteral p = Inr (s, q) \<Longrightarrow> moves p q"
  by (auto simp: parseLiteral_def exn_simps split: if_splits dest: advance_peek intro!: advance_moves)

lemma parse_symbol_moves:
  "parse_column_type p = Inr (ty, q) \<Longrightarrow> moves p q"
  "parse_equals p = Inr (u, q) \<Longrightarrow> moves p q"
  "parse_operator p = Inr (op, q) \<Longrightarrow> moves p q"
  by (auto simp: parse_column_type_def parse_equals_def parse_operator_def exn_simps
      split: option.splits if_splits dest!: expect_moves)

lemma parse_column_def_moves: "parse_column_def p = Inr (d, q) \<Longrightarrow> moves p q"
  by (auto simp: parse_column_def_def exn_simps
      dest!: parse_identifier_moves parse_symbol_moves intro: moves_trans)

lemma parse_assignment_moves: "parse_assignment p = Inr (a, q) \<Longrightarrow> moves p q"
  by (auto simp: parse_assignment_def exn_simps
      dest!: parse_identifier_moves parse_symbol_moves parseLiteral_moves intro: moves_trans)

lemma parse_condition_moves: "parse_condition p = Inr (w, q) \<Longrightarrow> moves p q"
  by (auto simp: parse_condition_def exn_simps
      dest!: parse_identifier_moves parse_symbol_moves parseLiteral_moves intro: moves_trans)

lemmas item_moves = parse_identifier_moves parseLiteral_moves parse_column_def_moves
  parse_assignment_moves parse_condition_moves

lemma loop_shrinks:
  "moves p q \<Longrightarrow> advance q = Inr (t, r) \<Longrightarrow> length (tokens r) - pos r < length (tokens p) - pos p"
  using advance_weak [of q t r] by (auto simp: moves_def)

section \<open>List loops\<close>

function parseIdentifierList :: "Parser \<Rightarrow> string list parsed" where
  "parseIdentifierList p =
     bind_result (parse_identifier ''column name'' p) (\<lambda>(x, q).
     bind_result (peekIsPunctuation '','' q) (\<lambda>more.
       if more
       then bind_result (advance q) (\<lambda>(_, r).
            bind_result (parseIdentifierList r) (\<lambda>(xs, s). Inr (x # xs, s)))
       else Inr ([x], q)))"
  by pat_completeness auto
termination
  by (relation "measure (\<lambda>p. length (tokens p) - pos p)") (auto dest: item_moves loop_shrinks)

function parse_literals :: "Parser \<Rightarrow> string list parsed" where
  "parse_literals p =
     bind_result (parseLiteral p) (\<lambda>(x, q).
     bind_result (peekIsPunctuation '','' q) (\<lambda>more.
       if more
       then bind_result (advance q) (\<lambda>(_, r).
            bind_result (parse_literals r) (\<lambda>(xs, s). Inr (x # xs, s)))
       else Inr ([x], q)))"
  by pat_completeness auto
termination
  by (relation "measure (\<lambda>p. length (tokens p) - pos p)") (auto dest: item_moves loop_shrinks)

function parse_column_defs :: "Parser \<Rightarrow> ColumnDef list parsed" where
  "parse_column_defs p =
     bind_result (parse_column_def p) (\<lambda>(x, q).
     bind_result (peekIsPunctuation '','' q) (\<lambda>more.
       if more
       then bind_result (advance q) (\<lambda>(_, r).
            bind_result (parse_column_defs r) (\<lambda>(xs, s). Inr (x # xs, s)))
       else Inr ([x], q)))"
  by pat_completeness auto
termination
  by (relation "measure (\<lambda>p. length (tokens p) - pos p)") (auto dest: item_moves loop_shrinks)

function parse_assignments :: "Parser \<Rightarrow> (string \<times> string) list parsed" where
  "parse_assignments p =
     bind_result (parse_assignment p) (\<lambda>(x, q).
     bind_result (peekIsPunctuation '','' q) (\<lambda>more.
       if more
       then bind_result (advance q) (\<lambda>(_, r).
            bind_result (parse_assignments r) (\<lambda>(xs, s). Inr (x # xs, s)))
       else Inr ([x], q)))"
  by pat_completeness auto
termination
  by (relation "measure (\<lambda>p. length (tokens p) - pos p)") (auto dest: item_moves loop_shrinks)

function parse_conditions :: "Parser \<Rightarrow> WhereList parsed" where
  "parse_conditions p =
     bind_result (parse_condition p) (\<lambda>(x, q).
     bind_result (peekIsKeyword ''AND'' q) (\<lambda>more.
       if more
       then bind_result (advance q) (\<lambda>(_, r).
            bind_result (parse_conditions r) (\<lambda>(xs, s). Inr (x # xs, s)))
       else Inr ([x], q)))"
  by pat_completeness auto
termination
  by (relation "measure (\<lambda>p. length (tokens p) - pos p)") (auto dest: item_moves loop_shrinks)

declare parseIdentifierList.simps [simp del] parse_literals.simps [simp del]
  parse_column_defs.simps [simp del] parse_assignments.simps [simp del] parse_conditions.simps [simp del]

definition parseOptionalWhere :: "Parser \<Rightarrow> WhereList parsed" where
  "parseOptionalWhere p =
     bind_result (peekIsKeyword ''WHERE'' p) (\<lambda>is.
       if \<not> is then Inr ([], p)
       else bind_result (advance p) (\<lambda>(_, q). parse_conditions q))"

section \<open>Statements\<close>

definition parseCreate :: "Parser \<Rightarrow> Statement parsed" where
  "parseCreate p0 =
     bind_result (expectKeyword ''CREATE'' p0) (\<lambda>(_, p1).
     bind_result (expectKeyword ''TABLE'' p1) (\<lambda>(_, p2).
     bind_result (parse_identifier ''table name'' p2) (\<lambda>(table, p3).
     bind_result (expectPunctuation (CHR ''('') p3) (\<lambda>(_, p4).
     bind_result (parse_column_defs p4) (\<lambda>(cols, p5).
     bind_result (expectPunctuation (CHR '')'') p5) (\<lambda>(_, p6).
     bind_result (expectEnd p6) (\<lambda>(_, p7). Inr (CreateTableStatement table cols, p7))))))))"

definition parseDrop :: "Parser \<Rightarrow> Statement parsed" where
  "parseDrop p0 =
     bind_result (expectKeyword ''DROP'' p0) (\<lambda>(_, p1).
     bind_result (expectKeyword ''TABLE'' p1) (\<lambda>(_, p2).
     bind_result (parse_identifier ''table name'' p2) (\<lambda>(table, p3).
     bind_result (expectEnd p3) (\<lambda>(_, p4). Inr (DropTableStatement table, p4)))))"

definition parseInsert :: "Parser \<Rightarrow> Statement parsed" where
  "parseInsert p0 =
     bind_result (expectKeyword ''INSERT'' p0) (\<lambda>(_, p1).
     bind_result (expectKeyword ''INTO'' p1) (\<lambda>(_, p2).
     bind_result (parse_identifier ''table name'' p2) (\<lambda>(table, p3).
     bind_result (expectPunctuation (CHR ''('') p3) (\<lambda>(_, p4).
     bind_result (parseIdentifierList p4) (\<lambda>(cols, p5).
     bind_result (expectPunctuation (CHR '')'') p5) (\<lambda>(_, p6).
     bind_result (expectKeyword ''VALUES'' p6) (\<lambda>(_, p7).
     bind_result (expectPunctuation (CHR ''('') p7) (\<lambda>(_, p8).
     bind_result (parse_literals p8) (\<lambda>(vals, p9).
     bind_result (expectPunctuation (CHR '')'') p9) (\<lambda>(_, p10).
     bind_result (expectEnd p10) (\<lambda>(_, p11).
       if length cols \<noteq> length vals
       then Inl (Query_error (''INSERT has '' @ to_string_size (length cols) @ '' columns but '' @
              to_string_size (length vals) @ '' values''))
       else Inr (InsertStatement table cols vals, p11))))))))))))"

text \<open>\<^verbatim>\<open>*\<close> stands for every column and is an empty list.\<close>

definition parse_select_list :: "Parser \<Rightarrow> string list parsed" where
  "parse_select_list p =
     bind_result (peekIsPunctuation ''*'' p) (\<lambda>star.
       if star then bind_result (advance p) (\<lambda>(_, q). Inr ([], q)) else parseIdentifierList p)"

definition parseSelect :: "Parser \<Rightarrow> Statement parsed" where
  "parseSelect p0 =
     bind_result (expectKeyword ''SELECT'' p0) (\<lambda>(_, p1).
     bind_result (parse_select_list p1) (\<lambda>(cols, p2).
     bind_result (expectKeyword ''FROM'' p2) (\<lambda>(_, p3).
     bind_result (parse_identifier ''table name'' p3) (\<lambda>(table, p4).
     bind_result (parseOptionalWhere p4) (\<lambda>(where, p5).
     bind_result (expectEnd p5) (\<lambda>(_, p6). Inr (SelectStatement table cols where, p6)))))))"

definition parseUpdate :: "Parser \<Rightarrow> Statement parsed" where
  "parseUpdate p0 =
     bind_result (expectKeyword ''UPDATE'' p0) (\<lambda>(_, p1).
     bind_result (parse_identifier ''table name'' p1) (\<lambda>(table, p2).
     bind_result (expectKeyword ''SET'' p2) (\<lambda>(_, p3).
     bind_result (parse_assignments p3) (\<lambda>(sets, p4).
     bind_result (parseOptionalWhere p4) (\<lambda>(where, p5).
     bind_result (expectEnd p5) (\<lambda>(_, p6). Inr (UpdateStatement table sets where, p6)))))))"

definition parseDelete :: "Parser \<Rightarrow> Statement parsed" where
  "parseDelete p0 =
     bind_result (expectKeyword ''DELETE'' p0) (\<lambda>(_, p1).
     bind_result (expectKeyword ''FROM'' p1) (\<lambda>(_, p2).
     bind_result (parse_identifier ''table name'' p2) (\<lambda>(table, p3).
     bind_result (parseOptionalWhere p3) (\<lambda>(where, p4).
     bind_result (expectEnd p4) (\<lambda>(_, p5). Inr (DeleteStatement table where, p5))))))"

definition parse_from :: "Parser \<Rightarrow> Statement parsed" where
  "parse_from p =
     bind_result (peek p) (\<lambda>first.
       if tok_type first \<noteq> KEYWORD
       then fail p ''expected a statement (SELECT, INSERT, DELETE, CREATE, DROP)''
       else if tok_value first = ''CREATE'' then parseCreate p
       else if tok_value first = ''DROP'' then parseDrop p
       else if tok_value first = ''INSERT'' then parseInsert p
       else if tok_value first = ''SELECT'' then parseSelect p
       else if tok_value first = ''UPDATE'' then parseUpdate p
       else if tok_value first = ''DELETE'' then parseDelete p
       else fail p (''unsupported statement '' @ quoted (tok_value first)))"

text \<open>\<^verbatim>\<open>Parser(tokens).parse()\<close>\<close>

definition parse :: "Token list \<Rightarrow> Statement result" where
  "parse ts = bind_result (parse_from \<lparr>tokens = ts, pos = 0\<rparr>) (\<lambda>(stmt, _). Inr stmt)"

end
