(* ===== verification/Lexer_Spec.thy ===== *)
theory Lexer_Spec
  imports Lexer
begin

text \<open>
  What the tokenizer accepts, stated without its loop: how a token of each kind may be spelt,
  when a spelling is as long as it can be, and which token lists a text stands for. The
  tokenizer succeeds on exactly these texts, and fails on all others with a \<^verbatim>\<open>QueryError\<close>.
\<close>

section \<open>Lexical grammar\<close>

definition ident_ok :: "string \<Rightarrow> bool" where
  "ident_ok w \<longleftrightarrow> w \<noteq> [] \<and> isIdentStart (hd w) \<and> list_all isIdentChar w \<and> \<not> isKeyword (map toupper w)"

definition number_ok :: "string \<Rightarrow> bool" where
  "number_ok w \<longleftrightarrow>
     (\<exists>ds. ds \<noteq> [] \<and> list_all isdigit ds \<and> (w = ds \<or> w = CHR ''-'' # ds))"

text \<open>A text between quotes, with the quote doubled inside.\<close>

fun escape :: "char \<Rightarrow> string \<Rightarrow> string" where
  "escape q [] = []"
| "escape q (c # cs) = (if c = q then [q, q] else [c]) @ escape q cs"

definition quotes :: "char set" where
  "quotes = {CHR 0x27, CHR 0x22}"

definition operators :: "string set" where
  "operators = {''='', ''!='', ''<'', ''<='', ''>'', ''>=''}"

definition punctuation :: "string set" where
  "punctuation = {''('', '')'', '','', ''*''}"

text \<open>\<open>spelt ty v w\<close>: the text \<open>w\<close> is a spelling of the token of type \<open>ty\<close> with value \<open>v\<close>.\<close>

fun spelt :: "TokenType \<Rightarrow> string \<Rightarrow> string \<Rightarrow> bool" where
  "spelt KEYWORD v w = (isKeyword v \<and> v = map toupper w \<and> w \<noteq> [] \<and> isIdentStart (hd w) \<and> list_all isIdentChar w)"
| "spelt IDENTIFIER v w = (ident_ok v \<and> w = v)"
| "spelt NUMBER v w = (number_ok v \<and> w = v)"
| "spelt STRING v w = (\<exists>q \<in> quotes. w = q # escape q v @ [q])"
| "spelt OPERATOR v w = (v \<in> operators \<and> w = v)"
| "spelt PUNCTUATION v w = (v \<in> punctuation \<and> w = v)"
| "spelt END v w = False"

text \<open>The spelling \<open>w\<close> could not have been continued into \<open>rest\<close>.\<close>

fun maximal :: "TokenType \<Rightarrow> string \<Rightarrow> string \<Rightarrow> bool" where
  "maximal KEYWORD w rest = (\<not> next_is isIdentChar rest)"
| "maximal IDENTIFIER w rest = (\<not> next_is isIdentChar rest)"
| "maximal NUMBER w rest = (\<not> next_is isdigit rest)"
| "maximal STRING w rest = (\<not> next_is (\<lambda>d. d = hd w) rest)"
| "maximal OPERATOR w rest = (w \<in> {''<'', ''>''} \<longrightarrow> \<not> next_is (\<lambda>d. d = CHR ''='') rest)"
| "maximal PUNCTUATION w rest = True"
| "maximal END w rest = False"

text \<open>
  \<open>lexes n s ts\<close>: the tokens \<open>ts\<close> are those of \<open>s\<close>, the last part of a text of length \<open>n\<close>. A
  token records how much of the text lies before it.
\<close>

inductive lexes :: "nat \<Rightarrow> string \<Rightarrow> Token list \<Rightarrow> bool" for n where
  lexes_end: "lexes n [] [token END [] n]"
| lexes_space: "isspace c \<Longrightarrow> lexes n s ts \<Longrightarrow> lexes n (c # s) ts"
| lexes_token: "spelt ty v w \<Longrightarrow> maximal ty w rest \<Longrightarrow> lexes n rest ts \<Longrightarrow>
    lexes n (w @ rest) (token ty v (n - length (w @ rest)) # ts)"

inductive_cases lexes_NilE: "lexes n [] ts"
inductive_cases lexes_ConsE: "lexes n (c # s) ts"

section \<open>One token\<close>

lemma isspace_ident [simp]: "isIdentStart c \<Longrightarrow> \<not> isspace c"
  by (auto simp: isIdentStart_def isspace_def isalpha_def isupper_def islower_def)

lemma isspace_digit [simp]: "isdigit c \<Longrightarrow> \<not> isspace c"
  by (auto simp: isdigit_def isspace_def)

lemma isIdentStart_digit [simp]: "isdigit c \<Longrightarrow> \<not> isIdentStart c"
  by (auto simp: isIdentStart_def isdigit_def isalpha_def isupper_def islower_def)

lemmas char_class_defs = isspace_def isIdentStart_def isIdentChar_def isalpha_def isalnum_def
  isupper_def islower_def isdigit_def

text \<open>A prefix that a test accepts throughout and the rest refuses is what the loop takes.\<close>

lemma takeWhile_split_iff:
  "s = w @ rest \<and> list_all p w \<and> \<not> next_is p rest \<longleftrightarrow> w = takeWhile p s \<and> rest = dropWhile p s"
proof
  assume a: "s = w @ rest \<and> list_all p w \<and> \<not> next_is p rest"
  then have "takeWhile p rest = [] \<and> dropWhile p rest = rest" by (cases rest) simp_all
  with a show "w = takeWhile p s \<and> rest = dropWhile p s"
    by (simp add: list_all_iff takeWhile_append2 dropWhile_append2)
next
  assume "w = takeWhile p s \<and> rest = dropWhile p s"
  then show "s = w @ rest \<and> list_all p w \<and> \<not> next_is p rest"
    using hd_dropWhile [of p s] by (auto simp: list_all_iff next_is_def dest: set_takeWhileD)
qed

lemma scan_string_escape:
  "\<not> next_is (\<lambda>d. d = q) rest \<Longrightarrow> scan_string q (escape q v @ q # rest) content = Some (content @ v, rest)"
  by (induction v arbitrary: content) auto

lemma scan_string_sound:
  "scan_string q cs content = Some (s, rest) \<Longrightarrow>
     \<exists>v. s = content @ v \<and> cs = escape q v @ q # rest \<and> \<not> next_is (\<lambda>d. d = q) rest"
proof (induction q cs content rule: scan_string.induct)
  case (2 quote c cs content)
  consider (closing) "c = quote" "\<not> next_is (\<lambda>d. d = quote) cs"
    | (doubled) ds where "c = quote" "cs = quote # ds"
    | (other) "c \<noteq> quote"
    by (cases cs) auto
  then show ?case
  proof cases
    case closing
    with 2(3) show ?thesis by (intro exI [of _ "[]"]) auto
  next
    case doubled
    with 2(1,3) obtain v where
      "s = (content @ [quote]) @ v \<and> ds = escape quote v @ quote # rest \<and> \<not> next_is (\<lambda>d. d = quote) rest"
      by auto
    with doubled show ?thesis by (intro exI [of _ "quote # v"]) simp
  next
    case other
    with 2(2,3) obtain v where
      "s = (content @ [c]) @ v \<and> cs = escape quote v @ quote # rest \<and> \<not> next_is (\<lambda>d. d = quote) rest"
      by auto
    with other show ?thesis by (intro exI [of _ "c # v"]) simp
  qed
qed simp

lemma lex_word_round:
  assumes "isIdentStart c" and "list_all isIdentChar (c # w)" and "\<not> next_is isIdentChar rest"
  shows "lex_round start c (w @ rest) =
    Inr (Some (if isKeyword (map toupper (c # w)) then token KEYWORD (map toupper (c # w)) start
               else token IDENTIFIER (c # w) start), rest)"
proof -
  have "c # w = takeWhile isIdentChar (c # w @ rest) \<and> rest = dropWhile isIdentChar (c # w @ rest)"
    using assms by (subst takeWhile_split_iff [symmetric]) simp
  with assms(1) show ?thesis by (simp add: lex_round_def lex_word_def Let_def)
qed

lemma lex_number_round:
  assumes "isdigit c \<or> c = CHR ''-'' \<and> w \<noteq> []" and "list_all isdigit w" and "\<not> next_is isdigit rest"
  shows "lex_round start c (w @ rest) = Inr (Some (token NUMBER (c # w) start), rest)"
proof -
  have "w = takeWhile isdigit (w @ rest) \<and> rest = dropWhile isdigit (w @ rest)"
    using assms by (subst takeWhile_split_iff [symmetric]) simp
  moreover have "\<not> isspace c" "\<not> isIdentStart c" using assms(1) by (auto simp: char_class_defs)
  moreover have "isdigit c \<or> c = CHR ''-'' \<and> next_is isdigit (w @ rest)"
    using assms by (cases w) auto
  ultimately show ?thesis by (simp add: lex_round_def lex_number_def)
qed

text \<open>The characters that start a literal or a symbol belong to no other class.\<close>

lemma symbol_class:
  "c \<in> set ''=<>!(),*'' \<union> quotes \<Longrightarrow> \<not> isspace c \<and> \<not> isIdentStart c \<and> \<not> isdigit c"
  by (simp add: quotes_def) (elim disjE; simp add: char_class_defs)

lemma lex_string_round:
  assumes "c \<in> quotes" and "\<not> next_is (\<lambda>d. d = c) rest"
  shows "lex_round start c (escape c v @ c # rest) = Inr (Some (token STRING v start), rest)"
  using assms symbol_class [of c]
  by (simp add: lex_round_def lex_string_def scan_string_escape) (auto simp: quotes_def)

lemma lex_operator_round:
  assumes "c # w \<in> operators" and "maximal OPERATOR (c # w) rest"
  shows "lex_round start c (w @ rest) = Inr (Some (token OPERATOR (c # w) start), rest)"
proof -
  have "\<not> isspace c \<and> \<not> isIdentStart c \<and> \<not> isdigit c"
    using assms(1) by (intro symbol_class) (auto simp: operators_def)
  with assms show ?thesis
    unfolding operators_def lex_round_def lex_inequality_def lex_bang_def
    by (elim insertE emptyE) simp_all
qed

lemma lex_punctuation_round:
  "c # w \<in> punctuation \<Longrightarrow> lex_round start c (w @ rest) = Inr (Some (token PUNCTUATION (c # w) start), rest)"
  using symbol_class [of c] by (auto simp: punctuation_def lex_round_def)

lemma spelt_not_Nil: "spelt ty v w \<Longrightarrow> w \<noteq> []"
  by (cases ty) (auto simp: ident_ok_def number_ok_def operators_def punctuation_def)

lemma spelt_not_space: "spelt ty v (c # w) \<Longrightarrow> \<not> isspace c"
  using symbol_class [of c] isspace_ident [of c] isspace_digit [of c]
  by (cases ty) (auto simp: ident_ok_def number_ok_def operators_def punctuation_def isspace_def [of "CHR ''-''"]
      simp del: isspace_ident isspace_digit)

lemma lex_round_token:
  assumes "spelt ty v (c # w)" and "maximal ty (c # w) rest"
  shows "lex_round start c (w @ rest) = Inr (Some (token ty v start), rest)"
proof (cases ty)
  case NUMBER
  with assms(1) have "isdigit c \<or> c = CHR ''-'' \<and> w \<noteq> []" "list_all isdigit w" "v = c # w"
    by (auto simp: number_ok_def)
  with assms(2) NUMBER show ?thesis by (simp add: lex_number_round)
next
  case STRING
  with assms(1) have "c \<in> quotes" "w = escape c v @ [c]" by auto
  with assms(2) STRING show ?thesis by (simp add: lex_string_round)
qed (use assms in \<open>auto simp: lex_word_round lex_operator_round lex_punctuation_round ident_ok_def\<close>)

text \<open>Conversely, whatever a round takes off the input is a spelling of the token it makes.\<close>

definition round_ok :: "nat \<Rightarrow> string \<Rightarrow> Token \<Rightarrow> string \<Rightarrow> bool" where
  "round_ok start s t rest \<longleftrightarrow>
     (\<exists>ty v w. t = token ty v start \<and> s = w @ rest \<and> spelt ty v w \<and> maximal ty w rest)"

lemma round_okI:
  "spelt ty v w \<Longrightarrow> maximal ty w rest \<Longrightarrow> round_ok start (w @ rest) (token ty v start) rest"
  by (auto simp: round_ok_def)

lemma lex_word_ok:
  assumes c: "isIdentStart c" and t: "lex_word start (c # cs) = (t, rest)"
  shows "round_ok start (c # cs) t rest"
proof -
  define w where "w = takeWhile isIdentChar (c # cs)"
  have w: "c # cs = w @ rest \<and> list_all isIdentChar w \<and> \<not> next_is isIdentChar rest"
    using t by (subst takeWhile_split_iff) (simp add: lex_word_def Let_def w_def)
  have h: "w \<noteq> [] \<and> hd w = c" using isIdentStart_Char [OF c] by (simp add: w_def)
  have t: "t = (if isKeyword (map toupper w) then token KEYWORD (map toupper w) start
                else token IDENTIFIER w start)"
    using t unfolding lex_word_def Let_def prod.inject w_def by (rule conjunct1 [THEN sym])
  have "round_ok start (w @ rest) t rest"
    using w h c by (simp add: t ident_ok_def round_okI)
  with w show ?thesis by simp
qed

lemma lex_number_ok:
  assumes c: "isdigit c \<or> c = CHR ''-'' \<and> next_is isdigit cs" and t: "lex_number start c cs = (t, rest)"
  shows "round_ok start (c # cs) t rest"
proof -
  define w where "w = takeWhile isdigit cs"
  have w: "cs = w @ rest \<and> list_all isdigit w \<and> \<not> next_is isdigit rest"
    using t by (subst takeWhile_split_iff) (simp add: lex_number_def w_def)
  have "w \<noteq> []" if "next_is isdigit cs" using w that by (cases w) auto
  then have "number_ok (c # w)"
    unfolding number_ok_def using c w by (intro exI [of _ "if isdigit c then c # w else w"]) auto
  then have "round_ok start ((c # w) @ rest) (token NUMBER (c # w) start) rest"
    using w by (intro round_okI) simp_all
  with w t show ?thesis by (simp add: lex_number_def w_def)
qed

lemma lex_string_ok:
  assumes "c \<in> quotes" and "lex_string start c cs = Inr (t, rest)"
  shows "round_ok start (c # cs) t rest"
proof -
  from assms(2) obtain v where v: "scan_string c cs [] = Some (v, rest)" "t = token STRING v start"
    by (auto simp: lex_string_def split: option.splits)
  from scan_string_sound [OF v(1)] have cs: "cs = escape c v @ c # rest" "\<not> next_is (\<lambda>d. d = c) rest"
    by simp_all
  with assms(1) have "round_ok start ((c # escape c v @ [c]) @ rest) (token STRING v start) rest"
    by (intro round_okI) auto
  with cs v(2) show ?thesis by simp
qed

lemma lex_inequality_ok:
  assumes "c = CHR ''<'' \<or> c = CHR ''>''" and "lex_inequality start c cs = (t, rest)"
  shows "round_ok start (c # cs) t rest"
proof (cases "next_is (\<lambda>d. d = CHR ''='') cs")
  case True
  with assms(2) have "cs = CHR ''='' # rest" "t = token OPERATOR [c, CHR ''=''] start"
    by (cases cs; auto simp: lex_inequality_def)+
  with assms(1) show ?thesis
    using round_okI [of OPERATOR "[c, CHR ''='']" "[c, CHR ''='']" rest start]
    by (auto simp: operators_def)
next
  case False
  with assms show ?thesis
    using round_okI [of OPERATOR "[c]" "[c]" rest start]
    by (auto simp: lex_inequality_def operators_def)
qed

lemma lex_bang_ok:
  assumes "lex_bang start cs = Inr (t, rest)"
  shows "round_ok start (CHR ''!'' # cs) t rest"
  using assms round_okI [of OPERATOR "''!=''" "''!=''" rest start]
  by (cases cs) (auto simp: lex_bang_def operators_def split: if_splits)

text \<open>The branches of a round, each with the conditions of the branches before it.\<close>

lemma lex_round_cases:
  assumes "lex_round start c cs = Inr (r, rest)" and "\<not> isspace c"
  obtains (Word) t where "r = Some t" "isIdentStart c" "lex_word start (c # cs) = (t, rest)"
  | (Number) t where "r = Some t" "isdigit c \<or> c = CHR ''-'' \<and> next_is isdigit cs"
      "lex_number start c cs = (t, rest)"
  | (Str) t where "r = Some t" "c \<in> quotes" "lex_string start c cs = Inr (t, rest)"
  | (Equals) "r = Some (token OPERATOR ''='' start)" "c = CHR ''=''" "rest = cs"
  | (Inequality) t where "r = Some t" "c = CHR ''<'' \<or> c = CHR ''>''" "lex_inequality start c cs = (t, rest)"
  | (Bang) t where "r = Some t" "c = CHR ''!''" "lex_bang start cs = Inr (t, rest)"
  | (Punctuation) "r = Some (token PUNCTUATION [c] start)" "[c] \<in> punctuation" "rest = cs"
  using assms(1)
  unfolding lex_round_def if_not_P [OF assms(2)] bind_result_eq_Inr quotes_def punctuation_def
  by (auto split: if_splits)

lemma lex_round_sound:
  assumes "lex_round start c cs = Inr (r, rest)" and "\<not> isspace c"
  shows "\<exists>t. r = Some t \<and> round_ok start (c # cs) t rest"
  using assms
proof (cases rule: lex_round_cases)
  case Equals
  then show ?thesis using round_okI [of OPERATOR "''=''" "''=''" cs start] by (simp add: operators_def)
next
  case Punctuation
  then show ?thesis using round_okI [of PUNCTUATION "[c]" "[c]" cs start] by simp
qed (auto intro: lex_word_ok lex_number_ok lex_string_ok lex_inequality_ok lex_bang_ok)

section \<open>Whole texts\<close>

lemma tokenize_loop_sound: "tokenize_loop n s = Inr ts \<Longrightarrow> lexes n s ts"
proof (induction n s arbitrary: ts rule: tokenize_loop.induct)
  case (1 n)
  then show ?case by (auto intro: lexes_end)
next
  case (2 n c cs)
  from 2(2) obtain r rest us where r: "lex_round (n - length (c # cs)) c cs = Inr (r, rest)"
    and us: "tokenize_loop n rest = Inr us" and ts: "ts = (case r of None \<Rightarrow> us | Some u \<Rightarrow> u # us)"
    by (auto simp: exn_simps)
  from 2(1) [OF r refl us] have l: "lexes n rest us" .
  show ?case
  proof (cases "isspace c")
    case True
    with r have "r = None \<and> rest = cs" by (simp add: lex_round_def)
    with True l ts show ?thesis by (simp add: lexes_space)
  next
    case False
    from lex_round_sound [OF r False] obtain ty v w where
      w: "r = Some (token ty v (n - length (c # cs)))" "c # cs = w @ rest" "spelt ty v w" "maximal ty w rest"
      unfolding round_ok_def by blast
    from lexes_token [OF w(3,4) l] w(1,2) ts show ?thesis by simp
  qed
qed

lemma tokenize_loop_complete: "lexes n s ts \<Longrightarrow> tokenize_loop n s = Inr ts"
proof (induction rule: lexes.induct)
  case (lexes_space c s ts)
  then show ?case by (simp add: lex_round_def)
next
  case (lexes_token ty v w rest ts)
  obtain c u where "w = c # u" using spelt_not_Nil [OF lexes_token(1)] by (cases w) auto
  with lexes_token lex_round_token [of ty v c u rest] show ?case by simp
qed simp

lemma tokenize_lexes: "tokenize input = Inr ts \<longleftrightarrow> lexes (length input) input ts"
  unfolding tokenize_def using tokenize_loop_sound tokenize_loop_complete by blast

lemma lex_round_error: "lex_round start c cs = Inl e \<Longrightarrow> \<exists>msg. e = Query_error msg"
  by (auto simp: lex_round_def lex_string_def lex_bang_def exn_simps split: if_splits option.splits)

lemma tokenize_loop_error: "tokenize_loop n s = Inl e \<Longrightarrow> \<exists>msg. e = Query_error msg"
proof (induction n s rule: tokenize_loop.induct)
  case (2 n c cs)
  from 2(2) consider "lex_round (n - length (c # cs)) c cs = Inl e"
    | r rest where "lex_round (n - length (c # cs)) c cs = Inr (r, rest)" "tokenize_loop n rest = Inl e"
    by (auto simp: bind_result_eq_Inl)
  then show ?case
  proof cases
    case 1
    then show ?thesis by (rule lex_round_error)
  qed (use 2(1) in blast)
qed simp

lemma tokenize_error: "tokenize input = Inl e \<Longrightarrow> \<exists>msg. e = Query_error msg"
  unfolding tokenize_def by (rule tokenize_loop_error)

text \<open>
  C11. The tokenizer accepts exactly the lexical grammar: it returns a token list if and only if
  the list consists of longest spellings that cover the text up to white space, with their
  positions, and it always returns, if not with tokens then with a \<^verbatim>\<open>QueryError\<close>.
\<close>

theorem tokenize_exact:
  "(tokenize input = Inr ts \<longleftrightarrow> lexes (length input) input ts) \<and>
   ((\<exists>us. tokenize input = Inr us) \<or> (\<exists>msg. tokenize input = Inl (Query_error msg)))"
  using tokenize_lexes [of input ts] tokenize_error [of input] by (cases "tokenize input") auto

section \<open>Token streams\<close>

text \<open>
  What the parser may rely on: the sentinel is the last token and the only one of its kind, and
  every other token carries a value of its kind.
\<close>

definition stream_ok :: "Token list \<Rightarrow> bool" where
  "stream_ok ts \<longleftrightarrow> ts \<noteq> [] \<and> tok_type (last ts) = END \<and> list_all (\<lambda>t. tok_type t \<noteq> END) (butlast ts)"

lemma lexes_stream_ok: "lexes n s ts \<Longrightarrow> stream_ok ts"
proof (induction rule: lexes.induct)
  case (lexes_token ty v w rest ts)
  then have "ty \<noteq> END" by auto
  with lexes_token show ?case by (simp add: stream_ok_def)
qed (simp_all add: stream_ok_def)

lemma lexes_values: "lexes n s ts \<Longrightarrow> t \<in> set (butlast ts) \<Longrightarrow> \<exists>w. spelt (tok_type t) (tok_value t) w"
proof (induction rule: lexes.induct)
  case (lexes_token ty v w rest ts)
  then show ?case by (cases "ts = []") auto
qed simp_all

lemma lexes_positions:
  "lexes n s ts \<Longrightarrow> length s \<le> n \<Longrightarrow>
     sorted_wrt (<) (map tok_position ts) \<and> (\<forall>t \<in> set ts. n - length s \<le> tok_position t \<and> tok_position t \<le> n)"
proof (induction rule: lexes.induct)
  case (lexes_space c s ts)
  then show ?case by fastforce
next
  case (lexes_token ty v w rest ts)
  have "0 < length w" using spelt_not_Nil [OF lexes_token(1)] by simp
  with lexes_token.prems have lt: "n - length (w @ rest) < n - length rest" by (simp del: length_greater_0_conv)
  from lexes_token have sorted: "sorted_wrt (<) (map tok_position ts)"
    and bounds: "\<forall>t \<in> set ts. n - length rest \<le> tok_position t \<and> tok_position t \<le> n" by simp_all
  from bounds lt have "\<forall>t \<in> set ts. n - length (w @ rest) < tok_position t \<and> tok_position t \<le> n"
    using less_le_trans by blast
  with sorted show ?case by (simp add: less_imp_le)
qed simp

text \<open>
  C25. A token list the tokenizer returns ends with the \<^verbatim>\<open>END\<close> sentinel and has it nowhere else,
  its positions increase strictly and lie within the text, and the value of every other token is
  one its type allows: keywords are in upper case, identifiers are not keywords, numbers are digits
  with an optional sign.
\<close>

theorem tokenize_stream_ok:
  assumes "tokenize input = Inr ts"
  shows "stream_ok ts \<and> sorted_wrt (<) (map tok_position ts) \<and>
    (\<forall>t \<in> set ts. tok_position t \<le> length input) \<and>
    (\<forall>t \<in> set (butlast ts). \<exists>w. spelt (tok_type t) (tok_value t) w)"
proof -
  have l: "lexes (length input) input ts" using assms by (simp add: tokenize_lexes)
  with lexes_stream_ok [OF l] lexes_values [OF l] lexes_positions [OF l] show ?thesis by auto
qed

definition demo_query :: string where
  "demo_query = ''select Name from t where id <= -5 and s = '' @ quoted (''it'' @ [CHR 0x27, CHR 0x27] @ ''s'')"

lemma demo_query_tokens:
  "tokenize demo_query =
     Inr [token KEYWORD ''SELECT'' 0, token IDENTIFIER ''Name'' 7, token KEYWORD ''FROM'' 12,
          token IDENTIFIER ''t'' 17, token KEYWORD ''WHERE'' 19, token IDENTIFIER ''id'' 25,
          token OPERATOR ''<='' 28, token NUMBER ''-5'' 31, token KEYWORD ''AND'' 34,
          token IDENTIFIER ''s'' 38, token OPERATOR ''='' 40,
          token STRING (''it'' @ [CHR 0x27] @ ''s'') 42, token END [] 49]"
  by code_simp

theorem tokenize_stream_ok_witness:
  "\<exists>ts. tokenize demo_query = Inr ts \<and> length ts = 13 \<and> stream_ok ts \<and> sorted_wrt (<) (map tok_position ts)"
  using tokenize_stream_ok [OF demo_query_tokens] by (simp add: demo_query_tokens)

end
