(* ===== verification/Parser_Spec.thy ===== *)
theory Parser_Spec
  imports Parser Lexer_Spec
begin

text \<open>
  The grammar of the query language, and the parser against it. A parser routine is read as a
  \<open>phrase\<close>: it consumes a stretch of symbols its grammar allows, succeeds whenever such a stretch
  is followed by something that does not continue it, and otherwise throws a \<^verbatim>\<open>QueryError\<close>. The
  list loops share one proof, in the locale \<open>comma_list\<close>; a whole statement is a \<open>sentence\<close>,
  which is accepted exactly when all the symbols up to the end of the input spell it.
\<close>

section \<open>The cursor\<close>

type_synonym symbol = "TokenType \<times> string"

definition symbol_of :: "Token \<Rightarrow> symbol" where
  "symbol_of t = (tok_type t, tok_value t)"

text \<open>The symbols from the cursor on, and the states the parser is ever in.\<close>

definition ahead :: "Parser \<Rightarrow> symbol list" where
  "ahead p = map symbol_of (drop (pos p) (tokens p))"

definition cursor_ok :: "Parser \<Rightarrow> bool" where
  "cursor_ok p \<longleftrightarrow> pos p < length (tokens p) \<and> stream_ok (tokens p)"

lemma stream_ok_last:
  assumes "stream_ok ts" and "i < length ts"
  shows "tok_type (ts ! i) = END \<longleftrightarrow> Suc i = length ts"
proof
  assume e: "tok_type (ts ! i) = END"
  show "Suc i = length ts"
  proof (rule ccontr)
    assume "Suc i \<noteq> length ts"
    with assms(2) have "ts ! i \<in> set (butlast ts)"
      by (metis Suc_lessI in_set_conv_nth length_butlast less_diff_conv nth_butlast plus_1_eq_Suc add.commute)
    with assms(1) e show False by (auto simp: stream_ok_def list_all_iff)
  qed
next
  assume "Suc i = length ts"
  then have "i = length ts - 1" by simp
  with assms(1) last_conv_nth [of ts] show "tok_type (ts ! i) = END" by (auto simp: stream_ok_def)
qed

lemma cursor_peek:
  assumes "cursor_ok p"
  obtains t vs where "peek p = Inr t" "ahead p = symbol_of t # vs" "tok_type t = END \<longleftrightarrow> vs = []"
proof -
  let ?t = "tokens p ! pos p" and ?vs = "map symbol_of (drop (Suc (pos p)) (tokens p))"
  have "ahead p = symbol_of ?t # ?vs"
    using assms by (simp add: ahead_def cursor_ok_def Cons_nth_drop_Suc [symmetric])
  moreover have "tok_type ?t = END \<longleftrightarrow> ?vs = []"
    using assms by (auto simp: cursor_ok_def stream_ok_last)
  moreover have "peek p = Inr ?t" using assms by (simp add: peek_def cursor_ok_def)
  ultimately show ?thesis using that by blast
qed

lemma cursor_not_Inl: "cursor_ok p \<Longrightarrow> peek p \<noteq> Inl e"
  by (auto elim: cursor_peek)

lemma cursor_advance:
  assumes "cursor_ok p" and "ahead p = s # vs" and "fst s \<noteq> END"
  obtains t q where "advance p = Inr (t, q)" "symbol_of t = s" "ahead q = vs" "cursor_ok q"
proof -
  from assms(1) obtain t ws where t: "peek p = Inr t" "ahead p = symbol_of t # ws"
    "tok_type t = END \<longleftrightarrow> ws = []"
    by (rule cursor_peek)
  with assms(2,3) have s: "symbol_of t = s" "ws = vs" "tok_type t \<noteq> END" by (auto simp: symbol_of_def)
  let ?q = "p\<lparr>pos := pos p + 1\<rparr>"
  have "ahead ?q = tl (ahead p)" by (simp add: ahead_def drop_Suc tl_drop map_tl [symmetric])
  then have "ahead ?q = vs" using assms(2) by simp
  moreover have "tok_type (tokens p ! pos p) \<noteq> END"
    using t(1) s(3) assms(1) by (simp add: peek_def cursor_ok_def)
  then have "cursor_ok ?q"
    using assms(1) by (auto simp: cursor_ok_def stream_ok_last)
  moreover have "advance p = Inr (t, ?q)" using t(1) s(3) by (simp add: advance_def)
  ultimately show ?thesis using s(1) that by blast
qed

lemma fail_at: "cursor_ok p \<Longrightarrow> \<exists>msg. fail p m = Inl (Query_error msg)"
  by (rule cursor_peek [of p]) (simp_all add: fail_def)

lemma fail_error: "cursor_ok p \<Longrightarrow> fail p m = Inl e \<Longrightarrow> \<exists>msg. e = Query_error msg"
  using fail_at [of p m] by (metis sum.inject(1))

section \<open>Phrases and sentences\<close>

text \<open>
  The contract of a parser routine \<open>m\<close>: \<open>G x us\<close> says that the symbols \<open>us\<close> spell the result \<open>x\<close>,
  \<open>F vs\<close> that the symbols \<open>vs\<close> after them do not continue the phrase.
\<close>

locale phrase =
  fixes m :: "Parser \<Rightarrow> 'a parsed" and G :: "'a \<Rightarrow> symbol list \<Rightarrow> bool" and F :: "symbol list \<Rightarrow> bool"
  assumes sound: "cursor_ok p \<Longrightarrow> m p = Inr (x, q) \<Longrightarrow>
      cursor_ok q \<and> (\<exists>us. ahead p = us @ ahead q \<and> G x us)"
    and complete: "cursor_ok p \<Longrightarrow> ahead p = us @ vs \<Longrightarrow> G x us \<Longrightarrow> F vs \<Longrightarrow>
      \<exists>q. m p = Inr (x, q) \<and> ahead q = vs \<and> cursor_ok q"
    and safe: "cursor_ok p \<Longrightarrow> m p = Inl e \<Longrightarrow> \<exists>msg. e = Query_error msg"

text \<open>The contract of a routine that reads to the end of the input.\<close>

locale sentence =
  fixes m :: "Parser \<Rightarrow> 'a parsed" and H :: "'a \<Rightarrow> symbol list \<Rightarrow> bool"
  assumes exact: "cursor_ok p \<Longrightarrow> (\<exists>q. m p = Inr (x, q)) \<longleftrightarrow> H x (ahead p)"
    and errors: "cursor_ok p \<Longrightarrow> m p = Inl e \<Longrightarrow> \<exists>msg. e = Query_error msg"

lemma sentence_bind:
  fixes m :: "Parser \<Rightarrow> 'a parsed" and n :: "'a \<Rightarrow> Parser \<Rightarrow> 'b parsed"
  assumes m: "phrase m G F" and n: "\<And>x. sentence (n x) (H x)" and follow: "\<And>x y vs. H x y vs \<Longrightarrow> F vs"
  shows "sentence (\<lambda>p. bind_result (m p) (case_prod n))
           (\<lambda>y us. \<exists>x u v. us = u @ v \<and> G x u \<and> H x y v)"
proof
  fix p y
  assume p: "cursor_ok p"
  show "(\<exists>r. bind_result (m p) (case_prod n) = Inr (y, r)) \<longleftrightarrow>
      (\<exists>x u v. ahead p = u @ v \<and> G x u \<and> H x y v)" (is "?run \<longleftrightarrow> ?spelt")
  proof
    assume ?run
    then obtain x q r where xq: "m p = Inr (x, q)" and r: "n x q = Inr (y, r)"
      by (auto simp: exn_simps)
    from phrase.sound [OF m p xq] obtain us where us: "cursor_ok q" "ahead p = us @ ahead q" "G x us"
      by blast
    with r sentence.exact [OF n us(1), of x y] show ?spelt by blast
  next
    assume ?spelt
    then obtain x u v where u: "ahead p = u @ v" "G x u" "H x y v" by blast
    from phrase.complete [OF m p u(1,2) follow [OF u(3)]] obtain q where
      q: "m p = Inr (x, q)" "ahead q = v" "cursor_ok q" by blast
    with u(3) sentence.exact [OF n q(3), of x y] show ?run by auto
  qed
next
  fix p e
  assume p: "cursor_ok p" and e: "bind_result (m p) (case_prod n) = Inl e"
  from e consider "m p = Inl e" | x q where "m p = Inr (x, q)" "n x q = Inl e"
    by (auto simp: bind_result_eq_Inl)
  then show "\<exists>msg. e = Query_error msg"
  proof cases
    case 1
    then show ?thesis by (rule phrase.safe [OF m p])
  next
    case 2
    with phrase.sound [OF m p 2(1)] show ?thesis by (blast dest: sentence.errors [OF n])
  qed
qed

lemma sentence_cong: "sentence m H \<Longrightarrow> (\<And>x us. H x us \<longleftrightarrow> K x us) \<Longrightarrow> sentence m K"
  by (simp add: sentence_def)

text \<open>The end of the input closes a sentence.\<close>

lemma sentence_end:
  "sentence (\<lambda>p. bind_result (expectEnd p) (\<lambda>(_, q). if c then Inl (Query_error msg) else Inr (f, q)))
     (\<lambda>x us. \<not> c \<and> x = f \<and> (\<exists>v. us = [(END, v)]))"
proof
  fix p x
  assume "cursor_ok p"
  then show "(\<exists>r. bind_result (expectEnd p) (\<lambda>(_, q). if c then Inl (Query_error msg) else Inr (f, q)) = Inr (x, r))
      \<longleftrightarrow> \<not> c \<and> x = f \<and> (\<exists>v. ahead p = [(END, v)])"
    by (rule cursor_peek) (auto simp: expectEnd_def symbol_of_def exn_simps split: if_splits)
next
  fix p e
  assume p: "cursor_ok p"
    and "bind_result (expectEnd p) (\<lambda>(_, q). if c then Inl (Query_error msg) else Inr (f, q)) = Inl e"
  then show "\<exists>msg. e = Query_error msg"
    using fail_error [OF p] by (auto simp: expectEnd_def bind_result_eq_Inl cursor_not_Inl [OF p] split: if_splits)
qed

lemmas sentence_finish = sentence_end [where c = False, simplified]

section \<open>One symbol\<close>

text \<open>A routine that takes one symbol out of a set and turns it into a value.\<close>

lemma phrase_symbol:
  fixes m :: "Parser \<Rightarrow> 'a parsed"
  assumes take: "\<And>p t. peek p = Inr t \<Longrightarrow> ok (symbol_of t) \<Longrightarrow>
      m p = bind_result (advance p) (\<lambda>(u, q). Inr (val (symbol_of u), q))"
    and refuse: "\<And>p t. cursor_ok p \<Longrightarrow> peek p = Inr t \<Longrightarrow> \<not> ok (symbol_of t) \<Longrightarrow> \<exists>msg. m p = Inl (Query_error msg)"
    and no_end: "\<And>s. ok s \<Longrightarrow> fst s \<noteq> END"
  shows "phrase m (\<lambda>x us. \<exists>s. ok s \<and> x = val s \<and> us = [s]) (\<lambda>_. True)"
proof -
  have taken: "\<exists>q. m p = Inr (val s, q) \<and> ahead q = vs \<and> cursor_ok q"
    if p: "cursor_ok p" and s: "ahead p = s # vs" "ok s" for p s vs
  proof -
    from p obtain t where t: "peek p = Inr t" "symbol_of t = s" using s(1) by (auto elim: cursor_peek)
    from p s(1) no_end [OF s(2)] obtain u q where "advance p = Inr (u, q)" "symbol_of u = s" "ahead q = vs" "cursor_ok q"
      by (rule cursor_advance)
    with take [OF t(1)] t(2) s(2) show ?thesis by simp
  qed
  have refused: "\<exists>msg. m p = Inl (Query_error msg)"
    if p: "cursor_ok p" and s: "ahead p = s # vs" "\<not> ok s" for p s vs
  proof -
    from p obtain t where t: "peek p = Inr t" "symbol_of t = s" using s(1) by (auto elim: cursor_peek)
    from refuse [OF p t(1)] t(2) s(2) show ?thesis by simp
  qed
  have ahead: "\<exists>s vs. ahead p = s # vs" if "cursor_ok p" for p
    using that by (auto elim: cursor_peek)
  show ?thesis
  proof
    fix p x q
    assume p: "cursor_ok p" and m: "m p = Inr (x, q)"
    from ahead [OF p] obtain s vs where s: "ahead p = s # vs" by blast
    with m refused [OF p s] have "ok s" by auto
    with taken [OF p s] m have "x = val s \<and> ahead q = vs \<and> cursor_ok q" by auto
    with \<open>ok s\<close> s show "cursor_ok q \<and> (\<exists>us. ahead p = us @ ahead q \<and> (\<exists>s. ok s \<and> x = val s \<and> us = [s]))"
      by (intro conjI exI [of _ "[s]"] exI [of _ s]) simp_all
  next
    fix p us vs x
    assume "cursor_ok p" "ahead p = us @ vs" "\<exists>s. ok s \<and> x = val s \<and> us = [s]"
    with taken show "\<exists>q. m p = Inr (x, q) \<and> ahead q = vs \<and> cursor_ok q" by auto
  next
    fix p e
    assume p: "cursor_ok p" and m: "m p = Inl e"
    from ahead [OF p] obtain s vs where s: "ahead p = s # vs" by blast
    with m taken [OF p s] refused [OF p s] show "\<exists>msg. e = Query_error msg" by auto
  qed
qed

lemma phrase_cong: "phrase m G F \<Longrightarrow> (\<And>x us. G x us \<longleftrightarrow> G' x us) \<Longrightarrow> phrase m G' F"
  by (simp add: phrase_def)

lemma expectKeyword_phrase: "phrase (expectKeyword kw) (\<lambda>_ us. us = [(KEYWORD, kw)]) (\<lambda>_. True)"
  by (rule phrase_cong, rule phrase_symbol [where ok = "\<lambda>s. s = (KEYWORD, kw)" and val = "\<lambda>_. ()"])
    (auto simp: expectKeyword_def peekIsKeyword_def symbol_of_def fail_at)

lemma expectPunctuation_phrase: "phrase (expectPunctuation c) (\<lambda>_ us. us = [(PUNCTUATION, [c])]) (\<lambda>_. True)"
  by (rule phrase_cong, rule phrase_symbol [where ok = "\<lambda>s. s = (PUNCTUATION, [c])" and val = "\<lambda>_. ()"])
    (auto simp: expectPunctuation_def symbol_of_def fail_at)

lemma parse_identifier_phrase: "phrase (parse_identifier what) (\<lambda>x us. us = [(IDENTIFIER, x)]) (\<lambda>_. True)"
  by (rule phrase_cong, rule phrase_symbol [where ok = "\<lambda>s. fst s = IDENTIFIER" and val = snd])
    (auto simp: parse_identifier_def expect_def symbol_of_def fail_at fail_def)

definition literal :: "string \<Rightarrow> symbol list \<Rightarrow> bool" where
  "literal x us \<longleftrightarrow> us = [(NUMBER, x)] \<or> us = [(STRING, x)]"

lemma parseLiteral_phrase: "phrase parseLiteral literal (\<lambda>_. True)"
  by (rule phrase_cong, rule phrase_symbol [where ok = "\<lambda>s. fst s = NUMBER \<or> fst s = STRING" and val = snd])
    (auto simp: parseLiteral_def symbol_of_def fail_at literal_def)

lemma compareOpFromToken_Inr_iff: "compareOpFromToken t = Inr op \<longleftrightarrow> tok_value t = toString_CompareOp op"
  by (cases op) (auto simp: compareOpFromToken_def)

lemma compareOpFromToken_error: "compareOpFromToken t = Inl e \<Longrightarrow> \<exists>msg. e = Query_error msg"
  by (auto simp: compareOpFromToken_def split: if_splits)

lemma dataTypeFromString_Some_iff: "dataTypeFromString s = Some ty \<longleftrightarrow> s = toString_DataType ty"
  by (cases ty) (auto simp: dataTypeFromString_def)

text \<open>An advance over a symbol that is not the sentinel, when what follows it may still throw.\<close>

lemma expect_at:
  assumes "cursor_ok p" and "peek p = Inr t" and "ty \<noteq> END"
  obtains (match) q where "tok_type t = ty" "expect ty what p = Inr (t, q)" "advance p = Inr (t, q)" "cursor_ok q"
  | (mismatch) msg where "tok_type t \<noteq> ty" "expect ty what p = Inl (Query_error msg)"
proof (cases "tok_type t = ty")
  case True
  from assms(1) obtain vs where "ahead p = symbol_of t # vs" using assms(2) by (auto elim: cursor_peek)
  with assms(1) obtain u q where "advance p = Inr (u, q)" "cursor_ok q"
    using True assms(3) by (auto simp: symbol_of_def elim: cursor_advance)
  with True assms(2) show ?thesis using advance_peek [OF assms(2)] by (intro match) (auto simp: expect_def)
next
  case False
  with assms fail_at [OF assms(1)] show ?thesis using mismatch by (auto simp: expect_def)
qed

lemma parse_column_type_phrase:
  "phrase parse_column_type (\<lambda>ty us. us = [(KEYWORD, toString_DataType ty)]) (\<lambda>_. True)"
proof (rule phrase_cong, rule phrase_symbol [where ok = "\<lambda>s. fst s = KEYWORD \<and> dataTypeFromString (snd s) \<noteq> None"
      and val = "\<lambda>s. the (dataTypeFromString (snd s))"])
  fix p t
  assume "peek p = Inr t" "fst (symbol_of t) = KEYWORD \<and> dataTypeFromString (snd (symbol_of t)) \<noteq> None"
  then show "parse_column_type p =
      bind_result (advance p) (\<lambda>(u, q). Inr (the (dataTypeFromString (snd (symbol_of u))), q))"
    by (auto simp: parse_column_type_def expect_def symbol_of_def advance_def)
next
  fix p t
  assume p: "cursor_ok p" "peek p = Inr t"
    and no: "\<not> (fst (symbol_of t) = KEYWORD \<and> dataTypeFromString (snd (symbol_of t)) \<noteq> None)"
  from p show "\<exists>msg. parse_column_type p = Inl (Query_error msg)"
    by (rule expect_at [where ty = KEYWORD and what = "''column type''"]) (use no in \<open>auto simp: parse_column_type_def symbol_of_def fail_at\<close>)
qed (auto simp: dataTypeFromString_Some_iff)

lemma parse_equals_phrase: "phrase parse_equals (\<lambda>_ us. us = [(OPERATOR, ''='')]) (\<lambda>_. True)"
proof (rule phrase_cong, rule phrase_symbol [where ok = "\<lambda>s. s = (OPERATOR, ''='')" and val = "\<lambda>_. ()"])
  fix p t
  assume p: "cursor_ok p" "peek p = Inr t" and no: "\<not> symbol_of t = (OPERATOR, ''='')"
  from p show "\<exists>msg. parse_equals p = Inl (Query_error msg)"
    by (rule expect_at [where ty = OPERATOR and what = "quoted ''=''"]) (use no in \<open>auto simp: parse_equals_def symbol_of_def fail_at\<close>)
qed (auto simp: parse_equals_def expect_def symbol_of_def advance_def)

lemma parse_operator_phrase: "phrase parse_operator (\<lambda>op us. us = [(OPERATOR, toString_CompareOp op)]) (\<lambda>_. True)"
proof (rule phrase_cong, rule phrase_symbol [where ok = "\<lambda>s. \<exists>op. s = (OPERATOR, toString_CompareOp op)"
      and val = "\<lambda>s. projr (compareOpFromToken (token OPERATOR (snd s) 0))"])
  fix p t
  assume "peek p = Inr t" "\<exists>op. symbol_of t = (OPERATOR, toString_CompareOp op)"
  then show "parse_operator p =
      bind_result (advance p) (\<lambda>(u, q). Inr (projr (compareOpFromToken (token OPERATOR (snd (symbol_of u)) 0)), q))"
    by (auto simp: parse_operator_def expect_def symbol_of_def advance_def
        compareOpFromToken_Inr_iff [THEN iffD2])
next
  fix p t
  assume p: "cursor_ok p" "peek p = Inr t" and no: "\<not> (\<exists>op. symbol_of t = (OPERATOR, toString_CompareOp op))"
  from p show "\<exists>msg. parse_operator p = Inl (Query_error msg)"
  proof (rule expect_at [where ty = OPERATOR])
    fix q assume q: "tok_type t = OPERATOR" "expect OPERATOR ''comparison operator'' p = Inr (t, q)"
    with no have "compareOpFromToken t \<noteq> Inr op" for op by (auto simp: compareOpFromToken_Inr_iff symbol_of_def)
    with compareOpFromToken_error [of t] have "\<exists>msg. compareOpFromToken t = Inl (Query_error msg)"
      by (cases "compareOpFromToken t") auto
    with q show ?thesis by (auto simp: parse_operator_def)
  qed (auto simp: parse_operator_def)
qed (auto simp: compareOpFromToken_Inr_iff [THEN iffD2])

section \<open>Compound phrases\<close>

lemma phrase_bind:
  fixes m :: "Parser \<Rightarrow> 'a parsed" and n :: "'a \<Rightarrow> Parser \<Rightarrow> 'b parsed"
  assumes m: "phrase m G (\<lambda>_. True)" and n: "\<And>x. phrase (n x) (H x) F"
  shows "phrase (\<lambda>p. bind_result (m p) (case_prod n)) (\<lambda>y us. \<exists>x u v. us = u @ v \<and> G x u \<and> H x y v) F"
proof
  fix p y r
  assume p: "cursor_ok p" and "bind_result (m p) (case_prod n) = Inr (y, r)"
  then obtain x q where xq: "m p = Inr (x, q)" and r: "n x q = Inr (y, r)" by (auto simp: exn_simps)
  from phrase.sound [OF m p xq] obtain u where u: "cursor_ok q" "ahead p = u @ ahead q" "G x u" by blast
  from phrase.sound [OF n u(1) r] obtain v where v: "cursor_ok r" "ahead q = v @ ahead r" "H x y v" by blast
  with u show "cursor_ok r \<and> (\<exists>us. ahead p = us @ ahead r \<and> (\<exists>x u v. us = u @ v \<and> G x u \<and> H x y v))"
    by (intro conjI exI [of _ "u @ v"]) auto
next
  fix p us vs y
  assume p: "cursor_ok p" "ahead p = us @ vs" and "\<exists>x u v. us = u @ v \<and> G x u \<and> H x y v" and f: "F vs"
  then obtain x u v where u: "ahead p = u @ v @ vs" "G x u" "H x y v" by auto
  from phrase.complete [OF m p(1) u(1,2)] obtain q where q: "m p = Inr (x, q)" "ahead q = v @ vs" "cursor_ok q"
    by blast
  from phrase.complete [OF n q(3,2) u(3) f] q(1) show
    "\<exists>r. bind_result (m p) (case_prod n) = Inr (y, r) \<and> ahead r = vs \<and> cursor_ok r" by auto
next
  fix p e
  assume p: "cursor_ok p" and e: "bind_result (m p) (case_prod n) = Inl e"
  from e consider "m p = Inl e" | x q where "m p = Inr (x, q)" "n x q = Inl e"
    by (auto simp: bind_result_eq_Inl)
  then show "\<exists>msg. e = Query_error msg"
  proof cases
    case 1
    then show ?thesis by (rule phrase.safe [OF m p])
  next
    case 2
    with phrase.sound [OF m p 2(1)] show ?thesis by (blast dest: phrase.safe [OF n])
  qed
qed

text \<open>A phrase whose result is then only wrapped up.\<close>

lemma phrase_map:
  assumes "phrase m G F"
  shows "phrase (\<lambda>p. bind_result (m p) (\<lambda>(x, q). Inr (f x, q))) (\<lambda>y us. \<exists>x. y = f x \<and> G x us) F"
proof
  fix p us vs y
  assume p: "cursor_ok p" "ahead p = us @ vs" and "\<exists>x. y = f x \<and> G x us" and "F vs"
  then show "\<exists>r. bind_result (m p) (\<lambda>(x, q). Inr (f x, q)) = Inr (y, r) \<and> ahead r = vs \<and> cursor_ok r"
    by (auto dest!: phrase.complete [OF assms p])
next
  fix p y r
  assume p: "cursor_ok p" and "bind_result (m p) (\<lambda>(x, q). Inr (f x, q)) = Inr (y, r)"
  then obtain x where "m p = Inr (x, r)" "y = f x" by (auto simp: exn_simps)
  with phrase.sound [OF assms p] show "cursor_ok r \<and> (\<exists>us. ahead p = us @ ahead r \<and> (\<exists>x. y = f x \<and> G x us))"
    by blast
qed (auto simp: bind_result_eq_Inl dest: phrase.safe [OF assms])

definition column_def :: "ColumnDef \<Rightarrow> symbol list \<Rightarrow> bool" where
  "column_def d us \<longleftrightarrow> us = [(IDENTIFIER, cd_name d), (KEYWORD, toString_DataType (cd_type d))]"

definition assignment :: "string \<times> string \<Rightarrow> symbol list \<Rightarrow> bool" where
  "assignment a us \<longleftrightarrow> (\<exists>v. us = [(IDENTIFIER, fst a), (OPERATOR, ''='')] @ v \<and> literal (snd a) v)"

definition condition :: "WhereClause \<Rightarrow> symbol list \<Rightarrow> bool" where
  "condition w us \<longleftrightarrow>
     (\<exists>v. us = [(IDENTIFIER, wc_column w), (OPERATOR, toString_CompareOp (wc_op w))] @ v \<and> literal (wc_value w) v)"

lemma ColumnDef_eq_iff: "d = \<lparr>cd_name = a, cd_type = b\<rparr> \<longleftrightarrow> cd_name d = a \<and> cd_type d = b"
  by (cases d) auto

lemma WhereClause_eq_iff:
  "w = \<lparr>wc_column = a, wc_op = b, wc_value = c\<rparr> \<longleftrightarrow> wc_column w = a \<and> wc_op w = b \<and> wc_value w = c"
  by (cases w) auto

lemma parse_column_def_phrase: "phrase parse_column_def column_def (\<lambda>_. True)"
  unfolding parse_column_def_def [abs_def]
  by (rule phrase_cong, rule phrase_bind [OF parse_identifier_phrase phrase_map [OF parse_column_type_phrase]])
    (auto simp: column_def_def ColumnDef_eq_iff)

lemma parse_assignment_phrase: "phrase parse_assignment assignment (\<lambda>_. True)"
  unfolding parse_assignment_def [abs_def]
  by (rule phrase_cong, rule phrase_bind [OF parse_identifier_phrase
        phrase_bind [OF parse_equals_phrase phrase_map [OF parseLiteral_phrase]]])
    (auto simp: assignment_def)

lemma parse_condition_phrase: "phrase parse_condition condition (\<lambda>_. True)"
  unfolding parse_condition_def [abs_def]
  by (rule phrase_cong, rule phrase_bind [OF parse_identifier_phrase
        phrase_bind [OF parse_operator_phrase phrase_map [OF parseLiteral_phrase]]])
    (auto simp: condition_def WhereClause_eq_iff)

section \<open>Lists\<close>

text \<open>Items of the grammar \<open>G\<close> with the symbol \<open>s\<close> between them, at least one.\<close>

fun separated :: "('a \<Rightarrow> symbol list \<Rightarrow> bool) \<Rightarrow> symbol \<Rightarrow> 'a list \<Rightarrow> symbol list \<Rightarrow> bool" where
  "separated G s [] us = False"
| "separated G s [x] us = G x us"
| "separated G s (x # y # ys) us = (\<exists>u v. us = u @ s # v \<and> G x u \<and> separated G s (y # ys) v)"

text \<open>The loops of the parser: an item, then as long as a separator follows, the loop again.\<close>

locale comma_list = phrase item G "\<lambda>_. True"
  for item :: "Parser \<Rightarrow> 'a parsed" and G :: "'a \<Rightarrow> symbol list \<Rightarrow> bool" +
  fixes loop :: "Parser \<Rightarrow> 'a list parsed" and more :: "Parser \<Rightarrow> bool result" and s :: symbol
  assumes loop_eq: "loop p =
      bind_result (item p) (\<lambda>(x, q).
      bind_result (more q) (\<lambda>m.
        if m then bind_result (advance q) (\<lambda>(_, r). bind_result (loop r) (\<lambda>(xs, t). Inr (x # xs, t)))
        else Inr ([x], q)))"
    and more_eq: "cursor_ok q \<Longrightarrow> more q = Inr (hd (ahead q) = s)"
    and sep_type: "fst s \<noteq> END"
    and item_moves: "item p = Inr (x, q) \<Longrightarrow> moves p q"
begin

text \<open>One round of the loop from a good cursor, in three outcomes.\<close>

lemma round:
  assumes p: "cursor_ok p"
  obtains (fails) e where "item p = Inl e" "loop p = Inl e"
  | (last) x q us where "item p = Inr (x, q)" "loop p = Inr ([x], q)" "hd (ahead q) \<noteq> s"
      "cursor_ok q" "ahead p = us @ ahead q" "G x us"
  | (again) x q r us where "item p = Inr (x, q)" "loop p = bind_result (loop r) (\<lambda>(xs, t). Inr (x # xs, t))"
      "cursor_ok r" "ahead p = us @ s # ahead r" "G x us" "length (tokens r) - pos r < length (tokens p) - pos p"
proof (cases "item p")
  case (Inl e)
  with fails show ?thesis by (simp add: loop_eq [of p])
next
  case (Inr a)
  then obtain x q where i: "item p = Inr (x, q)" by (cases a) auto
  from sound [OF p i] obtain us where us: "cursor_ok q" "ahead p = us @ ahead q" "G x us" by blast
  show ?thesis
  proof (cases "hd (ahead q) = s")
    case False
    with i us last show ?thesis by (simp add: loop_eq [of p] more_eq)
  next
    case True
    with us(1) obtain vs where "ahead q = s # vs" by (auto elim: cursor_peek)
    with us(1) sep_type obtain t r where r: "advance q = Inr (t, r)" "ahead r = vs" "cursor_ok r"
      by (auto elim: cursor_advance)
    have "length (tokens r) - pos r < length (tokens p) - pos p"
      by (rule loop_shrinks [OF item_moves [OF i] r(1)])
    with again True i us r \<open>ahead q = s # vs\<close> show ?thesis by (simp add: loop_eq [of p] more_eq)
  qed
qed

lemma loop_sound:
  "cursor_ok p \<Longrightarrow> loop p = Inr (xs, q) \<Longrightarrow> cursor_ok q \<and> (\<exists>us. ahead p = us @ ahead q \<and> separated G s xs us)"
proof (induction "length (tokens p) - pos p" arbitrary: p xs rule: less_induct)
  case less
  from less.prems(1) show ?case
  proof (cases rule: round)
    case (fails e)
    with less.prems(2) show ?thesis by simp
  next
    case (last x q' us)
    with less.prems(2) show ?thesis by auto
  next
    case (again x q' r us)
    with less.prems(2) obtain ys where ys: "loop r = Inr (ys, q)" "xs = x # ys" by (auto simp: exn_simps)
    from less.hyps [OF again(6) again(3) ys(1)] obtain vs where
      vs: "cursor_ok q" "ahead r = vs @ ahead q" "separated G s ys vs" by blast
    have "separated G s xs (us @ s # vs)"
      using vs(3) again(5) ys(2) by (cases ys) auto
    with vs again(4) show ?thesis by (intro conjI exI [of _ "us @ s # vs"]) simp_all
  qed
qed

lemma loop_complete:
  "cursor_ok p \<Longrightarrow> ahead p = us @ vs \<Longrightarrow> separated G s xs us \<Longrightarrow> hd vs \<noteq> s \<Longrightarrow>
     \<exists>q. loop p = Inr (xs, q) \<and> ahead q = vs \<and> cursor_ok q"
proof (induction xs arbitrary: p us)
  case (Cons x xs)
  show ?case
  proof (cases xs)
    case Nil
    with Cons.prems complete [OF Cons.prems(1,2), of x] obtain q where
      "item p = Inr (x, q)" "ahead q = vs" "cursor_ok q" by auto
    with Cons.prems(4) Nil show ?thesis by (simp add: loop_eq [of p] more_eq)
  next
    case more: (Cons y ys)
    with Cons.prems obtain u v where u: "ahead p = u @ s # v @ vs" "G x u" "separated G s xs v" by auto
    from complete [OF Cons.prems(1) u(1,2)] obtain q where
      q: "item p = Inr (x, q)" "ahead q = s # v @ vs" "cursor_ok q" by auto
    from q(3,2) sep_type obtain t r where r: "advance q = Inr (t, r)" "ahead r = v @ vs" "cursor_ok r"
      by (rule cursor_advance)
    from Cons.IH [OF r(3,2) u(3) Cons.prems(4)] q r show ?thesis by (auto simp: loop_eq [of p] more_eq)
  qed
qed simp

lemma loop_safe: "cursor_ok p \<Longrightarrow> loop p = Inl e \<Longrightarrow> \<exists>msg. e = Query_error msg"
proof (induction "length (tokens p) - pos p" arbitrary: p rule: less_induct)
  case less
  from less.prems(1) show ?case
  proof (cases rule: round)
    case (fails e')
    with less.prems safe [of p] show ?thesis by simp
  next
    case (last x q us)
    with less.prems(2) show ?thesis by simp
  next
    case (again x q r us)
    with less.prems(2) have "loop r = Inl e" by (auto simp: bind_result_eq_Inl)
    with less.hyps [OF again(6) again(3)] show ?thesis by simp
  qed
qed

end

sublocale comma_list \<subseteq> items: phrase loop "separated G s" "\<lambda>vs. hd vs \<noteq> s"
  by unfold_locales (fact loop_sound, fact loop_complete, fact loop_safe)

lemma peekIs_eq:
  "cursor_ok q \<Longrightarrow> peekIsPunctuation s q = Inr (hd (ahead q) = (PUNCTUATION, s))"
  "cursor_ok q \<Longrightarrow> peekIsKeyword s q = Inr (hd (ahead q) = (KEYWORD, s))"
  by (auto simp: peekIsPunctuation_def peekIsKeyword_def symbol_of_def elim: cursor_peek)

abbreviation comma :: symbol where
  "comma \<equiv> (PUNCTUATION, '','')"

interpretation idents: comma_list "parse_identifier ''column name''" "\<lambda>x us. us = [(IDENTIFIER, x)]"
    parseIdentifierList "peekIsPunctuation '',''" comma
  by (intro comma_list.intro comma_list_axioms.intro parse_identifier_phrase)
    (simp_all add: parseIdentifierList.simps peekIs_eq item_moves)

interpretation literals: comma_list parseLiteral literal parse_literals "peekIsPunctuation '',''" comma
  by (intro comma_list.intro comma_list_axioms.intro parseLiteral_phrase)
    (simp_all add: parse_literals.simps peekIs_eq item_moves)

interpretation column_defs: comma_list parse_column_def column_def parse_column_defs
    "peekIsPunctuation '',''" comma
  by (intro comma_list.intro comma_list_axioms.intro parse_column_def_phrase)
    (simp_all add: parse_column_defs.simps peekIs_eq item_moves)

interpretation assignments: comma_list parse_assignment assignment parse_assignments
    "peekIsPunctuation '',''" comma
  by (intro comma_list.intro comma_list_axioms.intro parse_assignment_phrase)
    (simp_all add: parse_assignments.simps peekIs_eq item_moves)

interpretation conditions: comma_list parse_condition condition parse_conditions
    "peekIsKeyword ''AND''" "(KEYWORD, ''AND'')"
  by (intro comma_list.intro comma_list_axioms.intro parse_condition_phrase)
    (simp_all add: parse_conditions.simps peekIs_eq item_moves)

end
