(* ===== verification/Query_Grammar.thy ===== *)
theory Query_Grammar
  imports Parser_Spec
begin

text \<open>
  The grammar of statements and the two directions of it: the parser accepts exactly the symbol
  sequences that spell a statement, and a statement printed as text is lexed and parsed back to
  itself.
\<close>

section \<open>Clauses\<close>

definition select_list :: "string list \<Rightarrow> symbol list \<Rightarrow> bool" where
  "select_list cols us \<longleftrightarrow>
     cols = [] \<and> us = [(PUNCTUATION, ''*'')] \<or> separated (\<lambda>x u. u = [(IDENTIFIER, x)]) comma cols us"

definition where_clause :: "WhereList \<Rightarrow> symbol list \<Rightarrow> bool" where
  "where_clause ws us \<longleftrightarrow>
     ws = [] \<and> us = [] \<or> (\<exists>v. us = (KEYWORD, ''WHERE'') # v \<and> separated condition (KEYWORD, ''AND'') ws v)"

lemma separated_hd:
  "separated G s xs us \<Longrightarrow> (\<And>x u. G x u \<Longrightarrow> u \<noteq> [] \<and> fst (hd u) = ty) \<Longrightarrow> us \<noteq> [] \<and> fst (hd us) = ty"
  by (induction G s xs us rule: separated.induct) auto

lemma parse_select_list_phrase: "phrase parse_select_list select_list (\<lambda>vs. hd vs \<noteq> comma)"
proof
  fix p cols q
  assume p: "cursor_ok p" and r: "parse_select_list p = Inr (cols, q)"
  show "cursor_ok q \<and> (\<exists>us. ahead p = us @ ahead q \<and> select_list cols us)"
  proof (cases "hd (ahead p) = (PUNCTUATION, ''*'')")
    case True
    with p obtain vs where "ahead p = (PUNCTUATION, ''*'') # vs" by (auto elim: cursor_peek)
    moreover from p this obtain t q' where "advance p = Inr (t, q')" "ahead q' = vs" "cursor_ok q'"
      by (rule cursor_advance) simp_all
    ultimately show ?thesis
      using r True p by (auto simp: parse_select_list_def peekIs_eq select_list_def)
  next
    case False
    with r p have "parseIdentifierList p = Inr (cols, q)" by (simp add: parse_select_list_def peekIs_eq)
    with idents.items.sound [OF p] show ?thesis by (auto simp: select_list_def)
  qed
next
  fix p us vs cols
  assume p: "cursor_ok p" and a: "ahead p = us @ vs" and g: "select_list cols us" and f: "hd vs \<noteq> comma"
  from g consider (star) "cols = []" "us = [(PUNCTUATION, ''*'')]"
    | (names) "separated (\<lambda>x u. u = [(IDENTIFIER, x)]) comma cols us"
    by (auto simp: select_list_def)
  then show "\<exists>q. parse_select_list p = Inr (cols, q) \<and> ahead q = vs \<and> cursor_ok q"
  proof cases
    case star
    from star a have a': "ahead p = (PUNCTUATION, ''*'') # vs" by simp
    with p obtain t q where "advance p = Inr (t, q)" "ahead q = vs" "cursor_ok q"
      by (rule cursor_advance) simp_all
    with star p a' show ?thesis by (simp add: parse_select_list_def peekIs_eq)
  next
    case names
    have "us \<noteq> [] \<and> fst (hd us) = IDENTIFIER" by (rule separated_hd [OF names]) simp
    with a have "hd (ahead p) \<noteq> (PUNCTUATION, ''*'')" by (cases us) auto
    with p idents.items.complete [OF p a names f] show ?thesis
      by (auto simp: parse_select_list_def peekIs_eq)
  qed
next
  fix p e
  assume p: "cursor_ok p" and r: "parse_select_list p = Inl e"
  show "\<exists>msg. e = Query_error msg"
  proof (cases "hd (ahead p) = (PUNCTUATION, ''*'')")
    case True
    with p obtain vs where "ahead p = (PUNCTUATION, ''*'') # vs" by (auto elim: cursor_peek)
    with p obtain t q' where "advance p = Inr (t, q')" by (rule cursor_advance) simp_all
    with r True p show ?thesis by (simp add: parse_select_list_def peekIs_eq)
  next
    case False
    with r p idents.items.safe [OF p] show ?thesis by (simp add: parse_select_list_def peekIs_eq)
  qed
qed

lemma parseOptionalWhere_absent:
  "cursor_ok p \<Longrightarrow> hd (ahead p) \<noteq> (KEYWORD, ''WHERE'') \<Longrightarrow> parseOptionalWhere p = Inr ([], p)"
  by (simp add: parseOptionalWhere_def peekIs_eq)

lemma parseOptionalWhere_present:
  assumes "cursor_ok p" and "hd (ahead p) = (KEYWORD, ''WHERE'')"
  obtains q where "cursor_ok q" "ahead p = (KEYWORD, ''WHERE'') # ahead q" "parseOptionalWhere p = parse_conditions q"
proof -
  from assms obtain vs where a: "ahead p = (KEYWORD, ''WHERE'') # vs" by (auto elim: cursor_peek)
  with assms(1) obtain t q where "advance p = Inr (t, q)" "ahead q = vs" "cursor_ok q"
    by (rule cursor_advance) simp_all
  with a assms that show ?thesis by (simp add: parseOptionalWhere_def peekIs_eq)
qed

lemma parseOptionalWhere_phrase:
  "phrase parseOptionalWhere where_clause (\<lambda>vs. hd vs \<noteq> (KEYWORD, ''WHERE'') \<and> hd vs \<noteq> (KEYWORD, ''AND''))"
proof
  fix p ws q
  assume p: "cursor_ok p" and r: "parseOptionalWhere p = Inr (ws, q)"
  show "cursor_ok q \<and> (\<exists>us. ahead p = us @ ahead q \<and> where_clause ws us)"
  proof (cases "hd (ahead p) = (KEYWORD, ''WHERE'')")
    case True
    with p obtain q' where q': "cursor_ok q'" "ahead p = (KEYWORD, ''WHERE'') # ahead q'"
      "parseOptionalWhere p = parse_conditions q'" by (rule parseOptionalWhere_present)
    from conditions.items.sound [OF q'(1)] r q'(3) obtain v where
      "cursor_ok q" "ahead q' = v @ ahead q" "separated condition (KEYWORD, ''AND'') ws v" by auto
    with q'(2) show ?thesis
      by (intro conjI exI [of _ "(KEYWORD, ''WHERE'') # v"]) (auto simp: where_clause_def)
  qed (use p r parseOptionalWhere_absent [OF p] in \<open>auto simp: where_clause_def\<close>)
next
  fix p us vs ws
  assume p: "cursor_ok p" and a: "ahead p = us @ vs" and g: "where_clause ws us"
    and f: "hd vs \<noteq> (KEYWORD, ''WHERE'') \<and> hd vs \<noteq> (KEYWORD, ''AND'')"
  show "\<exists>q. parseOptionalWhere p = Inr (ws, q) \<and> ahead q = vs \<and> cursor_ok q"
  proof (cases "us = []")
    case True
    with g a f parseOptionalWhere_absent [OF p] p show ?thesis by (auto simp: where_clause_def)
  next
    case False
    with g obtain v where v: "us = (KEYWORD, ''WHERE'') # v" "separated condition (KEYWORD, ''AND'') ws v"
      by (auto simp: where_clause_def)
    with a have "hd (ahead p) = (KEYWORD, ''WHERE'')" by simp
    with p obtain q' where q': "cursor_ok q'" "ahead p = (KEYWORD, ''WHERE'') # ahead q'"
      "parseOptionalWhere p = parse_conditions q'" by (rule parseOptionalWhere_present)
    with a v(1) have "ahead q' = v @ vs" by simp
    from conditions.items.complete [OF q'(1) this v(2)] f q'(3) show ?thesis by auto
  qed
next
  fix p e
  assume p: "cursor_ok p" and r: "parseOptionalWhere p = Inl e"
  show "\<exists>msg. e = Query_error msg"
  proof (cases "hd (ahead p) = (KEYWORD, ''WHERE'')")
    case True
    with p obtain q' where "cursor_ok q'" "parseOptionalWhere p = parse_conditions q'"
      by (rule parseOptionalWhere_present)
    with r conditions.items.safe [of q'] show ?thesis by auto
  qed (use r parseOptionalWhere_absent [OF p] in simp)
qed

section \<open>Statements\<close>

abbreviation kw :: "string \<Rightarrow> symbol" where
  "kw s \<equiv> (KEYWORD, s)"

abbreviation punct :: "string \<Rightarrow> symbol" where
  "punct s \<equiv> (PUNCTUATION, s)"

text \<open>\<open>spells stmt us\<close>: the symbols \<open>us\<close>, without the sentinel, are a way to write \<open>stmt\<close>.\<close>

fun spells :: "Statement \<Rightarrow> symbol list \<Rightarrow> bool" where
  "spells (CreateTableStatement table cols) us =
     (\<exists>v. us = [kw ''CREATE'', kw ''TABLE'', (IDENTIFIER, table), punct ''(''] @ v @ [punct '')''] \<and>
        separated column_def comma cols v)"
| "spells (DropTableStatement table) us = (us = [kw ''DROP'', kw ''TABLE'', (IDENTIFIER, table)])"
| "spells (InsertStatement table cols vals) us =
     (\<exists>v w. us = [kw ''INSERT'', kw ''INTO'', (IDENTIFIER, table), punct ''(''] @ v @
               [punct '')'', kw ''VALUES'', punct ''(''] @ w @ [punct '')''] \<and>
        separated (\<lambda>x u. u = [(IDENTIFIER, x)]) comma cols v \<and> separated literal comma vals w \<and>
        length cols = length vals)"
| "spells (SelectStatement table cols ws) us =
     (\<exists>v w. us = [kw ''SELECT''] @ v @ [kw ''FROM'', (IDENTIFIER, table)] @ w \<and>
        select_list cols v \<and> where_clause ws w)"
| "spells (UpdateStatement table sets ws) us =
     (\<exists>v w. us = [kw ''UPDATE'', (IDENTIFIER, table), kw ''SET''] @ v @ w \<and>
        separated assignment comma sets v \<and> where_clause ws w)"
| "spells (DeleteStatement table ws) us =
     (\<exists>w. us = [kw ''DELETE'', kw ''FROM'', (IDENTIFIER, table)] @ w \<and> where_clause ws w)"

definition closed_by_end :: "(symbol list \<Rightarrow> bool) \<Rightarrow> symbol list \<Rightarrow> bool" where
  "closed_by_end P us \<longleftrightarrow> (\<exists>vs e. us = vs @ [(END, e)] \<and> P vs)"

lemma where_clause_no_comma [simp]: "where_clause ws w \<Longrightarrow> hd (w @ [(END, e)]) \<noteq> comma"
  by (auto simp: where_clause_def)

lemmas symbol_phrases = expectKeyword_phrase expectPunctuation_phrase parse_identifier_phrase

interpretation drop: sentence parseDrop
    "\<lambda>x us. \<exists>table. x = DropTableStatement table \<and> closed_by_end (spells x) us"
  unfolding parseDrop_def [abs_def]
  by (rule sentence_cong, (rule sentence_bind, rule symbol_phrases)+, rule sentence_finish)
    (auto simp: closed_by_end_def)

interpretation create: sentence parseCreate
    "\<lambda>x us. \<exists>table cols. x = CreateTableStatement table cols \<and> closed_by_end (spells x) us"
  unfolding parseCreate_def [abs_def]
  by (rule sentence_cong, (rule sentence_bind, rule symbol_phrases)+, rule sentence_bind,
      rule column_defs.items.phrase_axioms, (rule sentence_bind, rule symbol_phrases)+, rule sentence_finish)
    (auto simp: closed_by_end_def, ((intro exI conjI, (rule refl | assumption)+)+)?)

interpretation insert: sentence parseInsert
    "\<lambda>x us. \<exists>table cols vals. x = InsertStatement table cols vals \<and> closed_by_end (spells x) us"
  unfolding parseInsert_def [abs_def]
  by (rule sentence_cong, (rule sentence_bind, rule symbol_phrases)+, rule sentence_bind,
      rule idents.items.phrase_axioms, (rule sentence_bind, rule symbol_phrases)+, rule sentence_bind,
      rule literals.items.phrase_axioms, (rule sentence_bind, rule symbol_phrases)+, rule sentence_end)
    (auto simp: closed_by_end_def, ((intro exI conjI, (rule refl | assumption)+)+)?)

interpretation select: sentence parseSelect
    "\<lambda>x us. \<exists>table cols ws. x = SelectStatement table cols ws \<and> closed_by_end (spells x) us"
  unfolding parseSelect_def [abs_def]
  by (rule sentence_cong, (rule sentence_bind, rule symbol_phrases)+, rule sentence_bind,
      rule parse_select_list_phrase, (rule sentence_bind, rule symbol_phrases)+, rule sentence_bind,
      rule parseOptionalWhere_phrase, rule sentence_finish)
    (auto simp: closed_by_end_def, ((intro exI conjI, (rule refl | assumption)+)+)?)

interpretation update: sentence parseUpdate
    "\<lambda>x us. \<exists>table sets ws. x = UpdateStatement table sets ws \<and> closed_by_end (spells x) us"
  unfolding parseUpdate_def [abs_def]
  by (rule sentence_cong, (rule sentence_bind, rule symbol_phrases)+, rule sentence_bind,
      rule assignments.items.phrase_axioms, rule sentence_bind, rule parseOptionalWhere_phrase, rule sentence_finish)
    (auto simp: closed_by_end_def, ((intro exI conjI, (rule refl | assumption)+)+)?)

interpretation delete: sentence parseDelete
    "\<lambda>x us. \<exists>table ws. x = DeleteStatement table ws \<and> closed_by_end (spells x) us"
  unfolding parseDelete_def [abs_def]
  by (rule sentence_cong, (rule sentence_bind, rule symbol_phrases)+, rule sentence_bind,
      rule parseOptionalWhere_phrase, rule sentence_finish)
    (auto simp: closed_by_end_def, ((intro exI conjI, (rule refl | assumption)+)+)?)

lemma closed_by_end_spells_hd:
  "closed_by_end (spells x) us \<Longrightarrow> hd us = kw (case x of
      CreateTableStatement _ _ \<Rightarrow> ''CREATE'' | DropTableStatement _ \<Rightarrow> ''DROP''
    | InsertStatement _ _ _ \<Rightarrow> ''INSERT'' | SelectStatement _ _ _ \<Rightarrow> ''SELECT''
    | UpdateStatement _ _ _ \<Rightarrow> ''UPDATE'' | DeleteStatement _ _ \<Rightarrow> ''DELETE'')"
  by (cases x) (auto simp: closed_by_end_def)

interpretation statement: sentence parse_from "\<lambda>x us. closed_by_end (spells x) us"
proof
  fix p x
  assume p: "cursor_ok p"
  then obtain t vs where t: "peek p = Inr t" "ahead p = symbol_of t # vs" by (rule cursor_peek)
  have hd: "symbol_of t = hd (ahead p)" using t(2) by simp
  show "(\<exists>q. parse_from p = Inr (x, q)) \<longleftrightarrow> closed_by_end (spells x) (ahead p)"
    using closed_by_end_spells_hd [of x "ahead p"] hd
      create.exact [OF p, of x] drop.exact [OF p, of x] insert.exact [OF p, of x]
      select.exact [OF p, of x] update.exact [OF p, of x] delete.exact [OF p, of x]
    by (cases x) (auto simp: parse_from_def t(1) symbol_of_def)
next
  fix p e
  assume p: "cursor_ok p" and e: "parse_from p = Inl e"
  from p obtain t where t: "peek p = Inr t" by (rule cursor_peek)
  with e fail_error [OF p] show "\<exists>msg. e = Query_error msg"
    by (auto simp: parse_from_def split: if_splits
        dest: create.errors [OF p] drop.errors [OF p] insert.errors [OF p] select.errors [OF p]
          update.errors [OF p] delete.errors [OF p])
qed

lemma start_cursor: "stream_ok ts \<Longrightarrow> cursor_ok \<lparr>tokens = ts, pos = 0\<rparr>"
  by (simp add: cursor_ok_def stream_ok_def)

lemma closed_stream:
  assumes "stream_ok ts"
  shows "closed_by_end P (map symbol_of ts) \<longleftrightarrow> P (map symbol_of (butlast ts))"
proof -
  from assms have "map symbol_of ts = map symbol_of (butlast ts) @ [(END, tok_value (last ts))]"
    by (cases ts rule: rev_cases) (auto simp: stream_ok_def symbol_of_def)
  then show ?thesis by (auto simp: closed_by_end_def)
qed

lemma parse_iff: "stream_ok ts \<Longrightarrow> parse ts = Inr stmt \<longleftrightarrow> spells stmt (map symbol_of (butlast ts))"
  using statement.exact [OF start_cursor, of ts stmt] closed_stream [of ts "spells stmt"]
  by (auto simp: parse_def exn_simps ahead_def)

lemma parse_error: "stream_ok ts \<Longrightarrow> parse ts = Inl e \<Longrightarrow> \<exists>msg. e = Query_error msg"
  using statement.errors [OF start_cursor, of ts e] by (auto simp: parse_def bind_result_eq_Inl)

text \<open>
  C10. On every token stream of the tokenizer's shape the parser returns a statement if and only if
  the symbols before the sentinel spell exactly that statement, with nothing left over; otherwise
  it throws a \<^verbatim>\<open>QueryError\<close>. In particular it never reads outside its token vector.
\<close>

theorem parse_exact:
  assumes "stream_ok ts"
  shows "(parse ts = Inr stmt \<longleftrightarrow> spells stmt (map symbol_of (butlast ts))) \<and>
    ((\<exists>s. parse ts = Inr s) \<or> (\<exists>msg. parse ts = Inl (Query_error msg)))"
  using parse_iff [OF assms] parse_error [OF assms] by (cases "parse ts") auto

theorem parse_exact_witness:
  "\<exists>ts. tokenize demo_query = Inr ts \<and> stream_ok ts \<and>
     parse ts = Inr (SelectStatement ''t'' [''Name'']
       [\<lparr>wc_column = ''id'', wc_op = LE, wc_value = ''-5''\<rparr>,
        \<lparr>wc_column = ''s'', wc_op = EQ, wc_value = ''it'' @ [CHR 0x27] @ ''s''\<rparr>])"
proof -
  obtain ts where ts: "tokenize demo_query = Inr ts" using demo_query_tokens by blast
  then have ok: "stream_ok ts" using lexes_stream_ok by (auto simp: tokenize_lexes)
  let ?w1 = "\<lparr>wc_column = ''id'', wc_op = LE, wc_value = ''-5''\<rparr>"
    and ?w2 = "\<lparr>wc_column = ''s'', wc_op = EQ, wc_value = ''it'' @ [CHR 0x27] @ ''s''\<rparr>"
  have syms: "map symbol_of (butlast ts) =
      [kw ''SELECT''] @ [(IDENTIFIER, ''Name'')] @ [kw ''FROM'', (IDENTIFIER, ''t'')] @
      kw ''WHERE'' # [(IDENTIFIER, ''id''), (OPERATOR, ''<=''), (NUMBER, ''-5'')] @ kw ''AND'' #
      [(IDENTIFIER, ''s''), (OPERATOR, ''=''), (STRING, ''it'' @ [CHR 0x27] @ ''s'')]"
    using ts by (simp add: demo_query_tokens symbol_of_def) (auto simp: symbol_of_def)
  have "condition ?w1 [(IDENTIFIER, ''id''), (OPERATOR, ''<=''), (NUMBER, ''-5'')]"
    "condition ?w2 [(IDENTIFIER, ''s''), (OPERATOR, ''=''), (STRING, ''it'' @ [CHR 0x27] @ ''s'')]"
    by (simp_all add: condition_def literal_def)
  then have "where_clause [?w1, ?w2] (kw ''WHERE'' #
      [(IDENTIFIER, ''id''), (OPERATOR, ''<=''), (NUMBER, ''-5'')] @ kw ''AND'' #
      [(IDENTIFIER, ''s''), (OPERATOR, ''=''), (STRING, ''it'' @ [CHR 0x27] @ ''s'')])"
    unfolding where_clause_def separated.simps by blast
  moreover have "select_list [''Name''] [(IDENTIFIER, ''Name'')]" by (simp add: select_list_def)
  ultimately have "spells (SelectStatement ''t'' [''Name''] [?w1, ?w2]) (map symbol_of (butlast ts))"
    unfolding syms spells.simps by blast
  with parse_exact [OF ok, of "SelectStatement ''t'' [''Name''] [?w1, ?w2]"] ts ok show ?thesis by blast
qed

section \<open>Printing statements\<close>

text \<open>
  A client that writes a statement as text: every symbol followed by a space, every literal in
  single quotes with the quotes inside it doubled.
\<close>

fun sep_by :: "symbol \<Rightarrow> symbol list list \<Rightarrow> symbol list" where
  "sep_by s [] = []"
| "sep_by s [u] = u"
| "sep_by s (u # v # vs) = u @ s # sep_by s (v # vs)"

fun render :: "symbol \<Rightarrow> string" where
  "render (ty, v) = (if ty = STRING then quoted (escape (CHR 0x27) v) else v)"

definition print_symbols :: "symbol list \<Rightarrow> string" where
  "print_symbols us = concat (map (\<lambda>u. render u @ '' '') us)"

definition condition_symbols :: "WhereClause \<Rightarrow> symbol list" where
  "condition_symbols w =
     [(IDENTIFIER, wc_column w), (OPERATOR, toString_CompareOp (wc_op w)), (STRING, wc_value w)]"

definition where_symbols :: "WhereList \<Rightarrow> symbol list" where
  "where_symbols ws = (if ws = [] then [] else kw ''WHERE'' # sep_by (kw ''AND'') (map condition_symbols ws))"

fun statement_symbols :: "Statement \<Rightarrow> symbol list" where
  "statement_symbols (CreateTableStatement table cols) =
     [kw ''CREATE'', kw ''TABLE'', (IDENTIFIER, table), punct ''(''] @
     sep_by comma (map (\<lambda>d. [(IDENTIFIER, cd_name d), kw (toString_DataType (cd_type d))]) cols) @ [punct '')'']"
| "statement_symbols (DropTableStatement table) = [kw ''DROP'', kw ''TABLE'', (IDENTIFIER, table)]"
| "statement_symbols (InsertStatement table cols vals) =
     [kw ''INSERT'', kw ''INTO'', (IDENTIFIER, table), punct ''(''] @
     sep_by comma (map (\<lambda>x. [(IDENTIFIER, x)]) cols) @ [punct '')'', kw ''VALUES'', punct ''(''] @
     sep_by comma (map (\<lambda>x. [(STRING, x)]) vals) @ [punct '')'']"
| "statement_symbols (SelectStatement table cols ws) =
     [kw ''SELECT''] @
     (if cols = [] then [punct ''*''] else sep_by comma (map (\<lambda>x. [(IDENTIFIER, x)]) cols)) @
     [kw ''FROM'', (IDENTIFIER, table)] @ where_symbols ws"
| "statement_symbols (UpdateStatement table sets ws) =
     [kw ''UPDATE'', (IDENTIFIER, table), kw ''SET''] @
     sep_by comma (map (\<lambda>a. [(IDENTIFIER, fst a), (OPERATOR, ''=''), (STRING, snd a)]) sets) @ where_symbols ws"
| "statement_symbols (DeleteStatement table ws) =
     [kw ''DELETE'', kw ''FROM'', (IDENTIFIER, table)] @ where_symbols ws"

definition write_statement :: "Statement \<Rightarrow> string" where
  "write_statement stmt = print_symbols (statement_symbols stmt)"

text \<open>The statements that can be written: names are identifiers, lists are not empty.\<close>

definition where_ok :: "WhereList \<Rightarrow> bool" where
  "where_ok ws \<longleftrightarrow> list_all (\<lambda>w. ident_ok (wc_column w)) ws"

fun statement_ok :: "Statement \<Rightarrow> bool" where
  "statement_ok (CreateTableStatement table cols) \<longleftrightarrow>
     ident_ok table \<and> cols \<noteq> [] \<and> list_all (\<lambda>d. ident_ok (cd_name d)) cols"
| "statement_ok (DropTableStatement table) \<longleftrightarrow> ident_ok table"
| "statement_ok (InsertStatement table cols vals) \<longleftrightarrow>
     ident_ok table \<and> cols \<noteq> [] \<and> list_all ident_ok cols \<and> length cols = length vals"
| "statement_ok (SelectStatement table cols ws) \<longleftrightarrow> ident_ok table \<and> list_all ident_ok cols \<and> where_ok ws"
| "statement_ok (UpdateStatement table sets ws) \<longleftrightarrow>
     ident_ok table \<and> sets \<noteq> [] \<and> list_all (\<lambda>a. ident_ok (fst a)) sets \<and> where_ok ws"
| "statement_ok (DeleteStatement table ws) \<longleftrightarrow> ident_ok table \<and> where_ok ws"

lemma separated_sep_by:
  "xs \<noteq> [] \<Longrightarrow> (\<And>x. x \<in> set xs \<Longrightarrow> G x (f x)) \<Longrightarrow> separated G s xs (sep_by s (map f xs))"
proof (induction xs rule: induct_list012)
  case (3 x y zs)
  then show ?case by (intro separated.simps(3) [THEN iffD2] exI [of _ "f x"] exI conjI) auto
qed auto

lemma where_symbols_ok: "where_clause ws (where_symbols ws)"
  by (auto simp: where_clause_def where_symbols_def condition_def condition_symbols_def literal_def
      intro!: separated_sep_by)

lemma statement_symbols_spell: "statement_ok stmt \<Longrightarrow> spells stmt (statement_symbols stmt)"
proof (cases stmt)
  case (InsertStatement table cols vals)
  moreover assume "statement_ok stmt"
  moreover have "separated literal comma vals (sep_by comma (map (\<lambda>x. [(STRING, x)]) vals))" if "vals \<noteq> []"
    using that by (intro separated_sep_by) (auto simp: literal_def)
  moreover have "separated (\<lambda>x u. u = [(IDENTIFIER, x)]) comma cols (sep_by comma (map (\<lambda>x. [(IDENTIFIER, x)]) cols))"
    if "cols \<noteq> []" using that by (intro separated_sep_by) auto
  moreover from calculation(1,2) have "vals \<noteq> []" "cols \<noteq> []" by auto
  ultimately show ?thesis unfolding InsertStatement spells.simps statement_symbols.simps by force
qed (auto simp: column_def_def assignment_def literal_def select_list_def where_symbols_ok
    intro!: separated_sep_by exI)

text \<open>A printed symbol is spelt by its text, which the space after it ends.\<close>

definition symbol_ok :: "symbol \<Rightarrow> bool" where
  "symbol_ok u \<longleftrightarrow> spelt (fst u) (snd u) (render u)"

lemma maximal_space: "ty \<noteq> END \<Longrightarrow> spelt ty v w \<Longrightarrow> maximal ty w ('' '' @ rest)"
  by (cases ty) (auto simp: char_class_defs quotes_def)

lemma lexes_print:
  "list_all symbol_ok us \<Longrightarrow> \<exists>ts. lexes n (print_symbols us) ts \<and> map symbol_of (butlast ts) = us"
proof (induction us)
  case Nil
  show ?case by (intro exI [of _ "[token END [] n]"]) (simp add: print_symbols_def lexes_end)
next
  case (Cons u us)
  then obtain ts where ts: "lexes n (print_symbols us) ts" "map symbol_of (butlast ts) = us" by auto
  obtain ty v where u: "u = (ty, v)" by (cases u)
  have sp: "spelt ty v (render u)" using Cons.prems by (simp add: symbol_ok_def u)
  then have "ty \<noteq> END" by auto
  have "isspace (CHR '' '')" by (simp add: isspace_def)
  from lexes_space [OF this ts(1)] have "lexes n ('' '' @ print_symbols us) ts" by simp
  from lexes_token [OF sp maximal_space [OF \<open>ty \<noteq> END\<close> sp] this] obtain i where
    l: "lexes n (print_symbols (u # us)) (token ty v i # ts)" by (auto simp: print_symbols_def)
  have "ts \<noteq> []" using lexes_stream_ok [OF ts(1)] by (simp add: stream_ok_def)
  moreover have "symbol_of (token ty v i) = u" by (simp add: symbol_of_def u)
  ultimately show ?case using l ts(2) by (intro exI [of _ "token ty v i # ts"]) simp
qed

lemma symbol_ok_simps [simp]:
  "symbol_ok (IDENTIFIER, x) \<longleftrightarrow> ident_ok x"
  "symbol_ok (STRING, x)"
  "symbol_ok (OPERATOR, toString_CompareOp op)"
  by (auto simp: symbol_ok_def quotes_def operators_def) (cases op; simp)

lemma symbol_ok_keyword:
  assumes "v \<in> set kKeywords"
  shows "symbol_ok (kw v)"
proof -
  have "list_all (\<lambda>v. isKeyword v \<and> v = map toupper v \<and> v \<noteq> [] \<and> isIdentStart (hd v) \<and> list_all isIdentChar v) kKeywords"
    by code_simp
  with assms show ?thesis by (auto simp: symbol_ok_def list_all_iff)
qed

lemma symbol_ok_fixed [simp]:
  "symbol_ok (punct ''('')" "symbol_ok (punct '')'')" "symbol_ok (punct ''*'')" "symbol_ok comma"
  "symbol_ok (OPERATOR, ''='')" "symbol_ok (kw (toString_DataType dt))"
  "symbol_ok (kw ''SELECT'')" "symbol_ok (kw ''FROM'')" "symbol_ok (kw ''WHERE'')" "symbol_ok (kw ''INSERT'')"
  "symbol_ok (kw ''INTO'')" "symbol_ok (kw ''VALUES'')" "symbol_ok (kw ''DELETE'')" "symbol_ok (kw ''CREATE'')"
  "symbol_ok (kw ''DROP'')" "symbol_ok (kw ''TABLE'')" "symbol_ok (kw ''AND'')" "symbol_ok (kw ''UPDATE'')"
  "symbol_ok (kw ''SET'')"
  by ((simp add: symbol_ok_def punctuation_def operators_def; fail)
      | (cases dt; simp add: symbol_ok_keyword kKeywords_def; fail)
      | (rule symbol_ok_keyword, simp add: kKeywords_def))+

lemma sep_by_ok:
  "(\<And>u. u \<in> set us \<Longrightarrow> list_all symbol_ok u) \<Longrightarrow> symbol_ok s \<Longrightarrow> list_all symbol_ok (sep_by s us)"
  by (induction s us rule: sep_by.induct) auto

lemma where_symbols_symbol_ok: "where_ok ws \<Longrightarrow> list_all symbol_ok (where_symbols ws)"
  by (auto simp: where_symbols_def where_ok_def condition_symbols_def list_all_iff [of _ ws] intro!: sep_by_ok)

lemma statement_symbols_ok: "statement_ok stmt \<Longrightarrow> list_all symbol_ok (statement_symbols stmt)"
  by (cases stmt) (auto simp: where_symbols_symbol_ok list_all_iff [of "\<lambda>d. ident_ok (f d)" xs for f xs]
      intro!: sep_by_ok, fastforce)

text \<open>
  C9. A statement written as text is read back as itself: printing it with every literal quoted and
  every quote inside a literal doubled, then tokenizing and parsing, gives the statement again. The
  literals are arbitrary texts, so no value can break out of its quotes and change the statement.
\<close>

theorem print_parse_roundtrip:
  assumes "statement_ok stmt"
  shows "bind_result (tokenize (write_statement stmt)) parse = Inr stmt"
proof -
  let ?text = "write_statement stmt"
  from lexes_print [OF statement_symbols_ok [OF assms]] obtain ts where
    ts: "lexes (length ?text) ?text ts" "map symbol_of (butlast ts) = statement_symbols stmt"
    unfolding write_statement_def by blast
  with statement_symbols_spell [OF assms] lexes_stream_ok [OF ts(1)] show ?thesis
    by (simp add: tokenize_lexes [THEN iffD2, OF ts(1)] parse_iff)
qed

theorem print_parse_roundtrip_witness:
  "bind_result (tokenize (write_statement (DeleteStatement ''users''
      [\<lparr>wc_column = ''name'', wc_op = EQ, wc_value = [CHR 0x27] @ '' OR id > 0''\<rparr>]))) parse =
   Inr (DeleteStatement ''users'' [\<lparr>wc_column = ''name'', wc_op = EQ, wc_value = [CHR 0x27] @ '' OR id > 0''\<rparr>])"
proof (rule print_parse_roundtrip)
  have "ident_ok ''users''" "ident_ok ''name''" by code_simp+
  then show "statement_ok (DeleteStatement ''users''
      [\<lparr>wc_column = ''name'', wc_op = EQ, wc_value = [CHR 0x27] @ '' OR id > 0''\<rparr>])"
    by (simp add: where_ok_def)
qed

end
