(* ===== verification/Memory.thy ===== *)
theory Memory
  imports Prelude
begin

text \<open>
  The memory that the smart pointers of \<^verbatim>\<open>include/memory\<close> manage: the objects and the control
  blocks of shared pointers that are allocated, by address. Using or deleting what is not
  allocated is \<open>Undefined_behaviour\<close>. Addresses are never used twice, and allocation does not fail.
\<close>

record 'a memory =
  objects :: "nat \<rightharpoonup> 'a"
  controls :: "nat \<rightharpoonup> int"
  next_addr :: nat

definition empty_memory :: "'a memory" where
  "empty_memory = \<lparr>objects = Map.empty, controls = Map.empty, next_addr = 0\<rparr>"

text \<open>\<^verbatim>\<open>new T(x)\<close> and \<^verbatim>\<open>delete p\<close>; deleting the null pointer does nothing.\<close>

definition new_object :: "'a memory \<Rightarrow> 'a \<Rightarrow> nat \<times> 'a memory" where
  "new_object m x =
     (next_addr m, m\<lparr>objects := (objects m)(next_addr m \<mapsto> x), next_addr := next_addr m + 1\<rparr>)"

definition delete_object :: "'a memory \<Rightarrow> nat option \<Rightarrow> 'a memory result" where
  "delete_object m p =
     (case p of
        None \<Rightarrow> Inr m
      | Some a \<Rightarrow> if objects m a = None then Inl Undefined_behaviour
                  else Inr (m\<lparr>objects := (objects m)(a := None)\<rparr>))"

end
