(* ===== verification/SharedPtr.thy ===== *)
theory SharedPtr
  imports Memory "HOL-Library.Multiset"
begin

text \<open>
  The reference-counted pointer of \<^verbatim>\<open>include/memory/SharedPtr.hpp\<close> over an explicit memory. Every
  atomic access is one update of the counter.
\<close>

section \<open>Operations\<close>

record SharedPtr =
  sp_ptr :: "nat option"
  sp_control :: "nat option"

definition sp_null :: SharedPtr where
  "sp_null = \<lparr>sp_ptr = None, sp_control = None\<rparr>"

text \<open>\<^verbatim>\<open>explicit SharedPtr(T* ptr)\<close>: a new control block, which starts at one.\<close>

definition sp_from_raw :: "'a memory \<Rightarrow> nat option \<Rightarrow> SharedPtr \<times> 'a memory" where
  "sp_from_raw m p =
     (case p of
        None \<Rightarrow> (sp_null, m)
      | Some a \<Rightarrow> (\<lparr>sp_ptr = Some a, sp_control = Some (next_addr m)\<rparr>,
                   m\<lparr>controls := (controls m)(next_addr m \<mapsto> 1), next_addr := next_addr m + 1\<rparr>))"

text \<open>\<^verbatim>\<open>strong.fetch_add(n)\<close>: the old count and the memory with the new one.\<close>

definition fetch_add :: "'a memory \<Rightarrow> nat \<Rightarrow> int \<Rightarrow> (int \<times> 'a memory) result" where
  "fetch_add m c n =
     (case controls m c of
        None \<Rightarrow> Inl Undefined_behaviour
      | Some old \<Rightarrow> Inr (old, m\<lparr>controls := (controls m)(c \<mapsto> old + n)\<rparr>))"

text \<open>The copy constructor.\<close>

definition sp_copy :: "'a memory \<Rightarrow> SharedPtr \<Rightarrow> (SharedPtr \<times> 'a memory) result" where
  "sp_copy m other =
     (case sp_control other of
        None \<Rightarrow> Inr (\<lparr>sp_ptr = sp_ptr other, sp_control = None\<rparr>, m)
      | Some c \<Rightarrow> bind_result (fetch_add m c 1) (\<lambda>(_, m').
          Inr (\<lparr>sp_ptr = sp_ptr other, sp_control = Some c\<rparr>, m')))"

text \<open>The move constructor: the new pointer and what is left of the old one.\<close>

definition sp_move :: "SharedPtr \<Rightarrow> SharedPtr \<times> SharedPtr" where
  "sp_move other = (\<lparr>sp_ptr = sp_ptr other, sp_control = sp_control other\<rparr>,
                    other\<lparr>sp_ptr := None, sp_control := None\<rparr>)"

text \<open>\<^verbatim>\<open>release()\<close>, which the destructor calls: whoever takes the count to zero deletes.\<close>

definition sp_release :: "'a memory \<Rightarrow> SharedPtr \<Rightarrow> 'a memory result" where
  "sp_release m p =
     (case sp_control p of
        None \<Rightarrow> Inr m
      | Some c \<Rightarrow> bind_result (fetch_add m c (-1)) (\<lambda>(old, m').
          if old = 1
          then bind_result (delete_object m' (sp_ptr p)) (\<lambda>m''.
            Inr (m''\<lparr>controls := (controls m'')(c := None)\<rparr>))
          else Inr m'))"

definition useCount :: "'a memory \<Rightarrow> SharedPtr \<Rightarrow> int result" where
  "useCount m p =
     (case sp_control p of None \<Rightarrow> Inr 0 | Some c \<Rightarrow> deref (controls m c))"

text \<open>\<^verbatim>\<open>operator*\<close> and an assignment through it.\<close>

definition sp_deref :: "'a memory \<Rightarrow> SharedPtr \<Rightarrow> 'a result" where
  "sp_deref m p = bind_result (deref (sp_ptr p)) (\<lambda>a. deref (objects m a))"

definition sp_store :: "'a memory \<Rightarrow> SharedPtr \<Rightarrow> 'a \<Rightarrow> 'a memory result" where
  "sp_store m p x =
     bind_result (deref (sp_ptr p)) (\<lambda>a.
       if objects m a = None then Inl Undefined_behaviour
       else Inr (m\<lparr>objects := (objects m)(a \<mapsto> x)\<rparr>))"

text \<open>\<^verbatim>\<open>makeShared<T>(x)\<close>, and \<^verbatim>\<open>SharedPtr<T>(new T(x))\<close>.\<close>

definition makeShared :: "'a memory \<Rightarrow> 'a \<Rightarrow> SharedPtr \<times> 'a memory" where
  "makeShared m x = (let (a, m') = new_object m x in sp_from_raw m' (Some a))"

section \<open>Variables\<close>

text \<open>
  A client that holds shared pointers in variables. Assignments name variables, so that
  assigning a variable to itself is expressible.
\<close>

record 'a sp_program =
  sp_mem :: "'a memory"
  sp_vars :: "nat \<rightharpoonup> SharedPtr"

datatype 'a sp_op =
    Construct nat
  | ConstructNew nat 'a
  | CopyConstruct nat nat
  | MoveConstruct nat nat
  | CopyAssign nat nat
  | MoveAssign nat nat
  | SwapVars nat nat
  | Reset nat
  | ResetTo nat 'a
  | Destroy nat

text \<open>\<^verbatim>\<open>swap\<close> on a copy or a stolen pointer: the variable takes its value, the destructor of the
  temporary releases what the variable held before.\<close>

definition swap_in :: "nat \<Rightarrow> SharedPtr \<Rightarrow> 'a sp_program \<Rightarrow> 'a sp_program result" where
  "swap_in v p s =
     bind_result (deref (sp_vars s v)) (\<lambda>old.
     bind_result (sp_release (sp_mem s) old) (\<lambda>m.
       Inr (s\<lparr>sp_mem := m, sp_vars := (sp_vars s)(v \<mapsto> p)\<rparr>)))"

fun sp_step :: "'a sp_op \<Rightarrow> 'a sp_program \<Rightarrow> 'a sp_program result" where
  "sp_step (Construct v) s = Inr (s\<lparr>sp_vars := (sp_vars s)(v \<mapsto> sp_null)\<rparr>)"
| "sp_step (ConstructNew v x) s =
     (let (p, m) = makeShared (sp_mem s) x in Inr (s\<lparr>sp_mem := m, sp_vars := (sp_vars s)(v \<mapsto> p)\<rparr>))"
| "sp_step (CopyConstruct v w) s =
     bind_result (deref (sp_vars s w)) (\<lambda>other.
     bind_result (sp_copy (sp_mem s) other) (\<lambda>(p, m).
       Inr (s\<lparr>sp_mem := m, sp_vars := (sp_vars s)(v \<mapsto> p)\<rparr>)))"
| "sp_step (MoveConstruct v w) s =
     bind_result (deref (sp_vars s w)) (\<lambda>other.
       let (p, rest) = sp_move other in Inr (s\<lparr>sp_vars := (sp_vars s)(w \<mapsto> rest, v \<mapsto> p)\<rparr>))"
| "sp_step (CopyAssign v w) s =
     bind_result (deref (sp_vars s w)) (\<lambda>other.
     bind_result (sp_copy (sp_mem s) other) (\<lambda>(p, m). swap_in v p (s\<lparr>sp_mem := m\<rparr>)))"
| "sp_step (MoveAssign v w) s =
     bind_result (deref (sp_vars s w)) (\<lambda>other.
       let (p, rest) = sp_move other in swap_in v p (s\<lparr>sp_vars := (sp_vars s)(w \<mapsto> rest)\<rparr>))"
| "sp_step (SwapVars v w) s =
     bind_result (deref (sp_vars s v)) (\<lambda>p.
     bind_result (deref (sp_vars s w)) (\<lambda>q.
       Inr (s\<lparr>sp_vars := (sp_vars s)(v \<mapsto> q, w \<mapsto> p)\<rparr>)))"
| "sp_step (Reset v) s = swap_in v sp_null s"
| "sp_step (ResetTo v x) s =
     (let (p, m) = makeShared (sp_mem s) x in swap_in v p (s\<lparr>sp_mem := m\<rparr>))"
| "sp_step (Destroy v) s =
     bind_result (swap_in v sp_null s) (\<lambda>s'. Inr (s'\<lparr>sp_vars := (sp_vars s')(v := None)\<rparr>))"

section \<open>Ownership\<close>

text \<open>
  \<open>sp_inv m M\<close>: the pointers that own something are those of the multiset \<open>M\<close>. A control block
  counts its owners, goes with exactly one object, and nothing else is allocated.
\<close>

definition refs :: "nat \<Rightarrow> SharedPtr multiset \<Rightarrow> nat" where
  "refs c M = size {#p \<in># M. sp_control p = Some c#}"

definition paired :: "'a memory \<Rightarrow> SharedPtr set \<Rightarrow> bool" where
  "paired m S \<longleftrightarrow>
     (\<forall>p \<in> S. \<exists>a c. sp_ptr p = Some a \<and> sp_control p = Some c \<and> a < next_addr m \<and> c < next_addr m) \<and>
     (\<forall>p \<in> S. \<forall>q \<in> S. sp_ptr p = sp_ptr q \<longleftrightarrow> sp_control p = sp_control q) \<and>
     dom (objects m) = {a. \<exists>p \<in> S. sp_ptr p = Some a}"

definition sp_inv :: "'a memory \<Rightarrow> SharedPtr multiset \<Rightarrow> bool" where
  "sp_inv m M \<longleftrightarrow> paired m (set_mset M) \<and>
     controls m = (\<lambda>c. if refs c M = 0 then None else Some (int (refs c M)))"

definition sp_value :: "'a memory \<Rightarrow> SharedPtr \<Rightarrow> 'a option" where
  "sp_value m p = Option.bind (sp_ptr p) (objects m)"

lemma sp_inv_empty: "sp_inv empty_memory {#}"
  by (simp add: sp_inv_def paired_def empty_memory_def refs_def)

lemma refs_add [simp]: "refs c (add_mset p M) = (if sp_control p = Some c then Suc (refs c M) else refs c M)"
  by (simp add: refs_def)

lemma refs_empty: "refs c {#} = 0"
  by (simp add: refs_def)

lemma refs_zero: "refs c M = 0 \<longleftrightarrow> (\<forall>p \<in># M. sp_control p \<noteq> Some c)"
  by (induction M) (auto simp: refs_empty)

lemma SharedPtr_eq: "sp_ptr p = sp_ptr q \<Longrightarrow> sp_control p = sp_control q \<Longrightarrow> p = (q :: SharedPtr)"
  by (cases p; cases q) simp

lemma sp_invD:
  assumes "sp_inv m M"
  shows "p \<in># M \<Longrightarrow> \<exists>a c. sp_ptr p = Some a \<and> sp_control p = Some c \<and> a < next_addr m \<and> c < next_addr m"
    and "p \<in># M \<Longrightarrow> q \<in># M \<Longrightarrow> sp_ptr p = sp_ptr q \<longleftrightarrow> sp_control p = sp_control q"
    and "controls m = (\<lambda>c. if refs c M = 0 then None else Some (int (refs c M)))"
    and "dom (objects m) = {a. \<exists>p \<in># M. sp_ptr p = Some a}"
  using assms by (simp_all add: sp_inv_def paired_def)

lemma sp_inv_live:
  assumes "sp_inv m M" and "p \<in># M"
  obtains a c x where "p = \<lparr>sp_ptr = Some a, sp_control = Some c\<rparr>" "a < next_addr m" "c < next_addr m"
    "objects m a = Some x" "controls m c = Some (int (refs c M))" "0 < refs c M"
proof -
  from sp_invD(1) [OF assms] obtain a c where
    ac: "sp_ptr p = Some a" "sp_control p = Some c" "a < next_addr m" "c < next_addr m" by blast
  have "a \<in> dom (objects m)" using sp_invD(4) [OF assms(1)] assms(2) ac(1) by auto
  moreover have "refs c M \<noteq> 0" using assms(2) ac(2) by (auto simp: refs_zero)
  moreover have "p = \<lparr>sp_ptr = Some a, sp_control = Some c\<rparr>" using ac by (intro SharedPtr_eq) simp_all
  moreover have "controls m c = Some (int (refs c M))"
    using sp_invD(3) [OF assms(1)] \<open>refs c M \<noteq> 0\<close> by simp
  ultimately show ?thesis using that ac(3,4) by auto
qed

lemma sp_copy_inv:
  assumes inv: "sp_inv m M" and p: "p \<in># M"
  shows "\<exists>m'. sp_copy m p = Inr (p, m') \<and> sp_inv m' (add_mset p M) \<and> objects m' = objects m"
proof -
  from inv p obtain a c x where ac: "p = \<lparr>sp_ptr = Some a, sp_control = Some c\<rparr>" "a < next_addr m" "c < next_addr m"
    "controls m c = Some (int (refs c M))" by (rule sp_inv_live)
  let ?m = "m\<lparr>controls := (controls m)(c \<mapsto> int (refs c M) + 1)\<rparr>"
  have "sp_copy m p = Inr (p, ?m)" using ac by (simp add: sp_copy_def fetch_add_def)
  moreover have "sp_inv ?m (add_mset p M)"
    using inv p ac(1) sp_invD(3) [OF inv] unfolding sp_inv_def
    by (auto simp: insert_absorb paired_def fun_eq_iff)
  ultimately show ?thesis by auto
qed

lemma sp_release_inv:
  assumes inv: "sp_inv m (add_mset p M)"
  shows "\<exists>m'. sp_release m p = Inr m' \<and> sp_inv m' M \<and>
    objects m' = (if p \<in># M then objects m else (objects m)(the (sp_ptr p) := None))"
proof -
  from inv obtain a c x where ac: "p = \<lparr>sp_ptr = Some a, sp_control = Some c\<rparr>" "a < next_addr m" "c < next_addr m"
    "objects m a = Some x" "controls m c = Some (int (refs c (add_mset p M)))"
    by (rule sp_inv_live [of m "add_mset p M" p]) simp_all
  have c: "controls m c = Some (int (refs c M) + 1)" using ac(1,5) by simp
  have same: "q = p" if "q \<in># M" "sp_control q = Some c \<or> sp_ptr q = Some a" for q
    using sp_invD(2) [OF inv, of q p] that ac(1) by (intro SharedPtr_eq) auto
  have "sp_control p = Some c" using ac(1) by simp
  then have none: "refs c M = 0 \<longleftrightarrow> p \<notin># M" unfolding refs_zero using same by blast
  show ?thesis
  proof (cases "p \<in># M")
    case True
    let ?m = "m\<lparr>controls := (controls m)(c \<mapsto> int (refs c M))\<rparr>"
    have "refs c M \<noteq> 0" using True none by simp
    then have "sp_release m p = Inr ?m" using ac(1) c by (simp add: sp_release_def fetch_add_def)
    moreover have "sp_inv ?m M"
      using inv True ac(1) \<open>refs c M \<noteq> 0\<close> sp_invD(3) [OF inv] unfolding sp_inv_def
      by (auto simp: insert_absorb paired_def fun_eq_iff)
    ultimately show ?thesis using True by auto
  next
    case False
    let ?m = "m\<lparr>objects := (objects m)(a := None), controls := (controls m)(c := None)\<rparr>"
    have zero: "refs c M = 0" using False none by simp
    have other: "sp_ptr q \<noteq> Some a" if "q \<in># M" for q using same [OF that] that False by blast
    from zero have "sp_release m p = Inr ?m"
      using ac(1,4) c by (simp add: sp_release_def fetch_add_def delete_object_def)
    moreover have "sp_inv ?m M"
      unfolding sp_inv_def paired_def
    proof (intro conjI)
      show "controls ?m = (\<lambda>c. if refs c M = 0 then None else Some (int (refs c M)))"
        using sp_invD(3) [OF inv] zero ac(1) by (auto simp: fun_eq_iff)
      show "dom (objects ?m) = {a. \<exists>p \<in> set_mset M. sp_ptr p = Some a}"
        using sp_invD(4) [OF inv] ac(1) other by auto
    qed (use inv in \<open>auto simp: sp_inv_def paired_def\<close>)
    ultimately show ?thesis using False ac(1) by auto
  qed
qed

lemma makeShared_inv:
  assumes inv: "sp_inv m M"
  shows "\<exists>p m'. makeShared m x = (p, m') \<and> sp_inv m' (add_mset p M) \<and> p \<notin># M \<and> sp_ptr p = Some (next_addr m) \<and>
    objects m' = (objects m)(next_addr m \<mapsto> x)"
proof -
  let ?a = "next_addr m"
  let ?p = "\<lparr>sp_ptr = Some ?a, sp_control = Some (?a + 1)\<rparr>"
  let ?m = "m\<lparr>objects := (objects m)(?a \<mapsto> x), controls := (controls m)(?a + 1 \<mapsto> 1), next_addr := ?a + 2\<rparr>"
  have old: "sp_ptr q \<noteq> Some ?a \<and> sp_control q \<noteq> Some (?a + 1)" if "q \<in># M" for q
    using sp_invD(1) [OF inv that] by auto
  then have zero: "refs (?a + 1) M = 0" by (simp add: refs_zero)
  have "sp_inv ?m (add_mset ?p M)"
    unfolding sp_inv_def paired_def
  proof (intro conjI)
    show "\<forall>p \<in># add_mset ?p M. \<exists>a c. sp_ptr p = Some a \<and> sp_control p = Some c \<and> a < next_addr ?m \<and> c < next_addr ?m"
      using sp_invD(1) [OF inv] by fastforce
    show "\<forall>p \<in># add_mset ?p M. \<forall>q \<in># add_mset ?p M. sp_ptr p = sp_ptr q \<longleftrightarrow> sp_control p = sp_control q"
      using sp_invD(2) [OF inv] old by (auto simp: eq_commute)
    show "controls ?m = (\<lambda>c. if refs c (add_mset ?p M) = 0 then None else Some (int (refs c (add_mset ?p M))))"
      using sp_invD(3) [OF inv] zero by (auto simp: fun_eq_iff)
    show "dom (objects ?m) = {a. \<exists>p \<in># add_mset ?p M. sp_ptr p = Some a}"
      using sp_invD(4) [OF inv] by auto
  qed
  moreover have "makeShared m x = (?p, ?m)"
    by (simp add: makeShared_def new_object_def sp_from_raw_def)
  moreover have "?p \<notin># M" using old by force
  ultimately show ?thesis by auto
qed

end
