(* ===== verification/Database.thy ===== *)
theory Database
  imports Table SharedPtr
begin

text \<open>
  The catalogue of tables of \<^verbatim>\<open>include/core/Database.hpp\<close> and \<^verbatim>\<open>src/core/database.cpp\<close>: a hash map
  from names to shared pointers, and the memory the tables live in. Every member takes the lock
  of the catalogue for the part that touches the map, and is one step here. \<^verbatim>\<open>std::hash\<close> on names
  and on ids is a parameter: the first is a field of the map, the second is kept for the caches
  of the tables that \<open>createTable\<close> builds.
\<close>

record database =
  tables :: "(string, SharedPtr) hashmap"
  db_mem :: "table memory"
  id_hash :: "int64 \<Rightarrow> 64 word"

definition new_database :: "(string \<Rightarrow> 64 word) \<Rightarrow> (int64 \<Rightarrow> 64 word) \<Rightarrow> database" where
  "new_database hs hi = \<lparr>tables = default_hashmap hs, db_mem = empty_memory, id_hash = hi\<rparr>"

text \<open>When the name is taken, the pointer passed to \<^verbatim>\<open>insert\<close> is destroyed with the call.\<close>

definition createTable :: "database \<Rightarrow> string \<Rightarrow> Schema \<Rightarrow> (bool \<times> database) result" where
  "createTable db name sc =
     (if name = [] then Inl (Invalid_argument ''Database: table name must not be empty'')
      else bind_result (new_table (id_hash db) sc kDefaultCacheCapacity) (\<lambda>t.
        let (p, m) = makeShared (db_mem db) t in
        bind_result (hm_insert (tables db) name p) (\<lambda>(fresh, ts).
          if fresh then Inr (True, db\<lparr>tables := ts, db_mem := m\<rparr>)
          else bind_result (sp_release m p) (\<lambda>m'. Inr (False, db\<lparr>tables := ts, db_mem := m'\<rparr>)))))"

definition getTable :: "database \<Rightarrow> string \<Rightarrow> (SharedPtr \<times> database) result" where
  "getTable db name =
     bind_result (hm_find (tables db) name) (\<lambda>found. case found of
       None \<Rightarrow> Inr (sp_null, db)
     | Some i \<Rightarrow>
         bind_result (hm_read (tables db) i) (\<lambda>p.
         bind_result (sp_copy (db_mem db) p) (\<lambda>(handle, m). Inr (handle, db\<lparr>db_mem := m\<rparr>))))"

text \<open>Erasing the slot destroys the pointer in it.\<close>

definition dropTable :: "database \<Rightarrow> string \<Rightarrow> (bool \<times> database) result" where
  "dropTable db name =
     bind_result (hm_find (tables db) name) (\<lambda>found.
     bind_result (hm_erase (tables db) name) (\<lambda>(erased, ts). case found of
       None \<Rightarrow> Inr (erased, db\<lparr>tables := ts\<rparr>)
     | Some i \<Rightarrow>
         bind_result (hm_read (tables db) i) (\<lambda>p.
         bind_result (sp_release (db_mem db) p) (\<lambda>m. Inr (erased, db\<lparr>tables := ts, db_mem := m\<rparr>)))))"

definition tableCount :: "database \<Rightarrow> nat" where
  "tableCount db = hm_size (tables db)"

definition tableNames :: "database \<Rightarrow> string list result" where
  "tableNames db = bind_result (hm_forEach (tables db)) (\<lambda>ps. Inr (sort (map fst ps)))"

text \<open>The destructor of a handle that \<open>getTable\<close> returned.\<close>

definition drop_handle :: "database \<Rightarrow> SharedPtr \<Rightarrow> database result" where
  "drop_handle db p = bind_result (sp_release (db_mem db) p) (\<lambda>m. Inr (db\<lparr>db_mem := m\<rparr>))"

end
