(* ===== verification/SharedPtr_Spec.thy ===== *)
theory SharedPtr_Spec
  imports SharedPtr
begin

text \<open>
  What shared ownership promises its clients, as a contract between the pointer and the catalogue
  of tables, and the same for programs that hold the pointers in variables: no access to freed
  memory, no double deletion, no leak, and a use count that counts.
\<close>

section \<open>The contract\<close>

text \<open>
  \<open>own m M\<close>: the owning handles are those of \<open>M\<close>. \<open>val m p\<close> is the object a handle refers to,
  \<open>live m\<close> the number of objects allocated.
\<close>

locale shared_ownership =
  fixes own :: "'m \<Rightarrow> 'p multiset \<Rightarrow> bool"
    and val :: "'m \<Rightarrow> 'p \<Rightarrow> 'x option"
    and live :: "'m \<Rightarrow> nat"
    and make :: "'m \<Rightarrow> 'x \<Rightarrow> 'p \<times> 'm"
    and copy :: "'m \<Rightarrow> 'p \<Rightarrow> ('p \<times> 'm) result"
    and release :: "'m \<Rightarrow> 'p \<Rightarrow> 'm result"
    and store :: "'m \<Rightarrow> 'p \<Rightarrow> 'x \<Rightarrow> 'm result"
  assumes make_law: "own m M \<Longrightarrow> \<exists>p m'. make m x = (p, m') \<and> own m' (add_mset p M) \<and> p \<notin># M \<and>
      val m' p = Some x \<and> (\<forall>q \<in># M. val m' q = val m q)"
    and copy_law: "own m M \<Longrightarrow> p \<in># M \<Longrightarrow> \<exists>m'. copy m p = Inr (p, m') \<and> own m' (add_mset p M) \<and>
      (\<forall>q \<in># M. val m' q = val m q)"
    and release_law: "own m (add_mset p M) \<Longrightarrow> \<exists>m'. release m p = Inr m' \<and> own m' M \<and>
      (\<forall>q \<in># M. val m' q = val m q)"
    and store_law: "own m M \<Longrightarrow> p \<in># M \<Longrightarrow> \<exists>m'. store m p x = Inr m' \<and> own m' M \<and>
      val m' p = Some x \<and> (\<forall>q \<in># M. q \<noteq> p \<longrightarrow> val m' q = val m q)"
    and val_law: "own m M \<Longrightarrow> p \<in># M \<Longrightarrow> val m p \<noteq> None"
    and live_law: "own m M \<Longrightarrow> live m = card (set_mset M)"
begin

text \<open>A client that copies a handle, works on the object and drops its copy leaves the other
  owners as they were, and the object it worked on as it left it.\<close>

lemma borrow:
  assumes "own m M" and "p \<in># M"
  obtains m1 x m2 m3 where "copy m p = Inr (p, m1)" "val m1 p = Some x" "val m p = Some x"
    "own m1 (add_mset p M)" "store m1 p y = Inr m2" "own m2 (add_mset p M)" "release m2 p = Inr m3"
    "own m3 M" "val m3 p = Some y" "\<forall>q \<in># M. q \<noteq> p \<longrightarrow> val m3 q = val m q"
proof -
  from copy_law [OF assms] obtain m1 where m1: "copy m p = Inr (p, m1)" "own m1 (add_mset p M)"
    "\<forall>q \<in># M. val m1 q = val m q" by blast
  from store_law [OF m1(2), of p y] obtain m2 where m2: "store m1 p y = Inr m2" "own m2 (add_mset p M)"
    "val m2 p = Some y" "\<forall>q \<in># add_mset p M. q \<noteq> p \<longrightarrow> val m2 q = val m1 q" by auto
  from release_law [OF m2(2)] obtain m3 where m3: "release m2 p = Inr m3" "own m3 M"
    "\<forall>q \<in># M. val m3 q = val m2 q" by blast
  obtain x where "val m p = Some x" using val_law [OF assms] by auto
  then show ?thesis using that m1 m2 m3 assms(2) by auto
qed

text \<open>The last owner takes the object with it.\<close>

lemma last_release:
  assumes "own m (add_mset p M)" and "p \<notin># M"
  obtains m' where "release m p = Inr m'" "own m' M" "live m = Suc (live m')"
proof -
  from release_law [OF assms(1)] obtain m' where "release m p = Inr m'" "own m' M" by blast
  then show ?thesis
    using that live_law [OF assms(1)] live_law [of m' M] assms(2) by simp
qed

end

lemma sp_card:
  assumes "sp_inv m M"
  shows "card (dom (objects m)) = card (set_mset M)"
proof -
  have "inj_on (\<lambda>p. the (sp_ptr p)) (set_mset M)"
    using assms by (intro inj_onI) (metis SharedPtr_eq option.sel sp_invD(1,2))
  moreover have "dom (objects m) = (\<lambda>p. the (sp_ptr p)) ` set_mset M"
    using sp_invD(1,4) [OF assms] by (force simp: image_iff)
  ultimately show ?thesis by (simp add: card_image)
qed

interpretation sp: shared_ownership sp_inv sp_value "\<lambda>m. card (dom (objects m))" makeShared sp_copy sp_release sp_store
proof
  fix m :: "'a memory" and M x
  assume inv: "sp_inv m M"
  from makeShared_inv [OF inv, of x] obtain p m' where p: "makeShared m x = (p, m')" "sp_inv m' (add_mset p M)" "p \<notin># M"
    "sp_ptr p = Some (next_addr m)" "objects m' = (objects m)(next_addr m \<mapsto> x)" by blast
  have "sp_value m' q = sp_value m q" if "q \<in># M" for q
    using sp_invD(1) [OF inv that] by (auto simp: sp_value_def p(5))
  with p show "\<exists>p m'. makeShared m x = (p, m') \<and> sp_inv m' (add_mset p M) \<and> p \<notin># M \<and> sp_value m' p = Some x \<and>
      (\<forall>q \<in># M. sp_value m' q = sp_value m q)" by (auto simp: sp_value_def)
next
  fix m :: "'a memory" and M p
  assume "sp_inv m M" "p \<in># M"
  from sp_copy_inv [OF this] show "\<exists>m'. sp_copy m p = Inr (p, m') \<and> sp_inv m' (add_mset p M) \<and>
      (\<forall>q \<in># M. sp_value m' q = sp_value m q)" by (auto simp: sp_value_def)
next
  fix m :: "'a memory" and M p
  assume inv: "sp_inv m (add_mset p M)"
  from sp_release_inv [OF inv] obtain m' where m': "sp_release m p = Inr m'" "sp_inv m' M"
    "objects m' = (if p \<in># M then objects m else (objects m)(the (sp_ptr p) := None))" by blast
  have "sp_value m' q = sp_value m q" if q: "q \<in># M" for q
  proof (cases "p \<in># M")
    case False
    with q have "q \<noteq> p" by auto
    moreover have "sp_ptr q = sp_ptr p \<longleftrightarrow> sp_control q = sp_control p" using sp_invD(2) [OF inv, of q p] q by simp
    ultimately have "sp_ptr q \<noteq> sp_ptr p" using SharedPtr_eq [of q p] by blast
    with False sp_invD(1) [OF inv, of p] show ?thesis by (cases "sp_ptr q") (auto simp: sp_value_def m'(3))
  qed (simp add: sp_value_def m'(3))
  with m' show "\<exists>m'. sp_release m p = Inr m' \<and> sp_inv m' M \<and> (\<forall>q \<in># M. sp_value m' q = sp_value m q)" by blast
next
  fix m :: "'a memory" and M p x
  assume inv: "sp_inv m M" and p: "p \<in># M"
  then obtain a c y where a: "p = \<lparr>sp_ptr = Some a, sp_control = Some c\<rparr>" "objects m a = Some y" by (rule sp_inv_live)
  let ?m = "m\<lparr>objects := (objects m)(a \<mapsto> x)\<rparr>"
  have "dom (objects ?m) = dom (objects m)" using a(2) by auto
  then have "sp_inv ?m M" using inv unfolding sp_inv_def paired_def by simp
  moreover have "sp_value ?m q = sp_value m q" if "q \<in># M" "q \<noteq> p" for q
  proof -
    have "sp_ptr q \<noteq> Some a" using sp_invD(2) [OF inv that(1) p] that(2) SharedPtr_eq [of q p] a(1) by auto
    then show ?thesis by (cases "sp_ptr q") (auto simp: sp_value_def)
  qed
  ultimately show "\<exists>m'. sp_store m p x = Inr m' \<and> sp_inv m' M \<and> sp_value m' p = Some x \<and>
      (\<forall>q \<in># M. q \<noteq> p \<longrightarrow> sp_value m' q = sp_value m q)"
    using a by (auto simp: sp_store_def sp_value_def)
next
  fix m :: "'a memory" and M p
  assume "sp_inv m M" "p \<in># M"
  then obtain a c y where "p = \<lparr>sp_ptr = Some a, sp_control = Some c\<rparr>" "objects m a = Some y" by (rule sp_inv_live)
  then show "sp_value m p \<noteq> None" by (simp add: sp_value_def)
qed (rule sp_card)

section \<open>Programs\<close>

text \<open>The owning handle in a variable, if it holds one, and those of all variables.\<close>

definition owner :: "SharedPtr \<Rightarrow> SharedPtr multiset" where
  "owner p = (if p = sp_null then {#} else {#p#})"

definition owners :: "(nat \<rightharpoonup> SharedPtr) \<Rightarrow> SharedPtr multiset" where
  "owners vs = (\<Sum>v \<in> dom vs. owner (the (vs v)))"

definition program_ok :: "'a sp_program \<Rightarrow> bool" where
  "program_ok s \<longleftrightarrow> finite (dom (sp_vars s)) \<and> sp_inv (sp_mem s) (owners (sp_vars s))"

text \<open>A well-scoped sequence of operations, by the set of the variables in scope.\<close>

fun scoped :: "'a sp_op list \<Rightarrow> nat set \<Rightarrow> bool" where
  "scoped [] V = True"
| "scoped (Construct v # xs) V = (v \<notin> V \<and> scoped xs (insert v V))"
| "scoped (ConstructNew v x # xs) V = (v \<notin> V \<and> scoped xs (insert v V))"
| "scoped (CopyConstruct v w # xs) V = (v \<notin> V \<and> w \<in> V \<and> scoped xs (insert v V))"
| "scoped (MoveConstruct v w # xs) V = (v \<notin> V \<and> w \<in> V \<and> scoped xs (insert v V))"
| "scoped (CopyAssign v w # xs) V = (v \<in> V \<and> w \<in> V \<and> scoped xs V)"
| "scoped (MoveAssign v w # xs) V = (v \<in> V \<and> w \<in> V \<and> scoped xs V)"
| "scoped (SwapVars v w # xs) V = (v \<in> V \<and> w \<in> V \<and> scoped xs V)"
| "scoped (Reset v # xs) V = (v \<in> V \<and> scoped xs V)"
| "scoped (ResetTo v x # xs) V = (v \<in> V \<and> scoped xs V)"
| "scoped (Destroy v # xs) V = (v \<in> V \<and> scoped xs (V - {v}))"

definition empty_program :: "'a sp_program" where
  "empty_program = \<lparr>sp_mem = empty_memory, sp_vars = Map.empty\<rparr>"

lemma owners_fresh:
  assumes "finite (dom vs)" and "v \<notin> dom vs"
  shows "owners (vs(v \<mapsto> p)) = owner p + owners vs"
proof -
  have "owners (vs(v \<mapsto> p)) = owner p + (\<Sum>u \<in> dom vs. owner (the ((vs(v \<mapsto> p)) u)))"
    using assms by (simp add: owners_def)
  also have "(\<Sum>u \<in> dom vs. owner (the ((vs(v \<mapsto> p)) u))) = owners vs"
    unfolding owners_def using assms(2) by (intro sum.cong) auto
  finally show ?thesis .
qed

lemma owners_split:
  assumes "finite (dom vs)" and "vs v = Some q"
  shows "owners vs = owner q + owners (vs(v := None))"
proof -
  have "owners ((vs(v := None))(v \<mapsto> q)) = owner q + owners (vs(v := None))"
    using assms(1) by (intro owners_fresh) auto
  moreover have "(vs(v := None))(v \<mapsto> q) = vs" using assms(2) by auto
  ultimately show ?thesis by simp
qed

lemma owners_assign:
  assumes "finite (dom vs)"
  shows "owners (vs(v \<mapsto> p)) = owner p + owners (vs(v := None))"
  using owners_split [of "vs(v \<mapsto> p)" v p] assms by simp

lemma owner_null [simp]: "owner sp_null = {#}"
  by (simp add: owner_def)

lemma owner_mem:
  assumes "finite (dom vs)" and "vs v = Some p" and "p \<noteq> sp_null"
  shows "p \<in># owners vs"
  using owners_split [OF assms(1,2)] assms(3) by (simp add: owner_def)

lemma sp_move_eq [simp]: "sp_move p = (p, sp_null)"
  by (simp add: sp_move_def sp_null_def)

lemma copy_any:
  assumes "sp_inv m M" and "p = sp_null \<or> p \<in># M"
  shows "\<exists>m'. sp_copy m p = Inr (p, m') \<and> sp_inv m' (owner p + M)"
proof (cases "p = sp_null")
  case True
  with assms(1) show ?thesis by (auto simp: sp_copy_def sp_null_def owner_def)
next
  case False
  with assms sp.copy_law [OF assms(1)] show ?thesis by (auto simp: owner_def)
qed

lemma release_any:
  assumes "sp_inv m (owner p + M)"
  shows "\<exists>m'. sp_release m p = Inr m' \<and> sp_inv m' M"
proof (cases "p = sp_null")
  case True
  with assms show ?thesis by (simp add: sp_release_def) (simp add: sp_null_def)
next
  case False
  with assms sp.release_law [of m p M] show ?thesis by (auto simp: owner_def)
qed

text \<open>Swapping a temporary in: the variable owns it, and what it held is given up.\<close>

lemma swap_in_ok:
  assumes fin: "finite (dom (sp_vars s))" and v: "v \<in> dom (sp_vars s)"
    and inv: "sp_inv (sp_mem s) (owner p + owners (sp_vars s))"
  shows "\<exists>s'. swap_in v p s = Inr s' \<and> program_ok s' \<and> sp_vars s' = (sp_vars s)(v \<mapsto> p) \<and>
    dom (sp_vars s') = dom (sp_vars s)"
proof -
  obtain old where old: "sp_vars s v = Some old" using v by auto
  have "owner p + owners (sp_vars s) = owner old + (owner p + owners ((sp_vars s)(v := None)))"
    using owners_split [OF fin old] by (simp add: ac_simps)
  with inv release_any [of "sp_mem s" old] obtain m where
    m: "sp_release (sp_mem s) old = Inr m" "sp_inv m (owner p + owners ((sp_vars s)(v := None)))" by auto
  with old fin v owners_assign [OF fin, of v p] show ?thesis
    by (simp add: swap_in_def program_ok_def insert_absorb)
qed

lemma makeShared_any:
  assumes "sp_inv m M"
  obtains p m' where "makeShared m x = (p, m')" "sp_inv m' (owner p + M)"
proof -
  from makeShared_inv [OF assms, of x] obtain p m' where
    p: "makeShared m x = (p, m')" "sp_inv m' (add_mset p M)" "sp_ptr p = Some (next_addr m)" by blast
  then have "p \<noteq> sp_null" by (auto simp: sp_null_def)
  with p that show ?thesis by (simp add: owner_def)
qed

lemma sp_step_ok:
  assumes ok: "program_ok s" and sc: "scoped (x # xs) (dom (sp_vars s))"
  shows "\<exists>s'. sp_step x s = Inr s' \<and> program_ok s' \<and> scoped xs (dom (sp_vars s'))"
proof -
  note fin = ok [unfolded program_ok_def, THEN conjunct1] and inv = ok [unfolded program_ok_def, THEN conjunct2]
  have held: "p = sp_null \<or> p \<in># owners (sp_vars s)" if "sp_vars s v = Some p" for v p
    using owner_mem [OF fin that] by blast
  show ?thesis
  proof (cases x)
    case (ConstructNew v y)
    from inv obtain p m where "makeShared (sp_mem s) y = (p, m)" "sp_inv m (owner p + owners (sp_vars s))"
      by (rule makeShared_any)
    with ConstructNew sc fin show ?thesis by (auto simp: program_ok_def owners_fresh)
  next
    case (CopyConstruct v w)
    with sc obtain q where q: "sp_vars s w = Some q" "v \<notin> dom (sp_vars s)" by auto
    from copy_any [OF inv held [OF q(1)]] CopyConstruct q(1) sc fin show ?thesis
      by (auto simp: program_ok_def owners_fresh [OF fin q(2)])
  next
    case (MoveConstruct v w)
    with sc obtain q where q: "sp_vars s w = Some q" "v \<notin> dom (sp_vars s)" by auto
    then have "v \<notin> dom ((sp_vars s)(w \<mapsto> sp_null))" by auto
    then have "owners ((sp_vars s)(w \<mapsto> sp_null, v \<mapsto> q)) = owners (sp_vars s)"
      using fin owners_fresh [of "(sp_vars s)(w \<mapsto> sp_null)" v q] owners_assign [OF fin, of w sp_null]
        owners_split [OF fin q(1)] by simp
    with MoveConstruct q sc fin inv show ?thesis by (auto simp: program_ok_def insert_absorb)
  next
    case (CopyAssign v w)
    with sc obtain q where q: "sp_vars s w = Some q" "v \<in> dom (sp_vars s)" by auto
    from copy_any [OF inv held [OF q(1)]] obtain m where
      m: "sp_copy (sp_mem s) q = Inr (q, m)" "sp_inv m (owner q + owners (sp_vars s))" by blast
    with swap_in_ok [of "s\<lparr>sp_mem := m\<rparr>" v q] CopyAssign q sc fin show ?thesis by fastforce
  next
    case (MoveAssign v w)
    with sc obtain q where q: "sp_vars s w = Some q" "v \<in> dom (sp_vars s)" by auto
    let ?s = "s\<lparr>sp_vars := (sp_vars s)(w \<mapsto> sp_null)\<rparr>"
    have "owners (sp_vars s) = owner q + owners (sp_vars ?s)" "dom (sp_vars ?s) = dom (sp_vars s)"
      using owners_split [OF fin q(1)] fin q(1) by (auto simp: owners_assign)
    with swap_in_ok [of ?s v q] MoveAssign q sc fin inv show ?thesis by fastforce
  next
    case (SwapVars v w)
    with sc obtain p q where pq: "sp_vars s v = Some p" "sp_vars s w = Some q" by auto
    have "owners ((sp_vars s)(v \<mapsto> q, w \<mapsto> p)) = owners (sp_vars s)"
    proof (cases "v = w")
      case False
      have "owners (sp_vars s) = owner p + (owner q + owners ((sp_vars s)(v := None, w := None)))"
        using owners_split [OF fin pq(1)] owners_split [of "(sp_vars s)(v := None)" w q] fin pq False by simp
      moreover have "owners ((sp_vars s)(v \<mapsto> q, w \<mapsto> p)) = owner p + (owner q + owners ((sp_vars s)(w := None, v := None)))"
        using owners_assign [of "(sp_vars s)(v \<mapsto> q)" w p] owners_assign [of "(sp_vars s)(w := None)" v q] fin False
        by (simp add: fun_upd_twist)
      ultimately show ?thesis using False by (simp add: fun_upd_twist)
    qed (use pq in \<open>simp add: fun_upd_idem\<close>)
    with SwapVars pq sc fin inv show ?thesis by (auto simp: program_ok_def insert_absorb)
  next
    case (Reset v)
    with swap_in_ok [of s v sp_null] sc fin inv show ?thesis by fastforce
  next
    case (ResetTo v y)
    from inv obtain p m where m: "makeShared (sp_mem s) y = (p, m)" "sp_inv m (owner p + owners (sp_vars s))"
      by (rule makeShared_any)
    with swap_in_ok [of "s\<lparr>sp_mem := m\<rparr>" v p] ResetTo sc fin show ?thesis by fastforce
  next
    case (Destroy v)
    with swap_in_ok [of s v sp_null] sc fin inv obtain s' where
      "swap_in v sp_null s = Inr s'" "program_ok s'" "sp_vars s' = (sp_vars s)(v \<mapsto> sp_null)" by auto
    with Destroy sc owners_split [of "sp_vars s'" v sp_null] show ?thesis by (auto simp: program_ok_def)
  qed (use ok sc in \<open>auto simp: program_ok_def owners_fresh\<close>)
qed

lemma sp_run_ok:
  "program_ok s \<Longrightarrow> scoped xs (dom (sp_vars s)) \<Longrightarrow> \<exists>s'. fold_result sp_step xs s = Inr s' \<and> program_ok s'"
proof (induction xs arbitrary: s)
  case (Cons x xs)
  from sp_step_ok [OF Cons.prems] obtain s1 where "sp_step x s = Inr s1" "program_ok s1" "scoped xs (dom (sp_vars s1))"
    by blast
  with Cons.IH [of s1] show ?case by simp
qed simp

lemma count_owners:
  assumes "finite (dom vs)" and "p \<noteq> sp_null"
  shows "count (owners vs) p = card {v. vs v = Some p}"
proof -
  have "count (owners vs) p = (\<Sum>v \<in> dom vs. count (owner (the (vs v))) p)" by (simp add: owners_def count_sum)
  also have "\<dots> = (\<Sum>v \<in> dom vs. if v \<in> {v. vs v = Some p} then 1 else 0)"
    using assms(2) by (intro sum.cong) (auto simp: owner_def)
  also have "\<dots> = card (dom vs \<inter> {v. vs v = Some p})"
    using assms(1) by (simp add: sum.If_cases)
  also have "dom vs \<inter> {v. vs v = Some p} = {v. vs v = Some p}" by auto
  finally show ?thesis .
qed

lemma useCount_owners:
  assumes inv: "sp_inv m M" and p: "p \<in># M"
  shows "useCount m p = Inr (int (count M p))"
proof -
  from inv p obtain a c x where ac: "p = \<lparr>sp_ptr = Some a, sp_control = Some c\<rparr>"
    "controls m c = Some (int (refs c M))" by (rule sp_inv_live)
  have "sp_control q = Some c \<longleftrightarrow> q = p" if "q \<in># M" for q
    using sp_invD(2) [OF inv that p] SharedPtr_eq [of q p] ac(1) by auto
  then have "{#q \<in># M. sp_control q = Some c#} = {#q \<in># M. q = p#}" by (intro filter_mset_cong) auto
  then have "refs c M = count M p" by (simp add: refs_def filter_eq_replicate_mset)
  with ac show ?thesis by (simp add: useCount_def)
qed

lemma owners_objects:
  assumes "program_ok s"
  shows "dom (objects (sp_mem s)) = {a. \<exists>v p. sp_vars s v = Some p \<and> sp_ptr p = Some a}"
proof -
  have fin: "finite (dom (sp_vars s))" and inv: "sp_inv (sp_mem s) (owners (sp_vars s))"
    using assms by (simp_all add: program_ok_def)
  have "p \<in># owners (sp_vars s) \<longleftrightarrow> p \<noteq> sp_null \<and> (\<exists>v. sp_vars s v = Some p)" for p
    using fin by (force simp: owners_def owner_def set_mset_sum split: if_splits)
  moreover have "sp_ptr sp_null = None" by (simp add: sp_null_def)
  ultimately show ?thesis
    unfolding sp_invD(4) [OF inv] by (intro Collect_cong) (metis option.distinct(1))
qed

text \<open>
  C13. Whatever a program does with shared pointers in its variables (construction, copies, moves,
  assignments of a variable to itself or another, swaps, resets, destruction), no freed memory is
  touched and nothing is deleted twice; the use count of a pointer is the number of variables that
  hold it, an object is allocated exactly as long as some variable refers to it, and so nothing is
  left over once the last variable is gone.
\<close>

theorem shared_ptr_programs_safe:
  assumes "scoped xs {}"
  shows "\<exists>s. fold_result sp_step xs empty_program = Inr s \<and>
    (\<forall>v p. sp_vars s v = Some p \<and> p \<noteq> sp_null \<longrightarrow>
       useCount (sp_mem s) p = Inr (int (card {w. sp_vars s w = Some p}))) \<and>
    dom (objects (sp_mem s)) = {a. \<exists>v p. sp_vars s v = Some p \<and> sp_ptr p = Some a} \<and>
    (sp_vars s = Map.empty \<longrightarrow> objects (sp_mem s) = Map.empty \<and> controls (sp_mem s) = Map.empty)"
proof -
  have "program_ok (empty_program :: 'a sp_program)"
    using sp_inv_empty by (simp add: program_ok_def empty_program_def owners_def)
  with sp_run_ok [of empty_program xs] assms obtain s :: "'a sp_program" where
    s: "fold_result sp_step xs empty_program = Inr s" "program_ok s" by (auto simp: empty_program_def)
  then have fin: "finite (dom (sp_vars s))" and inv: "sp_inv (sp_mem s) (owners (sp_vars s))"
    by (simp_all add: program_ok_def)
  have "useCount (sp_mem s) p = Inr (int (card {w. sp_vars s w = Some p}))"
    if "sp_vars s v = Some p" "p \<noteq> sp_null" for v p
    using useCount_owners [OF inv owner_mem [OF fin that]] count_owners [OF fin that(2)] by simp
  moreover have "objects (sp_mem s) = Map.empty \<and> controls (sp_mem s) = Map.empty" if "sp_vars s = Map.empty"
    using owners_objects [OF s(2)] sp_invD(3) [OF inv] that by (simp add: owners_def refs_empty)
  ultimately show ?thesis using s owners_objects [OF s(2)] by blast
qed

theorem shared_ptr_programs_safe_witness:
  "\<exists>s. fold_result sp_step [ConstructNew 0 (7::int), CopyConstruct 1 0, CopyAssign 0 0, MoveAssign 1 1,
      Destroy 0, Reset 1, Destroy 1] empty_program = Inr s \<and>
    objects (sp_mem s) = Map.empty \<and> controls (sp_mem s) = Map.empty"
proof -
  let ?xs = "[ConstructNew 0 (7::int), CopyConstruct 1 0, CopyAssign 0 0, MoveAssign 1 1, Destroy 0, Reset 1, Destroy 1]"
  have "scoped ?xs {}" by simp
  from shared_ptr_programs_safe [OF this] obtain s where
    s: "fold_result sp_step ?xs empty_program = Inr s"
    "sp_vars s = Map.empty \<longrightarrow> objects (sp_mem s) = Map.empty \<and> controls (sp_mem s) = Map.empty" by blast
  moreover have "sp_vars s = Map.empty"
    using s(1) by (auto simp: empty_program_def empty_memory_def makeShared_def new_object_def sp_from_raw_def
        sp_copy_def fetch_add_def swap_in_def sp_release_def delete_object_def sp_null_def)
  ultimately show ?thesis by blast
qed

end
