(* ===== verification/Database_Spec.thy ===== *)
theory Database_Spec
  imports Database SharedPtr_Spec Table_Spec
begin

text \<open>
  The catalogue as its clients see it: a finite map from names to tables. The invariant says who
  owns a table: the catalogue itself, once, while the table has a name, and each client that
  still holds a handle. The laws of the hash map (\<open>hm\<close>) and of shared ownership (\<open>sp\<close>) carry the
  proofs.
\<close>

section \<open>Invariant and view\<close>

abbreviation catalogue :: "database \<Rightarrow> string \<rightharpoonup> SharedPtr" where
  "catalogue db \<equiv> contents (tables db)"

definition named :: "(string \<rightharpoonup> SharedPtr) \<Rightarrow> SharedPtr multiset" where
  "named c = image_mset (\<lambda>n. the (c n)) (mset_set (dom c))"

text \<open>\<open>C\<close> are the handles the clients hold.\<close>

definition db_inv :: "database \<Rightarrow> SharedPtr multiset \<Rightarrow> bool" where
  "db_inv db C \<longleftrightarrow> hm_inv (tables db) \<and> sp_inv (db_mem db) (named (catalogue db) + C) \<and>
     inj_on (catalogue db) (dom (catalogue db)) \<and>
     (\<forall>p \<in># named (catalogue db) + C. \<forall>t. sp_value (db_mem db) p = Some t \<longrightarrow> tbl_inv t)"

definition table_of :: "database \<Rightarrow> string \<rightharpoonup> table" where
  "table_of db = (\<lambda>name. Option.bind (catalogue db name) (sp_value (db_mem db)))"

lemma db_invD:
  assumes "db_inv db C"
  shows "hm_inv (tables db)" "sp_inv (db_mem db) (named (catalogue db) + C)"
    "inj_on (catalogue db) (dom (catalogue db))"
    "p \<in># named (catalogue db) + C \<Longrightarrow> sp_value (db_mem db) p = Some t \<Longrightarrow> tbl_inv t"
  using assms by (auto simp: db_inv_def)

lemma named_iff: "finite (dom c) \<Longrightarrow> p \<in># named c \<longleftrightarrow> (\<exists>n. c n = Some p)"
  by (force simp: named_def)

lemma named_fresh:
  assumes "finite (dom c)" and "c n = None"
  shows "named (c(n \<mapsto> p)) = add_mset p (named c)"
proof -
  have "image_mset (\<lambda>k. the ((c(n \<mapsto> p)) k)) (mset_set (dom c)) = named c"
    unfolding named_def using assms by (intro image_mset_cong) (auto simp: fun_upd_def)
  then show ?thesis using assms by (simp add: named_def domIff)
qed

lemma named_split:
  assumes "finite (dom c)" and "c n = Some p"
  shows "named c = add_mset p (named (c(n := None)))"
proof -
  have "c = (c(n := None))(n \<mapsto> p)" using assms(2) by auto
  then have "named c = named ((c(n := None))(n \<mapsto> p))" by simp
  also have "\<dots> = add_mset p (named (c(n := None)))" using assms(1) by (intro named_fresh) auto
  finally show ?thesis .
qed

lemma table_of_None:
  assumes "db_inv db C"
  shows "table_of db name = None \<longleftrightarrow> catalogue db name = None"
proof (cases "catalogue db name")
  case (Some p)
  then have "p \<in># named (catalogue db) + C"
    using named_iff [OF hm.finite_cts [OF db_invD(1) [OF assms]]] by auto
  from sp.val_law [OF db_invD(2) [OF assms] this] Some show ?thesis by (simp add: table_of_def)
qed (simp add: table_of_def)

lemma dom_table_of:
  assumes "db_inv db C"
  shows "dom (table_of db) = dom (catalogue db)"
  using table_of_None [OF assms] by (auto simp: dom_def)

text \<open>Tables of the catalogue and of the handles whose values a step of the memory keeps.\<close>

lemma table_of_frame:
  assumes "finite (dom (catalogue db))" and "\<forall>q \<in># named (catalogue db) + C. sp_value m q = sp_value (db_mem db) q"
  shows "table_of (db\<lparr>db_mem := m\<rparr>) = table_of db"
proof
  fix n
  show "table_of (db\<lparr>db_mem := m\<rparr>) n = table_of db n"
    using assms(2) named_iff [OF assms(1)] by (cases "catalogue db n") (auto simp: table_of_def)
qed

lemma table_of_inv: "db_inv db C \<Longrightarrow> table_of db name = Some t \<Longrightarrow> tbl_inv t"
  using db_invD(4) [of db C] named_iff [OF hm.finite_cts [OF db_invD(1)], of db C]
  by (fastforce simp: table_of_def bind_eq_Some_conv)

lemma new_database_inv: "db_inv (new_database hs hi) {#}" "table_of (new_database hs hi) = Map.empty"
proof -
  have "contents (default_hashmap hs) = (Map.empty :: string \<rightharpoonup> SharedPtr)" by (rule default_hashmap_inv(2))
  then show "db_inv (new_database hs hi) {#}" "table_of (new_database hs hi) = Map.empty"
    using default_hashmap_inv(1) [of hs] sp_inv_empty
    by (simp_all add: db_inv_def new_database_def named_def table_of_def)
qed

section \<open>Members\<close>

lemma new_table_rejects: "schema_wf sc \<Longrightarrow> \<not> id_schema sc \<Longrightarrow> 0 < n \<Longrightarrow> new_table h sc n = Inl no_id_error"
  using new_btree_ok [of default_min_degree, where 'a = int64 and 'b = Row]
  by (auto simp: new_table_def id_schema_def new_lru_def default_min_degree_def split: option.splits)

lemma createTable_spec:
  assumes inv: "db_inv db C" and name: "name \<noteq> []" and sc: "id_schema sc"
  shows "\<exists>db' t. createTable db name sc = Inr (table_of db name = None, db') \<and> db_inv db' C \<and>
    tbl_schema t = sc \<and> entries (rows t) = [] \<and>
    table_of db' = (if table_of db name = None then (table_of db)(name \<mapsto> t) else table_of db) \<and>
    (\<forall>q \<in># C. sp_value (db_mem db') q = sp_value (db_mem db) q)"
proof -
  note d = db_invD [OF inv] and fin = hm.finite_cts [OF db_invD(1) [OF inv]]
  let ?M = "named (catalogue db) + C"
  from new_table_ok [OF sc, of kDefaultCacheCapacity "id_hash db"] obtain t where
    t: "new_table (id_hash db) sc kDefaultCacheCapacity = Inr t" "tbl_inv t" "tbl_schema t = sc" "entries (rows t) = []"
    by (auto simp: kDefaultCacheCapacity_def)
  from sp.make_law [OF d(2), of t] obtain p m where p: "makeShared (db_mem db) t = (p, m)" "sp_inv m (add_mset p ?M)"
    "p \<notin># ?M" "sp_value m p = Some t" "\<forall>q \<in># ?M. sp_value m q = sp_value (db_mem db) q" by blast
  from hm.ins_law [OF d(1), of name p] obtain ts where ts: "hm_insert (tables db) name p = Inr (catalogue db name = None, ts)"
    "hm_inv ts" "contents ts = (if catalogue db name = None then (catalogue db)(name \<mapsto> p) else catalogue db)" by blast
  have frame: "table_of (db\<lparr>db_mem := m\<rparr>) = table_of db" by (rule table_of_frame [OF fin p(5)])
  show ?thesis
  proof (cases "catalogue db name = None")
    case True
    let ?db = "db\<lparr>tables := ts, db_mem := m\<rparr>"
    have c: "contents ts = (catalogue db)(name \<mapsto> p)" using ts(3) True by simp
    have "p \<notin> ran (catalogue db)" using p(3) named_iff [OF fin] by (auto simp: ran_def)
    then have "inj_on (contents ts) (dom (contents ts))"
      unfolding c using d(3) True by (auto simp: inj_on_def ran_def dom_def)
    moreover have "named (contents ts) = add_mset p (named (catalogue db))" unfolding c by (rule named_fresh [OF fin True])
    ultimately have "db_inv ?db C" using ts(2) p t(2) d(4) by (auto simp: db_inv_def)
    moreover have "table_of ?db = (table_of db)(name \<mapsto> t)"
      using frame by (auto simp: table_of_def c p(4) fun_eq_iff)
    moreover have "createTable db name sc = Inr (True, ?db)" using name t(1) p(1) ts(1) True by (simp add: createTable_def)
    ultimately show ?thesis using True t p(5) table_of_None [OF inv] by (intro exI [of _ ?db] exI [of _ t]) auto
  next
    case False
    from sp.release_law [OF p(2)] obtain m' where m': "sp_release m p = Inr m'" "sp_inv m' ?M"
      "\<forall>q \<in># ?M. sp_value m' q = sp_value m q" by blast
    let ?db = "db\<lparr>tables := ts, db_mem := m'\<rparr>"
    have c: "contents ts = catalogue db" using ts(3) False by auto
    have same: "\<forall>q \<in># ?M. sp_value m' q = sp_value (db_mem db) q" using m'(3) p(5) by simp
    have "db_inv ?db C" using ts(2) m'(2) d(3,4) same by (simp add: db_inv_def c)
    moreover have "table_of ?db = table_of db"
      using table_of_frame [OF fin same] by (simp add: table_of_def c)
    moreover have "createTable db name sc = Inr (False, ?db)"
      using name t(1) p(1) ts(1) m'(1) False by (auto simp: createTable_def)
    ultimately show ?thesis using False t same table_of_None [OF inv] by (intro exI [of _ ?db] exI [of _ t]) auto
  qed
qed

lemma getTable_spec:
  assumes inv: "db_inv db C"
  shows "case table_of db name of
      None \<Rightarrow> getTable db name = Inr (sp_null, db)
    | Some t \<Rightarrow> \<exists>p db'. getTable db name = Inr (p, db') \<and> catalogue db name = Some p \<and> p \<noteq> sp_null \<and>
        db_inv db' (add_mset p C) \<and> tables db' = tables db \<and> id_hash db' = id_hash db \<and>
        sp_value (db_mem db') p = Some t \<and> table_of db' = table_of db \<and>
        (\<forall>q \<in># C. sp_value (db_mem db') q = sp_value (db_mem db) q)"
proof (cases "catalogue db name")
  case None
  then show ?thesis
    using hm.fnd_None [OF db_invD(1) [OF inv] None] table_of_None [OF inv, of name] by (simp add: getTable_def)
next
  case (Some p)
  note d = db_invD [OF inv] and fin = hm.finite_cts [OF db_invD(1) [OF inv]]
  let ?M = "named (catalogue db) + C"
  have p: "p \<in># ?M" using Some named_iff [OF fin] by auto
  from sp.copy_law [OF d(2) p] obtain m where m: "sp_copy (db_mem db) p = Inr (p, m)" "sp_inv m (add_mset p ?M)"
    "\<forall>q \<in># ?M. sp_value m q = sp_value (db_mem db) q" by blast
  obtain t where t: "sp_value (db_mem db) p = Some t" using sp.val_law [OF d(2) p] by blast
  have null: "p \<noteq> sp_null" using t by (auto simp: sp_value_def sp_null_def)
  have "db_inv (db\<lparr>db_mem := m\<rparr>) (add_mset p C)"
    using d(1,3) m(2,3) d(4) p by (auto simp: db_inv_def)
  moreover have "getTable db name = Inr (p, db\<lparr>db_mem := m\<rparr>)"
    using hm.fnd_Some [OF d(1) Some] m(1) by (auto simp: getTable_def)
  ultimately show ?thesis
    using table_of_frame [OF fin m(3)] Some t m(3) p null by (auto simp: table_of_def)
qed

lemma drop_handle_spec:
  assumes inv: "db_inv db (add_mset p C)"
  shows "\<exists>db'. drop_handle db p = Inr db' \<and> db_inv db' C \<and> tables db' = tables db \<and> id_hash db' = id_hash db \<and>
    table_of db' = table_of db \<and> (\<forall>q \<in># C. sp_value (db_mem db') q = sp_value (db_mem db) q)"
proof -
  note d = db_invD [OF inv] and fin = hm.finite_cts [OF db_invD(1) [OF inv]]
  let ?M = "named (catalogue db) + C"
  from sp.release_law [of "db_mem db" p ?M] d(2) obtain m where
    m: "sp_release (db_mem db) p = Inr m" "sp_inv m ?M" "\<forall>q \<in># ?M. sp_value m q = sp_value (db_mem db) q" by auto
  have "db_inv (db\<lparr>db_mem := m\<rparr>) C" using d(1,3,4) m(2,3) by (auto simp: db_inv_def)
  with m table_of_frame [OF fin m(3)] show ?thesis by (simp add: drop_handle_def)
qed

lemma dropTable_spec:
  assumes inv: "db_inv db C"
  shows "\<exists>db'. dropTable db name = Inr (table_of db name \<noteq> None, db') \<and> db_inv db' C \<and> id_hash db' = id_hash db \<and>
    table_of db' = (table_of db)(name := None) \<and> (\<forall>q \<in># C. sp_value (db_mem db') q = sp_value (db_mem db) q)"
proof -
  note d = db_invD [OF inv] and fin = hm.finite_cts [OF db_invD(1) [OF inv]]
  from hm.era_law [OF d(1), of name] obtain ts where ts: "hm_erase (tables db) name = Inr (catalogue db name \<noteq> None, ts)"
    "hm_inv ts" "contents ts = (catalogue db)(name := None)" by blast
  have inj: "inj_on (contents ts) (dom (contents ts))" unfolding ts(3) using d(3) by (auto simp: inj_on_def dom_def)
  show ?thesis
  proof (cases "catalogue db name")
    case None
    then have c: "contents ts = catalogue db" using ts(3) by auto
    have "dropTable db name = Inr (False, db\<lparr>tables := ts\<rparr>)"
      using hm.fnd_None [OF d(1) None] ts(1) None by (simp add: dropTable_def)
    moreover have "db_inv (db\<lparr>tables := ts\<rparr>) C" using inv ts(2) by (simp add: db_inv_def c)
    moreover have "table_of (db\<lparr>tables := ts\<rparr>) = (table_of db)(name := None)"
      using None by (auto simp: table_of_def c)
    ultimately show ?thesis using None table_of_None [OF inv, of name] by simp
  next
    case (Some p)
    let ?M = "named (contents ts) + C"
    have "named (catalogue db) + C = add_mset p ?M" using named_split [OF fin Some] ts(3) by simp
    with sp.release_law [of "db_mem db" p ?M] d(2) obtain m where
      m: "sp_release (db_mem db) p = Inr m" "sp_inv m ?M" "\<forall>q \<in># ?M. sp_value m q = sp_value (db_mem db) q" by auto
    let ?db = "db\<lparr>tables := ts, db_mem := m\<rparr>"
    have "dropTable db name = Inr (True, ?db)"
      using hm.fnd_Some [OF d(1) Some] ts(1) Some m(1) by (auto simp: dropTable_def)
    moreover have "\<forall>q \<in># ?M. q \<in># named (catalogue db) + C" using named_split [OF fin Some] ts(3) by auto
    then have "db_inv ?db C" using ts(2) inj m(2,3) d(4) by (auto simp: db_inv_def)
    moreover have "table_of ?db = (table_of db)(name := None)"
    proof
      fix n
      have "finite (dom (contents ts))" using hm.finite_cts [OF ts(2)] .
      then have "sp_value m q = sp_value (db_mem db) q" if "contents ts n = Some q" for q
        using that m(3) named_iff [of "contents ts" q] by auto
      then show "table_of ?db n = ((table_of db)(name := None)) n"
        by (cases "catalogue db n") (auto simp: table_of_def ts(3))
    qed
    ultimately show ?thesis using m(3) Some table_of_None [OF inv, of name] by (intro exI [of _ ?db]) simp
  qed
qed

lemma store_handle_spec:
  assumes inv: "db_inv db C" and p: "p \<in># C" and t: "tbl_inv t"
  shows "\<exists>m. sp_store (db_mem db) p t = Inr m \<and> db_inv (db\<lparr>db_mem := m\<rparr>) C \<and> sp_value m p = Some t \<and>
    (\<forall>n. table_of (db\<lparr>db_mem := m\<rparr>) n = (if catalogue db n = Some p then Some t else table_of db n)) \<and>
    (\<forall>q \<in># C. q \<noteq> p \<longrightarrow> sp_value m q = sp_value (db_mem db) q)"
proof -
  note d = db_invD [OF inv] and fin = hm.finite_cts [OF db_invD(1) [OF inv]]
  from sp.store_law [OF d(2), of p t] p obtain m where m: "sp_store (db_mem db) p t = Inr m"
    "sp_inv m (named (catalogue db) + C)" "sp_value m p = Some t"
    "\<forall>q \<in># named (catalogue db) + C. q \<noteq> p \<longrightarrow> sp_value m q = sp_value (db_mem db) q" by auto
  have "tbl_inv u" if "q \<in># named (catalogue db) + C" "sp_value m q = Some u" for q u
    using that m(3,4) t d(4) [OF that(1)] by (cases "q = p") auto
  then have "db_inv (db\<lparr>db_mem := m\<rparr>) C" using d(1,3) m(2) by (auto simp: db_inv_def)
  moreover have "table_of (db\<lparr>db_mem := m\<rparr>) n = (if catalogue db n = Some p then Some t else table_of db n)" for n
    using m(3,4) named_iff [OF fin] by (cases "catalogue db n") (auto simp: table_of_def)
  ultimately show ?thesis using m by auto
qed

lemma tableNames_spec:
  assumes inv: "db_inv db C"
  shows "tableNames db = Inr (sorted_list_of_set (dom (table_of db)))" "tableCount db = card (dom (table_of db))"
proof -
  from hm.each_law [OF db_invD(1) [OF inv]] obtain ps where ps: "hm_forEach (tables db) = Inr ps"
    "distinct (map fst ps)" "map_of ps = catalogue db" by blast
  have "dom (catalogue db) = set (map fst ps)" by (simp add: ps(3) [symmetric] dom_map_of_conv_image_fst)
  with ps(2) have "sort (map fst ps) = sorted_list_of_set (dom (catalogue db))"
    by (simp only: sorted_list_of_set_sort_remdups distinct_remdups_id)
  with ps(1) dom_table_of [OF inv] show "tableNames db = Inr (sorted_list_of_set (dom (table_of db)))"
    by (simp add: tableNames_def)
  show "tableCount db = card (dom (table_of db))"
    using hm.size_law [OF db_invD(1) [OF inv]] dom_table_of [OF inv] by (simp add: tableCount_def)
qed

end
