(* ===== verification/Step_System.thy ===== *)
theory Step_System
  imports Main
begin

text \<open>
  Systems of interleaved steps: the states that can be reached from an initial one, and the two
  ways the components use them, an invariant that every step keeps and a simulation of the runs
  by the runs of an abstract system.
\<close>

inductive reachable :: "('s \<Rightarrow> bool) \<Rightarrow> ('s \<Rightarrow> 's \<Rightarrow> bool) \<Rightarrow> 's \<Rightarrow> bool" for init step where
  reach_init: "init s \<Longrightarrow> reachable init step s"
| reach_step: "reachable init step s \<Longrightarrow> step s t \<Longrightarrow> reachable init step t"

locale inductive_invariant =
  fixes init :: "'s \<Rightarrow> bool" and step :: "'s \<Rightarrow> 's \<Rightarrow> bool" and inv :: "'s \<Rightarrow> bool"
  assumes inv_init: "init s \<Longrightarrow> inv s"
    and inv_step: "inv s \<Longrightarrow> step s t \<Longrightarrow> inv t"
begin

lemma reachable_inv: "reachable init step s \<Longrightarrow> inv s"
  by (induction rule: reachable.induct) (auto intro: inv_init inv_step)

end

text \<open>
  Steps with the events they show to the outside, and the runs of such a system with the events
  so far. In a forward simulation every step is matched by an abstract step with the same events,
  or shows nothing and is matched by none: the runs then show only what abstract runs show.
\<close>

inductive run_of :: "('s \<Rightarrow> bool) \<Rightarrow> ('s \<Rightarrow> 'e list \<Rightarrow> 's \<Rightarrow> bool) \<Rightarrow> 's \<Rightarrow> 'e list \<Rightarrow> bool"
  for init step where
  run_init: "init s \<Longrightarrow> run_of init step s []"
| run_step: "run_of init step s es \<Longrightarrow> step s e t \<Longrightarrow> run_of init step t (es @ e)"

text \<open>An invariant of a state and the events that led to it.\<close>

locale history_invariant =
  fixes init :: "'s \<Rightarrow> bool" and step :: "'s \<Rightarrow> 'e list \<Rightarrow> 's \<Rightarrow> bool" and good :: "'s \<Rightarrow> 'e list \<Rightarrow> bool"
  assumes good_init: "init s \<Longrightarrow> good s []"
    and good_step: "good s es \<Longrightarrow> step s e t \<Longrightarrow> good t (es @ e)"
begin

lemma run_good: "run_of init step s es \<Longrightarrow> good s es"
  by (induction rule: run_of.induct) (auto intro: good_init good_step)

end

locale forward_simulation =
  fixes init :: "'s \<Rightarrow> bool" and step :: "'s \<Rightarrow> 'e list \<Rightarrow> 's \<Rightarrow> bool"
    and a_init :: "'a \<Rightarrow> bool" and a_step :: "'a \<Rightarrow> 'e list \<Rightarrow> 'a \<Rightarrow> bool"
    and sim :: "'s \<Rightarrow> 'a \<Rightarrow> bool"
  assumes sim_init: "init s \<Longrightarrow> \<exists>a. a_init a \<and> sim s a"
    and sim_step: "sim s a \<Longrightarrow> step s e t \<Longrightarrow> \<exists>b. sim t b \<and> (a_step a e b \<or> e = [] \<and> b = a)"
begin

lemma run_simulated: "run_of init step s es \<Longrightarrow> \<exists>a. run_of a_init a_step a es \<and> sim s a"
proof (induction rule: run_of.induct)
  case (run_init s)
  then show ?case using sim_init by (blast intro: run_of.run_init)
next
  case (run_step s es e t)
  then obtain a where a: "run_of a_init a_step a es" "sim s a" by blast
  from sim_step [OF a(2) run_step(2)] obtain b where "sim t b" "a_step a e b \<or> e = [] \<and> b = a" by blast
  with a(1) show ?case using run_of.run_step [OF a(1)] by fastforce
qed

end

end
