(* ===== verification/Database_Handles.thy ===== *)
theory Database_Handles
  imports Database_Spec Table_Props Step_System
begin

text \<open>
  Clients of the catalogue that run side by side: each may create and drop tables, fetch handles,
  call members of a table through a handle it holds, and let handles go. The steps interleave in
  any order, so a table may lose its name while others still work on it.
\<close>

type_synonym db_clients = "database \<times> SharedPtr multiset"

inductive db_step :: "db_clients \<Rightarrow> db_clients \<Rightarrow> bool" where
  step_create: "schema_wf sc \<Longrightarrow> createTable db name sc = Inr (b, db') \<Longrightarrow> db_step (db, C) (db', C)"
| step_drop: "dropTable db name = Inr (b, db') \<Longrightarrow> db_step (db, C) (db', C)"
| step_get: "getTable db name = Inr (p, db') \<Longrightarrow> db_step (db, C) (db', owner p + C)"
| step_use: "p \<in># C \<Longrightarrow> sp_deref (db_mem db) p = Inr t \<Longrightarrow> op_wf x \<Longrightarrow> table_step x t = Inr (a, t') \<Longrightarrow>
    sp_store (db_mem db) p t' = Inr m \<Longrightarrow> db_step (db, C) (db\<lparr>db_mem := m\<rparr>, C)"
| step_release: "p \<in># C \<Longrightarrow> drop_handle db p = Inr db' \<Longrightarrow> db_step (db, C) (db', C - {#p#})"

definition db_start :: "db_clients \<Rightarrow> bool" where
  "db_start s \<longleftrightarrow> (\<exists>hs hi. s = (new_database hs hi, {#}))"

definition clients_ok :: "db_clients \<Rightarrow> bool" where
  "clients_ok s \<longleftrightarrow> db_inv (fst s) (snd s)"

lemma createTable_inv:
  assumes inv: "db_inv db C" and sc: "schema_wf sc" and r: "createTable db name sc = Inr (b, db')"
  shows "db_inv db' C"
proof -
  have "name \<noteq> []" using r by (auto simp: createTable_def)
  moreover have "id_schema sc"
  proof (rule ccontr)
    assume "\<not> id_schema sc"
    from new_table_rejects [OF sc this, of kDefaultCacheCapacity "id_hash db"] r \<open>name \<noteq> []\<close> show False
      by (simp add: createTable_def kDefaultCacheCapacity_def)
  qed
  ultimately show ?thesis using createTable_spec [OF inv, of name sc] r by auto
qed

lemma handle_deref:
  assumes inv: "db_inv db C" and p: "p \<in># C"
  obtains t where "sp_deref (db_mem db) p = Inr t" "tbl_inv t" "sp_value (db_mem db) p = Some t"
proof -
  have "p \<in># named (catalogue db) + C" using p by simp
  with sp.val_law [OF db_invD(2) [OF inv]] db_invD(4) [OF inv] obtain t where
    t: "sp_value (db_mem db) p = Some t" "tbl_inv t" by blast
  then have "sp_deref (db_mem db) p = Inr t"
    by (auto simp: sp_deref_def sp_value_def bind_eq_Some_conv)
  with t that show ?thesis by blast
qed

interpretation clients: inductive_invariant db_start db_step clients_ok
proof
  fix s assume "db_start s"
  then show "clients_ok s" using new_database_inv(1) by (auto simp: db_start_def clients_ok_def)
next
  fix s t assume ok: "clients_ok s" and step: "db_step s t"
  from step ok show "clients_ok t"
  proof cases
    case (step_create sc db name b db' C)
    with ok createTable_inv show ?thesis by (simp add: clients_ok_def)
  next
    case (step_drop db name b db' C)
    with ok dropTable_spec [of db C name] show ?thesis by (auto simp: clients_ok_def)
  next
    case (step_get db name p db' C)
    with ok getTable_spec [of db C name] show ?thesis
      by (auto simp: clients_ok_def owner_def split: option.splits)
  next
    case (step_use p C db u x a u' m)
    then have inv: "db_inv db C" using ok by (simp add: clients_ok_def)
    from inv step_use(3) obtain v where v: "sp_deref (db_mem db) p = Inr v" "tbl_inv v" by (rule handle_deref)
    with step_use(4-6) table_step_spec [of u x] have "tbl_inv u'" by auto
    from store_handle_spec [OF inv step_use(3) this] step_use show ?thesis by (auto simp: clients_ok_def)
  next
    case (step_release p C db db')
    then have "db_inv db (add_mset p (C - {#p#}))" using ok by (simp add: clients_ok_def)
    with drop_handle_spec [OF this] step_release show ?thesis by (auto simp: clients_ok_def)
  qed
qed

lemma ran_named: "finite (dom c) \<Longrightarrow> set_mset (named c) = ran c"
  by (auto simp: named_iff ran_def)


text \<open>A handle fetched from a table that is dropped afterwards.\<close>

lemma dropped_while_held:
  "\<exists>db p. reachable db_start db_step (db, {#p#}) \<and> table_of db ''t'' = None"
proof -
  let ?db0 = "new_database (\<lambda>_. 0) (\<lambda>_. 0)"
  note inv0 = new_database_inv(1) [of "\<lambda>_. 0" "\<lambda>_. 0"] and t0 = new_database_inv(2) [of "\<lambda>_. 0" "\<lambda>_. 0"]
  have r0: "reachable db_start db_step (?db0, {#})"
    by (rule reach_init) (auto simp: db_start_def)
  from createTable_spec [OF inv0, of "''t''" demo_schema] demo_schema_ok t0 obtain db1 t where
    db1: "createTable ?db0 ''t'' demo_schema = Inr (True, db1)" "db_inv db1 {#}" "table_of db1 = [''t'' \<mapsto> t]" by auto
  have "schema_wf demo_schema" using demo_schema_ok by (simp add: id_schema_def)
  from reach_step [OF r0 step_create [OF this db1(1)]] have r1: "reachable db_start db_step (db1, {#})" .
  from getTable_spec [OF db1(2), of "''t''"] db1(3) obtain p db2 where
    db2: "getTable db1 ''t'' = Inr (p, db2)" "p \<noteq> sp_null" "db_inv db2 {#p#}" by auto
  from reach_step [OF r1 step_get [OF db2(1)]] db2(2) have r2: "reachable db_start db_step (db2, {#p#})"
    by (simp add: owner_def)
  from dropTable_spec [OF db2(3), of "''t''"] obtain b db3 where
    db3: "dropTable db2 ''t'' = Inr (b, db3)" "table_of db3 = (table_of db2)(''t'' := None)" by blast
  from reach_step [OF r2 step_drop [OF db3(1)]] db3(2) show ?thesis by auto
qed


end
