(* ===== verification/QueryExecutor.thy ===== *)
theory QueryExecutor
  imports Database Parser
begin

text \<open>
  The executor of \<^verbatim>\<open>include/query/QueryExecutor.hpp\<close> and \<^verbatim>\<open>src/query/query_executor.cpp\<close>. Reading
  through the index changes the cache of a table, so a statement that throws may still have
  changed the table: such computations return the result, an exception included, beside the new
  state. A handle on a table is released when its statement ends, by return or by exception.
\<close>

section \<open>Predicates\<close>

definition parseInt :: "string \<Rightarrow> int64" where
  "parseInt raw = snd (snd (from_chars raw (of_int64 0)))"

fun applyOp :: "CompareOp \<Rightarrow> int \<Rightarrow> bool" where
  "applyOp EQ cmp \<longleftrightarrow> cmp = 0"
| "applyOp NE cmp \<longleftrightarrow> cmp \<noteq> 0"
| "applyOp LT cmp \<longleftrightarrow> cmp < 0"
| "applyOp LE cmp \<longleftrightarrow> cmp \<le> 0"
| "applyOp GT cmp \<longleftrightarrow> cmp > 0"
| "applyOp GE cmp \<longleftrightarrow> cmp \<ge> 0"

text \<open>\<^verbatim>\<open>std::string::compare\<close>: lexicographic on unsigned bytes; the callers use the sign only.\<close>

definition string_compare :: "string \<Rightarrow> string \<Rightarrow> int" where
  "string_compare a b = (if a < b then -1 else if b < a then 1 else 0)"

definition makePredicate :: "Schema \<Rightarrow> WhereClause \<Rightarrow> predicate result" where
  "makePredicate sc w =
     (case findColumn sc (wc_column w) of
        None \<Rightarrow> Inl (Query_error (''no such column '' @ quoted (wc_column w)))
      | Some column \<Rightarrow>
          if \<not> isValidValueFor (col_type column) (wc_value w)
          then Inl (Query_error (''column '' @ quoted (wc_column w) @ '' is '' @
                 toString_DataType (col_type column) @ '', got '' @ quoted (wc_value w)))
          else if col_type column = DT_INT
          then (let expected = parseInt (wc_value w) in
            Inr (\<lambda>row. bind_result (row_getInt row (wc_column w)) (\<lambda>actual.
              Inr (applyOp (wc_op w) (if actual < expected then -1 else if actual > expected then 1 else 0)))))
          else Inr (\<lambda>row. bind_result (row_get row (wc_column w)) (\<lambda>s.
              let raw = string_compare s (wc_value w) in
              Inr (applyOp (wc_op w) (if raw < 0 then -1 else if raw > 0 then 1 else 0)))))"

fun all_hold :: "predicate list \<Rightarrow> predicate" where
  "all_hold [] row = Inr True"
| "all_hold (p # ps) row = bind_result (p row) (\<lambda>b. if \<not> b then Inr False else all_hold ps row)"

definition makeConjunction :: "Schema \<Rightarrow> WhereList \<Rightarrow> predicate result" where
  "makeConjunction sc conditions =
     bind_result (map_result (makePredicate sc) conditions) (\<lambda>ps. Inr (all_hold ps))"

section \<open>Fetching rows\<close>

definition isIndexableIdClause :: "WhereClause \<Rightarrow> bool" where
  "isIndexableIdClause w \<longleftrightarrow> wc_column w = kIdColumn \<and> wc_op w \<noteq> NE"

definition rowsByIdClause :: "table \<Rightarrow> WhereClause \<Rightarrow> (Row list \<times> table) result" where
  "rowsByIdClause t w =
     (if \<not> isValidValueFor DT_INT (wc_value w)
      then Inl (Query_error (''column '' @ quoted ''id'' @ '' is INT, got '' @ quoted (wc_value w)))
      else let v = parseInt (wc_value w) in
        case wc_op w of
          EQ \<Rightarrow> bind_result (findById t v) (\<lambda>(row, t').
            Inr (case row of Some r \<Rightarrow> [r] | None \<Rightarrow> [], t'))
        | LT \<Rightarrow> if v = int64_min then Inr ([], t)
            else bind_result (selectIdRange t int64_min (int64_pred v)) (\<lambda>rs. Inr (rs, t))
        | LE \<Rightarrow> bind_result (selectIdRange t int64_min v) (\<lambda>rs. Inr (rs, t))
        | GT \<Rightarrow> if v = int64_max then Inr ([], t)
            else bind_result (selectIdRange t (int64_succ v) int64_max) (\<lambda>rs. Inr (rs, t))
        | GE \<Rightarrow> bind_result (selectIdRange t v int64_max) (\<lambda>rs. Inr (rs, t))
        | NE \<Rightarrow> Inl (Query_error ''internal: unindexable id clause''))"

text \<open>The loop that keeps the candidates on which the predicate holds.\<close>

fun keep_rows :: "predicate \<Rightarrow> Row list \<Rightarrow> Row list result" where
  "keep_rows p [] = Inr []"
| "keep_rows p (r # rs) =
     bind_result (p r) (\<lambda>b. bind_result (keep_rows p rs) (\<lambda>ks. Inr (if b then r # ks else ks)))"

text \<open>\<^verbatim>\<open>std::find_if\<close> splits the clauses at the first indexable one; the others are the rest.\<close>

definition fetchRows :: "table \<Rightarrow> WhereList \<Rightarrow> Row list result \<times> table" where
  "fetchRows t ws =
     (if ws = [] then (selectAll t, t)
      else case dropWhile (\<lambda>w. \<not> isIndexableIdClause w) ws of
        [] \<Rightarrow> (bind_result (makeConjunction (tbl_schema t) ws) (selectWhere t), t)
      | indexable # after \<Rightarrow>
          (case rowsByIdClause t indexable of
             Inl e \<Rightarrow> (Inl e, t)
           | Inr (candidates, t') \<Rightarrow>
               let rest = takeWhile (\<lambda>w. \<not> isIndexableIdClause w) ws @ after in
               if rest = [] then (Inr candidates, t')
               else (bind_result (makeConjunction (tbl_schema t') rest) (\<lambda>p. keep_rows p candidates), t')))"

section \<open>Replies\<close>

text \<open>The projection loop, from column number \<open>i\<close> on.\<close>

fun format_columns :: "Row \<Rightarrow> string list \<Rightarrow> nat \<Rightarrow> string result" where
  "format_columns row [] i = Inr []"
| "format_columns row (c # cs) i =
     bind_result (row_get row c) (\<lambda>s.
     bind_result (format_columns row cs (Suc i)) (\<lambda>rest.
       Inr ((if 0 < i then '', '' else []) @ c @ ''='' @ s @ rest)))"

definition formatRow :: "Row \<Rightarrow> string list \<Rightarrow> string result" where
  "formatRow row cols = (if cols = [] then Inr (print_row row) else format_columns row cols 0)"

definition rowsSuffix :: "nat \<Rightarrow> string" where
  "rowsSuffix n = to_string_size n @ (if n = 1 then '' row'' else '' rows'')"

fun format_rows :: "Row list \<Rightarrow> string list \<Rightarrow> string result" where
  "format_rows [] cols = Inr []"
| "format_rows (r # rs) cols =
     bind_result (formatRow r cols) (\<lambda>s. bind_result (format_rows rs cols) (\<lambda>rest. Inr (s @ [CHR 0x0A] @ rest)))"

section \<open>Statements\<close>

text \<open>The handle of \<^verbatim>\<open>tableOrThrow\<close>; the destructor of the empty handle has nothing to release.\<close>

definition tableOrThrow :: "database \<Rightarrow> string \<Rightarrow> (SharedPtr \<times> database) result" where
  "tableOrThrow db name =
     bind_result (getTable db name) (\<lambda>(p, db').
       if sp_ptr p = None then Inl (Query_error (''no such table '' @ quoted name)) else Inr (p, db'))"

text \<open>A statement on one table: fetch the handle, run the body on the table it refers to, release it.\<close>

definition with_table :: "database \<Rightarrow> string \<Rightarrow> (table \<Rightarrow> 'a result \<times> table) \<Rightarrow> 'a result \<times> database" where
  "with_table db name body =
     (case tableOrThrow db name of
        Inl e \<Rightarrow> (Inl e, db)
      | Inr (p, db1) \<Rightarrow>
          (case sp_deref (db_mem db1) p of
             Inl e \<Rightarrow> (Inl e, db1)
           | Inr t \<Rightarrow>
               let (r, t') = body t in
               (case bind_result (sp_store (db_mem db1) p t') (\<lambda>m. drop_handle (db1\<lparr>db_mem := m\<rparr>) p) of
                  Inl e \<Rightarrow> (Inl e, db1)
                | Inr db2 \<Rightarrow> (r, db2))))"

text \<open>A member of the table that returns a value: if it throws, the table is as it was.\<close>

definition on_table :: "table \<Rightarrow> ('a \<times> table) result \<Rightarrow> ('a \<Rightarrow> 'b result) \<Rightarrow> 'b result \<times> table" where
  "on_table t r f = (case r of Inl e \<Rightarrow> (Inl e, t) | Inr (x, t') \<Rightarrow> (f x, t'))"

fun add_columns :: "ColumnDef list \<Rightarrow> Schema \<Rightarrow> Schema result" where
  "add_columns [] sc = Inr sc"
| "add_columns (d # ds) sc = bind_result (addColumn sc (cd_name d) (cd_type d)) (add_columns ds)"

definition run_create :: "database \<Rightarrow> string \<Rightarrow> ColumnDef list \<Rightarrow> string result \<times> database" where
  "run_create db table cols =
     (case add_columns cols empty_schema of
        Inl e \<Rightarrow> (Inl e, db)
      | Inr sc \<Rightarrow>
          (case createTable db table sc of
             Inl e \<Rightarrow> (Inl e, db)
           | Inr (created, db') \<Rightarrow>
               (if \<not> created then Inl (Query_error (''table '' @ quoted table @ '' already exists''))
                else Inr ''OK'', db')))"

definition run_drop :: "database \<Rightarrow> string \<Rightarrow> string result \<times> database" where
  "run_drop db table =
     (case dropTable db table of
        Inl e \<Rightarrow> (Inl e, db)
      | Inr (dropped, db') \<Rightarrow>
          (if \<not> dropped then Inl (Query_error (''no such table '' @ quoted table)) else Inr ''OK'', db'))"

text \<open>The loop over \<^verbatim>\<open>stmt.columns\<close>, which reads \<^verbatim>\<open>stmt.values\<close> at the same index unchecked.\<close>

fun set_columns :: "string list \<Rightarrow> string list \<Rightarrow> Row \<Rightarrow> Row result" where
  "set_columns [] vs row = Inr row"
| "set_columns (c # cs) [] row = Inl Undefined_behaviour"
| "set_columns (c # cs) (v # vs) row = bind_result (row_set row c v) (set_columns cs vs)"

text \<open>
  Each statement on a table is what it does with the table once it has the handle, and then the whole: it
  calls one member that takes the lock of the table, and the rest reads the schema, which never changes.
\<close>

definition insert_body :: "string \<Rightarrow> string list \<Rightarrow> string list \<Rightarrow> table \<Rightarrow> string result \<times> table" where
  "insert_body table cols literals t =
      (case bind_result (makeRow t) (\<lambda>row0.
            bind_result (set_columns cols literals row0) (\<lambda>row.
            bind_result (row_getInt row kIdColumn) (\<lambda>i. Inr (row, i)))) of
         Inl e \<Rightarrow> (Inl e, t)
       | Inr (row, i) \<Rightarrow>
           on_table t (table_insert t row) (\<lambda>inserted.
             if \<not> inserted
             then Inl (Query_error (''duplicate id '' @ to_string_int64 i @ '' in table '' @ quoted table))
             else Inr ''OK''))"

definition run_insert :: "database \<Rightarrow> string \<Rightarrow> string list \<Rightarrow> string list \<Rightarrow> string result \<times> database" where
  "run_insert db table cols literals = with_table db table (insert_body table cols literals)"

definition select_body :: "string list \<Rightarrow> WhereList \<Rightarrow> table \<Rightarrow> string result \<times> table" where
  "select_body cols ws t =
      (case find (\<lambda>c. \<not> hasColumn (tbl_schema t) c) cols of
         Some c \<Rightarrow> (Inl (Query_error (''no such column '' @ quoted c)), t)
       | None \<Rightarrow>
           (let (fetched, t') = fetchRows t ws in
            (bind_result fetched (\<lambda>rows.
               if rows = [] then Inr ''(0 rows)''
               else bind_result (format_rows rows cols) (\<lambda>s.
                 Inr (s @ ''('' @ rowsSuffix (length rows) @ '')''))), t')))"

definition run_select :: "database \<Rightarrow> string \<Rightarrow> string list \<Rightarrow> WhereList \<Rightarrow> string result \<times> database" where
  "run_select db table cols ws = with_table db table (select_body cols ws)"

text \<open>\<^verbatim>\<open>catch (const std::invalid_argument& e) { throw QueryError(e.what()); }\<close>\<close>

fun rethrown :: "'a result \<Rightarrow> 'a result" where
  "rethrown (Inl (Invalid_argument msg)) = Inl (Query_error msg)"
| "rethrown r = r"

definition update_body :: "(string \<times> string) list \<Rightarrow> WhereList \<Rightarrow> table \<Rightarrow> string result \<times> table" where
  "update_body sets ws t =
      (case (if ws = [] then Inr (\<lambda>_. Inr True) else makeConjunction (tbl_schema t) ws) of
         Inl e \<Rightarrow> (Inl e, t)
       | Inr p \<Rightarrow>
           on_table t (rethrown (updateWhere t p sets)) (\<lambda>updated.
             Inr (''OK ('' @ rowsSuffix updated @ '' updated)'')))"

definition run_update ::
    "database \<Rightarrow> string \<Rightarrow> (string \<times> string) list \<Rightarrow> WhereList \<Rightarrow> string result \<times> database" where
  "run_update db table sets ws = with_table db table (update_body sets ws)"

definition delete_body :: "WhereList \<Rightarrow> table \<Rightarrow> string result \<times> table" where
  "delete_body ws t =
      (let reply = (\<lambda>deleted. Inr (''OK ('' @ rowsSuffix deleted @ '' deleted)'')) in
       if length ws = 1 \<and> wc_column (hd ws) = kIdColumn \<and> wc_op (hd ws) = EQ \<and>
          isValidValueFor DT_INT (wc_value (hd ws))
       then on_table t (deleteById t (parseInt (wc_value (hd ws)))) (\<lambda>b. reply (if b then 1 else 0))
       else if ws \<noteq> []
       then (case makeConjunction (tbl_schema t) ws of
               Inl e \<Rightarrow> (Inl e, t)
             | Inr p \<Rightarrow> on_table t (deleteWhere t p) reply)
       else on_table t (deleteWhere t (\<lambda>_. Inr True)) reply)"

definition run_delete :: "database \<Rightarrow> string \<Rightarrow> WhereList \<Rightarrow> string result \<times> database" where
  "run_delete db table ws = with_table db table (delete_body ws)"

fun run :: "database \<Rightarrow> Statement \<Rightarrow> string result \<times> database" where
  "run db (CreateTableStatement table cols) = run_create db table cols"
| "run db (DropTableStatement table) = run_drop db table"
| "run db (InsertStatement table cols literals) = run_insert db table cols literals"
| "run db (SelectStatement table cols ws) = run_select db table cols ws"
| "run db (UpdateStatement table sets ws) = run_update db table sets ws"
| "run db (DeleteStatement table ws) = run_delete db table ws"

section \<open>Queries\<close>

text \<open>\<^verbatim>\<open>what()\<close> of the exceptions, and the handlers of \<^verbatim>\<open>execute\<close>, which catch every one of them.\<close>

fun what :: "exn \<Rightarrow> string" where
  "what (Invalid_argument msg) = msg"
| "what (Out_of_range msg) = msg"
| "what (Query_error msg) = msg"
| "what (Runtime_error msg) = msg"
| "what Bad_variant_access = ''bad_variant_access''"
| "what Bad_alloc = ''std::bad_alloc''"
| "what Undefined_behaviour = []"
| "what Nontermination = []"

definition caught :: "exn \<Rightarrow> database \<Rightarrow> (string \<times> database) result" where
  "caught e db =
     (if e = Undefined_behaviour \<or> e = Nontermination then Inl e else Inr (''ERROR: '' @ what e, db))"

definition execute :: "database \<Rightarrow> string \<Rightarrow> (string \<times> database) result" where
  "execute db query =
     (case bind_result (tokenize query) parse of
        Inl e \<Rightarrow> caught e db
      | Inr statement \<Rightarrow>
          (case run db statement of
             (Inl e, db') \<Rightarrow> caught e db'
           | (Inr reply, db') \<Rightarrow> Inr (reply, db')))"

end
