(* ===== verification/Where_Spec.thy ===== *)
theory Where_Spec
  imports QueryExecutor Table_Spec
begin

text \<open>
  What a WHERE clause means on a stored row, and that the executor's ways to evaluate it agree:
  the compiled predicate, their conjunction, and the lookups through the index on the primary
  key. The printing of the rows is the other half of a SELECT.
\<close>

section \<open>Meaning of a clause\<close>

fun cmp_holds :: "CompareOp \<Rightarrow> 'a::linorder \<Rightarrow> 'a \<Rightarrow> bool" where
  "cmp_holds EQ a b \<longleftrightarrow> a = b"
| "cmp_holds NE a b \<longleftrightarrow> a \<noteq> b"
| "cmp_holds LT a b \<longleftrightarrow> a < b"
| "cmp_holds LE a b \<longleftrightarrow> a \<le> b"
| "cmp_holds GT a b \<longleftrightarrow> b < a"
| "cmp_holds GE a b \<longleftrightarrow> b \<le> a"

definition clause_ok :: "Schema \<Rightarrow> WhereClause \<Rightarrow> bool" where
  "clause_ok sc w \<longleftrightarrow>
     (case findColumn sc (wc_column w) of Some c \<Rightarrow> isValidValueFor (col_type c) (wc_value w) | None \<Rightarrow> False)"

text \<open>Integers are compared as integers, texts byte by byte.\<close>

definition clause_holds :: "WhereClause \<Rightarrow> Row \<Rightarrow> bool" where
  "clause_holds w r =
     (case row_value r (wc_column w) of
        Inr (VInt n) \<Rightarrow> cmp_holds (wc_op w) n (parseInt (wc_value w))
      | Inr (VText s) \<Rightarrow> cmp_holds (wc_op w) s (wc_value w)
      | Inl _ \<Rightarrow> False)"

definition where_holds :: "WhereList \<Rightarrow> Row \<Rightarrow> bool" where
  "where_holds ws r \<longleftrightarrow> (\<forall>w \<in> set ws. clause_holds w r)"

lemma applyOp_cmp:
  fixes a b :: "'a::linorder"
  shows "applyOp op (if a < b then -1 else if a > b then 1 else 0) = cmp_holds op a b"
  by (cases op) auto

lemma applyOp_string:
  "applyOp op (if string_compare a b < 0 then -1 else if string_compare a b > 0 then 1 else 0) = cmp_holds op a b"
  using applyOp_cmp [of op a b] by (cases a b rule: linorder_cases) (auto simp: string_compare_def)

section \<open>Compiled predicates\<close>

lemma stored_value:
  assumes "stored_ok sc (i, r)" and "findColumn sc c = Some col"
  obtains v where "row_value r c = Inr v" "value_has_type v (col_type col)"
proof -
  have r: "row_wf r" "isComplete r" "row_schema r = sc" using assms(1) by (simp_all add: stored_ok_def)
  have "hasColumn (row_schema r) c" using assms(2) r(3) by (simp add: hasColumn_def)
  with r obtain v where v: "row_value r c = Inr v" by (auto elim: isComplete_value)
  from r(1) v obtain col' where "findColumn (row_schema r) c = Some col'" "value_has_type v (col_type col')"
    by (rule row_value_typed)
  with v that assms(2) r(3) show ?thesis by simp
qed

lemma stored_int:
  assumes "stored_ok sc (i, r)" and "findColumn sc c = Some col" and "col_type col = DT_INT"
  obtains n where "row_value r c = Inr (VInt n)" "row_getInt r c = Inr n"
proof -
  from assms(1,2) obtain v where v: "row_value r c = Inr v" "value_has_type v (col_type col)" by (rule stored_value)
  then obtain n where n: "v = VInt n" using assms(3) by (cases v) (auto simp: value_has_type_def)
  have "row_wf r" using assms(1) by (simp add: stored_ok_def)
  with v n that show ?thesis by (simp add: row_getInt_Inr_iff)
qed

lemma stored_text:
  assumes "stored_ok sc (i, r)" and "findColumn sc c = Some col" and "col_type col = DT_TEXT"
  obtains s where "row_value r c = Inr (VText s)" "row_get r c = Inr s"
proof -
  from assms(1,2) obtain v where v: "row_value r c = Inr v" "value_has_type v (col_type col)" by (rule stored_value)
  then obtain s where "v = VText s" using assms(3) by (cases v) (auto simp: value_has_type_def)
  with v that show ?thesis by (simp add: row_get_def)
qed

lemma makePredicate_ok:
  assumes "clause_ok sc w"
  shows "\<exists>p. makePredicate sc w = Inr p \<and> (\<forall>i r. stored_ok sc (i, r) \<longrightarrow> p r = Inr (clause_holds w r))"
proof -
  from assms obtain col where col: "findColumn sc (wc_column w) = Some col" "isValidValueFor (col_type col) (wc_value w)"
    by (auto simp: clause_ok_def split: option.splits)
  show ?thesis
  proof (cases "col_type col")
    case DT_INT
    let ?v = "parseInt (wc_value w)"
    let ?p = "\<lambda>row. bind_result (row_getInt row (wc_column w)) (\<lambda>actual.
      Inr (applyOp (wc_op w) (if actual < ?v then -1 else if actual > ?v then 1 else 0)))"
    have "?p r = Inr (clause_holds w r)" if "stored_ok sc (i, r)" for i r
      using that col(1) DT_INT by (rule stored_int) (simp add: clause_holds_def applyOp_cmp)
    moreover have "makePredicate sc w = Inr ?p" using col DT_INT by (simp add: makePredicate_def Let_def)
    ultimately show ?thesis by blast
  next
    case DT_TEXT
    let ?p = "\<lambda>row. bind_result (row_get row (wc_column w)) (\<lambda>s.
      Inr (applyOp (wc_op w) (if string_compare s (wc_value w) < 0 then -1
        else if string_compare s (wc_value w) > 0 then 1 else 0)))"
    have "?p r = Inr (clause_holds w r)" if "stored_ok sc (i, r)" for i r
      using that col(1) DT_TEXT by (rule stored_text) (simp add: clause_holds_def applyOp_string)
    moreover have "makePredicate sc w = Inr ?p" using col DT_TEXT by (simp add: makePredicate_def Let_def)
    ultimately show ?thesis by blast
  qed
qed

lemma makePredicate_bad: "\<not> clause_ok sc w \<Longrightarrow> \<exists>msg. makePredicate sc w = Inl (Query_error msg)"
  by (auto simp: makePredicate_def clause_ok_def split: option.splits)

lemma all_hold_ok:
  "list_all2 (\<lambda>p w. p r = Inr (clause_holds w r)) ps ws \<Longrightarrow> all_hold ps r = Inr (where_holds ws r)"
  by (induction ps ws rule: list_all2_induct) (auto simp: where_holds_def)

lemma makeConjunction_ok:
  assumes "\<forall>w \<in> set ws. clause_ok sc w"
  shows "\<exists>p. makeConjunction sc ws = Inr p \<and> (\<forall>i r. stored_ok sc (i, r) \<longrightarrow> p r = Inr (where_holds ws r))"
proof -
  from assms have "\<exists>ps. map_result (makePredicate sc) ws = Inr ps \<and>
      list_all2 (\<lambda>p w. \<forall>i r. stored_ok sc (i, r) \<longrightarrow> p r = Inr (clause_holds w r)) ps ws"
  proof (induction ws)
    case (Cons w ws)
    with makePredicate_ok [of sc w] show ?case by fastforce
  qed simp
  then obtain ps where ps: "map_result (makePredicate sc) ws = Inr ps"
    "list_all2 (\<lambda>p w. \<forall>i r. stored_ok sc (i, r) \<longrightarrow> p r = Inr (clause_holds w r)) ps ws" by blast
  have "all_hold ps r = Inr (where_holds ws r)" if "stored_ok sc (i, r)" for i r
    using ps(2) that by (intro all_hold_ok) (auto elim!: list_all2_mono)
  with ps(1) show ?thesis by (auto simp: makeConjunction_def)
qed

lemma makeConjunction_bad:
  assumes "\<not> (\<forall>w \<in> set ws. clause_ok sc w)"
  shows "\<exists>msg. makeConjunction sc ws = Inl (Query_error msg)"
proof -
  from assms have "\<exists>msg. map_result (makePredicate sc) ws = Inl (Query_error msg)"
  proof (induction ws)
    case (Cons w ws)
    then show ?case
      using makePredicate_ok [of sc w] makePredicate_bad [of sc w] by (cases "clause_ok sc w") auto
  qed simp
  then show ?thesis by (auto simp: makeConjunction_def)
qed

section \<open>Lookups through the index\<close>

lemma filter_key:
  "distinct (map fst es) \<Longrightarrow>
    map snd (filter (\<lambda>e. fst e = k) es) = (case map_of es k of Some v \<Rightarrow> [v] | None \<Rightarrow> [])"
proof (induction es)
  case (Cons e es)
  then show ?case
    by (cases e) (auto simp: image_iff filter_empty_conv split: option.splits)
qed simp

lemma id_clause_ok:
  "id_schema sc \<Longrightarrow> wc_column w = kIdColumn \<Longrightarrow> clause_ok sc w \<longleftrightarrow> isValidValueFor DT_INT (wc_value w)"
  by (auto simp: id_schema_def clause_ok_def)

lemma id_clause_holds:
  assumes "stored_ok sc (i, r)" and "wc_column w = kIdColumn"
  shows "clause_holds w r = cmp_holds (wc_op w) i (parseInt (wc_value w))"
proof -
  have "row_value r kIdColumn = Inr (VInt i)"
    using assms(1) row_getInt_Inr_iff [of r kIdColumn i] by (simp add: stored_ok_def)
  with assms(2) show ?thesis by (simp add: clause_holds_def)
qed

lemma id_filter:
  assumes "tbl_inv t" and "wc_column w = kIdColumn"
    and "\<And>i. P i \<longleftrightarrow> cmp_holds (wc_op w) i (parseInt (wc_value w))"
  shows "map snd (filter (\<lambda>e. P (fst e)) (entries (rows t))) = filter (clause_holds w) (table_rows t)"
proof -
  have "filter (\<lambda>e. P (fst e)) (entries (rows t)) = filter (\<lambda>e. clause_holds w (snd e)) (entries (rows t))"
  proof (rule filter_cong [OF refl])
    fix e
    assume "e \<in> set (entries (rows t))"
    then have "stored_ok (tbl_schema t) (fst e, snd e)" using tbl_invD(4) [OF assms(1)] by simp
    from id_clause_holds [OF this assms(2)] assms(3) show "P (fst e) = clause_holds w (snd e)" by simp
  qed
  then show ?thesis by (simp add: table_rows_def filter_map comp_def)
qed

lemma rowsByIdClause_ok:
  assumes inv: "tbl_inv t" and w: "isIndexableIdClause w" and v: "isValidValueFor DT_INT (wc_value w)"
  shows "\<exists>t'. rowsByIdClause t w = Inr (filter (clause_holds w) (table_rows t), t') \<and> tbl_inv t' \<and>
    rows t' = rows t \<and> tbl_schema t' = tbl_schema t"
proof -
  let ?v = "parseInt (wc_value w)"
  have c: "wc_column w = kIdColumn" "wc_op w \<noteq> NE" using w by (simp_all add: isIndexableIdClause_def)
  note f = id_filter [OF inv c(1)] and range = selectIdRange_correct [OF inv]
  show ?thesis
  proof (cases "wc_op w")
    case EQ
    have "map snd (filter (\<lambda>e. fst e = ?v) (entries (rows t))) = filter (clause_holds w) (table_rows t)"
      by (rule f) (simp add: EQ)
    moreover note filter_key [OF ksorted_distinct [OF bt.sorted_ents [OF tbl_invD(2) [OF inv]]], of ?v]
    ultimately have "(case table_map t ?v of Some r \<Rightarrow> [r] | None \<Rightarrow> []) = filter (clause_holds w) (table_rows t)"
      by (simp add: table_map_def)
    with findById_correct [OF inv, of ?v] v EQ show ?thesis by (auto simp: rowsByIdClause_def Let_def)
  next
    case LT
    show ?thesis
    proof (cases "?v = int64_min")
      case True
      have "map snd (filter (\<lambda>e. False) (entries (rows t))) = filter (clause_holds w) (table_rows t)"
        by (rule f) (simp add: LT True not_less)
      with v LT True inv show ?thesis by (simp add: rowsByIdClause_def Let_def)
    next
      case False
      have "map snd (filter (\<lambda>e. int64_min \<le> fst e \<and> fst e \<le> int64_pred ?v) (entries (rows t))) =
          filter (clause_holds w) (table_rows t)"
        by (rule f) (simp add: LT int64_le_pred_iff [OF False])
      with v LT False inv show ?thesis by (simp add: rowsByIdClause_def Let_def range)
    qed
  next
    case LE
    have "map snd (filter (\<lambda>e. int64_min \<le> fst e \<and> fst e \<le> ?v) (entries (rows t))) =
        filter (clause_holds w) (table_rows t)" by (rule f) (simp add: LE)
    with v LE inv show ?thesis by (simp add: rowsByIdClause_def Let_def range)
  next
    case GT
    show ?thesis
    proof (cases "?v = int64_max")
      case True
      have "map snd (filter (\<lambda>e. False) (entries (rows t))) = filter (clause_holds w) (table_rows t)"
        by (rule f) (simp add: GT True not_less)
      with v GT True inv show ?thesis by (simp add: rowsByIdClause_def Let_def)
    next
      case False
      have "map snd (filter (\<lambda>e. int64_succ ?v \<le> fst e \<and> fst e \<le> int64_max) (entries (rows t))) =
          filter (clause_holds w) (table_rows t)"
        by (rule f) (simp add: GT int64_succ_le_iff [OF False])
      with v GT False inv show ?thesis by (simp add: rowsByIdClause_def Let_def range)
    qed
  next
    case GE
    have "map snd (filter (\<lambda>e. ?v \<le> fst e \<and> fst e \<le> int64_max) (entries (rows t))) =
        filter (clause_holds w) (table_rows t)" by (rule f) (simp add: GE)
    with v GE inv show ?thesis by (simp add: rowsByIdClause_def Let_def range)
  qed (use c in simp)
qed

section \<open>Fetching rows\<close>

lemma table_rows_ok: "tbl_inv t \<Longrightarrow> r \<in> set (table_rows t) \<Longrightarrow> \<exists>i. stored_ok (tbl_schema t) (i, r)"
  using tbl_invD(4) by (fastforce simp: table_rows_def)

lemma keep_rows_ok: "\<forall>r \<in> set rs. p r = Inr (P r) \<Longrightarrow> keep_rows p rs = Inr (filter P rs)"
  by (induction rs) auto

lemma total_on_conjunction:
  assumes "tbl_inv t" and "\<forall>i r. stored_ok (tbl_schema t) (i, r) \<longrightarrow> p r = Inr (where_holds ws r)"
  shows "total_on t p (where_holds ws)"
  using assms(2) table_rows_ok [OF assms(1)] unfolding total_on_def by blast

lemma split_clauses:
  assumes "dropWhile P ws = w # later"
  shows "ws = takeWhile P ws @ w # later" "\<not> P w"
  using takeWhile_dropWhile_id [of P ws] assms dropWhile_eq_Cons_conv [of P ws w later] by simp_all

lemma where_holds_split:
  "ws = front @ w # later \<Longrightarrow> where_holds ws r \<longleftrightarrow> clause_holds w r \<and> where_holds (front @ later) r"
  by (auto simp: where_holds_def)

text \<open>Whatever the path, the rows are those of the scan, and the table changes in its cache only.\<close>

lemma fetchRows_ok:
  assumes inv: "tbl_inv t" and ok: "\<forall>w \<in> set ws. clause_ok (tbl_schema t) w"
  shows "\<exists>t'. fetchRows t ws = (Inr (filter (where_holds ws) (table_rows t)), t') \<and> tbl_inv t' \<and>
    rows t' = rows t \<and> tbl_schema t' = tbl_schema t"
proof (cases "dropWhile (\<lambda>w. \<not> isIndexableIdClause w) ws")
  case Nil
  from makeConjunction_ok [OF ok] obtain p where p: "makeConjunction (tbl_schema t) ws = Inr p"
    "\<forall>i r. stored_ok (tbl_schema t) (i, r) \<longrightarrow> p r = Inr (where_holds ws r)" by blast
  note sel = selectWhere_correct [OF inv total_on_conjunction [OF inv p(2)]]
  have "selectAll t = Inr (table_rows t)"
    using selectWhere_correct [OF inv, of "\<lambda>_. Inr True" "\<lambda>_. True"] by (simp add: selectAll_def total_on_def)
  then show ?thesis using Nil p(1) sel inv
    by (cases "ws = []") (simp_all add: fetchRows_def where_holds_def del: dropWhile_eq_Nil_conv)
next
  case (Cons w later)
  let ?before = "takeWhile (\<lambda>w. \<not> isIndexableIdClause w) ws"
  note ws = split_clauses [OF Cons]
  have w: "isIndexableIdClause w" using ws(2) by simp
  have in_ws: "set ws = insert w (set (?before @ later))" by (subst ws(1)) auto
  have "isValidValueFor DT_INT (wc_value w)"
    using ok in_ws w id_clause_ok [OF tbl_invD(1) [OF inv], of w] by (simp add: isIndexableIdClause_def)
  from rowsByIdClause_ok [OF inv w this] obtain t' where t': "tbl_inv t'" "rows t' = rows t" "tbl_schema t' = tbl_schema t"
    "rowsByIdClause t w = Inr (filter (clause_holds w) (table_rows t), t')" by blast
  have "\<forall>w \<in> set (?before @ later). clause_ok (tbl_schema t) w" using ok in_ws by simp
  from makeConjunction_ok [OF this] obtain p where
    p: "makeConjunction (tbl_schema t) (?before @ later) = Inr p"
    "\<forall>i r. stored_ok (tbl_schema t) (i, r) \<longrightarrow> p r = Inr (where_holds (?before @ later) r)" by blast
  have "keep_rows p (filter (clause_holds w) (table_rows t)) =
      Inr (filter (where_holds (?before @ later)) (filter (clause_holds w) (table_rows t)))"
    using total_on_conjunction [OF inv p(2)] by (intro keep_rows_ok) (auto simp: total_on_def)
  moreover have "filter (where_holds (?before @ later)) (filter (clause_holds w) (table_rows t)) =
      filter (where_holds ws) (table_rows t)"
    unfolding filter_filter by (rule filter_cong [OF refl]) (rule where_holds_split [OF ws(1), symmetric])
  moreover have "where_holds [] = (\<lambda>_. True)" by (simp add: where_holds_def fun_eq_iff)
  moreover have "ws \<noteq> []" using ws(1) by auto
  ultimately show ?thesis using t' p(1) Cons by (auto simp: fetchRows_def Let_def)
qed

lemma fetchRows_bad:
  assumes inv: "tbl_inv t" and bad: "\<not> (\<forall>w \<in> set ws. clause_ok (tbl_schema t) w)"
  shows "\<exists>msg t'. fetchRows t ws = (Inl (Query_error msg), t') \<and> tbl_inv t' \<and>
    rows t' = rows t \<and> tbl_schema t' = tbl_schema t"
proof (cases "dropWhile (\<lambda>w. \<not> isIndexableIdClause w) ws")
  case Nil
  with makeConjunction_bad [OF bad] bad inv show ?thesis
    by (auto simp: fetchRows_def simp del: dropWhile_eq_Nil_conv)
next
  case (Cons w later)
  let ?before = "takeWhile (\<lambda>w. \<not> isIndexableIdClause w) ws"
  note ws = split_clauses [OF Cons]
  have ne: "ws \<noteq> []" using ws(1) by auto
  have w: "isIndexableIdClause w" using ws(2) by simp
  have in_ws: "set ws = insert w (set (?before @ later))" by (subst ws(1)) auto
  have okw: "clause_ok (tbl_schema t) w \<longleftrightarrow> isValidValueFor DT_INT (wc_value w)"
    using w id_clause_ok [OF tbl_invD(1) [OF inv], of w] by (simp add: isIndexableIdClause_def)
  show ?thesis
  proof (cases "isValidValueFor DT_INT (wc_value w)")
    case False
    then have "rowsByIdClause t w =
        Inl (Query_error (''column '' @ quoted ''id'' @ '' is INT, got '' @ quoted (wc_value w)))"
      by (simp add: rowsByIdClause_def)
    then have "fetchRows t ws =
        (Inl (Query_error (''column '' @ quoted ''id'' @ '' is INT, got '' @ quoted (wc_value w))), t)"
      using ne Cons by (simp only: fetchRows_def if_False list.case sum.case)
    with inv show ?thesis by blast
  next
    case True
    from rowsByIdClause_ok [OF inv w True] obtain t' where t': "tbl_inv t'" "rows t' = rows t" "tbl_schema t' = tbl_schema t"
      "rowsByIdClause t w = Inr (filter (clause_holds w) (table_rows t), t')" by blast
    have bad': "\<not> (\<forall>w \<in> set (?before @ later). clause_ok (tbl_schema t) w)" using bad True okw in_ws by auto
    then have "?before @ later \<noteq> []" by auto
    with makeConjunction_bad [OF bad'] t' Cons ne show ?thesis by (auto simp: fetchRows_def Let_def)
  qed
qed

end
