(* ===== verification/Query_Semantics.thy ===== *)
theory Query_Semantics
  imports Where_Spec
begin

text \<open>
  The meaning of the statements on relations: a database is a finite map from names to a schema
  and its rows in the order of their ids. A statement either succeeds with its reply and the new
  relations, or fails and leaves them alone. The first half of the theory relates the rows and the
  text the executor builds to this reading.
\<close>

section \<open>Rows from literals\<close>

definition row_of :: "Schema \<Rightarrow> (string \<rightharpoonup> string) \<Rightarrow> Row" where
  "row_of sc f = \<lparr>row_schema = sc,
     row_values = map (\<lambda>c. map_option (cell_of (col_type c)) (f (col_name c))) (columns sc)\<rparr>"

definition literal_fits :: "Schema \<Rightarrow> string \<times> string \<Rightarrow> bool" where
  "literal_fits sc a \<longleftrightarrow>
     (case findColumn sc (fst a) of Some c \<Rightarrow> isValidValueFor (col_type c) (snd a) | None \<Rightarrow> False)"

lemma row_of_wf: "schema_wf sc \<Longrightarrow> row_wf (row_of sc f)"
  by (auto simp: row_wf_def row_of_def columnCount_def)

lemma row_of_schema [simp]: "row_schema (row_of sc f) = sc"
  by (simp add: row_of_def)

lemma row_of_complete: "isComplete (row_of sc f) \<longleftrightarrow> (\<forall>c \<in> set (columns sc). f (col_name c) \<noteq> None)"
  by (auto simp: isComplete_def row_of_def columnCount_def list_all_iff)

lemma row_of_value:
  assumes "schema_wf sc" and "findColumn sc c = Some col" and "f c = Some s"
  shows "row_value (row_of sc f) c = Inr (cell_of (col_type col) s)"
proof -
  from assms(1,2) obtain k where k: "columnIndex sc c = Some k" "col = columns sc ! k"
    by (auto simp: findColumn_columnIndex split: option.splits)
  with columnIndex_Some [OF k(1)] assms(3) show ?thesis
    by (auto simp: row_value_def row_of_def columnCount_def)
qed

lemma row_of_unset: "f c = None \<Longrightarrow> row_value (row_of sc f) c = Inl (unset_error c)"
  by (auto simp: row_value_def row_of_def dest: columnIndex_Some split: option.splits)

lemma makeRow_row_of: "makeRow t = Inr (row_of (tbl_schema t) Map.empty)"
  by (auto simp: makeRow_def new_row_def row_of_def resize_def columnCount_def map_replicate_const)

lemma row_set_row_of:
  assumes wf: "schema_wf sc"
  shows "if literal_fits sc (c, s) then row_set (row_of sc f) c s = Inr (row_of sc (f(c \<mapsto> s)))
    else \<exists>msg. row_set (row_of sc f) c s = Inl (Invalid_argument msg)"
proof (cases "columnIndex sc c")
  case None
  then show ?thesis by (simp add: literal_fits_def row_set_def findColumn_columnIndex [OF wf])
next
  case (Some k)
  note k = columnIndex_Some [OF Some]
  have "(row_values (row_of sc f))[k := Some (cell_of (col_type (columns sc ! k)) s)] = row_values (row_of sc (f(c \<mapsto> s)))"
  proof (rule nth_equalityI)
    fix j
    assume "j < length ((row_values (row_of sc f))[k := Some (cell_of (col_type (columns sc ! k)) s)])"
    then have j: "j < length (columns sc)" by (simp add: row_of_def)
    have "j = k" if "col_name (columns sc ! j) = c"
      using columnIndex_nth [OF wf, of j] j Some unfolding that by (simp add: columnCount_def)
    with k have iff: "col_name (columns sc ! j) = c \<longleftrightarrow> j = k" by blast
    show "(row_values (row_of sc f))[k := Some (cell_of (col_type (columns sc ! k)) s)] ! j =
        row_values (row_of sc (f(c \<mapsto> s))) ! j"
      using j iff by (cases "j = k") (simp_all add: row_of_def)
  qed (simp add: row_of_def)
  moreover have "length (row_values (row_of sc f)) = length (columns sc)" by (simp add: row_of_def)
  ultimately show ?thesis
    using k Some by (simp add: literal_fits_def row_set_def findColumn_columnIndex [OF wf] Let_def cell_of_def [symmetric]
        columnCount_def)
qed

lemma set_columns_row_of:
  assumes wf: "schema_wf sc" and len: "length cs \<le> length vs"
  shows "if \<forall>a \<in> set (zip cs vs). literal_fits sc a
    then set_columns cs vs (row_of sc f) = Inr (row_of sc (f ++ map_of (rev (zip cs vs))))
    else \<exists>msg. set_columns cs vs (row_of sc f) = Inl (Invalid_argument msg)"
  using len
proof (induction cs arbitrary: vs f)
  case (Cons c cs)
  then obtain v vs' where vs: "vs = v # vs'" "length cs \<le> length vs'" by (cases vs) auto
  note r = row_set_row_of [OF wf, of c v f]
  show ?case
  proof (cases "literal_fits sc (c, v)")
    case True
    have run: "set_columns (c # cs) vs (row_of sc f) = set_columns cs vs' (row_of sc (f(c \<mapsto> v)))"
      using r True vs(1) by simp
    have all: "(\<forall>a \<in> set (zip (c # cs) vs). literal_fits sc a) \<longleftrightarrow> (\<forall>a \<in> set (zip cs vs'). literal_fits sc a)"
      using True vs(1) by simp
    have f: "f ++ map_of (rev (zip (c # cs) vs)) = f(c \<mapsto> v) ++ map_of (rev (zip cs vs'))"
      by (auto simp: vs(1) map_add_def fun_eq_iff split: option.splits)
    show ?thesis unfolding run all f by (rule Cons.IH [OF vs(2)])
  qed (use r vs(1) in auto)
qed simp

lemma named_literal:
  "length cs = length vs \<Longrightarrow> map_of (rev (zip cs vs)) c \<noteq> None \<longleftrightarrow> c \<in> set cs"
  by (auto simp: map_of_eq_None_iff set_zip in_set_conv_nth image_iff)

section \<open>Replies\<close>

fun comma_joined :: "string list \<Rightarrow> string" where
  "comma_joined [] = []"
| "comma_joined [s] = s"
| "comma_joined (s # t # ts) = s @ '', '' @ comma_joined (t # ts)"

definition cell_text :: "Row \<Rightarrow> string \<Rightarrow> string" where
  "cell_text r c = c @ ''='' @ (case row_value r c of Inr v \<Rightarrow> toString_Value v | Inl _ \<Rightarrow> [])"

definition row_text :: "string list \<Rightarrow> Row \<Rightarrow> string" where
  "row_text cols r =
     comma_joined (map (cell_text r) (if cols = [] then map col_name (columns (row_schema r)) else cols))"

definition reply_text :: "string list \<Rightarrow> Row list \<Rightarrow> string" where
  "reply_text cols rs =
     concat (map (\<lambda>r. row_text cols r @ [CHR 0x0A]) rs) @ ''('' @ rowsSuffix (length rs) @ '')''"

lemma comma_joined_Cons: "comma_joined (s # ts) = s @ concat (map (\<lambda>t. '', '' @ t) ts)"
  by (induction ts arbitrary: s) auto

lemma format_columns_text:
  assumes "\<forall>c \<in> set cs. \<exists>v. row_value r c = Inr v"
  shows "format_columns r cs (Suc i) = Inr (concat (map (\<lambda>c. '', '' @ cell_text r c) cs))"
    "format_columns r cs 0 = Inr (comma_joined (map (cell_text r) cs))"
proof -
  have *: "format_columns r cs (Suc i) = Inr (concat (map (\<lambda>c. '', '' @ cell_text r c) cs))"
    if "\<forall>c \<in> set cs. \<exists>v. row_value r c = Inr v" for cs i
    using that by (induction cs arbitrary: i) (auto simp: row_get_def cell_text_def)
  from * [OF assms] show "format_columns r cs (Suc i) = Inr (concat (map (\<lambda>c. '', '' @ cell_text r c) cs))" .
  show "format_columns r cs 0 = Inr (comma_joined (map (cell_text r) cs))"
  proof (cases cs)
    case (Cons c cs')
    with assms * [of cs' 0] show ?thesis
      by (auto simp: row_get_def cell_text_def comma_joined_Cons comp_def)
  qed simp
qed

lemma print_cells_text:
  assumes "list_all2 (\<lambda>c v. \<exists>x. v = Some x \<and> row_value r (col_name c) = Inr x) cs vs"
  shows "print_cells cs (us @ vs) (length us) =
    (if us = [] then comma_joined (map (\<lambda>c. cell_text r (col_name c)) cs)
     else concat (map (\<lambda>c. '', '' @ cell_text r (col_name c)) cs))"
  using assms
proof (induction cs vs arbitrary: us rule: list_all2_induct)
  case (Cons c cs v vs)
  from Cons.IH [of "us @ [v]"] Cons.hyps(1) show ?case
    by (auto simp: nth_append cell_text_def comma_joined_Cons comp_def)
qed simp

lemma formatRow_text:
  assumes "stored_ok sc (i, r)" and "\<forall>c \<in> set cols. hasColumn sc c"
  shows "formatRow r cols = Inr (row_text cols r)"
proof (cases "cols = []")
  case True
  have r: "row_wf r" "isComplete r" using assms(1) by (simp_all add: stored_ok_def)
  then have wf: "schema_wf (row_schema r)" and len: "length (row_values r) = columnCount (row_schema r)"
    by (simp_all add: row_wf_def)
  have "\<exists>x. row_values r ! k = Some x \<and> row_value r (col_name (columns (row_schema r) ! k)) = Inr x"
    if "k < columnCount (row_schema r)" for k
    using that r(2) len columnIndex_nth [OF wf that] by (auto simp: isComplete_def list_all_length row_value_def)
  then have "list_all2 (\<lambda>c v. \<exists>x. v = Some x \<and> row_value r (col_name c) = Inr x) (columns (row_schema r)) (row_values r)"
    using len by (simp add: list_all2_conv_all_nth columnCount_def)
  from print_cells_text [OF this, of "[]"] True show ?thesis
    by (simp add: formatRow_def print_row_def row_text_def comp_def)
next
  case False
  have "\<forall>c \<in> set cols. \<exists>v. row_value r c = Inr v"
  proof
    fix c
    assume "c \<in> set cols"
    then have "row_wf r" "isComplete r" "hasColumn (row_schema r) c" using assms by (simp_all add: stored_ok_def)
    then show "\<exists>v. row_value r c = Inr v" by (rule isComplete_value) blast
  qed
  from format_columns_text(2) [OF this] False show ?thesis by (simp add: formatRow_def row_text_def)
qed

lemma format_rows_text:
  assumes "\<forall>r \<in> set rs. \<exists>i. stored_ok sc (i, r)" and "\<forall>c \<in> set cols. hasColumn sc c"
  shows "format_rows rs cols = Inr (concat (map (\<lambda>r. row_text cols r @ [CHR 0x0A]) rs))"
  using assms(1) by (induction rs) (auto simp: formatRow_text [OF _ assms(2)])

section \<open>Statements on relations\<close>

type_synonym relation = "Schema \<times> (int64 \<times> Row) list"
type_synonym relations = "string \<rightharpoonup> relation"

definition conditions_ok :: "Schema \<Rightarrow> WhereList \<Rightarrow> bool" where
  "conditions_ok sc ws \<longleftrightarrow> (\<forall>w \<in> set ws. clause_ok sc w)"

definition chosen :: "WhereList \<Rightarrow> (int64 \<times> Row) list \<Rightarrow> (int64 \<times> Row) list" where
  "chosen ws es = filter (\<lambda>e. where_holds ws (snd e)) es"

text \<open>The schema that \<open>CREATE TABLE\<close> describes, and when it is accepted.\<close>

definition schema_of :: "ColumnDef list \<Rightarrow> Schema" where
  "schema_of cols = \<lparr>columns = map (\<lambda>d. \<lparr>col_name = cd_name d, col_type = cd_type d\<rparr>) cols\<rparr>"

definition columns_ok :: "ColumnDef list \<Rightarrow> bool" where
  "columns_ok cols \<longleftrightarrow> distinct (map cd_name cols) \<and> [] \<notin> set (map cd_name cols) \<and>
     (\<exists>d \<in> set cols. cd_name d = kIdColumn \<and> cd_type d = DT_INT)"

text \<open>When a column is named twice its last literal counts.\<close>

definition insert_relation :: "string list \<Rightarrow> string list \<Rightarrow> relation \<Rightarrow> string option \<times> relation" where
  "insert_relation cols literals R =
     (let f = map_of (rev (zip cols literals)); i = parseInt (the (f kIdColumn)) in
      if (\<forall>a \<in> set (zip cols literals). literal_fits (fst R) a) \<and>
         (\<forall>c \<in> set (columns (fst R)). col_name c \<in> set cols) \<and> map_of (snd R) i = None
      then (Some ''OK'', (fst R, ins_entry i (row_of (fst R) f) (snd R)))
      else (None, R))"

definition select_relation :: "string list \<Rightarrow> WhereList \<Rightarrow> relation \<Rightarrow> string option \<times> relation" where
  "select_relation cols ws R =
     (if (\<forall>c \<in> set cols. hasColumn (fst R) c) \<and> conditions_ok (fst R) ws
      then (Some (reply_text cols (map snd (chosen ws (snd R)))), R) else (None, R))"

definition update_relation :: "(string \<times> string) list \<Rightarrow> WhereList \<Rightarrow> relation \<Rightarrow> string option \<times> relation" where
  "update_relation sets ws R =
     (if conditions_ok (fst R) ws \<and> (\<forall>a \<in> set sets. fst a \<noteq> kIdColumn \<and> literal_fits (fst R) a)
      then (Some (''OK ('' @ rowsSuffix (length (chosen ws (snd R))) @ '' updated)''),
            (fst R, map (\<lambda>e. if where_holds ws (snd e) then (fst e, fold assign sets (snd e)) else e) (snd R)))
      else (None, R))"

definition delete_relation :: "WhereList \<Rightarrow> relation \<Rightarrow> string option \<times> relation" where
  "delete_relation ws R =
     (if conditions_ok (fst R) ws
      then (Some (''OK ('' @ rowsSuffix (length (chosen ws (snd R))) @ '' deleted)''),
            (fst R, filter (\<lambda>e. \<not> where_holds ws (snd e)) (snd R)))
      else (None, R))"

definition at_table :: "string \<Rightarrow> ('a \<Rightarrow> 'r option \<times> 'a) \<Rightarrow> (string \<rightharpoonup> 'a) \<Rightarrow> 'r option \<times> (string \<rightharpoonup> 'a)" where
  "at_table name f D = (case D name of None \<Rightarrow> (None, D) | Some R \<Rightarrow> (fst (f R), D(name \<mapsto> snd (f R))))"

fun statement_meaning :: "Statement \<Rightarrow> relations \<Rightarrow> string option \<times> relations" where
  "statement_meaning (CreateTableStatement table cols) D =
     (if table \<noteq> [] \<and> D table = None \<and> columns_ok cols
      then (Some ''OK'', D(table \<mapsto> (schema_of cols, []))) else (None, D))"
| "statement_meaning (DropTableStatement table) D =
     (if D table = None then (None, D) else (Some ''OK'', D(table := None)))"
| "statement_meaning (InsertStatement table cols literals) D = at_table table (insert_relation cols literals) D"
| "statement_meaning (SelectStatement table cols ws) D = at_table table (select_relation cols ws) D"
| "statement_meaning (UpdateStatement table sets ws) D = at_table table (update_relation sets ws) D"
| "statement_meaning (DeleteStatement table ws) D = at_table table (delete_relation ws) D"

definition query_meaning :: "string \<Rightarrow> relations \<Rightarrow> string option \<times> relations" where
  "query_meaning query D =
     (case bind_result (tokenize query) parse of Inl _ \<Rightarrow> (None, D) | Inr stmt \<Rightarrow> statement_meaning stmt D)"

text \<open>A statement that fails changes nothing.\<close>

lemma at_table_fails:
  "(\<And>R. fst (f R) = None \<Longrightarrow> snd (f R) = R) \<Longrightarrow> fst (at_table name f D) = None \<Longrightarrow> snd (at_table name f D) = D"
  by (cases "D name") (auto simp: at_table_def fun_upd_idem)

lemma relation_fails:
  "fst (insert_relation cols literals R) = None \<Longrightarrow> snd (insert_relation cols literals R) = R"
  "fst (select_relation cols ws R) = None \<Longrightarrow> snd (select_relation cols ws R) = R"
  "fst (update_relation sets ws R) = None \<Longrightarrow> snd (update_relation sets ws R) = R"
  "fst (delete_relation ws R) = None \<Longrightarrow> snd (delete_relation ws R) = R"
  by (auto simp: insert_relation_def select_relation_def update_relation_def delete_relation_def Let_def split: if_splits)

lemma statement_meaning_fails: "fst (statement_meaning stmt D) = None \<Longrightarrow> snd (statement_meaning stmt D) = D"
  by (cases stmt) (auto intro: at_table_fails relation_fails split: if_splits)

lemma query_meaning_fails: "fst (query_meaning query D) = None \<Longrightarrow> snd (query_meaning query D) = D"
  using statement_meaning_fails by (auto simp: query_meaning_def split: sum.splits)

end
