(* ===== verification/QueryExecutor_Spec.thy ===== *)
theory QueryExecutor_Spec
  imports Query_Semantics Database_Spec Query_Grammar
begin

text \<open>
  The executor against the meaning of the statements. What it needs of the database is an
  interface: a statement on one table finds it by name, works on it and leaves every other table
  alone. Each statement is then proved on a single table, and the interface lifts the proof to the
  whole database.
\<close>

section \<open>Statements on one table of a catalogue\<close>

text \<open>The exceptions that \<open>execute\<close> turns into a reply, and the results that agree with a meaning.\<close>

definition failure :: "exn \<Rightarrow> bool" where
  "failure e \<longleftrightarrow> e \<noteq> Undefined_behaviour \<and> e \<noteq> Nontermination"

definition outcome :: "'r option \<Rightarrow> 'r result \<Rightarrow> bool" where
  "outcome m r = (case m of Some x \<Rightarrow> r = Inr x | None \<Rightarrow> (\<exists>e. r = Inl e \<and> failure e))"

lemma outcome_simps [simp]:
  "outcome (Some x) r \<longleftrightarrow> r = Inr x"
  "outcome None (Inl e) \<longleftrightarrow> failure e"
  "\<not> outcome None (Inr x)"
  by (auto simp: outcome_def)

lemma failure_simps [simp]:
  "failure (Query_error msg)" "failure (Invalid_argument msg)" "failure (Out_of_range msg)"
  by (simp_all add: failure_def)

locale table_catalogue =
  fixes inv :: "'db \<Rightarrow> bool" and view :: "'db \<Rightarrow> string \<rightharpoonup> 'tb" and ok :: "'tb \<Rightarrow> bool"
    and use :: "'db \<Rightarrow> string \<Rightarrow> ('tb \<Rightarrow> 'r result \<times> 'tb) \<Rightarrow> 'r result \<times> 'db"
  assumes view_ok: "inv db \<Longrightarrow> view db n = Some t \<Longrightarrow> ok t"
    and use_absent: "inv db \<Longrightarrow> view db n = None \<Longrightarrow> \<exists>e. use db n body = (Inl e, db) \<and> failure e"
    and use_table: "inv db \<Longrightarrow> view db n = Some t \<Longrightarrow> ok (snd (body t)) \<Longrightarrow>
      \<exists>db'. use db n body = (fst (body t), db') \<and> inv db' \<and> view db' = (view db)(n \<mapsto> snd (body t))"
begin

lemma table_statement:
  assumes db: "inv db"
    and body: "\<And>t. ok t \<Longrightarrow> ok (snd (body t)) \<and> outcome (fst (f (\<alpha> t))) (fst (body t)) \<and> \<alpha> (snd (body t)) = snd (f (\<alpha> t))"
  shows "inv (snd (use db n body)) \<and>
    outcome (fst (at_table n f (map_option \<alpha> \<circ> view db))) (fst (use db n body)) \<and>
    map_option \<alpha> \<circ> view (snd (use db n body)) = snd (at_table n f (map_option \<alpha> \<circ> view db))"
proof (cases "view db n")
  case None
  with use_absent [OF db None, of body] db show ?thesis by (auto simp: at_table_def)
next
  case (Some t)
  note t = body [OF view_ok [OF db Some]]
  from use_table [OF db Some, of body] t obtain db' where
    "use db n body = (fst (body t), db')" "inv db'" "view db' = (view db)(n \<mapsto> snd (body t))" by blast
  with t Some show ?thesis by (auto simp: at_table_def fun_eq_iff)
qed

end

lemma with_table_absent:
  assumes inv: "db_inv db C" and "table_of db name = None"
  shows "\<exists>e. with_table db name body = (Inl e, db) \<and> failure e"
proof -
  have "getTable db name = Inr (sp_null, db)" using getTable_spec [OF inv, of name] assms(2) by simp
  then show ?thesis by (simp add: with_table_def tableOrThrow_def sp_null_def)
qed

lemma with_table_found:
  assumes inv: "db_inv db C" and t: "table_of db name = Some t" and ok: "tbl_inv (snd (body t))"
  shows "\<exists>db'. with_table db name body = (fst (body t), db') \<and> db_inv db' C \<and>
    table_of db' = (table_of db)(name \<mapsto> snd (body t))"
proof -
  from getTable_spec [OF inv, of name] t obtain p db1 where
    p: "getTable db name = Inr (p, db1)" "catalogue db name = Some p" "p \<noteq> sp_null" "db_inv db1 (add_mset p C)"
      "tables db1 = tables db" "sp_value (db_mem db1) p = Some t" "table_of db1 = table_of db" by auto
  have deref: "sp_deref (db_mem db1) p = Inr t" "sp_ptr p \<noteq> None"
    using p(6) by (auto simp: sp_value_def sp_deref_def bind_eq_Some_conv)
  from store_handle_spec [OF p(4) _ ok, of p] obtain m where
    m: "sp_store (db_mem db1) p (snd (body t)) = Inr m" "db_inv (db1\<lparr>db_mem := m\<rparr>) (add_mset p C)"
      "\<forall>n. table_of (db1\<lparr>db_mem := m\<rparr>) n = (if catalogue db1 n = Some p then Some (snd (body t)) else table_of db1 n)"
    by auto
  from drop_handle_spec [OF m(2)] obtain db2 where
    d: "drop_handle (db1\<lparr>db_mem := m\<rparr>) p = Inr db2" "db_inv db2 C" "table_of db2 = table_of (db1\<lparr>db_mem := m\<rparr>)" by blast
  have "n = name" if "catalogue db n = Some p" for n
    using inj_onD [OF db_invD(3) [OF inv], of n name] that p(2) by (simp add: domIff)
  then have "catalogue db n = Some p \<longleftrightarrow> n = name" for n using p(2) by blast
  then have "table_of db2 = (table_of db)(name \<mapsto> snd (body t))"
    by (simp add: fun_eq_iff d(3) m(3) p(5,7))
  moreover have "tableOrThrow db name = Inr (p, db1)" using p(1) deref(2) by (simp add: tableOrThrow_def)
  then have "with_table db name body = (fst (body t), db2)"
    by (simp add: with_table_def deref(1) m(1) d(1) split_beta Let_def)
  ultimately show ?thesis using d(2) by blast
qed

interpretation cat: table_catalogue "\<lambda>db. db_inv db C" table_of tbl_inv with_table for C
  by unfold_locales (fact table_of_inv with_table_absent with_table_found)+

section \<open>The statements\<close>

definition table_relation :: "table \<Rightarrow> relation" where
  "table_relation t = (tbl_schema t, entries (rows t))"

definition database_relations :: "database \<Rightarrow> relations" where
  "database_relations db = map_option table_relation \<circ> table_of db"

text \<open>The result of a statement agrees with its meaning, and the database is in order again.\<close>

definition agrees :: "SharedPtr multiset \<Rightarrow> string result \<times> database \<Rightarrow> string option \<times> relations \<Rightarrow> bool" where
  "agrees C res m \<longleftrightarrow> db_inv (snd res) C \<and> outcome (fst m) (fst res) \<and> database_relations (snd res) = snd m"

definition table_agrees :: "string result \<times> table \<Rightarrow> string option \<times> relation \<Rightarrow> bool" where
  "table_agrees res m \<longleftrightarrow> tbl_inv (snd res) \<and> outcome (fst m) (fst res) \<and> table_relation (snd res) = snd m"

lemma with_table_agrees:
  assumes "db_inv db C" and "\<And>t. tbl_inv t \<Longrightarrow> table_agrees (body t) (f (table_relation t))"
  shows "agrees C (with_table db name body) (at_table name f (database_relations db))"
  using cat.table_statement [OF assms(1), of body f table_relation name] assms(2)
  by (simp add: agrees_def table_agrees_def database_relations_def)

lemma chosen_rows: "filter (where_holds ws) (table_rows t) = map snd (chosen ws (entries (rows t)))"
  by (simp add: table_rows_def chosen_def filter_map comp_def)

lemma rowsSuffix_0: "rowsSuffix 0 = ''0 rows''"
  by code_simp

lemma reply_empty: "reply_text cols [] = ''(0 rows)''"
  by (simp add: reply_text_def rowsSuffix_0)

lemma select_body_agrees:
  assumes inv: "tbl_inv t"
  shows "table_agrees (select_body cols ws t) (select_relation cols ws (table_relation t))"
  unfolding select_body_def
proof goal_cases
  case 1
  note 1 = inv
  show ?case
  proof (cases "\<forall>c \<in> set cols. hasColumn (tbl_schema t) c")
    case False
    then obtain c where "find (\<lambda>c. \<not> hasColumn (tbl_schema t) c) cols = Some c"
      by (cases "find (\<lambda>c. \<not> hasColumn (tbl_schema t) c) cols") (auto simp: find_None_iff)
    with False 1 show ?thesis by (auto simp: table_agrees_def select_relation_def table_relation_def)
  next
    case True
    then have none: "find (\<lambda>c. \<not> hasColumn (tbl_schema t) c) cols = None" by (simp add: find_None_iff)
    show ?thesis
    proof (cases "conditions_ok (tbl_schema t) ws")
      case ok: True
      from fetchRows_ok [OF 1, of ws] ok obtain t' where t': "tbl_inv t'" "rows t' = rows t" "tbl_schema t' = tbl_schema t"
        "fetchRows t ws = (Inr (filter (where_holds ws) (table_rows t)), t')" by (auto simp: conditions_ok_def)
      let ?rs = "map snd (chosen ws (entries (rows t)))"
      have "\<forall>r \<in> set ?rs. \<exists>i. stored_ok (tbl_schema t) (i, r)"
        unfolding chosen_rows [symmetric] using table_rows_ok [OF 1] by auto
      from format_rows_text [OF this True] have "(if ?rs = [] then Inr ''(0 rows)''
          else bind_result (format_rows ?rs cols) (\<lambda>s. Inr (s @ ''('' @ rowsSuffix (length ?rs) @ '')''))) =
          Inr (reply_text cols ?rs)"
        using reply_empty by (simp add: reply_text_def)
      with none t' ok True show ?thesis
        by (simp add: table_agrees_def select_relation_def table_relation_def chosen_rows)
    next
      case False
      from fetchRows_bad [OF 1, of ws] False obtain msg t' where
        t': "tbl_inv t'" "rows t' = rows t" "tbl_schema t' = tbl_schema t" "fetchRows t ws = (Inl (Query_error msg), t')"
        by (auto simp: conditions_ok_def)
      with none False show ?thesis by (simp add: table_agrees_def select_relation_def table_relation_def)
    qed
  qed
qed

lemma conjunction_total:
  assumes "tbl_inv t" and "conditions_ok (tbl_schema t) ws"
  obtains p where "makeConjunction (tbl_schema t) ws = Inr p" "total_on t p (where_holds ws)"
  using makeConjunction_ok [of ws "tbl_schema t"] total_on_conjunction [OF assms(1)] assms(2)
  unfolding conditions_ok_def by blast

lemma conjunction_bad:
  assumes "\<not> conditions_ok sc ws"
  obtains msg where "makeConjunction sc ws = Inl (Query_error msg)"
  using makeConjunction_bad [of ws sc] assms unfolding conditions_ok_def by blast

lemma no_conditions: "total_on t (\<lambda>_. Inr True) (where_holds [])" "conditions_ok sc []"
  by (simp_all add: total_on_def where_holds_def conditions_ok_def)

lemma deleteWhere_agrees:
  assumes "tbl_inv t" and "total_on t p (where_holds ws)" and "conditions_ok (tbl_schema t) ws"
  shows "table_agrees (on_table t (deleteWhere t p) (\<lambda>deleted. Inr (''OK ('' @ rowsSuffix deleted @ '' deleted)'')))
    (delete_relation ws (table_relation t))"
proof -
  from deleteWhere_correct [OF assms(1,2)] obtain t' where
    "deleteWhere t p = Inr (length (filter (where_holds ws) (table_rows t)), t')" "tbl_inv t'" "tbl_schema t' = tbl_schema t"
    "entries (rows t') = filter (\<lambda>e. \<not> where_holds ws (snd e)) (entries (rows t))" by blast
  with assms(3) show ?thesis
    by (simp add: on_table_def table_agrees_def delete_relation_def table_relation_def chosen_rows)
qed

text \<open>The rows that \<^verbatim>\<open>id = n\<close> chooses.\<close>

lemma chosen_id:
  assumes inv: "tbl_inv t" and w: "wc_column w = kIdColumn" "wc_op w = EQ"
  shows "e \<in> set (entries (rows t)) \<Longrightarrow> where_holds [w] (snd e) \<longleftrightarrow> fst e = parseInt (wc_value w)"
    and "map snd (chosen [w] (entries (rows t))) =
      (case table_map t (parseInt (wc_value w)) of Some r \<Rightarrow> [r] | None \<Rightarrow> [])"
proof -
  let ?v = "parseInt (wc_value w)" and ?es = "entries (rows t)"
  show iff: "where_holds [w] (snd e) \<longleftrightarrow> fst e = ?v" if "e \<in> set ?es" for e
    using id_clause_holds [of "tbl_schema t" "fst e" "snd e" w] tbl_invD(4) [OF inv] that w by (simp add: where_holds_def)
  have "chosen [w] ?es = filter (\<lambda>e. fst e = ?v) ?es"
    unfolding chosen_def by (rule filter_cong [OF refl]) (rule iff)
  then show "map snd (chosen [w] ?es) = (case table_map t ?v of Some r \<Rightarrow> [r] | None \<Rightarrow> [])"
    using filter_key [OF ksorted_distinct [OF bt.sorted_ents [OF tbl_invD(2) [OF inv]]], of ?v] by (simp add: table_map_def)
qed

lemma deleteById_agrees:
  assumes inv: "tbl_inv t" and w: "wc_column w = kIdColumn" "wc_op w = EQ" "isValidValueFor DT_INT (wc_value w)"
  shows "table_agrees (on_table t (deleteById t (parseInt (wc_value w)))
      (\<lambda>b. Inr (''OK ('' @ rowsSuffix (if b then 1 else 0) @ '' deleted)'')))
    (delete_relation [w] (table_relation t))"
proof -
  let ?v = "parseInt (wc_value w)" and ?es = "entries (rows t)"
  from deleteById_correct [OF inv, of ?v] obtain t' where t': "deleteById t ?v = Inr (table_map t ?v \<noteq> None, t')" "tbl_inv t'"
    "tbl_schema t' = tbl_schema t" "entries (rows t') = del_entry ?v ?es" by blast
  note chosen = chosen_id [OF inv w(1,2)]
  from chosen(2) have n: "length (chosen [w] ?es) = (if table_map t ?v \<noteq> None then 1 else 0)"
    by (metis length_map list.size(3,4) option.case_eq_if One_nat_def Suc_eq_plus1)
  have rest: "filter (\<lambda>e. \<not> where_holds [w] (snd e)) ?es = del_entry ?v ?es"
    unfolding del_entry_def by (rule filter_cong [OF refl]) (simp add: chosen(1))
  have "conditions_ok (tbl_schema t) [w]" using id_clause_ok [OF tbl_invD(1) [OF inv] w(1)] w(3) by (simp add: conditions_ok_def)
  with t' n rest show ?thesis
    by (simp add: on_table_def table_agrees_def delete_relation_def table_relation_def)
qed

lemma delete_body_agrees:
  assumes inv: "tbl_inv t"
  shows "table_agrees (delete_body ws t) (delete_relation ws (table_relation t))"
  unfolding delete_body_def
proof goal_cases
  case 1
  note 1 = inv
  consider (id) w where "ws = [w]" "wc_column w = kIdColumn" "wc_op w = EQ" "isValidValueFor DT_INT (wc_value w)"
    | (scan) "\<not> (length ws = 1 \<and> wc_column (hd ws) = kIdColumn \<and> wc_op (hd ws) = EQ \<and> isValidValueFor DT_INT (wc_value (hd ws)))"
    by (cases ws) auto
  then show ?case
  proof cases
    case id
    with deleteById_agrees [OF 1, of w] show ?thesis by simp
  next
    case scan
    show ?thesis
    proof (cases "conditions_ok (tbl_schema t) ws")
      case True
      obtain p where p: "makeConjunction (tbl_schema t) ws = Inr p" "total_on t p (where_holds ws)"
        by (rule conjunction_total [OF 1 True])
      show ?thesis
        using scan p(1) deleteWhere_agrees [OF 1 p(2) True] deleteWhere_agrees [OF 1 no_conditions]
        by (cases "ws = []") (simp_all only: Let_def if_False if_True sum.case not_False_eq_True not_True_eq_False simp_thms)
    next
      case False
      obtain msg where "makeConjunction (tbl_schema t) ws = Inl (Query_error msg)" by (rule conjunction_bad [OF False])
      moreover have "ws \<noteq> []" using False no_conditions(2) by auto
      ultimately show ?thesis using scan False 1 by (auto simp: table_agrees_def delete_relation_def table_relation_def)
    qed
  qed
qed

lemma valid_assignment_iff: "valid_assignment sc a \<longleftrightarrow> fst a \<noteq> kIdColumn \<and> literal_fits sc a"
  by (auto simp: valid_assignment_def literal_fits_def split: option.splits)

lemma updateWhere_agrees:
  assumes inv: "tbl_inv t" and p: "total_on t p (where_holds ws)" and ok: "conditions_ok (tbl_schema t) ws"
  shows "table_agrees (on_table t (rethrown (updateWhere t p sets))
      (\<lambda>updated. Inr (''OK ('' @ rowsSuffix updated @ '' updated)'')))
    (update_relation sets ws (table_relation t))"
proof (cases "\<forall>a \<in> set sets. valid_assignment (tbl_schema t) a")
  case True
  from updateWhere_correct [OF inv p True] obtain t' where
    "updateWhere t p sets = Inr (length (filter (where_holds ws) (table_rows t)), t')" "tbl_inv t'" "tbl_schema t' = tbl_schema t"
    "entries (rows t') = map (\<lambda>e. if where_holds ws (snd e) then (fst e, fold assign sets (snd e)) else e) (entries (rows t))"
    by blast
  with ok True show ?thesis
    by (simp add: on_table_def table_agrees_def update_relation_def table_relation_def chosen_rows valid_assignment_iff)
next
  case False
  from updateWhere_rejects [OF False, of p] obtain msg where "updateWhere t p sets = Inl (Invalid_argument msg)" by blast
  with inv False show ?thesis
    by (auto simp: on_table_def table_agrees_def update_relation_def table_relation_def valid_assignment_iff)
qed

lemma update_body_agrees:
  assumes inv: "tbl_inv t"
  shows "table_agrees (update_body sets ws t) (update_relation sets ws (table_relation t))"
  unfolding update_body_def
proof goal_cases
  case 1
  note 1 = inv
  show ?case
  proof (cases "conditions_ok (tbl_schema t) ws")
    case True
    obtain p where p: "makeConjunction (tbl_schema t) ws = Inr p" "total_on t p (where_holds ws)"
      by (rule conjunction_total [OF 1 True])
    show ?thesis
      using p(1) updateWhere_agrees [OF 1 p(2) True, of sets] updateWhere_agrees [OF 1 no_conditions, of sets]
      by (cases "ws = []") simp_all
  next
    case False
    obtain msg where "makeConjunction (tbl_schema t) ws = Inl (Query_error msg)" by (rule conjunction_bad [OF False])
    moreover have "ws \<noteq> []" using False no_conditions(2) by auto
    ultimately show ?thesis using False 1 by (simp add: table_agrees_def update_relation_def table_relation_def)
  qed
qed

lemma row_of_id:
  assumes "id_schema sc"
  shows "row_getInt (row_of sc f) kIdColumn =
    (case f kIdColumn of Some s \<Rightarrow> Inr (parseInt s) | None \<Rightarrow> Inl (unset_error kIdColumn))"
proof -
  from assms obtain c where c: "schema_wf sc" "findColumn sc kIdColumn = Some c" "col_type c = DT_INT"
    by (auto simp: id_schema_def)
  show ?thesis
    using row_of_value [OF c(1,2), of f] row_of_unset [of f kIdColumn sc] c
    by (cases "f kIdColumn") (simp_all add: row_getInt_def cell_of_def parseInt_def)
qed

text \<open>Inserting the row of some literals, complete or not.\<close>

lemma insert_row_agrees:
  assumes inv: "tbl_inv t"
  shows "table_agrees
    (case bind_result (row_getInt (row_of (tbl_schema t) f) kIdColumn) (\<lambda>i. Inr (row_of (tbl_schema t) f, i)) of
       Inl e \<Rightarrow> (Inl e, t)
     | Inr (row, i) \<Rightarrow>
         on_table t (table_insert t row) (\<lambda>inserted.
           if \<not> inserted
           then Inl (Query_error (''duplicate id '' @ to_string_int64 i @ '' in table '' @ quoted name))
           else Inr ''OK''))
    (if isComplete (row_of (tbl_schema t) f) \<and> table_map t (parseInt (the (f kIdColumn))) = None
     then (Some ''OK'', (tbl_schema t, ins_entry (parseInt (the (f kIdColumn))) (row_of (tbl_schema t) f) (entries (rows t))))
     else (None, table_relation t))"
proof -
  let ?sc = "tbl_schema t" and ?row = "row_of (tbl_schema t) f"
  have ids: "id_schema ?sc" and wf: "schema_wf ?sc" using tbl_invD(1) [OF inv] by (simp_all add: id_schema_def)
  show ?thesis
  proof (cases "f kIdColumn")
    case None
    from ids obtain c where "findColumn ?sc kIdColumn = Some c" by (auto simp: id_schema_def)
    then have "c \<in> set (columns ?sc)" "col_name c = kIdColumn" by (simp_all add: findColumn_Some_iff [OF wf])
    with None have "\<not> isComplete ?row" unfolding row_of_complete by metis
    with None inv show ?thesis by (simp add: row_of_id [OF ids] table_agrees_def unset_error_def)
  next
    case (Some s)
    then have i: "row_getInt ?row kIdColumn = Inr (parseInt s)" by (simp add: row_of_id [OF ids])
    show ?thesis
    proof (cases "isComplete ?row")
      case False
      with table_insert_correct [OF inv row_of_wf [OF wf], of f] i inv show ?thesis
        by (simp add: on_table_def table_agrees_def)
    next
      case True
      with table_insert_correct [OF inv row_of_wf [OF wf], of f] i obtain t' where
        "table_insert t ?row = Inr (table_map t (parseInt s) = None, t')" "tbl_inv t'" "tbl_schema t' = ?sc"
        "entries (rows t') = (if table_map t (parseInt s) = None then ins_entry (parseInt s) ?row (entries (rows t)) else entries (rows t))"
        by auto
      with Some True i show ?thesis by (auto simp: on_table_def table_agrees_def table_relation_def)
    qed
  qed
qed

lemma insert_body_agrees:
  assumes inv: "tbl_inv t" and len: "length cols = length literals"
  shows "table_agrees (insert_body name cols literals t) (insert_relation cols literals (table_relation t))"
  unfolding insert_body_def
proof goal_cases
  case 1
  note 1 = inv
  let ?f = "map_of (rev (zip cols literals))" and ?sc = "tbl_schema t"
  have ids: "id_schema ?sc" and wf: "schema_wf ?sc" using tbl_invD(1) [OF 1] by (simp_all add: id_schema_def)
  note set = set_columns_row_of [OF wf eq_imp_le [OF len], of Map.empty]
  show ?case
  proof (cases "\<forall>a \<in> set (zip cols literals). literal_fits ?sc a")
    case False
    from set [unfolded if_not_P [OF False]] obtain msg where
      "set_columns cols literals (row_of ?sc Map.empty) = Inl (Invalid_argument msg)" by blast
    moreover have "insert_relation cols literals (table_relation t) = (None, table_relation t)"
      using False unfolding insert_relation_def table_relation_def Let_def by (simp only: fst_conv simp_thms if_False)
    ultimately show ?thesis using 1 by (simp add: table_agrees_def makeRow_row_of)
  next
    case True
    from set [unfolded if_P [OF True]] have "set_columns cols literals (row_of ?sc Map.empty) = Inr (row_of ?sc ?f)" by simp
    moreover have "insert_relation cols literals (table_relation t) =
        (if isComplete (row_of ?sc ?f) \<and> table_map t (parseInt (the (?f kIdColumn))) = None
         then (Some ''OK'', (?sc, ins_entry (parseInt (the (?f kIdColumn))) (row_of ?sc ?f) (entries (rows t))))
         else (None, table_relation t))"
      unfolding insert_relation_def Let_def row_of_complete named_literal [OF len] using True
      by (simp add: table_relation_def table_map_def)
    ultimately show ?thesis
      using insert_row_agrees [OF 1, where f = ?f and name = name] by (simp only: makeRow_row_of bind_result_Inr)
  qed
qed

lemma run_table_agrees:
  assumes "db_inv db C"
  shows "agrees C (run_select db name cols ws) (statement_meaning (SelectStatement name cols ws) (database_relations db))"
    "agrees C (run_update db name sets ws) (statement_meaning (UpdateStatement name sets ws) (database_relations db))"
    "agrees C (run_delete db name ws) (statement_meaning (DeleteStatement name ws) (database_relations db))"
    "length cols = length literals \<Longrightarrow> agrees C (run_insert db name cols literals)
       (statement_meaning (InsertStatement name cols literals) (database_relations db))"
  unfolding run_select_def run_update_def run_delete_def run_insert_def statement_meaning.simps
  using select_body_agrees update_body_agrees delete_body_agrees insert_body_agrees
  by (auto intro!: with_table_agrees [OF assms])

lemma add_columns_result:
  "if distinct (map cd_name ds) \<and> [] \<notin> set (map cd_name ds) \<and> set (map cd_name ds) \<inter> col_name ` set (columns sc) = {}
   then add_columns ds sc = Inr (sc\<lparr>columns := columns sc @ columns (schema_of ds)\<rparr>)
   else \<exists>msg. add_columns ds sc = Inl (Invalid_argument msg)"
proof (induction ds arbitrary: sc)
  case (Cons d ds)
  show ?case
  proof (cases "cd_name d = [] \<or> hasColumn sc (cd_name d)")
    case True
    then show ?thesis by (auto simp: addColumn_def hasColumn_iff)
  next
    case False
    let ?sc = "sc\<lparr>columns := columns sc @ [\<lparr>col_name = cd_name d, col_type = cd_type d\<rparr>]\<rparr>"
    have "addColumn sc (cd_name d) (cd_type d) = Inr ?sc" using False by (simp add: addColumn_def)
    moreover have "distinct (map cd_name (d # ds)) \<and> [] \<notin> set (map cd_name (d # ds)) \<and>
        set (map cd_name (d # ds)) \<inter> col_name ` set (columns sc) = {} \<longleftrightarrow>
        distinct (map cd_name ds) \<and> [] \<notin> set (map cd_name ds) \<and> set (map cd_name ds) \<inter> col_name ` set (columns ?sc) = {}"
      using False by (auto simp: hasColumn_iff)
    ultimately show ?thesis using Cons.IH [of ?sc] by (simp only: add_columns.simps bind_result_Inr) (simp add: schema_of_def)
  qed
qed (simp add: schema_of_def)

lemma schema_of_wf: "schema_wf (schema_of ds) \<longleftrightarrow> distinct (map cd_name ds) \<and> [] \<notin> set (map cd_name ds)"
  by (simp add: schema_wf_def schema_of_def comp_def image_image)

lemma columns_ok_iff: "columns_ok ds \<longleftrightarrow> id_schema (schema_of ds)"
  unfolding id_schema_def columns_ok_def
  by (auto simp: findColumn_Some_iff schema_of_wf) (auto simp: schema_of_def)

lemma add_columns_empty:
  "if schema_wf (schema_of ds) then add_columns ds empty_schema = Inr (schema_of ds)
   else \<exists>msg. add_columns ds empty_schema = Inl (Invalid_argument msg)"
proof -
  have "empty_schema\<lparr>columns := columns empty_schema @ columns (schema_of ds)\<rparr> = schema_of ds" "columns empty_schema = []"
    by (simp_all add: empty_schema_def schema_of_def)
  with add_columns_result [of ds empty_schema] show ?thesis by (simp add: schema_of_wf)
qed

lemma run_create_agrees:
  assumes inv: "db_inv db C"
  shows "agrees C (run_create db name ds) (statement_meaning (CreateTableStatement name ds) (database_relations db))"
proof (cases "name \<noteq> [] \<and> columns_ok ds")
  case True
  then have sc: "id_schema (schema_of ds)" by (simp add: columns_ok_iff)
  then have add: "add_columns ds empty_schema = Inr (schema_of ds)" using add_columns_empty [of ds] by (simp add: id_schema_def)
  from createTable_spec [OF inv _ sc, of name] True obtain db' t where
    c: "createTable db name (schema_of ds) = Inr (table_of db name = None, db')" "db_inv db' C" "tbl_schema t = schema_of ds"
      "entries (rows t) = []" "table_of db' = (if table_of db name = None then (table_of db)(name \<mapsto> t) else table_of db)" by blast
  with True add show ?thesis
    by (auto simp: run_create_def agrees_def database_relations_def table_relation_def fun_eq_iff)
next
  case False
  have "\<exists>e. run_create db name ds = (Inl e, db) \<and> failure e"
  proof (cases "schema_wf (schema_of ds)")
    case True
    with False have "name = [] \<or> \<not> id_schema (schema_of ds)" by (simp add: columns_ok_iff)
    with True add_columns_empty [of ds] new_table_rejects [OF True, of kDefaultCacheCapacity "id_hash db"] show ?thesis
      by (auto simp: run_create_def createTable_def no_id_error_def kDefaultCacheCapacity_def)
  next
    case wf: False
    with add_columns_empty [of ds] show ?thesis by (auto simp: run_create_def)
  qed
  with False inv show ?thesis by (auto simp: agrees_def)
qed

lemma run_drop_agrees:
  assumes inv: "db_inv db C"
  shows "agrees C (run_drop db name) (statement_meaning (DropTableStatement name) (database_relations db))"
proof -
  from dropTable_spec [OF inv, of name] obtain db' where
    "dropTable db name = Inr (table_of db name \<noteq> None, db')" "db_inv db' C" "table_of db' = (table_of db)(name := None)" by blast
  then show ?thesis
    by (auto simp: run_drop_def agrees_def database_relations_def fun_eq_iff)
qed

lemma run_agrees:
  assumes "db_inv db C" and "\<And>name cols literals. stmt = InsertStatement name cols literals \<Longrightarrow> length cols = length literals"
  shows "agrees C (run db stmt) (statement_meaning stmt (database_relations db))"
  using assms run_create_agrees run_drop_agrees run_table_agrees
  by (cases stmt) (simp_all only: run.simps)

section \<open>Queries\<close>

lemma parsed_query:
  "bind_result (tokenize query) parse = Inl e \<Longrightarrow> \<exists>msg. e = Query_error msg"
  "bind_result (tokenize query) parse = Inr (InsertStatement name cols literals) \<Longrightarrow> length cols = length literals"
proof -
  have ok: "stream_ok ts" if "tokenize query = Inr ts" for ts
    using that lexes_stream_ok by (auto simp: tokenize_lexes)
  show "\<exists>msg. e = Query_error msg" if "bind_result (tokenize query) parse = Inl e"
    using that tokenize_error [of query] parse_error [OF ok] by (cases "tokenize query") auto
  show "length cols = length literals" if "bind_result (tokenize query) parse = Inr (InsertStatement name cols literals)"
    using that parse_iff [OF ok] by (cases "tokenize query") auto
qed

text \<open>The reply that a meaning allows.\<close>

definition replies :: "string option \<Rightarrow> string \<Rightarrow> bool" where
  "replies m reply = (case m of Some s \<Rightarrow> reply = s | None \<Rightarrow> (\<exists>msg. reply = ''ERROR: '' @ msg))"

lemma execute_agrees:
  assumes inv: "db_inv db C"
  shows "\<exists>reply db'. execute db query = Inr (reply, db') \<and> db_inv db' C \<and>
    replies (fst (query_meaning query (database_relations db))) reply \<and>
    database_relations db' = snd (query_meaning query (database_relations db))"
proof (cases "bind_result (tokenize query) parse")
  case (Inl e)
  with parsed_query(1) [OF Inl] inv show ?thesis
    by (auto simp: execute_def query_meaning_def caught_def replies_def)
next
  case (Inr stmt)
  then have "agrees C (run db stmt) (statement_meaning stmt (database_relations db))"
    by (intro run_agrees [OF inv]) (simp add: parsed_query(2))
  with Inr show ?thesis
    by (cases "run db stmt"; cases "fst (run db stmt)")
      (auto simp: execute_def query_meaning_def agrees_def outcome_def failure_def caught_def replies_def split: option.splits)
qed

end
