(* ===== verification/Query_Props.thy ===== *)
theory Query_Props
  imports QueryExecutor_Spec Table_Props
begin

text \<open>
  What a client of the executor observes: the reply to every query string, over sequences of
  queries from an empty database.
\<close>

section \<open>Sequences of queries\<close>

fun run_queries :: "string list \<Rightarrow> database \<Rightarrow> (string list \<times> database) result" where
  "run_queries [] db = Inr ([], db)"
| "run_queries (q # qs) db =
     bind_result (execute db q) (\<lambda>(reply, db').
     bind_result (run_queries qs db') (\<lambda>(rs, db''). Inr (reply # rs, db'')))"

fun query_meanings :: "string list \<Rightarrow> relations \<Rightarrow> string option list \<times> relations" where
  "query_meanings [] D = ([], D)"
| "query_meanings (q # qs) D =
     (let (m, D') = query_meaning q D; (ms, D'') = query_meanings qs D' in (m # ms, D''))"

definition is_error :: "string \<Rightarrow> bool" where
  "is_error reply \<longleftrightarrow> take 7 reply = ''ERROR: ''"

text \<open>A reply is the one the query means, and an error can be told from every other reply.\<close>

definition replies_exactly :: "string option \<Rightarrow> string \<Rightarrow> bool" where
  "replies_exactly m reply =
     (case m of Some s \<Rightarrow> reply = s \<and> \<not> is_error reply | None \<Rightarrow> is_error reply)"

section \<open>Names without colons\<close>

text \<open>The tokenizer lets no colon into a name, so no column of a table can start like an error.\<close>

definition plain_schema :: "Schema \<Rightarrow> bool" where
  "plain_schema sc \<longleftrightarrow> (\<forall>c \<in> set (columns sc). CHR '':'' \<notin> set (col_name c))"

definition plain :: "relations \<Rightarrow> bool" where
  "plain D \<longleftrightarrow> (\<forall>n R. D n = Some R \<longrightarrow> plain_schema (fst R))"

lemma separated_column_names:
  "separated column_def s ds us \<Longrightarrow> d \<in> set ds \<Longrightarrow> (IDENTIFIER, cd_name d) \<in> set us"
  by (induction column_def s ds us rule: separated.induct) (auto simp: column_def_def)

lemma ident_ok_no_colon: "ident_ok w \<Longrightarrow> CHR '':'' \<notin> set w"
  by (auto simp: ident_ok_def list_all_iff isIdentChar_def isalnum_def isalpha_def isupper_def islower_def isdigit_def)

lemma created_columns_plain:
  assumes "bind_result (tokenize query) parse = Inr (CreateTableStatement name ds)"
  shows "plain_schema (schema_of ds)"
proof -
  from assms obtain ts where ts: "tokenize query = Inr ts" "parse ts = Inr (CreateTableStatement name ds)"
    by (auto simp: bind_result_eq_Inr)
  then have l: "lexes (length query) query ts" by (simp add: tokenize_lexes)
  then have sp: "spells (CreateTableStatement name ds) (map symbol_of (butlast ts))"
    using parse_iff [OF lexes_stream_ok] ts(2) by blast
  have "ident_ok (cd_name d)" if d: "d \<in> set ds" for d
  proof -
    from sp obtain v where v: "map symbol_of (butlast ts) =
        [kw ''CREATE'', kw ''TABLE'', (IDENTIFIER, name), punct ''(''] @ v @ [punct '')'']" "separated column_def comma ds v"
      by auto
    have "(IDENTIFIER, cd_name d) \<in> set (map symbol_of (butlast ts))"
      unfolding v(1) using separated_column_names [OF v(2) d] by simp
    then obtain t where "t \<in> set (butlast ts)" "tok_type t = IDENTIFIER" "tok_value t = cd_name d"
      by (auto simp: symbol_of_def)
    with lexes_values [OF l, of t] show ?thesis by auto
  qed
  then show ?thesis by (auto simp: plain_schema_def schema_of_def ident_ok_no_colon)
qed

lemma query_meaning_plain:
  assumes "plain D"
  shows "plain (snd (query_meaning query D))"
proof -
  have at: "plain (snd (at_table n f D))" if "\<And>R. fst (snd (f R)) = fst R" for n and f :: "relation \<Rightarrow> string option \<times> relation"
  proof (cases "D n")
    case (Some R)
    then have "plain_schema (fst R)" using assms unfolding plain_def by blast
    with Some assms that [of R] show ?thesis unfolding plain_def at_table_def by simp (metis fst_conv)
  qed (simp add: at_table_def assms)
  have rel: "fst (snd (insert_relation cols literals R)) = fst R" "fst (snd (select_relation cols ws R)) = fst R"
    "fst (snd (update_relation sets ws R)) = fst R" "fst (snd (delete_relation ws R)) = fst R" for cols literals ws sets R
    by (simp_all add: insert_relation_def select_relation_def update_relation_def delete_relation_def Let_def)
  show ?thesis
  proof (cases "bind_result (tokenize query) parse")
    case (Inr stmt)
    show ?thesis
    proof (cases stmt)
      case (CreateTableStatement name ds)
      with Inr created_columns_plain [of query name ds] assms show ?thesis
        by (auto simp: query_meaning_def plain_def)
    next
      case (DropTableStatement name)
      with Inr assms show ?thesis by (auto simp: query_meaning_def plain_def)
    qed (simp_all add: Inr query_meaning_def at rel)
  qed (simp add: assms query_meaning_def)
qed

lemma is_error_colon: "is_error reply \<Longrightarrow> reply = w @ v \<Longrightarrow> 6 < length w \<Longrightarrow> CHR '':'' \<in> set w"
proof -
  assume e: "is_error reply" and r: "reply = w @ v" "6 < length w"
  have "w ! 5 = take 7 reply ! 5" using r by (simp add: nth_append)
  with e r(2) show ?thesis using nth_mem [of 5 w] by (simp add: is_error_def)
qed

lemma not_error_cell: "CHR '':'' \<notin> set c \<Longrightarrow> \<not> is_error (c @ ''='' @ v)"
proof
  assume c: "CHR '':'' \<notin> set c" and e: "is_error (c @ ''='' @ v)"
  show False
  proof (cases "6 < length c")
    case True
    from is_error_colon [OF e refl True] c show False by simp
  next
    case False
    have "(c @ ''='' @ v) ! length c = take 7 (c @ ''='' @ v) ! length c" using False by (simp del: take_append)
    also have "\<dots> = ''ERROR: '' ! length c" using e by (simp add: is_error_def)
    finally have "''ERROR: '' ! length c = CHR ''=''" by (simp add: nth_append)
    moreover from False have "length c = 0 \<or> length c = 1 \<or> length c = 2 \<or> length c = 3 \<or> length c = 4 \<or>
      length c = 5 \<or> length c = 6" by linarith
    ultimately show False by (elim disjE) simp_all
  qed
qed

lemma row_text_cell:
  assumes "plain_schema (row_schema r)" and "columns (row_schema r) \<noteq> []"
    and "\<forall>c \<in> set cols. hasColumn (row_schema r) c"
  obtains c v where "row_text cols r = c @ ''='' @ v" "CHR '':'' \<notin> set c"
proof -
  let ?cs = "if cols = [] then map col_name (columns (row_schema r)) else cols"
  have "?cs \<noteq> []" using assms(2) by simp
  then obtain c cs where cs: "?cs = c # cs" by (auto simp only: neq_Nil_conv)
  then have "c \<in> set ?cs" by simp
  with assms have "CHR '':'' \<notin> set c" by (auto simp: plain_schema_def hasColumn_iff split: if_splits)
  with cs that show ?thesis by (simp add: row_text_def comma_joined_Cons cell_text_def)
qed

lemma select_not_error:
  assumes "plain_schema sc" and "columns sc \<noteq> []" and "\<forall>c \<in> set cols. hasColumn sc c"
    and "\<forall>r \<in> set rs. row_schema r = sc"
  shows "\<not> is_error (reply_text cols rs)"
proof (cases rs)
  case Nil
  then show ?thesis by (simp add: reply_text_def is_error_def)
next
  case (Cons r rs')
  then have "row_schema r = sc" using assms(4) by simp
  with assms(1-3) obtain c v where "row_text cols r = c @ ''='' @ v" "CHR '':'' \<notin> set c" using row_text_cell [of r cols] by metis
  with Cons show ?thesis using not_error_cell by (simp add: reply_text_def)
qed

lemma ok_not_error: "\<not> is_error (''OK'' @ s)"
  by (simp add: is_error_def)

text \<open>The relations of a database satisfy what is needed: schemas with an id column, rows of the schema.\<close>

lemma database_relation:
  assumes "db_inv db C" and "database_relations db n = Some R"
  shows "columns (fst R) \<noteq> []" "\<forall>e \<in> set (snd R). row_schema (snd e) = fst R"
proof -
  from assms obtain t where t: "tbl_inv t" "R = table_relation t"
    using table_of_inv [OF assms(1)] by (auto simp: database_relations_def)
  have "hasColumn (tbl_schema t) kIdColumn" using tbl_invD(1) [OF t(1)] by (auto simp: id_schema_def hasColumn_def)
  then show "columns (fst R) \<noteq> []" by (auto simp: t(2) table_relation_def hasColumn_iff)
  show "\<forall>e \<in> set (snd R). row_schema (snd e) = fst R"
    using tbl_invD(4) [OF t(1)] by (simp add: t(2) table_relation_def stored_ok_def)
qed

lemma query_meaning_not_error:
  assumes inv: "db_inv db C" and p: "plain (database_relations db)"
    and m: "fst (query_meaning query (database_relations db)) = Some s"
  shows "\<not> is_error s"
proof -
  from m obtain stmt where stmt: "fst (statement_meaning stmt (database_relations db)) = Some s"
    by (auto simp: query_meaning_def split: sum.splits)
  show ?thesis
  proof (cases stmt)
    case (SelectStatement n cols ws)
    with stmt obtain R where R: "database_relations db n = Some R" "fst (select_relation cols ws R) = Some s"
      by (auto simp: at_table_def split: option.splits)
    then have sel: "\<forall>c \<in> set cols. hasColumn (fst R) c" "s = reply_text cols (map snd (chosen ws (snd R)))"
      by (auto simp: select_relation_def split: if_splits)
    have "plain_schema (fst R)" using p R(1) by (cases R) (auto simp: plain_def)
    from select_not_error [OF this database_relation(1) [OF inv R(1)] sel(1)] database_relation(2) [OF inv R(1)] sel(2)
    show ?thesis by (auto simp: chosen_def)
  qed (use stmt in \<open>auto simp: at_table_def insert_relation_def update_relation_def delete_relation_def Let_def is_error_def
      split: option.splits if_splits\<close>)
qed

section \<open>Properties\<close>

lemma replies_exactly_iff:
  assumes "replies m reply" and "\<And>s. m = Some s \<Longrightarrow> \<not> is_error s"
  shows "replies_exactly m reply"
  using assms by (auto simp: replies_def replies_exactly_def is_error_def split: option.splits)

lemma run_queries_spec:
  assumes "db_inv db C" and "plain (database_relations db)"
  shows "\<exists>rs db'. run_queries qs db = Inr (rs, db') \<and> db_inv db' C \<and>
    list_all2 replies_exactly (fst (query_meanings qs (database_relations db))) rs \<and>
    database_relations db' = snd (query_meanings qs (database_relations db))"
  using assms
proof (induction qs arbitrary: db)
  case (Cons q qs)
  let ?m = "query_meaning q (database_relations db)"
  from execute_agrees [OF Cons.prems(1), of q] obtain reply db1 where
    e: "execute db q = Inr (reply, db1)" "db_inv db1 C" "replies (fst ?m) reply" "database_relations db1 = snd ?m" by blast
  have "replies_exactly (fst ?m) reply"
    using replies_exactly_iff [OF e(3)] query_meaning_not_error [OF Cons.prems] by blast
  moreover have "plain (database_relations db1)" unfolding e(4) by (rule query_meaning_plain [OF Cons.prems(2)])
  from Cons.IH [OF e(2) this] obtain rs db' where "run_queries qs db1 = Inr (rs, db')" "db_inv db' C"
    "list_all2 replies_exactly (fst (query_meanings qs (snd ?m))) rs" "database_relations db' = snd (query_meanings qs (snd ?m))"
    unfolding e(4) by blast
  ultimately show ?case using e(1) by (auto simp: split_beta Let_def)
qed simp

text \<open>
  C1. For every sequence of query strings, sensible or not, sent to an empty database, the executor
  answers each one without an exception, undefined behaviour or an endless loop. The replies and
  the final tables are exactly those of the statements read on plain relations: a query that does
  not parse, names a missing table or column, has a literal of the wrong type or a taken id gets a
  reply that starts with \<^verbatim>\<open>ERROR: \<close> and changes no row, and no other reply starts that way.
\<close>

theorem queries_refine_relations:
  "\<exists>rs db. run_queries qs (new_database hs hi) = Inr (rs, db) \<and>
     list_all2 replies_exactly (fst (query_meanings qs Map.empty)) rs \<and>
     database_relations db = snd (query_meanings qs Map.empty) \<and> db_inv db {#}"
proof -
  have D: "database_relations (new_database hs hi) = Map.empty"
    using new_database_inv(2) [of hs hi] by (simp add: database_relations_def)
  have "plain (database_relations (new_database hs hi))" unfolding D by (simp add: plain_def)
  from run_queries_spec [OF new_database_inv(1) this, of qs] show ?thesis unfolding D by blast
qed

definition demo_queries :: "string list" where
  "demo_queries =
    [''CREATE TABLE t (id INT, name TEXT)'',
     ''INSERT INTO t (id, name) VALUES (2, 7)'',
     ''insert into t (name, id) values ('' @ [CHR 0x27] @ ''ann'' @ [CHR 0x27] @ '', -1)'',
     ''UPDATE t SET name = 9 WHERE id > 1'',
     ''SELECT * FROM t WHERE id >= -5'',
     ''SELEC * FROM t'']"

lemma demo_queries_meaning:
  "fst (query_meanings demo_queries Map.empty) =
    [Some ''OK'', Some ''OK'', Some ''OK'', Some ''OK (1 row updated)'',
     Some (''id=-1, name=ann'' @ [CHR 0x0A] @ ''id=2, name=9'' @ [CHR 0x0A] @ ''(2 rows)''), None]"
  by code_simp

theorem queries_refine_relations_witness:
  "\<exists>error db. run_queries demo_queries (new_database (\<lambda>_. 0) (\<lambda>_. 0)) =
     Inr ([''OK'', ''OK'', ''OK'', ''OK (1 row updated)'',
       ''id=-1, name=ann'' @ [CHR 0x0A] @ ''id=2, name=9'' @ [CHR 0x0A] @ ''(2 rows)'', error], db) \<and> is_error error"
proof -
  from queries_refine_relations [of demo_queries "\<lambda>_. 0" "\<lambda>_. 0"] obtain rs db where
    "run_queries demo_queries (new_database (\<lambda>_. 0) (\<lambda>_. 0)) = Inr (rs, db)"
    "list_all2 replies_exactly (fst (query_meanings demo_queries Map.empty)) rs" by blast
  then show ?thesis unfolding demo_queries_meaning by (auto simp: list_all2_Cons1 replies_exactly_def)
qed

text \<open>The scan that evaluates the whole conjunction on every row.\<close>

definition scan_rows :: "table \<Rightarrow> WhereList \<Rightarrow> Row list result" where
  "scan_rows t ws = bind_result (makeConjunction (tbl_schema t) ws) (selectWhere t)"

text \<open>
  C7. Fetching rows through the index on the id (a point lookup through the cache for \<^verbatim>\<open>=\<close>, a pruned
  range for the inequalities, the ends of the 64-bit range included) gives exactly the rows, in the
  same order, that a scan of the table with the full conjunction gives, and fails exactly when that
  fails. The table keeps its rows and its invariant.
\<close>

theorem fetchRows_equals_scan:
  assumes "tbl_inv t"
  shows "\<exists>res t'. fetchRows t ws = (res, t') \<and> tbl_inv t' \<and> table_rows t' = table_rows t \<and>
    (case scan_rows t ws of
       Inr rs \<Rightarrow> res = Inr rs \<and> rs = filter (where_holds ws) (table_rows t)
     | Inl _ \<Rightarrow> \<exists>msg. res = Inl (Query_error msg))"
proof (cases "conditions_ok (tbl_schema t) ws")
  case True
  obtain p where "makeConjunction (tbl_schema t) ws = Inr p" "total_on t p (where_holds ws)"
    by (rule conjunction_total [OF assms True])
  then have "scan_rows t ws = Inr (filter (where_holds ws) (table_rows t))"
    using selectWhere_correct [OF assms] by (simp add: scan_rows_def)
  with fetchRows_ok [OF assms, of ws] True show ?thesis by (auto simp: conditions_ok_def table_rows_def)
next
  case False
  obtain msg where "makeConjunction (tbl_schema t) ws = Inl (Query_error msg)" by (rule conjunction_bad [OF False])
  with fetchRows_bad [OF assms, of ws] False show ?thesis
    by (auto simp: conditions_ok_def table_rows_def scan_rows_def)
qed

definition demo_where :: WhereList where
  "demo_where = [\<lparr>wc_column = ''name'', wc_op = NE, wc_value = ''eve''\<rparr>,
     \<lparr>wc_column = ''id'', wc_op = GT, wc_value = ''1''\<rparr>]"

theorem fetchRows_equals_scan_witness:
  "tbl_inv demo_table \<and> fst (fetchRows demo_table demo_where) = Inr [demo_row 2 ''bob'']"
proof -
  from fetchRows_equals_scan [OF demo_table_inv, of demo_where] obtain res t' where
    f: "fetchRows demo_table demo_where = (res, t')" "case scan_rows demo_table demo_where of
       Inr rs \<Rightarrow> res = Inr rs \<and> rs = filter (where_holds demo_where) (table_rows demo_table)
     | Inl _ \<Rightarrow> \<exists>msg. res = Inl (Query_error msg)" by blast
  have "scan_rows demo_table demo_where = Inr [demo_row 2 ''bob'']" by code_simp
  with f demo_table_inv show ?thesis by simp
qed

lemma row_of_text:
  assumes "schema_wf sc" and "\<forall>c \<in> set (columns sc). f (col_name c) \<noteq> None"
  shows "row_text [] (row_of sc f) =
    comma_joined (map (\<lambda>c. col_name c @ ''='' @ toString_Value (cell_of (col_type c) (the (f (col_name c))))) (columns sc))"
proof -
  have "cell_text (row_of sc f) (col_name c) = col_name c @ ''='' @ toString_Value (cell_of (col_type c) (the (f (col_name c))))"
    if c: "c \<in> set (columns sc)" for c
  proof -
    have "findColumn sc (col_name c) = Some c" using c by (simp add: findColumn_Some_iff [OF assms(1)])
    moreover obtain s where "f (col_name c) = Some s" using assms(2) c by blast
    ultimately show ?thesis using row_of_value [OF assms(1)] by (simp add: cell_text_def)
  qed
  then show ?thesis by (simp add: row_text_def comp_def cong: map_cong)
qed

lemma inserted_relation:
  assumes inv: "db_inv db C" and len: "length cols = length literals"
    and ins: "run db (InsertStatement n cols literals) = (Inr ''OK'', db')"
  defines "f \<equiv> map_of (rev (zip cols literals))"
  obtains t where "db_inv db' C" "table_of db' n = Some t" "tbl_inv t" "isValidValueFor DT_INT (the (f kIdColumn))"
    "\<forall>c \<in> set (columns (tbl_schema t)). f (col_name c) \<noteq> None"
    "table_map t (parseInt (the (f kIdColumn))) = Some (row_of (tbl_schema t) f)"
proof -
  let ?i = "parseInt (the (f kIdColumn))"
  have "agrees C (Inr ''OK'', db') (statement_meaning (InsertStatement n cols literals) (database_relations db))"
    using run_agrees [OF inv, of "InsertStatement n cols literals"] len unfolding ins by simp
  then have db': "db_inv db' C" and m: "fst (at_table n (insert_relation cols literals) (database_relations db)) = Some ''OK''"
    and D': "database_relations db' = snd (at_table n (insert_relation cols literals) (database_relations db))"
    by (auto simp: agrees_def outcome_def split: option.splits)
  from m obtain t0 where t0: "table_of db n = Some t0" "fst (insert_relation cols literals (table_relation t0)) = Some ''OK''"
    by (auto simp: at_table_def database_relations_def split: option.splits)
  let ?sc = "tbl_schema t0"
  have i0: "tbl_inv t0" by (rule table_of_inv [OF inv t0(1)])
  from t0(2) have ok: "\<forall>a \<in> set (zip cols literals). literal_fits ?sc a" "\<forall>c \<in> set (columns ?sc). col_name c \<in> set cols"
    "map_of (entries (rows t0)) ?i = None" and
    R: "snd (insert_relation cols literals (table_relation t0)) = (?sc, ins_entry ?i (row_of ?sc f) (entries (rows t0)))"
    unfolding insert_relation_def Let_def f_def table_relation_def by (auto split: if_splits)
  from D' t0(1) R obtain t where t: "table_of db' n = Some t" "table_relation t = (?sc, ins_entry ?i (row_of ?sc f) (entries (rows t0)))"
    by (auto simp: at_table_def database_relations_def fun_eq_iff dest!: spec [of _ n])
  have "?i \<notin> fst ` set (entries (rows t0))" using ok(3) by (simp add: map_of_eq_None_iff)
  then have "table_map t ?i = Some (row_of ?sc f)"
    using t(2) map_of_ins [OF bt.sorted_ents [OF tbl_invD(2) [OF i0]]] by (simp add: table_map_def table_relation_def)
  moreover have given: "\<forall>c \<in> set (columns ?sc). f (col_name c) \<noteq> None"
    using ok(2) named_literal [OF len] unfolding f_def by blast
  moreover have "isValidValueFor DT_INT (the (f kIdColumn))"
  proof -
    from tbl_invD(1) [OF i0] obtain c where c: "schema_wf ?sc" "findColumn ?sc kIdColumn = Some c" "col_type c = DT_INT"
      by (auto simp: id_schema_def)
    then obtain s where s: "f kIdColumn = Some s" using given by (auto simp: findColumn_Some_iff)
    then have "(kIdColumn, s) \<in> set (zip cols literals)" by (auto simp: f_def dest: map_of_SomeD)
    with ok(1) c s show ?thesis by (auto simp: literal_fits_def)
  qed
  ultimately show ?thesis using that db' t table_of_inv [OF db' t(1)] by (simp add: table_relation_def)
qed

text \<open>
  C19. After an \<^verbatim>\<open>INSERT\<close> that answered \<^verbatim>\<open>OK\<close>, looking the row up by the id literal of the insert answers
  with exactly one row: every column of the table, in the order of the schema, with the literal
  given for it in its canonical form, whatever the order of the columns in the statement.
\<close>

theorem insert_then_select:
  assumes "db_inv db C" and "length cols = length literals"
    and "run db (InsertStatement n cols literals) = (Inr ''OK'', db')"
  defines "f \<equiv> map_of (rev (zip cols literals))"
  defines "by_id \<equiv> \<lparr>wc_column = kIdColumn, wc_op = EQ, wc_value = the (f kIdColumn)\<rparr>"
  shows "\<exists>t. table_of db' n = Some t \<and>
    fst (run db' (SelectStatement n [] [by_id])) =
      Inr (comma_joined (map (\<lambda>c. col_name c @ ''='' @ toString_Value (cell_of (col_type c) (the (f (col_name c)))))
             (columns (tbl_schema t))) @ [CHR 0x0A] @ ''(1 row)'')"
proof -
  from assms(1-3) obtain t where t: "db_inv db' C" "table_of db' n = Some t" "tbl_inv t" "isValidValueFor DT_INT (wc_value by_id)"
    "\<forall>c \<in> set (columns (tbl_schema t)). f (col_name c) \<noteq> None"
    "table_map t (parseInt (wc_value by_id)) = Some (row_of (tbl_schema t) f)"
    using inserted_relation [OF assms(1-3)] unfolding f_def by_id_def by simp metis
  have id: "wc_column by_id = kIdColumn" "wc_op by_id = EQ" by (simp_all add: by_id_def)
  have "conditions_ok (tbl_schema t) [by_id]"
    using id_clause_ok [OF tbl_invD(1) [OF t(3)] id(1)] t(4) by (simp add: conditions_ok_def)
  moreover have "map snd (chosen [by_id] (entries (rows t))) = [row_of (tbl_schema t) f]"
    using chosen_id(2) [OF t(3) id] t(6) by simp
  ultimately have "fst (select_relation [] [by_id] (table_relation t)) =
      Some (row_text [] (row_of (tbl_schema t) f) @ [CHR 0x0A] @ ''('' @ rowsSuffix 1 @ '')'')"
    by (simp add: select_relation_def table_relation_def reply_text_def)
  moreover have "rowsSuffix 1 = ''1 row''" by code_simp
  moreover have "schema_wf (tbl_schema t)" using tbl_invD(1) [OF t(3)] by (simp add: id_schema_def)
  ultimately have "fst (statement_meaning (SelectStatement n [] [by_id]) (database_relations db')) =
      Some (comma_joined (map (\<lambda>c. col_name c @ ''='' @ toString_Value (cell_of (col_type c) (the (f (col_name c)))))
             (columns (tbl_schema t))) @ [CHR 0x0A] @ ''(1 row)'')"
    using t(2) row_of_text [OF _ t(5)] by (simp add: at_table_def database_relations_def)
  with run_agrees [OF t(1), of "SelectStatement n [] [by_id]"] t(2) show ?thesis by (simp add: agrees_def)
qed

definition demo_columns :: "ColumnDef list" where
  "demo_columns = [\<lparr>cd_name = ''id'', cd_type = DT_INT\<rparr>, \<lparr>cd_name = ''name'', cd_type = DT_TEXT\<rparr>]"

theorem insert_then_select_witness:
  "\<exists>db db'. db_inv db {#} \<and> run db (InsertStatement ''t'' [''name'', ''id''] [''ann'', ''-03'']) = (Inr ''OK'', db') \<and>
     fst (run db' (SelectStatement ''t'' [] [\<lparr>wc_column = kIdColumn, wc_op = EQ, wc_value = ''-03''\<rparr>])) =
       Inr (''id=-3, name=ann'' @ [CHR 0x0A] @ ''(1 row)'')"
proof -
  let ?new = "new_database (\<lambda>_. 0) (\<lambda>_. 0)" and ?ins = "InsertStatement ''t'' [''name'', ''id''] [''ann'', ''-03'']"
  let ?D = "[''t'' \<mapsto> (schema_of demo_columns, [])] :: relations"
  have "database_relations ?new = Map.empty"
    using new_database_inv(2) [of "\<lambda>_. 0" "\<lambda>_. 0"] by (simp add: database_relations_def)
  moreover have "columns_ok demo_columns" by code_simp
  ultimately obtain db where db: "db_inv db {#}" "database_relations db = ?D"
    using run_create_agrees [OF new_database_inv(1), of "\<lambda>_. 0" "\<lambda>_. 0" "''t''" demo_columns]
    unfolding agrees_def by fastforce
  have "fst (statement_meaning ?ins ?D) = Some ''OK''"
    "map_option fst (snd (statement_meaning ?ins ?D) ''t'') = Some (schema_of demo_columns)" by code_simp+
  with run_agrees [OF db(1), of ?ins] db(2) obtain db' where
    db': "run db ?ins = (Inr ''OK'', db')" "map_option fst (database_relations db' ''t'') = Some (schema_of demo_columns)"
    unfolding agrees_def by (cases "run db ?ins") auto
  from insert_then_select [OF db(1) _ db'(1)] obtain t where t: "table_of db' ''t'' = Some t"
    "fst (run db' (SelectStatement ''t'' [] [\<lparr>wc_column = kIdColumn, wc_op = EQ,
        wc_value = the (map_of (rev (zip [''name'', ''id''] [''ann'', ''-03''])) kIdColumn)\<rparr>])) =
      Inr (comma_joined (map (\<lambda>c. col_name c @ ''='' @ toString_Value (cell_of (col_type c)
             (the (map_of (rev (zip [''name'', ''id''] [''ann'', ''-03''])) (col_name c))))) (columns (tbl_schema t))) @
           [CHR 0x0A] @ ''(1 row)'')" by auto
  have "tbl_schema t = schema_of demo_columns" using db'(2) t(1) by (simp add: database_relations_def table_relation_def)
  moreover have "comma_joined (map (\<lambda>c. col_name c @ ''='' @ toString_Value (cell_of (col_type c)
      (the (map_of (rev (zip [''name'', ''id''] [''ann'', ''-03''])) (col_name c))))) (columns (schema_of demo_columns))) =
      ''id=-3, name=ann''" by code_simp
  moreover have "the (map_of (rev (zip [''name'', ''id''] [''ann'', ''-03''])) kIdColumn) = ''-03''" by code_simp
  ultimately show ?thesis using db(1) db'(1) t(2) by auto
qed

end
