(* ===== verification/UniquePtr.thy ===== *)
theory UniquePtr
  imports Memory
begin

text \<open>
  The owning pointer of \<^verbatim>\<open>include/memory/UniquePtr.hpp\<close>, and programs that hold such pointers and
  raw pointers in variables. Copying is deleted in the class, so the only ways a pointer changes
  hands are moves, swaps, \<open>release\<close> and \<open>reset\<close>.
\<close>

section \<open>Operations\<close>

record UniquePtr =
  up_ptr :: "nat option"

definition up_null :: UniquePtr where
  "up_null = \<lparr>up_ptr = None\<rparr>"

definition up_from_raw :: "nat option \<Rightarrow> UniquePtr" where
  "up_from_raw p = \<lparr>up_ptr = p\<rparr>"

text \<open>\<^verbatim>\<open>release()\<close>: the raw pointer, and the pointer left behind.\<close>

definition up_release :: "UniquePtr \<Rightarrow> nat option \<times> UniquePtr" where
  "up_release u = (up_ptr u, u\<lparr>up_ptr := None\<rparr>)"

text \<open>\<^verbatim>\<open>reset(ptr)\<close>: the pointer is exchanged before the old object is deleted.\<close>

definition up_reset :: "'a memory \<Rightarrow> UniquePtr \<Rightarrow> nat option \<Rightarrow> (UniquePtr \<times> 'a memory) result" where
  "up_reset m u p =
     (let old = up_ptr u in bind_result (delete_object m old) (\<lambda>m'. Inr (u\<lparr>up_ptr := p\<rparr>, m')))"

definition up_move :: "UniquePtr \<Rightarrow> UniquePtr \<times> UniquePtr" where
  "up_move other = (let (p, rest) = up_release other in (up_from_raw p, rest))"

definition up_destroy :: "'a memory \<Rightarrow> UniquePtr \<Rightarrow> 'a memory result" where
  "up_destroy m u = delete_object m (up_ptr u)"

definition up_deref :: "'a memory \<Rightarrow> UniquePtr \<Rightarrow> 'a result" where
  "up_deref m u = bind_result (deref (up_ptr u)) (\<lambda>a. deref (objects m a))"

definition up_bool :: "UniquePtr \<Rightarrow> bool" where
  "up_bool u \<longleftrightarrow> up_ptr u \<noteq> None"

definition up_swap :: "UniquePtr \<Rightarrow> UniquePtr \<Rightarrow> UniquePtr \<times> UniquePtr" where
  "up_swap u other = (u\<lparr>up_ptr := up_ptr other\<rparr>, other\<lparr>up_ptr := up_ptr u\<rparr>)"

definition up_is_null :: "UniquePtr \<Rightarrow> bool" where
  "up_is_null lhs \<longleftrightarrow> up_ptr lhs = None"

definition makeUnique :: "'a memory \<Rightarrow> 'a \<Rightarrow> UniquePtr \<times> 'a memory" where
  "makeUnique m x = (let (a, m') = new_object m x in (up_from_raw (Some a), m'))"

section \<open>Variables\<close>

record 'a up_program =
  up_mem :: "'a memory"
  up_vars :: "nat \<rightharpoonup> UniquePtr"
  up_raws :: "nat \<rightharpoonup> nat option"

datatype 'a up_op =
    U_Construct nat
  | U_Adopt nat nat
  | U_Make nat 'a
  | U_MoveConstruct nat nat
  | U_MoveAssign nat nat
  | U_Swap nat nat
  | U_Release nat nat
  | U_Reset nat
  | U_ResetTo nat nat
  | U_Destroy nat
  | U_New nat 'a
  | U_Delete nat

abbreviation set_var :: "nat \<Rightarrow> UniquePtr \<Rightarrow> 'a up_program \<Rightarrow> 'a up_program" where
  "set_var v u s \<equiv> s\<lparr>up_vars := (up_vars s)(v \<mapsto> u)\<rparr>"

text \<open>
  Moving a variable onto itself does nothing. A raw pointer that is adopted, given to \<^verbatim>\<open>reset\<close> or
  deleted is not used again, so its variable goes out of scope.
\<close>

fun up_step :: "'a up_op \<Rightarrow> 'a up_program \<Rightarrow> 'a up_program result" where
  "up_step (U_Construct v) s = Inr (set_var v up_null s)"
| "up_step (U_Adopt v r) s =
     bind_result (deref (up_raws s r)) (\<lambda>p.
       Inr (set_var v (up_from_raw p) (s\<lparr>up_raws := (up_raws s)(r := None)\<rparr>)))"
| "up_step (U_Make v x) s =
     (let (u, m) = makeUnique (up_mem s) x in Inr (set_var v u (s\<lparr>up_mem := m\<rparr>)))"
| "up_step (U_MoveConstruct v w) s =
     bind_result (deref (up_vars s w)) (\<lambda>other.
       let (u, rest) = up_move other in Inr (set_var v u (set_var w rest s)))"
| "up_step (U_MoveAssign v w) s =
     (if v = w then Inr s
      else bind_result (deref (up_vars s w)) (\<lambda>other.
        let (p, rest) = up_release other in
        bind_result (deref (up_vars s v)) (\<lambda>u.
        bind_result (up_reset (up_mem s) u p) (\<lambda>(u', m).
          Inr (set_var v u' (set_var w rest (s\<lparr>up_mem := m\<rparr>)))))))"
| "up_step (U_Swap v w) s =
     bind_result (deref (up_vars s v)) (\<lambda>u.
     bind_result (deref (up_vars s w)) (\<lambda>other.
       let (u', other') = up_swap u other in Inr (set_var v u' (set_var w other' s))))"
| "up_step (U_Release v r) s =
     bind_result (deref (up_vars s v)) (\<lambda>u.
       let (p, rest) = up_release u in Inr (set_var v rest (s\<lparr>up_raws := (up_raws s)(r \<mapsto> p)\<rparr>)))"
| "up_step (U_Reset v) s =
     bind_result (deref (up_vars s v)) (\<lambda>u.
     bind_result (up_reset (up_mem s) u None) (\<lambda>(u', m). Inr (set_var v u' (s\<lparr>up_mem := m\<rparr>))))"
| "up_step (U_ResetTo v r) s =
     bind_result (deref (up_raws s r)) (\<lambda>p.
     bind_result (deref (up_vars s v)) (\<lambda>u.
     bind_result (up_reset (up_mem s) u p) (\<lambda>(u', m).
       Inr (set_var v u' (s\<lparr>up_mem := m, up_raws := (up_raws s)(r := None)\<rparr>)))))"
| "up_step (U_Destroy v) s =
     bind_result (deref (up_vars s v)) (\<lambda>u.
     bind_result (up_destroy (up_mem s) u) (\<lambda>m. Inr (s\<lparr>up_mem := m, up_vars := (up_vars s)(v := None)\<rparr>)))"
| "up_step (U_New r x) s =
     (let (a, m) = new_object (up_mem s) x in Inr (s\<lparr>up_mem := m, up_raws := (up_raws s)(r \<mapsto> Some a)\<rparr>))"
| "up_step (U_Delete r) s =
     bind_result (deref (up_raws s r)) (\<lambda>p.
     bind_result (delete_object (up_mem s) p) (\<lambda>m. Inr (s\<lparr>up_mem := m, up_raws := (up_raws s)(r := None)\<rparr>)))"

end
