(* ===== verification/UniquePtr_Spec.thy ===== *)
theory UniquePtr_Spec
  imports UniquePtr
begin

text \<open>
  Exclusive ownership: the places that hold an address (a pointer variable or a raw pointer the
  program is responsible for) hold different ones, and together hold exactly what is allocated.
\<close>

section \<open>Places and ownership\<close>

definition places :: "(nat \<rightharpoonup> UniquePtr) \<Rightarrow> (nat \<rightharpoonup> nat option) \<Rightarrow> nat + nat \<rightharpoonup> nat" where
  "places V R pl = (case pl of Inl v \<Rightarrow> Option.bind (V v) up_ptr | Inr r \<Rightarrow> Option.bind (R r) id)"

lemma places_simps [simp]:
  "places (V(v := u)) R = (places V R)(Inl v := Option.bind u up_ptr)"
  "places V (R(r := p)) = (places V R)(Inr r := Option.bind p id)"
  "V v = None \<Longrightarrow> places V R (Inl v) = None" "V v = Some x \<Longrightarrow> places V R (Inl v) = up_ptr x"
  "R r = None \<Longrightarrow> places V R (Inr r) = None" "R r = Some q \<Longrightarrow> places V R (Inr r) = q"
  by (auto simp: places_def fun_eq_iff split: sum.splits)

definition owns :: "'a memory \<Rightarrow> ('p \<rightharpoonup> nat) \<Rightarrow> bool" where
  "owns m h \<longleftrightarrow> (\<forall>p q a. h p = Some a \<and> h q = Some a \<longrightarrow> p = q) \<and>
     (\<forall>a. objects m a \<noteq> None \<longleftrightarrow> (\<exists>p. h p = Some a)) \<and> (\<forall>p a. h p = Some a \<longrightarrow> a < next_addr m)"

lemma ownsD:
  assumes "owns m h"
  shows "h p = Some a \<Longrightarrow> h q = Some a \<Longrightarrow> p = q" "objects m a \<noteq> None \<longleftrightarrow> (\<exists>p. h p = Some a)"
    "h p = Some a \<Longrightarrow> a < next_addr m"
proof -
  note d = assms [unfolded owns_def]
  show "h p = Some a \<Longrightarrow> h q = Some a \<Longrightarrow> p = q" using conjunct1 [OF d] by blast
  show "objects m a \<noteq> None \<longleftrightarrow> (\<exists>p. h p = Some a)" using conjunct1 [OF conjunct2 [OF d]] by (rule spec)
  show "h p = Some a \<Longrightarrow> a < next_addr m" using conjunct2 [OF conjunct2 [OF d]] by blast
qed

lemma owns_new:
  assumes "owns m h" and "h p = None"
  shows "\<exists>a m'. new_object m x = (a, m') \<and> owns m' (h(p \<mapsto> a))"
proof -
  let ?a = "next_addr m"
  have "h q \<noteq> Some ?a" for q using ownsD(3) [OF assms(1)] by blast
  moreover have "(\<exists>q. (h(p \<mapsto> ?a)) q = Some b) \<longleftrightarrow> b = ?a \<or> (\<exists>q. h q = Some b)" for b
    using assms(2) by (metis fun_upd_apply option.inject option.distinct(1))
  ultimately have "owns (m\<lparr>objects := (objects m)(?a \<mapsto> x), next_addr := ?a + 1\<rparr>) (h(p \<mapsto> ?a))"
    using ownsD [OF assms(1)] unfolding owns_def by (auto simp: less_Suc_eq)
  then show ?thesis by (simp add: new_object_def)
qed

lemma owns_delete:
  assumes "owns m h"
  shows "\<exists>m'. delete_object m (h p) = Inr m' \<and> owns m' (h(p := None))"
proof (cases "h p")
  case None
  with assms show ?thesis by (simp add: delete_object_def fun_upd_idem)
next
  case (Some a)
  then have a: "objects m a \<noteq> None" using ownsD(2) [OF assms] by blast
  have "(\<exists>q. (h(p := None)) q = Some b) \<longleftrightarrow> b \<noteq> a \<and> (\<exists>q. h q = Some b)" for b
    using Some ownsD(1) [OF assms, of p a] by (metis fun_upd_apply option.inject option.distinct(1))
  then have "owns (m\<lparr>objects := (objects m)(a := None)\<rparr>) (h(p := None))"
    using ownsD [OF assms] unfolding owns_def by auto
  with Some a show ?thesis by (auto simp: delete_object_def)
qed

lemma owns_permuted:
  assumes "owns m h" and f: "\<And>r. f (f r) = r"
  shows "owns m (h \<circ> f)"
proof -
  have ex: "(\<exists>r. (h \<circ> f) r = Some a) \<longleftrightarrow> (\<exists>r. h r = Some a)" for a using f by (metis comp_apply)
  have inj: "f r = f r' \<Longrightarrow> r = r'" for r r' using f by metis
  show ?thesis
    unfolding owns_def ex using ownsD(1,3) [OF assms(1)] ownsD(2) [OF assms(1)] inj by (simp add: comp_def)
qed

lemma owns_swap:
  assumes "owns m h"
  shows "owns m (h(p := h q, q := h p))"
proof -
  have "h(p := h q, q := h p) = h \<circ> id(p := q, q := p)" by (simp add: fun_eq_iff)
  moreover have "(id(p := q, q := p)) ((id(p := q, q := p)) r) = r" for r by simp
  ultimately show ?thesis using owns_permuted [OF assms] by metis
qed

lemma owns_move:
  assumes "owns m h" and "h p = None"
  shows "owns m (h(p := h q, q := None))" "p \<noteq> q \<Longrightarrow> owns m (h(q := None, p := h q))"
  using owns_swap [OF assms(1), of p q] assms(2) fun_upd_twist [of q p h None "h q"] by simp_all

text \<open>Giving up what a place holds and moving the content of another place in.\<close>

lemma owns_replace:
  assumes "owns m h" and "p \<noteq> q"
  shows "\<exists>m'. delete_object m (h p) = Inr m' \<and> owns m' (h(q := None, p := h q)) \<and> owns m' (h(p := h q, q := None))"
proof -
  from owns_delete [OF assms(1), of p] obtain m' where m': "delete_object m (h p) = Inr m'" "owns m' (h(p := None))" by blast
  have "(h(p := None))(q := None, p := h q) = h(q := None, p := h q)" using assms(2) by (simp add: fun_eq_iff)
  with owns_move [OF m'(2), of p q] assms(2) m'(1) show ?thesis by auto
qed

section \<open>Programs\<close>

text \<open>A well-scoped program, by the pointer variables and the raw pointers in scope.\<close>

fun up_scoped :: "'a up_op list \<Rightarrow> nat set \<Rightarrow> nat set \<Rightarrow> bool" where
  "up_scoped [] V R = True"
| "up_scoped (U_Construct v # xs) V R = (v \<notin> V \<and> up_scoped xs (insert v V) R)"
| "up_scoped (U_Adopt v r # xs) V R = (v \<notin> V \<and> r \<in> R \<and> up_scoped xs (insert v V) (R - {r}))"
| "up_scoped (U_Make v x # xs) V R = (v \<notin> V \<and> up_scoped xs (insert v V) R)"
| "up_scoped (U_MoveConstruct v w # xs) V R = (v \<notin> V \<and> w \<in> V \<and> up_scoped xs (insert v V) R)"
| "up_scoped (U_MoveAssign v w # xs) V R = (v \<in> V \<and> w \<in> V \<and> up_scoped xs V R)"
| "up_scoped (U_Swap v w # xs) V R = (v \<in> V \<and> w \<in> V \<and> up_scoped xs V R)"
| "up_scoped (U_Release v r # xs) V R = (v \<in> V \<and> r \<notin> R \<and> up_scoped xs V (insert r R))"
| "up_scoped (U_Reset v # xs) V R = (v \<in> V \<and> up_scoped xs V R)"
| "up_scoped (U_ResetTo v r # xs) V R = (v \<in> V \<and> r \<in> R \<and> up_scoped xs V (R - {r}))"
| "up_scoped (U_Destroy v # xs) V R = (v \<in> V \<and> up_scoped xs (V - {v}) R)"
| "up_scoped (U_New r x # xs) V R = (r \<notin> R \<and> up_scoped xs V (insert r R))"
| "up_scoped (U_Delete r # xs) V R = (r \<in> R \<and> up_scoped xs V (R - {r}))"

definition up_ok :: "'a up_program \<Rightarrow> bool" where
  "up_ok s \<longleftrightarrow> owns (up_mem s) (places (up_vars s) (up_raws s))"

lemma up_step_ok:
  assumes ok: "up_ok s" and sc: "up_scoped (x # xs) (dom (up_vars s)) (dom (up_raws s))"
  shows "\<exists>s'. up_step x s = Inr s' \<and> up_ok s' \<and> up_scoped xs (dom (up_vars s')) (dom (up_raws s'))"
proof -
  let ?h = "places (up_vars s) (up_raws s)"
  note own = ok [unfolded up_ok_def]
  show ?thesis
  proof (cases x)
    case (U_Construct v)
    with sc have "?h(Inl v := None) = ?h" by (simp add: fun_upd_idem domIff)
    with U_Construct sc own show ?thesis by (simp add: up_ok_def up_null_def)
  next
    case (U_Adopt v r)
    with sc obtain p where p: "up_raws s r = Some p" "up_vars s v = None" by auto
    with owns_move(1) [OF own, of "Inl v" "Inr r"] U_Adopt sc show ?thesis
      by (simp add: up_ok_def up_from_raw_def)
  next
    case (U_Make v y)
    with sc have v: "up_vars s v = None" by auto
    from owns_new [OF own, of "Inl v" y] v obtain a m where
      "new_object (up_mem s) y = (a, m)" "owns m (?h(Inl v \<mapsto> a))" by auto
    with U_Make sc show ?thesis by (simp add: up_ok_def makeUnique_def up_from_raw_def)
  next
    case (U_MoveConstruct v w)
    with sc obtain u where u: "up_vars s w = Some u" "up_vars s v = None" by auto
    then have "v \<noteq> w" by auto
    with u owns_move(2) [OF own, of "Inl v" "Inl w"] U_MoveConstruct sc show ?thesis
      by (simp add: up_ok_def up_move_def up_release_def up_from_raw_def insert_absorb domI)
  next
    case (U_MoveAssign v w)
    show ?thesis
    proof (cases "v = w")
      case False
      from U_MoveAssign sc obtain u u' where u: "up_vars s v = Some u" "up_vars s w = Some u'" by auto
      from owns_replace [OF own, of "Inl v" "Inl w"] False u obtain m where
        "delete_object (up_mem s) (up_ptr u) = Inr m" "owns m (?h(Inl w := None, Inl v := up_ptr u'))" by auto
      with U_MoveAssign u False sc show ?thesis
        by (simp add: up_ok_def up_release_def up_reset_def insert_absorb domI)
    qed (use U_MoveAssign sc ok in auto)
  next
    case (U_Swap v w)
    with sc obtain u u' where u: "up_vars s v = Some u" "up_vars s w = Some u'" by auto
    with owns_swap [OF own, of "Inl w" "Inl v"] U_Swap sc show ?thesis
      by (simp add: up_ok_def up_swap_def insert_absorb domI)
  next
    case (U_Release v r)
    with sc obtain u where u: "up_vars s v = Some u" "up_raws s r = None" by auto
    with owns_move(2) [OF own, of "Inr r" "Inl v"] U_Release sc show ?thesis
      by (simp add: up_ok_def up_release_def insert_absorb domI)
  next
    case (U_Reset v)
    with sc obtain u where u: "up_vars s v = Some u" by auto
    with owns_delete [OF own, of "Inl v"] U_Reset sc show ?thesis
      by (auto simp: up_ok_def up_reset_def insert_absorb domI)
  next
    case (U_ResetTo v r)
    with sc obtain u p where u: "up_vars s v = Some u" "up_raws s r = Some p" by auto
    with owns_replace [OF own, of "Inl v" "Inr r"] U_ResetTo sc show ?thesis
      by (auto simp: up_ok_def up_reset_def insert_absorb domI)
  next
    case (U_Destroy v)
    with sc obtain u where u: "up_vars s v = Some u" by auto
    with owns_delete [OF own, of "Inl v"] U_Destroy sc show ?thesis
      by (auto simp: up_ok_def up_destroy_def)
  next
    case (U_New r y)
    with sc have r: "up_raws s r = None" by auto
    from owns_new [OF own, of "Inr r" y] r obtain a m where
      "new_object (up_mem s) y = (a, m)" "owns m (?h(Inr r \<mapsto> a))" by auto
    with U_New sc show ?thesis by (simp add: up_ok_def)
  next
    case (U_Delete r)
    with sc obtain p where p: "up_raws s r = Some p" by auto
    with owns_delete [OF own, of "Inr r"] U_Delete sc show ?thesis by (auto simp: up_ok_def)
  qed
qed

lemma up_run_ok:
  "up_ok s \<Longrightarrow> up_scoped xs (dom (up_vars s)) (dom (up_raws s)) \<Longrightarrow> \<exists>s'. fold_result up_step xs s = Inr s' \<and> up_ok s'"
proof (induction xs arbitrary: s)
  case (Cons x xs)
  from up_step_ok [OF Cons.prems] obtain s1 where "up_step x s = Inr s1" "up_ok s1"
    "up_scoped xs (dom (up_vars s1)) (dom (up_raws s1))" by blast
  with Cons.IH [of s1] show ?case by simp
qed simp

definition up_empty :: "'a up_program" where
  "up_empty = \<lparr>up_mem = empty_memory, up_vars = Map.empty, up_raws = Map.empty\<rparr>"

text \<open>
  C22. Whatever a program does with unique pointers and the raw pointers it takes out of them
  (construction, moves also of a variable onto itself, swaps, \<^verbatim>\<open>release\<close>, \<^verbatim>\<open>reset\<close>, destruction), nothing
  is deleted twice and every pointer that is set can be read; each allocated object is held in
  exactly one place, and once no variable and no raw pointer is left nothing is allocated.
\<close>

theorem unique_ptr_programs_safe:
  assumes "up_scoped xs {} {}"
  shows "\<exists>s. fold_result up_step xs up_empty = Inr s \<and>
    (\<forall>v u. up_vars s v = Some u \<and> up_bool u \<longrightarrow> (\<exists>x. up_deref (up_mem s) u = Inr x)) \<and>
    (\<forall>a. objects (up_mem s) a \<noteq> None \<longleftrightarrow> (\<exists>!pl. places (up_vars s) (up_raws s) pl = Some a)) \<and>
    (up_vars s = Map.empty \<and> up_raws s = Map.empty \<longrightarrow> objects (up_mem s) = Map.empty)"
proof -
  have "up_ok (up_empty :: 'a up_program)" by (simp add: up_ok_def up_empty_def owns_def places_def empty_memory_def split: sum.splits)
  with up_run_ok [of up_empty xs] assms obtain s :: "'a up_program" where
    s: "fold_result up_step xs up_empty = Inr s" "up_ok s" by (auto simp: up_empty_def)
  note d = ownsD [OF s(2) [unfolded up_ok_def]]
  have held: "objects (up_mem s) a \<noteq> None \<longleftrightarrow> (\<exists>!pl. places (up_vars s) (up_raws s) pl = Some a)" for a
    using d(1) d(2) [of a] by blast
  have "\<exists>x. up_deref (up_mem s) u = Inr x" if "up_vars s v = Some u" "up_bool u" for v u
  proof -
    from that obtain a where "up_ptr u = Some a" "places (up_vars s) (up_raws s) (Inl v) = Some a" by (auto simp: up_bool_def)
    with d(2) [of a] show ?thesis by (auto simp: up_deref_def)
  qed
  moreover have "objects (up_mem s) = Map.empty" if "up_vars s = Map.empty" "up_raws s = Map.empty"
  proof
    fix a
    have "places (up_vars s) (up_raws s) pl = None" for pl using that by (cases pl) (simp_all add: places_def)
    with d(2) [of a] show "objects (up_mem s) a = None" by simp
  qed
  ultimately show ?thesis using s(1) held by (intro exI [of _ s] conjI allI impI) (simp, blast, simp, blast)
qed

definition demo_up_ops :: "nat up_op list" where
  "demo_up_ops = [U_Make 0 7, U_Construct 1, U_MoveAssign 0 0, U_MoveAssign 1 0, U_Swap 0 1, U_Release 0 5, U_New 6 8,
     U_ResetTo 1 5, U_ResetTo 1 6, U_MoveConstruct 2 1, U_Reset 1, U_Destroy 0, U_Destroy 1, U_Destroy 2]"

theorem unique_ptr_programs_safe_witness:
  "\<exists>s. fold_result up_step demo_up_ops up_empty = Inr s \<and> objects (up_mem s) = Map.empty"
proof -
  have "up_scoped demo_up_ops {} {}" by (simp add: demo_up_ops_def)
  from unique_ptr_programs_safe [OF this] obtain s where s: "fold_result up_step demo_up_ops up_empty = Inr s"
    "up_vars s = Map.empty \<and> up_raws s = Map.empty \<longrightarrow> objects (up_mem s) = Map.empty" by blast
  have "\<exists>s. fold_result up_step demo_up_ops up_empty = Inr s \<and> up_vars s = Map.empty \<and> up_raws s = Map.empty"
    by (simp add: demo_up_ops_def up_empty_def empty_memory_def makeUnique_def new_object_def up_from_raw_def up_null_def
        up_release_def up_reset_def delete_object_def up_swap_def up_move_def up_destroy_def fun_eq_iff)
  with s show ?thesis by auto
qed

end
