(* ===== verification/PoolAllocator.thy ===== *)
theory PoolAllocator
  imports Prelude
begin

text \<open>
  The object pool of \<^verbatim>\<open>include/storage/PoolAllocator.hpp\<close> over the bytes of its arena. A block of the
  arena is a free node or an object, by its address; touching a byte outside the arena, reading a
  free node where there is none or destroying an object where there is none is
  \<open>Undefined_behaviour\<close>, and so is a failed assertion. The size of the arena is a \<^verbatim>\<open>std::size_t\<close>
  product and wraps. The aligned \<^verbatim>\<open>operator new\<close> is a parameter: the address of a region of the given
  size, or nothing when it throws.
\<close>

section \<open>Layout\<close>

definition maxOf :: "nat \<Rightarrow> nat \<Rightarrow> nat" where
  "maxOf a b = (if a > b then a else b)"

definition roundUp :: "nat \<Rightarrow> nat \<Rightarrow> nat" where
  "roundUp v multiple = (v + multiple - 1) div multiple * multiple"

text \<open>\<^verbatim>\<open>sizeof(T)\<close> and \<^verbatim>\<open>alignof(T)\<close>; a free node is one pointer of eight bytes.\<close>

record layout =
  size_of :: nat
  align_of :: nat

definition sizeof_FreeNode :: nat where
  "sizeof_FreeNode = 8"

definition alignof_FreeNode :: nat where
  "alignof_FreeNode = 8"

definition kBlockAlign :: "layout \<Rightarrow> nat" where
  "kBlockAlign l = maxOf (align_of l) alignof_FreeNode"

definition kBlockSize :: "layout \<Rightarrow> nat" where
  "kBlockSize l = roundUp (maxOf (size_of l) sizeof_FreeNode) (kBlockAlign l)"

section \<open>State\<close>

datatype 'a block = FreeNode "nat option" | Object 'a

record 'a pool =
  arena :: "nat option"
  arena_bytes :: nat
  blocks :: "nat \<rightharpoonup> 'a block"
  freeHead :: "nat option"
  capacity :: nat
  inUse :: nat

definition size_mul :: "nat \<Rightarrow> nat \<Rightarrow> nat" where
  "size_mul a b = (a * b) mod 2 ^ 64"

text \<open>Constructing a value of \<open>n\<close> bytes at an address.\<close>

definition place_at :: "'a pool \<Rightarrow> nat \<Rightarrow> nat \<Rightarrow> 'a block \<Rightarrow> 'a pool result" where
  "place_at p addr n b =
     (case arena p of
        None \<Rightarrow> Inl Undefined_behaviour
      | Some base \<Rightarrow>
          if base \<le> addr \<and> addr + n \<le> base + arena_bytes p
          then Inr (p\<lparr>blocks := (blocks p)(addr \<mapsto> b)\<rparr>) else Inl Undefined_behaviour)"

section \<open>Members\<close>

text \<open>The loop of \<^verbatim>\<open>buildFreeList\<close>, from block \<open>i - 1\<close> down to block 0.\<close>

fun build_loop :: "layout \<Rightarrow> nat \<Rightarrow> nat \<Rightarrow> 'a pool \<Rightarrow> 'a pool result" where
  "build_loop l base 0 p = Inr p"
| "build_loop l base (Suc i) p =
     (let block = base + i * kBlockSize l in
      bind_result (place_at p block sizeof_FreeNode (FreeNode (freeHead p))) (\<lambda>p'.
        build_loop l base i (p'\<lparr>freeHead := Some block\<rparr>)))"

definition buildFreeList :: "layout \<Rightarrow> 'a pool \<Rightarrow> 'a pool result" where
  "buildFreeList l p =
     bind_result (deref (arena p)) (\<lambda>base. build_loop l base (capacity p) (p\<lparr>freeHead := None\<rparr>))"

definition new_pool :: "layout \<Rightarrow> (nat \<Rightarrow> nat \<Rightarrow> nat option) \<Rightarrow> nat \<Rightarrow> 'a pool result" where
  "new_pool l operator_new n =
     (if n = 0 then Inl (Invalid_argument ''PoolAllocator: capacity must be > 0'')
      else let bytes = size_mul n (kBlockSize l) in
        case operator_new bytes (kBlockAlign l) of
          None \<Rightarrow> Inl Bad_alloc
        | Some base \<Rightarrow>
            buildFreeList l \<lparr>arena = Some base, arena_bytes = bytes, blocks = Map.empty, freeHead = None,
              capacity = n, inUse = 0\<rparr>)"

text \<open>
  The constructor of \<open>T\<close> may throw, and then the free node it overwrote is restored: the result is
  paired with the pool, which an exception does not undo.
\<close>

definition allocate :: "layout \<Rightarrow> 'a pool \<Rightarrow> 'a result \<Rightarrow> nat result \<times> 'a pool" where
  "allocate l p made =
     (case freeHead p of
        None \<Rightarrow> (Inl Bad_alloc, p)
      | Some node \<Rightarrow>
          (case blocks p node of
             Some (FreeNode next) \<Rightarrow>
               (case made of
                  Inl e \<Rightarrow>
                    (case place_at (p\<lparr>blocks := (blocks p)(node := None)\<rparr>) node sizeof_FreeNode (FreeNode next) of
                       Inl ub \<Rightarrow> (Inl ub, p)
                     | Inr p' \<Rightarrow> (Inl e, p'))
                | Inr x \<Rightarrow>
                    (case place_at p node (size_of l) (Object x) of
                       Inl ub \<Rightarrow> (Inl ub, p)
                     | Inr p' \<Rightarrow> (Inr node, p'\<lparr>freeHead := next, inUse := inUse p' + 1\<rparr>)))
           | _ \<Rightarrow> (Inl Undefined_behaviour, p)))"

definition pool_owns :: "layout \<Rightarrow> 'a pool \<Rightarrow> nat \<Rightarrow> bool" where
  "pool_owns l p ptr =
     (case arena p of
        None \<Rightarrow> False
      | Some base \<Rightarrow> base \<le> ptr \<and> ptr < base + size_mul (capacity p) (kBlockSize l) \<and>
          (ptr - base) mod kBlockSize l = 0)"

definition deallocate :: "layout \<Rightarrow> 'a pool \<Rightarrow> nat option \<Rightarrow> 'a pool result" where
  "deallocate l p ptr =
     (case ptr of
        None \<Rightarrow> Inr p
      | Some a \<Rightarrow>
          if \<not> pool_owns l p a then Inl Undefined_behaviour
          else
            (case blocks p a of
               Some (Object x) \<Rightarrow>
                 bind_result (place_at p a sizeof_FreeNode (FreeNode (freeHead p))) (\<lambda>p'.
                   Inr (p'\<lparr>freeHead := Some a, inUse := inUse p' - 1\<rparr>))
             | _ \<Rightarrow> Inl Undefined_behaviour))"

definition available :: "'a pool \<Rightarrow> nat" where
  "available p = capacity p - inUse p"

text \<open>\<^verbatim>\<open>releaseArena\<close>, which the destructor calls.\<close>

definition releaseArena :: "'a pool \<Rightarrow> 'a pool result" where
  "releaseArena p =
     (if inUse p \<noteq> 0 then Inl Undefined_behaviour
      else Inr (if arena p = None then p else p\<lparr>arena := None, arena_bytes := 0, blocks := Map.empty\<rparr>))"

text \<open>The move constructor: the new pool and what is left of the other.\<close>

definition moved_from :: "'a pool \<Rightarrow> 'a pool" where
  "moved_from other = other\<lparr>arena := None, arena_bytes := 0, blocks := Map.empty, freeHead := None, capacity := 0, inUse := 0\<rparr>"

definition pool_move :: "'a pool \<Rightarrow> 'a pool \<times> 'a pool" where
  "pool_move other = (other, moved_from other)"

text \<open>Move assignment between pools in variables; assigning a pool to itself does nothing.\<close>

definition pool_move_assign :: "nat \<Rightarrow> nat \<Rightarrow> (nat \<Rightarrow> 'a pool) \<Rightarrow> (nat \<Rightarrow> 'a pool) result" where
  "pool_move_assign this other s =
     (if this \<noteq> other
      then bind_result (releaseArena (s this)) (\<lambda>_.
        let (p, rest) = pool_move (s other) in Inr (s(other := rest, this := p)))
      else Inr s)"

end
