(* ===== verification/PoolAllocator_Spec.thy ===== *)
theory PoolAllocator_Spec
  imports PoolAllocator
begin

text \<open>
  The pool against a stack of free addresses and a map of live objects: the free nodes inside the
  blocks are the stack, and what is not on it is a live object at an address of its own.
\<close>

section \<open>Layout\<close>

definition layout_ok :: "layout \<Rightarrow> bool" where
  "layout_ok l \<longleftrightarrow> (\<exists>k. align_of l = 2 ^ k) \<and> 0 < size_of l"

lemma roundUp_bounds:
  assumes "0 < k"
  shows "v \<le> roundUp v k" "roundUp v k < v + k" "k dvd roundUp v k"
proof -
  have "roundUp v k = (v + k - 1) - (v + k - 1) mod k"
    by (simp add: roundUp_def minus_mod_eq_div_mult [symmetric])
  moreover have "(v + k - 1) mod k < k" using assms by simp
  moreover have "(v + k - 1) mod k \<le> v + k - 1" by simp
  ultimately show "v \<le> roundUp v k" "roundUp v k < v + k" using assms by linarith+
  show "k dvd roundUp v k" by (simp add: roundUp_def)
qed

lemma power2_dvd_max: "2 ^ j dvd maxOf (2 ^ j) (2 ^ k)" "2 ^ k dvd maxOf (2 ^ j) (2 ^ k :: nat)"
  by (auto simp: maxOf_def not_less intro: le_imp_power_dvd)

lemma block_layout:
  assumes "layout_ok l"
  shows "align_of l dvd kBlockAlign l" "alignof_FreeNode dvd kBlockAlign l" "kBlockAlign l dvd kBlockSize l"
    "size_of l \<le> kBlockSize l" "sizeof_FreeNode \<le> kBlockSize l"
proof -
  from assms obtain k where k: "align_of l = 2 ^ k" by (auto simp: layout_ok_def)
  have e: "(8 :: nat) = 2 ^ 3" by simp
  show "align_of l dvd kBlockAlign l" "alignof_FreeNode dvd kBlockAlign l"
    unfolding kBlockAlign_def k alignof_FreeNode_def e by (rule power2_dvd_max)+
  have "0 < kBlockAlign l" by (simp add: kBlockAlign_def maxOf_def alignof_FreeNode_def)
  note r = roundUp_bounds [OF this, of "maxOf (size_of l) sizeof_FreeNode"]
  show "kBlockAlign l dvd kBlockSize l" using r(3) by (simp add: kBlockSize_def)
  show "size_of l \<le> kBlockSize l" "sizeof_FreeNode \<le> kBlockSize l"
    using r(1) by (auto simp: kBlockSize_def maxOf_def split: if_splits)
qed

section \<open>Free list and live objects\<close>

fun chain :: "(nat \<rightharpoonup> 'a block) \<Rightarrow> nat option \<Rightarrow> nat list \<Rightarrow> bool" where
  "chain b h [] = (h = None)"
| "chain b h (a # as) = (h = Some a \<and> (\<exists>n. b a = Some (FreeNode n) \<and> chain b n as))"

definition live :: "'a pool \<Rightarrow> nat \<rightharpoonup> 'a" where
  "live p a = (case blocks p a of Some (Object x) \<Rightarrow> Some x | _ \<Rightarrow> None)"

definition block_addrs :: "layout \<Rightarrow> nat \<Rightarrow> nat \<Rightarrow> nat set" where
  "block_addrs l base n = (\<lambda>i. base + i * kBlockSize l) ` {..<n}"

text \<open>\<open>fs\<close> are the free addresses in the order of the list.\<close>

definition pool_inv :: "layout \<Rightarrow> 'a pool \<Rightarrow> nat list \<Rightarrow> bool" where
  "pool_inv l p fs \<longleftrightarrow> layout_ok l \<and> (\<exists>base. arena p = Some base \<and> dom (blocks p) = block_addrs l base (capacity p)) \<and>
     capacity p * kBlockSize l < 2 ^ 64 \<and> arena_bytes p = capacity p * kBlockSize l \<and>
     chain (blocks p) (freeHead p) fs \<and> distinct fs \<and>
     (\<forall>a. (\<exists>n. blocks p a = Some (FreeNode n)) \<longleftrightarrow> a \<in> set fs) \<and> inUse p + length fs = capacity p"

lemma chain_frame: "chain b h fs \<Longrightarrow> (\<And>a. a \<in> set fs \<Longrightarrow> b' a = b a) \<Longrightarrow> chain b' h fs"
  by (induction fs arbitrary: h) auto

lemma chain_head: "chain b h fs \<Longrightarrow> h = (case fs of [] \<Rightarrow> None | a # _ \<Rightarrow> Some a)"
  by (cases fs) auto

lemma place_in_block:
  assumes "pool_inv l p fs" and "a \<in> dom (blocks p)" and "n \<le> kBlockSize l"
  shows "place_at (p\<lparr>blocks := b\<rparr>) a n x = Inr (p\<lparr>blocks := b(a \<mapsto> x)\<rparr>)"
proof -
  from assms(1) obtain base where base: "arena p = Some base" "dom (blocks p) = block_addrs l base (capacity p)"
    "arena_bytes p = capacity p * kBlockSize l" by (auto simp: pool_inv_def)
  with assms(2) obtain i where i: "a = base + i * kBlockSize l" "i < capacity p" by (auto simp: block_addrs_def)
  have "(i + 1) * kBlockSize l \<le> capacity p * kBlockSize l" using i(2) by (intro mult_right_mono) simp_all
  then have "i * kBlockSize l + n \<le> capacity p * kBlockSize l" using assms(3) by simp
  with base i(1) show ?thesis by (simp add: place_at_def)
qed

lemma allocate_empty: "pool_inv l p [] \<Longrightarrow> allocate l p made = (Inl Bad_alloc, p)"
  by (simp add: pool_inv_def allocate_def)

lemma live_upd_object: "live (p\<lparr>blocks := (blocks p)(a \<mapsto> Object x), freeHead := h, inUse := n\<rparr>) = (live p)(a \<mapsto> x)"
  by (simp add: live_def fun_eq_iff)

lemma live_upd_free: "live (p\<lparr>blocks := (blocks p)(a \<mapsto> FreeNode y), freeHead := h, inUse := n\<rparr>) = (live p)(a := None)"
  by (simp add: live_def fun_eq_iff)

lemma allocate_object:
  assumes inv: "pool_inv l p (a # fs)"
  shows "\<exists>p'. allocate l p (Inr x) = (Inr a, p') \<and> pool_inv l p' fs \<and> live p' = (live p)(a \<mapsto> x) \<and> live p a = None"
proof -
  from inv obtain n where n: "freeHead p = Some a" "blocks p a = Some (FreeNode n)" "chain (blocks p) n fs" "a \<notin> set fs"
    by (auto simp: pool_inv_def)
  have l: "layout_ok l" using inv by (simp add: pool_inv_def)
  let ?p = "p\<lparr>blocks := (blocks p)(a \<mapsto> Object x), freeHead := n, inUse := inUse p + 1\<rparr>"
  have "place_at p a (size_of l) (Object x) = Inr (p\<lparr>blocks := (blocks p)(a \<mapsto> Object x)\<rparr>)"
    using place_in_block [OF inv, of a "size_of l" "blocks p"] n(2) block_layout(4) [OF l] by auto
  then have "allocate l p (Inr x) = (Inr a, ?p)" using n(1,2) by (simp add: allocate_def)
  moreover have "pool_inv l ?p fs"
  proof -
    have "chain ((blocks p)(a \<mapsto> Object x)) n fs" using n(3,4) by (auto intro: chain_frame)
    moreover have "dom ((blocks p)(a \<mapsto> Object x)) = dom (blocks p)" using n(2) by auto
    moreover have "(\<exists>k. ((blocks p)(a \<mapsto> Object x)) b = Some (FreeNode k)) \<longleftrightarrow> b \<in> set fs" for b
      using inv n(4) by (auto simp: pool_inv_def)
    ultimately show ?thesis using inv by (simp add: pool_inv_def)
  qed
  ultimately show ?thesis using n(2) by (simp add: live_upd_object) (simp add: live_def)
qed

lemma allocate_throws:
  assumes inv: "pool_inv l p (a # fs)"
  shows "allocate l p (Inl e) = (Inl e, p)"
proof -
  from inv obtain n where n: "freeHead p = Some a" "blocks p a = Some (FreeNode n)" by (auto simp: pool_inv_def)
  have l: "layout_ok l" using inv by (simp add: pool_inv_def)
  have "place_at (p\<lparr>blocks := (blocks p)(a := None)\<rparr>) a sizeof_FreeNode (FreeNode n) =
      Inr (p\<lparr>blocks := (blocks p)(a := None, a \<mapsto> FreeNode n)\<rparr>)"
    using place_in_block [OF inv] n(2) block_layout(5) [OF l] by blast
  moreover have "p\<lparr>blocks := (blocks p)(a := None, a \<mapsto> FreeNode n)\<rparr> = p" using n(2) by (simp add: fun_upd_idem)
  ultimately show ?thesis using n by (simp add: allocate_def)
qed

lemma block_owned:
  assumes inv: "pool_inv l p fs" and "a \<in> dom (blocks p)"
  shows "pool_owns l p a"
proof -
  from inv obtain base where base: "arena p = Some base" "dom (blocks p) = block_addrs l base (capacity p)"
    "capacity p * kBlockSize l < 2 ^ 64" "layout_ok l" by (auto simp: pool_inv_def)
  with assms(2) obtain i where i: "a = base + i * kBlockSize l" "i < capacity p" by (auto simp: block_addrs_def)
  have "0 < kBlockSize l" using block_layout(5) [OF base(4)] by (simp add: sizeof_FreeNode_def)
  with i(2) have "i * kBlockSize l < capacity p * kBlockSize l" by simp
  with base i(1) show ?thesis by (simp add: pool_owns_def size_mul_def)
qed

lemma pool_invD:
  assumes "pool_inv l p fs"
  shows "a \<in> set fs \<longleftrightarrow> (\<exists>n. blocks p a = Some (FreeNode n))" "distinct fs" "inUse p = capacity p - length fs"
    "length fs = capacity p - inUse p"
  using assms by (simp_all add: pool_inv_def) linarith+

lemma live_count:
  assumes inv: "pool_inv l p fs"
  shows "inUse p = card (dom (live p))" "dom (live p) = dom (blocks p) - set fs"
proof -
  from inv obtain base where base: "dom (blocks p) = block_addrs l base (capacity p)" "layout_ok l" by (auto simp: pool_inv_def)
  have "0 < kBlockSize l" using block_layout(5) [OF base(2)] by (simp add: sizeof_FreeNode_def)
  then have "inj_on (\<lambda>i. base + i * kBlockSize l) {..<capacity p}" by (auto simp: inj_on_def)
  then have card: "card (dom (blocks p)) = capacity p" by (simp add: base(1) block_addrs_def card_image)
  note free = pool_invD(1) [OF inv]
  show dom: "dom (live p) = dom (blocks p) - set fs"
    by (auto simp: free live_def split: option.splits block.splits)
  have "set fs \<subseteq> dom (blocks p)" by (auto simp: free)
  then have "card (dom (live p)) = capacity p - length fs"
    using pool_invD(2) [OF inv] distinct_card [of fs] card by (simp add: dom card_Diff_subset)
  then show "inUse p = card (dom (live p))" using pool_invD(3) [OF inv] by simp
qed

lemma deallocate_object:
  assumes inv: "pool_inv l p fs" and x: "live p a = Some x"
  shows "\<exists>p'. deallocate l p (Some a) = Inr p' \<and> pool_inv l p' (a # fs) \<and> live p' = (live p)(a := None)"
proof -
  from x have a: "blocks p a = Some (Object x)" by (auto simp: live_def split: option.splits block.splits)
  have l: "layout_ok l" using inv by (simp add: pool_inv_def)
  have fs: "a \<notin> set fs" using a pool_invD(1) [OF inv, of a] by simp
  let ?b = "(blocks p)(a \<mapsto> FreeNode (freeHead p))"
  let ?p = "p\<lparr>blocks := ?b, freeHead := Some a, inUse := inUse p - 1\<rparr>"
  have dom: "dom ?b = dom (blocks p)" using a by auto
  have "finite (dom (live p))" "a \<in> dom (live p)"
    using x live_count(2) [OF inv] inv by (auto simp: pool_inv_def block_addrs_def)
  then have use: "0 < inUse p" using live_count(1) [OF inv] by (auto simp: card_gt_0_iff)
  have "place_at p a sizeof_FreeNode (FreeNode (freeHead p)) = Inr (p\<lparr>blocks := ?b\<rparr>)"
    using place_in_block [OF inv, of a sizeof_FreeNode "blocks p"] a block_layout(5) [OF l] by auto
  then have "deallocate l p (Some a) = Inr ?p"
    using a block_owned [OF inv, of a] by (auto simp: deallocate_def)
  moreover have "pool_inv l ?p (a # fs)"
  proof -
    have "chain ?b (freeHead p) fs" using inv fs by (auto simp: pool_inv_def intro: chain_frame)
    moreover have "(\<exists>k. ?b c = Some (FreeNode k)) \<longleftrightarrow> c \<in> set (a # fs)" for c
      using pool_invD(1) [OF inv, of c] by simp
    ultimately show ?thesis using inv dom fs use by (simp add: pool_inv_def)
  qed
  ultimately show ?thesis by (simp add: live_upd_free)
qed

section \<open>Construction\<close>

text \<open>The blocks from \<open>i\<close> on are chained, in order.\<close>

lemma build_loop_ok:
  assumes l: "layout_ok l" and "i \<le> n" and "arena p = Some base" and "arena_bytes p = n * kBlockSize l"
    and "chain (blocks p) (freeHead p) (map (\<lambda>i. base + i * kBlockSize l) [i..<n])"
    and "dom (blocks p) = (\<lambda>i. base + i * kBlockSize l) ` {i..<n}" and "\<And>a x. blocks p a \<noteq> Some (Object x)"
  shows "\<exists>b h. build_loop l base i p = Inr (p\<lparr>blocks := b, freeHead := h\<rparr>) \<and>
    chain b h (map (\<lambda>i. base + i * kBlockSize l) [0..<n]) \<and> dom b = block_addrs l base n \<and> (\<forall>a x. b a \<noteq> Some (Object x))"
  using assms(2-)
proof (induction i arbitrary: p)
  case 0
  then show ?case by (intro exI [of _ "blocks p"] exI [of _ "freeHead p"]) (auto simp: block_addrs_def atLeast0LessThan)
next
  case (Suc i)
  let ?a = "base + i * kBlockSize l" and ?bs = "kBlockSize l"
  let ?b = "(blocks p)(?a \<mapsto> FreeNode (freeHead p))"
  have bs: "sizeof_FreeNode \<le> ?bs" "0 < ?bs" using block_layout(5) [OF l] by (simp_all add: sizeof_FreeNode_def)
  have "(i + 1) * ?bs \<le> n * ?bs" using Suc.prems(1) by (intro mult_right_mono) simp_all
  then have place: "place_at p ?a sizeof_FreeNode (FreeNode (freeHead p)) = Inr (p\<lparr>blocks := ?b\<rparr>)"
    using Suc.prems(2,3) bs by (simp add: place_at_def)
  have new: "?a \<notin> dom (blocks p)" using Suc.prems(5) bs(2) by (auto simp: Suc_le_eq)
  have "[i..<n] = i # [Suc i..<n]" using Suc.prems(1) by (simp add: upt_conv_Cons)
  moreover have "chain ?b (freeHead p) (map (\<lambda>i. base + i * ?bs) [Suc i..<n])"
    using Suc.prems(4) by (rule chain_frame) (use bs(2) in auto)
  ultimately have "chain ?b (Some ?a) (map (\<lambda>i. base + i * ?bs) [i..<n])" by simp
  moreover have "{i..<n} = insert i {Suc i..<n}" using Suc.prems(1) by auto
  with Suc.prems(5) have "dom ?b = (\<lambda>i. base + i * ?bs) ` {i..<n}" by simp
  moreover define q where "q = p\<lparr>blocks := ?b, freeHead := Some ?a\<rparr>"
  ultimately have q: "chain (blocks q) (freeHead q) (map (\<lambda>i. base + i * ?bs) [i..<n])"
    "dom (blocks q) = (\<lambda>i. base + i * ?bs) ` {i..<n}" "arena q = Some base" "arena_bytes q = n * ?bs"
    "\<And>a x. blocks q a \<noteq> Some (Object x)" using Suc.prems by (simp_all only: q_def pool.simps) auto
  from Suc.IH [OF _ q(3,4,1,2,5)] Suc.prems(1) obtain b h where
    "build_loop l base i q = Inr (q\<lparr>blocks := b, freeHead := h\<rparr>)" "chain b h (map (\<lambda>i. base + i * ?bs) [0..<n])"
    "dom b = block_addrs l base n" "\<forall>a x. b a \<noteq> Some (Object x)" by auto
  then show ?case using place by (intro exI [of _ b] exI [of _ h]) (simp add: Let_def q_def)
qed

definition initial_free :: "layout \<Rightarrow> nat \<Rightarrow> nat \<Rightarrow> nat list" where
  "initial_free l base n = map (\<lambda>i. base + i * kBlockSize l) [0..<n]"

lemma initial_free_iff: "a \<in> set (initial_free l base n) \<longleftrightarrow> (\<exists>i < n. a = base + i * kBlockSize l)"
  by (auto simp: initial_free_def)

lemma new_pool_ok:
  assumes l: "layout_ok l" and n: "0 < n" "n * kBlockSize l < 2 ^ 64"
    and base: "operator_new (n * kBlockSize l) (kBlockAlign l) = Some base"
  shows "\<exists>p :: 'a pool. new_pool l operator_new n = Inr p \<and> pool_inv l p (initial_free l base n) \<and> live p = Map.empty \<and> capacity p = n"
proof -
  let ?p = "\<lparr>arena = Some base, arena_bytes = n * kBlockSize l, blocks = Map.empty, freeHead = None, capacity = n,
    inUse = 0\<rparr> :: 'a pool"
  from build_loop_ok [OF l order_refl, of ?p base n] obtain b h where
    b: "build_loop l base n ?p = Inr (?p\<lparr>blocks := b, freeHead := h\<rparr>)" "chain b h (initial_free l base n)"
      "dom b = block_addrs l base n" "\<forall>a x. b a \<noteq> Some (Object x)" by (auto simp: initial_free_def)
  have "size_mul n (kBlockSize l) = n * kBlockSize l" using n(2) by (simp add: size_mul_def)
  then have new: "new_pool l operator_new n = Inr (?p\<lparr>blocks := b, freeHead := h\<rparr>)"
    using n(1) base b(1) by (simp add: new_pool_def buildFreeList_def)
  have "0 < kBlockSize l" using block_layout(5) [OF l] by (simp add: sizeof_FreeNode_def)
  then have "distinct (initial_free l base n)" by (auto simp: initial_free_def distinct_map inj_on_def)
  moreover have "(\<exists>k. b a = Some (FreeNode k)) \<longleftrightarrow> a \<in> set (initial_free l base n)" for a
  proof -
    have "(\<exists>k. b a = Some (FreeNode k)) \<longleftrightarrow> a \<in> dom b" using b(4) by (metis block.exhaust domD domI)
    then show ?thesis by (simp add: b(3) block_addrs_def initial_free_def atLeast0LessThan)
  qed
  ultimately have "pool_inv l (?p\<lparr>blocks := b, freeHead := h\<rparr>) (initial_free l base n)"
    using l n b(2,3) by (simp add: pool_inv_def) (simp add: initial_free_def)
  moreover have "live (?p\<lparr>blocks := b, freeHead := h\<rparr>) = Map.empty"
    using b(4) by (auto simp: live_def fun_eq_iff split: option.splits block.splits)
  ultimately show ?thesis using new by (intro exI [of _ "?p\<lparr>blocks := b, freeHead := h\<rparr>"]) simp
qed

section \<open>Sequences of calls\<close>

datatype 'a pool_op = P_allocate "'a result" | P_deallocate nat

text \<open>The stack of free addresses and the live objects; a call answers an address, nothing, or an exception.\<close>

fun pool_spec_step :: "'a pool_op \<Rightarrow> nat list \<times> (nat \<rightharpoonup> 'a) \<Rightarrow> nat option result \<times> (nat list \<times> (nat \<rightharpoonup> 'a))" where
  "pool_spec_step (P_allocate made) ([], L) = (Inl Bad_alloc, ([], L))"
| "pool_spec_step (P_allocate (Inl e)) (a # fs, L) = (Inl e, (a # fs, L))"
| "pool_spec_step (P_allocate (Inr x)) (a # fs, L) = (Inr (Some a), (fs, L(a \<mapsto> x)))"
| "pool_spec_step (P_deallocate a) (fs, L) = (Inr None, (a # fs, L(a := None)))"

fun pool_spec_run :: "'a pool_op list \<Rightarrow> nat list \<times> (nat \<rightharpoonup> 'a) \<Rightarrow> nat option result list \<times> (nat list \<times> (nat \<rightharpoonup> 'a))" where
  "pool_spec_run [] S = ([], S)"
| "pool_spec_run (x # xs) S =
     (let (r, S') = pool_spec_step x S; (rs, S'') = pool_spec_run xs S' in (r # rs, S''))"

text \<open>The client gives back only what it holds.\<close>

fun frees_live :: "'a pool_op list \<Rightarrow> nat list \<times> (nat \<rightharpoonup> 'a) \<Rightarrow> bool" where
  "frees_live [] S = True"
| "frees_live (P_deallocate a # xs) S = (snd S a \<noteq> None \<and> frees_live xs (snd (pool_spec_step (P_deallocate a) S)))"
| "frees_live (P_allocate made # xs) S = frees_live xs (snd (pool_spec_step (P_allocate made) S))"

text \<open>One call, with the answer and the pool afterwards.\<close>

definition pool_call ::
    "('p \<Rightarrow> 'x result \<Rightarrow> nat result \<times> 'p) \<Rightarrow> ('p \<Rightarrow> nat option \<Rightarrow> 'p result) \<Rightarrow> 'x pool_op \<Rightarrow> 'p \<Rightarrow> nat option result \<times> 'p" where
  "pool_call alloc dealloc x p =
     (case x of
        P_allocate made \<Rightarrow> (bind_result (fst (alloc p made)) (\<lambda>a. Inr (Some a)), snd (alloc p made))
      | P_deallocate a \<Rightarrow> (case dealloc p (Some a) of Inl e \<Rightarrow> (Inl e, p) | Inr p' \<Rightarrow> (Inr None, p')))"

fun pool_run :: "layout \<Rightarrow> 'a pool_op list \<Rightarrow> 'a pool \<Rightarrow> nat option result list \<times> 'a pool" where
  "pool_run l [] p = ([], p)"
| "pool_run l (x # xs) p =
     (let (r, p') = pool_call (allocate l) (deallocate l) x p; (rs, p'') = pool_run l xs p' in (r # rs, p''))"

text \<open>The contract of a pool, as its clients use it.\<close>

locale object_pool =
  fixes inv :: "'p \<Rightarrow> nat list \<Rightarrow> bool" and objs :: "'p \<Rightarrow> nat \<rightharpoonup> 'x"
    and alloc :: "'p \<Rightarrow> 'x result \<Rightarrow> nat result \<times> 'p" and dealloc :: "'p \<Rightarrow> nat option \<Rightarrow> 'p result"
  assumes alloc_full: "inv p [] \<Longrightarrow> alloc p made = (Inl Bad_alloc, p)"
    and alloc_law: "inv p (a # fs) \<Longrightarrow> \<exists>p'. alloc p (Inr x) = (Inr a, p') \<and> inv p' fs \<and> objs p' = (objs p)(a \<mapsto> x) \<and> objs p a = None"
    and alloc_throw: "inv p (a # fs) \<Longrightarrow> alloc p (Inl e) = (Inl e, p)"
    and dealloc_law: "inv p fs \<Longrightarrow> objs p a = Some x \<Longrightarrow>
      \<exists>p'. dealloc p (Some a) = Inr p' \<and> inv p' (a # fs) \<and> objs p' = (objs p)(a := None)"
begin

lemma call_refines:
  assumes "inv p fs" and "frees_live (x # xs) (fs, objs p)"
  shows "\<exists>p' fs'. pool_call alloc dealloc x p = (fst (pool_spec_step x (fs, objs p)), p') \<and> inv p' fs' \<and>
    snd (pool_spec_step x (fs, objs p)) = (fs', objs p') \<and> frees_live xs (fs', objs p')"
proof (cases x)
  case (P_allocate made)
  show ?thesis
  proof (cases fs)
    case Nil
    with P_allocate assms alloc_full [of p made] show ?thesis by (simp add: pool_call_def)
  next
    case (Cons a as)
    show ?thesis
    proof (cases made)
      case (Inl e)
      with P_allocate Cons assms alloc_throw [of p a as e] show ?thesis by (simp add: pool_call_def)
    next
      case (Inr y)
      from alloc_law [of p a as y] assms(1) Cons obtain p' where
        "alloc p (Inr y) = (Inr a, p')" "inv p' as" "objs p' = (objs p)(a \<mapsto> y)" by auto
      with P_allocate Cons Inr assms(2) show ?thesis by (auto simp: pool_call_def)
    qed
  qed
next
  case (P_deallocate a)
  with assms(2) obtain y where "objs p a = Some y" by auto
  from dealloc_law [OF assms(1) this] P_deallocate assms(2) show ?thesis by (auto simp: pool_call_def)
qed

end

interpretation pool: object_pool "pool_inv l" live "allocate l" "deallocate l" for l
  by unfold_locales (fact allocate_empty allocate_object allocate_throws deallocate_object)+

lemma place_at_capacity: "place_at p a n b = Inr p' \<Longrightarrow> capacity p' = capacity p"
  by (auto simp: place_at_def split: option.splits if_splits)

lemma pool_call_capacity: "capacity (snd (pool_call (allocate l) (deallocate l) x p)) = capacity p"
  by (auto simp: pool_call_def allocate_def deallocate_def bind_result_eq_Inr dest!: place_at_capacity
      split: pool_op.splits option.splits block.splits sum.splits if_splits)

lemma pool_run_refines:
  "pool_inv l p fs \<Longrightarrow> frees_live xs (fs, live p) \<Longrightarrow>
    \<exists>p'. pool_run l xs p = (fst (pool_spec_run xs (fs, live p)), p') \<and> capacity p' = capacity p \<and>
      pool_inv l p' (fst (snd (pool_spec_run xs (fs, live p)))) \<and> live p' = snd (snd (pool_spec_run xs (fs, live p)))"
proof (induction xs arbitrary: p fs)
  case (Cons x xs)
  from pool.call_refines [OF Cons.prems] obtain p1 fs1 where
    c: "pool_call (allocate l) (deallocate l) x p = (fst (pool_spec_step x (fs, live p)), p1)" "pool_inv l p1 fs1"
      "snd (pool_spec_step x (fs, live p)) = (fs1, live p1)" "frees_live xs (fs1, live p1)" by blast
  have "capacity p1 = capacity p" using pool_call_capacity [of l x p] c(1) by simp
  with Cons.IH [OF c(2,4)] c(1,3) show ?case by (auto simp: split_beta Let_def)
qed simp

section \<open>Properties\<close>

text \<open>
  C21. A pool whose size fits 64 bits serves every sequence of calls whose client gives back only
  live objects, constructors that throw included, without undefined behaviour: it hands out the
  addresses of a stack, throws \<^verbatim>\<open>std::bad_alloc\<close> exactly when none is free, keeps every live object
  unchanged at its own address until it is given back, and counts them.
\<close>

theorem pool_refines_free_stack:
  assumes "layout_ok l" and "0 < n" and "n * kBlockSize l < 2 ^ 64"
    and "operator_new (n * kBlockSize l) (kBlockAlign l) = Some base"
    and "frees_live xs (initial_free l base n, Map.empty)"
  shows "\<exists>p p' fs L rs. new_pool l operator_new n = Inr p \<and> pool_run l xs p = (rs, p') \<and>
    pool_spec_run xs (initial_free l base n, Map.empty) = (rs, (fs, L)) \<and>
    live p' = L \<and> inUse p' = card (dom L) \<and> available p' = length fs \<and> (\<forall>a \<in> dom L. pool_owns l p' a)"
proof -
  from new_pool_ok [where 'a = 'a and l = l and n = n and operator_new = operator_new and base = base, OF assms(1-4)] obtain p :: "'a pool" where
    p: "new_pool l operator_new n = Inr p" "pool_inv l p (initial_free l base n)" "live p = Map.empty" by blast
  obtain rs fs L where spec: "pool_spec_run xs (initial_free l base n, Map.empty) = (rs, (fs, L))"
    by (metis surj_pair)
  from pool_run_refines [OF p(2), of xs] assms(5) obtain p' where
    p': "pool_run l xs p = (rs, p')" "pool_inv l p' fs" "live p' = L" unfolding p(3) spec by auto
  have "pool_owns l p' a" if "a \<in> dom L" for a
    using block_owned [OF p'(2)] live_count(2) [OF p'(2)] that p'(3) by blast
  with p(1) p' spec live_count(1) [OF p'(2)] pool_invD(4) [OF p'(2)] show ?thesis by (auto simp: available_def)
qed

definition demo_layout :: layout where
  "demo_layout = \<lparr>size_of = 20, align_of = 4\<rparr>"

lemma demo_layout_ok: "layout_ok demo_layout"
  by (auto simp: layout_ok_def demo_layout_def intro: exI [of _ 2])

lemma demo_layout_size: "kBlockSize demo_layout = 24" "kBlockAlign demo_layout = 8"
  by code_simp+

definition demo_pool_ops :: "nat pool_op list" where
  "demo_pool_ops = [P_allocate (Inr 7), P_allocate (Inl (Runtime_error ''T'')), P_allocate (Inr 8), P_allocate (Inr 9),
     P_deallocate 4096, P_allocate (Inr 9)]"

theorem pool_refines_free_stack_witness:
  "\<exists>p p'. new_pool demo_layout (\<lambda>_ _. Some 4096) 2 = Inr p \<and>
     pool_run demo_layout demo_pool_ops p = ([Inr (Some 4096), Inl (Runtime_error ''T''), Inr (Some 4120), Inl Bad_alloc,
       Inr None, Inr (Some 4096)], p') \<and>
     live p' = [4096 \<mapsto> 9, 4120 \<mapsto> 8] \<and> available p' = 0"
proof -
  have "frees_live demo_pool_ops (initial_free demo_layout 4096 2, Map.empty)"
    by (simp add: demo_pool_ops_def initial_free_def demo_layout_size upt_rec)
  from pool_refines_free_stack [OF demo_layout_ok _ _ _ this, of "\<lambda>_ _. Some 4096"] obtain p p' fs L rs where
    r: "new_pool demo_layout (\<lambda>_ _. Some 4096) 2 = Inr p" "pool_run demo_layout demo_pool_ops p = (rs, p')"
      "pool_spec_run demo_pool_ops (initial_free demo_layout 4096 2, Map.empty) = (rs, (fs, L))" "live p' = L"
      "available p' = length fs" by (auto simp: demo_layout_size)
  have "pool_spec_run demo_pool_ops (initial_free demo_layout 4096 2, Map.empty) =
      ([Inr (Some 4096), Inl (Runtime_error ''T''), Inr (Some 4120), Inl Bad_alloc, Inr None, Inr (Some 4096)],
       ([], [4096 \<mapsto> 9, 4120 \<mapsto> 8]))"
    by (simp add: demo_pool_ops_def initial_free_def demo_layout_size upt_rec fun_eq_iff)
  with r show ?thesis by simp
qed

text \<open>
  C26. The blocks are laid out right for every type: in an arena aligned as requested each block lies
  inside the arena, is aligned for the type and for a free node, and overlaps no other block.
\<close>

theorem pool_blocks_disjoint_aligned:
  assumes "layout_ok l" and "kBlockAlign l dvd base"
    and "a \<in> set (initial_free l base n)" and "b \<in> set (initial_free l base n)"
  shows "align_of l dvd a \<and> alignof_FreeNode dvd a \<and> base \<le> a \<and> a + kBlockSize l \<le> base + n * kBlockSize l \<and>
    size_of l \<le> kBlockSize l \<and> sizeof_FreeNode \<le> kBlockSize l \<and>
    (a \<noteq> b \<longrightarrow> {a..<a + kBlockSize l} \<inter> {b..<b + kBlockSize l} = {})"
proof -
  note b = block_layout [OF assms(1)]
  from assms(3,4) obtain i j where ij: "a = base + i * kBlockSize l" "i < n" "b = base + j * kBlockSize l" "j < n"
    unfolding initial_free_iff by blast
  have "kBlockAlign l dvd a" using assms(2) b(3) by (simp add: ij(1))
  then have "align_of l dvd a" "alignof_FreeNode dvd a" using b(1,2) by (auto intro: dvd_trans)
  moreover have "(i + 1) * kBlockSize l \<le> n * kBlockSize l" using ij(2) by (intro mult_right_mono) simp_all
  then have "a + kBlockSize l \<le> base + n * kBlockSize l" by (simp add: ij(1))
  moreover have "{a..<a + kBlockSize l} \<inter> {b..<b + kBlockSize l} = {}" if "a \<noteq> b"
  proof -
    have "i + 1 \<le> j \<or> j + 1 \<le> i" using that ij by auto
    then have "(i + 1) * kBlockSize l \<le> j * kBlockSize l \<or> (j + 1) * kBlockSize l \<le> i * kBlockSize l"
      using mult_le_mono1 by blast
    then show ?thesis by (auto simp: ij(1,3))
  qed
  ultimately show ?thesis using b(4,5) ij(1) by auto
qed

theorem pool_blocks_disjoint_aligned_witness:
  "4096 \<in> set (initial_free demo_layout 4096 2) \<and> 4120 \<in> set (initial_free demo_layout 4096 2) \<and>
   align_of demo_layout dvd 4120 \<and> {4120..<4120 + kBlockSize demo_layout} \<inter> {4096..<4096 + kBlockSize demo_layout} = {}"
proof -
  have mem: "4120 \<in> set (initial_free demo_layout 4096 2)" "4096 \<in> set (initial_free demo_layout 4096 2)"
    by (simp_all add: initial_free_def demo_layout_size upt_rec)
  with pool_blocks_disjoint_aligned [OF demo_layout_ok _ mem] show ?thesis by (simp add: demo_layout_size)
qed



end
