(* ===== verification/Threads.thy ===== *)
theory Threads
  imports Main
begin

text \<open>
  Threads and condition variables. The threads of a system are a list of program counters, and
  the threads blocked on a \<^verbatim>\<open>std::condition_variable\<close> are those whose program counter is the
  sleeping one of that variable. \<^verbatim>\<open>notify_one\<close> wakes one of them, any one, or nobody when
  nobody sleeps: the thread it picks is an argument, and a pick that is not possible gives \<open>None\<close>.
\<close>

definition at_pc :: "'p list \<Rightarrow> nat \<Rightarrow> 'p \<Rightarrow> bool" where
  "at_pc ts t p \<longleftrightarrow> t < length ts \<and> ts ! t = p"

definition notify_one :: "'p \<Rightarrow> 'p \<Rightarrow> nat option \<Rightarrow> 'p list \<Rightarrow> 'p list option" where
  "notify_one asleep awake w ts =
     (case w of
        None \<Rightarrow> if asleep \<in> set ts then None else Some ts
      | Some t \<Rightarrow> if at_pc ts t asleep then Some (ts[t := awake]) else None)"

definition notify_all :: "'p \<Rightarrow> 'p \<Rightarrow> 'p list \<Rightarrow> 'p list" where
  "notify_all asleep awake ts = map (\<lambda>p. if p = asleep then awake else p) ts"

lemma at_pc_in_set: "at_pc ts t p \<Longrightarrow> p \<in> set ts"
  by (auto simp: at_pc_def)

lemma in_set_at_pc: "p \<in> set ts \<Longrightarrow> \<exists>t. at_pc ts t p"
  by (auto simp: at_pc_def in_set_conv_nth)

lemma notify_oneE:
  assumes "notify_one a b w ts = Some us"
  obtains (nobody) "a \<notin> set ts" "us = ts" | (woken) t where "at_pc ts t a" "us = ts[t := b]"
proof (cases w)
  case None
  with assms show ?thesis by (intro nobody) (simp_all add: notify_one_def split: if_splits)
next
  case (Some t)
  with assms show ?thesis by (intro woken [of t]) (simp_all add: notify_one_def split: if_splits)
qed

lemma length_notify_one [simp]: "notify_one a b w ts = Some us \<Longrightarrow> length us = length ts"
  by (erule notify_oneE) simp_all

lemma length_notify_all [simp]: "length (notify_all a b ts) = length ts"
  by (simp add: notify_all_def)

text \<open>Some pick is always possible.\<close>

lemma notify_one_possible: "\<exists>w us. notify_one a b w ts = Some us"
proof (cases "a \<in> set ts")
  case True
  then obtain t where "at_pc ts t a" by (auto dest: in_set_at_pc)
  then show ?thesis by (intro exI [of _ "Some t"]) (simp add: notify_one_def)
qed (auto simp: notify_one_def intro: exI [of _ None])

text \<open>How many threads are at a program counter, after one moved.\<close>

lemma count_list_update:
  assumes "t < length ts"
  shows "int (count_list (ts[t := p]) q) =
    int (count_list ts q) - (if ts ! t = q then 1 else 0) + (if p = q then 1 else 0)"
proof -
  have "ts = take t ts @ ts ! t # drop (Suc t) ts" using assms by (rule id_take_nth_drop)
  then have "count_list ts q = count_list (take t ts @ ts ! t # drop (Suc t) ts) q" by simp
  with assms show ?thesis by (simp add: upd_conv_take_nth_drop)
qed

lemma count_list_move:
  "at_pc ts t p \<Longrightarrow> int (count_list (ts[t := p']) q) =
     int (count_list ts q) - (if p = q then 1 else 0) + (if p' = q then 1 else 0)"
  by (simp add: at_pc_def count_list_update)

lemma count_list_notify_one:
  assumes "notify_one a b w ts = Some us" "q \<noteq> a" "q \<noteq> b"
  shows "count_list us q = count_list ts q"
  using assms(1)
proof (cases rule: notify_oneE)
  case (woken t)
  with assms count_list_move [of ts t a b q] show ?thesis by simp
qed simp

lemma count_list_notify_one_sum:
  assumes "notify_one a b w ts = Some us" "a \<noteq> b"
  shows "count_list us a + count_list us b = count_list ts a + count_list ts b"
  using assms(1)
proof (cases rule: notify_oneE)
  case (woken t)
  with assms count_list_move [of ts t a b a] count_list_move [of ts t a b b] show ?thesis by simp
qed simp

lemma count_list_notify_all:
  "q \<noteq> a \<Longrightarrow> q \<noteq> b \<Longrightarrow> count_list (notify_all a b ts) q = count_list ts q"
  by (induction ts) (auto simp: notify_all_def)

lemma notify_one_awake: "notify_one a b w ts = Some us \<Longrightarrow> a \<in> set ts \<Longrightarrow> b \<in> set us"
  by (erule notify_oneE) (auto simp: at_pc_def intro: set_update_memI)

lemma notify_all_none: "a \<noteq> b \<Longrightarrow> a \<notin> set (notify_all a b ts)"
  by (auto simp: notify_all_def)

end
