(* ===== verification/RWLock.thy ===== *)
theory RWLock
  imports Threads Step_System
begin

text \<open>
  The readers-writer lock of \<^verbatim>\<open>include/concurrency/RWLock.hpp\<close> and \<^verbatim>\<open>src/concurrency/rwlock.cpp\<close>.
  Every member holds the mutex for its whole body except while it sleeps on a condition variable,
  so the steps that interleave are the critical sections: the entry of a member up to the first
  sleep or the return, and each re-check of the predicate after a wake-up. A sleeping thread may
  also wake without a notification. The two counters are \<^verbatim>\<open>int\<close>; they never exceed the number of
  threads.
\<close>

section \<open>State and members\<close>

datatype rw_pc = Idle | Reading | Writing | Read_asleep | Read_awake | Write_asleep | Write_awake

record RWLock =
  activeReaders :: int
  waitingWriters :: int
  writerActive :: bool
  threads :: "rw_pc list"

definition new_RWLock :: "nat \<Rightarrow> RWLock" where
  "new_RWLock n = \<lparr>activeReaders = 0, waitingWriters = 0, writerActive = False, threads = replicate n Idle\<rparr>"

definition set_pc :: "nat \<Rightarrow> rw_pc \<Rightarrow> RWLock \<Rightarrow> RWLock" where
  "set_pc t p l = l\<lparr>threads := (threads l)[t := p]\<rparr>"

text \<open>The predicate of \<^verbatim>\<open>readersCv_.wait\<close> is checked, and the thread enters or falls asleep.\<close>

definition read_wait :: "nat \<Rightarrow> RWLock \<Rightarrow> RWLock" where
  "read_wait t l =
     (if \<not> writerActive l \<and> waitingWriters l = 0
      then set_pc t Reading (l\<lparr>activeReaders := activeReaders l + 1\<rparr>)
      else set_pc t Read_asleep l)"

definition readLock :: "nat \<Rightarrow> RWLock \<Rightarrow> RWLock" where
  "readLock t l = read_wait t l"

definition readUnlock :: "nat \<Rightarrow> nat option \<Rightarrow> RWLock \<Rightarrow> RWLock option" where
  "readUnlock t w l =
     (let l1 = set_pc t Idle (l\<lparr>activeReaders := activeReaders l - 1\<rparr>)
      in if activeReaders l1 = 0
         then map_option (\<lambda>ts. l1\<lparr>threads := ts\<rparr>) (notify_one Write_asleep Write_awake w (threads l1))
         else Some l1)"

definition write_wait :: "nat \<Rightarrow> RWLock \<Rightarrow> RWLock" where
  "write_wait t l =
     (if \<not> writerActive l \<and> activeReaders l = 0
      then set_pc t Writing (l\<lparr>waitingWriters := waitingWriters l - 1, writerActive := True\<rparr>)
      else set_pc t Write_asleep l)"

definition writeLock :: "nat \<Rightarrow> RWLock \<Rightarrow> RWLock" where
  "writeLock t l = write_wait t (l\<lparr>waitingWriters := waitingWriters l + 1\<rparr>)"

definition writeUnlock :: "nat \<Rightarrow> nat option \<Rightarrow> RWLock \<Rightarrow> RWLock option" where
  "writeUnlock t w l =
     (let l1 = set_pc t Idle (l\<lparr>writerActive := False\<rparr>)
      in if waitingWriters l1 > 0
         then map_option (\<lambda>ts. l1\<lparr>threads := ts\<rparr>) (notify_one Write_asleep Write_awake w (threads l1))
         else Some (l1\<lparr>threads := notify_all Read_asleep Read_awake (threads l1)\<rparr>))"

section \<open>Threads that use the guards\<close>

text \<open>
  The guards are the only users of the lock: \<^verbatim>\<open>ReadGuard\<close> and \<^verbatim>\<open>WriteGuard\<close> lock in the constructor
  and unlock in the destructor, so a thread unlocks what it holds and nothing else. \<open>Pause\<close> is a
  step of the program outside the lock.
\<close>

datatype rw_action =
    Read_lock nat
  | Write_lock nat
  | Recheck nat
  | Wake nat
  | Read_unlock nat "nat option"
  | Write_unlock nat "nat option"
  | Pause

fun rw_act :: "rw_action \<Rightarrow> RWLock \<Rightarrow> RWLock option" where
  "rw_act (Read_lock t) l = (if at_pc (threads l) t Idle then Some (readLock t l) else None)"
| "rw_act (Write_lock t) l = (if at_pc (threads l) t Idle then Some (writeLock t l) else None)"
| "rw_act (Recheck t) l =
     (if at_pc (threads l) t Read_awake then Some (read_wait t l)
      else if at_pc (threads l) t Write_awake then Some (write_wait t l)
      else None)"
| "rw_act (Wake t) l =
     (if at_pc (threads l) t Read_asleep then Some (set_pc t Read_awake l)
      else if at_pc (threads l) t Write_asleep then Some (set_pc t Write_awake l)
      else None)"
| "rw_act (Read_unlock t w) l = (if at_pc (threads l) t Reading then readUnlock t w l else None)"
| "rw_act (Write_unlock t w) l = (if at_pc (threads l) t Writing then writeUnlock t w l else None)"
| "rw_act Pause l = Some l"

definition rw_init :: "RWLock \<Rightarrow> bool" where
  "rw_init l \<longleftrightarrow> l = new_RWLock (length (threads l))"

definition rw_step :: "RWLock \<Rightarrow> RWLock \<Rightarrow> bool" where
  "rw_step l l' \<longleftrightarrow> (\<exists>a. rw_act a l = Some l')"

end
