(* ===== verification/RWLock_Spec.thy ===== *)
theory RWLock_Spec
  imports RWLock
begin

text \<open>
  What the readers-writer lock promises: many readers or one writer, counters that count, no lost
  wake-up, and writers that readers cannot starve. The invariant is stated over the number of
  threads at each program counter, so that every step is a case of linear arithmetic.
\<close>

section \<open>The invariant\<close>

definition cnt :: "RWLock \<Rightarrow> rw_pc \<Rightarrow> int" where
  "cnt l p = int (count_list (threads l) p)"

definition rw_counts :: "RWLock \<Rightarrow> bool" where
  "rw_counts l \<longleftrightarrow>
     activeReaders l = cnt l Reading \<and>
     waitingWriters l = cnt l Write_asleep + cnt l Write_awake \<and>
     cnt l Writing = (if writerActive l then 1 else 0) \<and>
     (writerActive l \<longrightarrow> activeReaders l = 0)"

text \<open>A writer sleeps only while the lock is held or another writer is awake; a reader only behind a writer.\<close>

definition rw_wakeups :: "RWLock \<Rightarrow> bool" where
  "rw_wakeups l \<longleftrightarrow>
     (0 < cnt l Write_asleep \<longrightarrow> writerActive l \<or> 0 < activeReaders l \<or> 0 < cnt l Write_awake) \<and>
     (0 < cnt l Read_asleep \<longrightarrow> writerActive l \<or> 0 < waitingWriters l)"

definition rw_inv :: "RWLock \<Rightarrow> bool" where
  "rw_inv l \<longleftrightarrow> rw_counts l \<and> rw_wakeups l"

lemmas rw_inv_defs = rw_inv_def rw_counts_def rw_wakeups_def

lemma cnt_nonneg: "0 \<le> cnt l p"
  by (simp add: cnt_def)

lemma cnts_nonneg: "0 \<le> cnt l Reading \<and> 0 \<le> cnt l Write_asleep \<and> 0 \<le> cnt l Write_awake \<and> 0 \<le> cnt l Read_asleep"
  by (simp add: cnt_nonneg)

lemma cnt_le_threads: "cnt l p \<le> int (length (threads l))"
  by (simp add: cnt_def count_le_length)

lemma cnt_pos_iff: "0 < cnt l p \<longleftrightarrow> p \<in> set (threads l)"
  using count_list_0_iff [of "threads l" p] by (auto simp: cnt_def)

lemma at_pc_cnt: "at_pc (threads l) t p \<Longrightarrow> 1 \<le> cnt l p"
  using at_pc_in_set [of "threads l" t p] cnt_pos_iff [of l p] by simp

lemma cnt_at_pc: "0 < cnt l p \<Longrightarrow> \<exists>t. at_pc (threads l) t p"
  by (simp add: cnt_pos_iff in_set_at_pc)

lemma cnt_update [simp]:
  "cnt (l\<lparr>activeReaders := i\<rparr>) p = cnt l p"
  "cnt (l\<lparr>waitingWriters := i\<rparr>) p = cnt l p"
  "cnt (l\<lparr>writerActive := b\<rparr>) p = cnt l p"
  by (simp_all add: cnt_def)

lemma set_pc_simps [simp]:
  "activeReaders (set_pc t p l) = activeReaders l"
  "waitingWriters (set_pc t p l) = waitingWriters l"
  "writerActive (set_pc t p l) = writerActive l"
  "length (threads (set_pc t p l)) = length (threads l)"
  by (simp_all add: set_pc_def)

lemma cnt_set_pc:
  assumes "at_pc (threads l) t p" "threads m = threads l"
  shows "cnt (set_pc t p' m) q = cnt l q - (if p = q then 1 else 0) + (if p' = q then 1 else 0)"
  using assms by (simp add: cnt_def set_pc_def count_list_move)

lemma cnt_notify_one:
  assumes "notify_one a b w (threads l) = Some us" "a \<noteq> b"
  shows "(cnt l a = 0 \<and> l\<lparr>threads := us\<rparr> = l) \<or>
    (0 < cnt l a \<and> (\<forall>q. cnt (l\<lparr>threads := us\<rparr>) q = cnt l q - (if a = q then 1 else 0) + (if b = q then 1 else 0)))"
  using assms(1)
proof (cases rule: notify_oneE)
  case nobody
  then show ?thesis using cnt_pos_iff [of l a] cnt_nonneg [of l a] by (intro disjI1) (simp add: order_less_le)
next
  case (woken t)
  then show ?thesis using at_pc_cnt [of l t a] by (auto simp: cnt_def count_list_move)
qed

lemma cnt_notify_all:
  "a \<noteq> b \<Longrightarrow> cnt (l\<lparr>threads := notify_all a b (threads l)\<rparr>) a = 0"
  "q \<noteq> a \<Longrightarrow> q \<noteq> b \<Longrightarrow> cnt (l\<lparr>threads := notify_all a b (threads l)\<rparr>) q = cnt l q"
  using notify_all_none [of a b "threads l"] by (simp_all add: cnt_def count_list_notify_all count_list_0_iff)

section \<open>Every step keeps it\<close>

lemma read_wait_inv:
  assumes "rw_inv l" "at_pc (threads l) t p" "p = Idle \<or> p = Read_awake"
  shows "rw_inv (read_wait t l)"
  using assms at_pc_cnt [OF assms(2)] cnts_nonneg [of l]
  by (auto simp: read_wait_def rw_inv_defs cnt_set_pc [OF assms(2)])

lemma write_wait_inv:
  assumes "rw_inv l" "at_pc (threads l) t Write_awake"
  shows "rw_inv (write_wait t l)"
  using assms at_pc_cnt [OF assms(2)] cnts_nonneg [of l]
  by (auto simp: write_wait_def rw_inv_defs cnt_set_pc [OF assms(2)])

lemma writeLock_inv:
  assumes "rw_inv l" "at_pc (threads l) t Idle"
  shows "rw_inv (writeLock t l)"
  using assms at_pc_cnt [OF assms(2)] cnts_nonneg [of l]
  by (auto simp: writeLock_def write_wait_def rw_inv_defs cnt_set_pc [OF assms(2)])

lemma wake_inv:
  assumes "rw_inv l" "at_pc (threads l) t p" "(p, q) \<in> {(Read_asleep, Read_awake), (Write_asleep, Write_awake)}"
  shows "rw_inv (set_pc t q l)"
  using assms at_pc_cnt [OF assms(2)] cnts_nonneg [of l] by (auto simp: rw_inv_defs cnt_set_pc [OF assms(2)])

lemma readUnlock_inv:
  assumes "rw_inv l" "at_pc (threads l) t Reading" "readUnlock t w l = Some l'"
  shows "rw_inv l'"
proof -
  let ?l = "set_pc t Idle (l\<lparr>activeReaders := activeReaders l - 1\<rparr>)"
  have counts: "rw_counts ?l" and no_writer: "\<not> writerActive l"
    and readers: "0 < cnt ?l Read_asleep \<Longrightarrow> 0 < waitingWriters ?l"
    using assms at_pc_cnt [OF assms(2)] cnts_nonneg [of l] by (auto simp: rw_inv_defs cnt_set_pc [OF assms(2)])
  show ?thesis
  proof (cases "activeReaders ?l = 0")
    case True
    with assms(3) obtain us where us: "notify_one Write_asleep Write_awake w (threads ?l) = Some us"
      and l': "l' = ?l\<lparr>threads := us\<rparr>"
      unfolding readUnlock_def Let_def by auto
    from cnt_notify_one [OF us] show ?thesis
      using counts readers no_writer cnts_nonneg [of ?l] unfolding l' by (auto simp: rw_inv_defs)
  next
    case False
    then have "l' = ?l" using assms(3) unfolding readUnlock_def Let_def by simp
    with False counts readers cnts_nonneg [of ?l] show ?thesis by (auto simp: rw_inv_defs)
  qed
qed

lemma writeUnlock_inv:
  assumes "rw_inv l" "at_pc (threads l) t Writing" "writeUnlock t w l = Some l'"
  shows "rw_inv l'"
proof -
  let ?l = "set_pc t Idle (l\<lparr>writerActive := False\<rparr>)"
  have counts: "rw_counts ?l"
    using assms at_pc_cnt [OF assms(2)] cnts_nonneg [of l] by (auto simp: rw_inv_defs cnt_set_pc [OF assms(2)] split: if_splits)
  show ?thesis
  proof (cases "waitingWriters ?l > 0")
    case True
    with assms(3) obtain us where us: "notify_one Write_asleep Write_awake w (threads ?l) = Some us"
      and l': "l' = ?l\<lparr>threads := us\<rparr>"
      unfolding writeUnlock_def Let_def by auto
    from cnt_notify_one [OF us] show ?thesis
      using counts True cnts_nonneg [of ?l] unfolding l' by (auto simp: rw_inv_defs)
  next
    case False
    then have l': "l' = ?l\<lparr>threads := notify_all Read_asleep Read_awake (threads ?l)\<rparr>"
      using assms(3) unfolding writeUnlock_def Let_def by simp
    show ?thesis using counts False cnts_nonneg [of ?l]
      unfolding l' by (auto simp: rw_inv_defs cnt_notify_all)
  qed
qed

lemma rw_act_inv: "rw_inv l \<Longrightarrow> rw_act a l = Some l' \<Longrightarrow> rw_inv l'"
  by (cases a) (auto simp: readLock_def split: if_splits
      intro: read_wait_inv write_wait_inv writeLock_inv wake_inv readUnlock_inv writeUnlock_inv)

lemma new_RWLock_inv: "rw_inv (new_RWLock n)"
  by (auto simp: new_RWLock_def rw_inv_defs cnt_def count_list_0_iff)

interpretation rw: inductive_invariant rw_init rw_step rw_inv
  by unfold_locales (auto simp: rw_init_def rw_step_def intro: rw_act_inv, metis new_RWLock_inv)

section \<open>Threads that keep going\<close>

text \<open>Which thread an action belongs to, and the threads that are not blocked by the lock.\<close>

fun actor :: "rw_action \<Rightarrow> nat option" where
  "actor (Read_lock t) = Some t"
| "actor (Write_lock t) = Some t"
| "actor (Recheck t) = Some t"
| "actor (Wake t) = None"
| "actor (Read_unlock t w) = Some t"
| "actor (Write_unlock t w) = Some t"
| "actor Pause = None"

definition runnable :: "rw_pc \<Rightarrow> bool" where
  "runnable p \<longleftrightarrow> p = Reading \<or> p = Writing \<or> p = Read_awake \<or> p = Write_awake"

definition rw_run :: "(nat \<Rightarrow> rw_action) \<Rightarrow> (nat \<Rightarrow> RWLock) \<Rightarrow> bool" where
  "rw_run a s \<longleftrightarrow> rw_init (s 0) \<and> (\<forall>i. rw_act (a i) (s i) = Some (s (Suc i)))"

definition rw_fair :: "(nat \<Rightarrow> rw_action) \<Rightarrow> (nat \<Rightarrow> RWLock) \<Rightarrow> bool" where
  "rw_fair a s \<longleftrightarrow>
     (\<forall>i t p. at_pc (threads (s i)) t p \<longrightarrow> runnable p \<longrightarrow> (\<exists>j\<ge>i. actor (a j) = Some t))"

lemma at_pc_set_pc [simp]: "u \<noteq> t \<Longrightarrow> at_pc (threads (set_pc t q l)) u p \<longleftrightarrow> at_pc (threads l) u p"
  by (simp add: set_pc_def at_pc_def)

lemma at_pc_notify_one:
  assumes "notify_one a b w ts = Some us" "at_pc ts u p" "p \<noteq> a"
  shows "at_pc us u p"
  using assms(1)
proof (cases rule: notify_oneE)
  case (woken t)
  with assms(2,3) show ?thesis by (auto simp: at_pc_def nth_list_update)
qed (simp add: assms(2))

lemma at_pc_notify_all: "at_pc ts u p \<Longrightarrow> p \<noteq> a \<Longrightarrow> at_pc (notify_all a b ts) u p"
  by (simp add: notify_all_def at_pc_def)

text \<open>Only a thread itself leaves a program counter at which it can run.\<close>

lemma others_keep:
  assumes "rw_act a l = Some l'" "actor a \<noteq> Some u" "at_pc (threads l) u p" "runnable p"
  shows "at_pc (threads l') u p"
proof (cases a)
  case (Wake t)
  with assms show ?thesis
    by (cases "t = u") (auto simp: runnable_def at_pc_def set_pc_def split: if_splits)
next
  case (Read_unlock t w)
  with assms show ?thesis
    by (auto simp: readUnlock_def Let_def runnable_def split: if_splits
        elim!: at_pc_notify_one)
next
  case (Write_unlock t w)
  with assms show ?thesis
    by (auto simp: writeUnlock_def Let_def runnable_def split: if_splits
        intro!: at_pc_notify_all elim!: at_pc_notify_one)
qed (use assms in \<open>auto simp: readLock_def read_wait_def writeLock_def write_wait_def split: if_splits\<close>)

lemma rw_run_step: "rw_run a s \<Longrightarrow> rw_act (a i) (s i) = Some (s (Suc i))"
  by (simp add: rw_run_def)

lemma rw_run_inv: "rw_run a s \<Longrightarrow> rw_inv (s i)"
proof (induction i)
  case 0
  then show ?case using new_RWLock_inv by (metis rw_run_def rw_init_def)
qed (use rw_act_inv rw_run_step in blast)

lemma eventually_acts:
  assumes "rw_run a s" "rw_fair a s" "at_pc (threads (s i)) t p" "runnable p"
  shows "\<exists>j\<ge>i. actor (a j) = Some t \<and> at_pc (threads (s j)) t p"
proof -
  obtain j where j: "i \<le> j" "actor (a j) = Some t" using assms(2-4) unfolding rw_fair_def by blast
  from j show ?thesis
  proof (induction "j - i" arbitrary: j rule: less_induct)
    case less
    show ?case
    proof (cases "\<exists>k\<ge>i. k < j \<and> actor (a k) = Some t")
      case True
      then obtain k where k: "i \<le> k" "k < j" "actor (a k) = Some t" by blast
      then have "k - i < j - i" by simp
      from less(1) [OF this k(1,3)] show ?thesis .
    next
      case False
      have "k \<le> j \<Longrightarrow> at_pc (threads (s k)) t p" if "i \<le> k" for k
        using that
      proof (induction k rule: dec_induct)
        case (step n)
        then have "at_pc (threads (s n)) t p" "actor (a n) \<noteq> Some t" using False by auto
        with rw_run_step [OF assms(1)] assms(4) show ?case by (blast intro: others_keep)
      qed (rule assms(3))
      with less(2,3) show ?thesis by blast
    qed
  qed
qed

text \<open>What an action does to the readers inside and to the writers that wait.\<close>

lemma readers_only_leave:
  "rw_act a l = Some l' \<Longrightarrow> 0 < waitingWriters l \<Longrightarrow> activeReaders l' \<le> activeReaders l"
  by (cases a) (auto simp: readLock_def read_wait_def writeLock_def write_wait_def readUnlock_def
      writeUnlock_def Let_def split: if_splits)

lemma writers_keep_waiting:
  "rw_act a l = Some l' \<Longrightarrow> \<not> writerActive l' \<Longrightarrow> waitingWriters l \<le> waitingWriters l'"
  by (cases a) (auto simp: readLock_def read_wait_def writeLock_def write_wait_def readUnlock_def
      writeUnlock_def Let_def split: if_splits)

lemma reader_leaves:
  "rw_act a l = Some l' \<Longrightarrow> actor a = Some t \<Longrightarrow> at_pc (threads l) t Reading \<Longrightarrow>
     activeReaders l' = activeReaders l - 1"
  by (cases a) (auto simp: at_pc_def readUnlock_def Let_def split: if_splits)

lemma awake_writer_enters:
  "rw_act a l = Some l' \<Longrightarrow> actor a = Some t \<Longrightarrow> at_pc (threads l) t Write_awake \<Longrightarrow>
     \<not> writerActive l \<Longrightarrow> activeReaders l = 0 \<Longrightarrow> writerActive l'"
  by (cases a) (auto simp: at_pc_def write_wait_def split: if_splits)

text \<open>While no writer is inside, the readers that a waiting writer found inside leave one by one.\<close>

lemma readers_drain:
  assumes run: "rw_run a s" and fair: "rw_fair a s"
    and waiting: "\<And>j. i \<le> j \<Longrightarrow> 0 < waitingWriters (s j)" and "i \<le> j"
  shows "\<exists>k\<ge>j. \<forall>m\<ge>k. activeReaders (s m) = 0"
  using \<open>i \<le> j\<close>
proof (induction "nat (activeReaders (s j))" arbitrary: j rule: less_induct)
  case less
  have mono: "activeReaders (s m) \<le> activeReaders (s k)" if "i \<le> k" "k \<le> m" for k m
    using that(2)
  proof (induction m rule: dec_induct)
    case (step n)
    with readers_only_leave [OF rw_run_step [OF run] waiting [of n]] that(1) show ?case
      by (meson dual_order.trans)
  qed simp
  have nonneg: "0 \<le> activeReaders (s m)" for m
    using rw_run_inv [OF run, of m] cnt_nonneg by (simp add: rw_inv_defs)
  show ?case
  proof (cases "activeReaders (s j) = 0")
    case True
    have "activeReaders (s m) = 0" if "j \<le> m" for m
      using mono [OF less(2) that] nonneg [of m] True by linarith
    then show ?thesis by blast
  next
    case False
    with nonneg [of j] rw_run_inv [OF run, of j] have "0 < cnt (s j) Reading"
      unfolding rw_inv_defs by linarith
    then obtain t where "at_pc (threads (s j)) t Reading" by (auto dest: cnt_at_pc)
    from eventually_acts [OF run fair this] obtain k where
      k: "j \<le> k" "actor (a k) = Some t" "at_pc (threads (s k)) t Reading" by (auto simp: runnable_def)
    have "activeReaders (s (Suc k)) < activeReaders (s j)"
      using reader_leaves [OF rw_run_step [OF run] k(2,3)] mono [OF less(2) k(1)] by simp
    with nonneg [of "Suc k"] have "nat (activeReaders (s (Suc k))) < nat (activeReaders (s j))" by linarith
    from less(1) [OF this] less(2) k(1) obtain k' where "Suc k \<le> k'" "\<forall>m\<ge>k'. activeReaders (s m) = 0"
      by auto
    with k(1) show ?thesis by (meson Suc_leD le_trans)
  qed
qed

lemma waiting_writer_awake:
  assumes "rw_inv l" "0 < waitingWriters l" "activeReaders l = 0" "\<not> writerActive l"
  shows "\<exists>t. at_pc (threads l) t Write_awake"
  using assms cnts_nonneg [of l] by (intro cnt_at_pc) (auto simp: rw_inv_defs)

section \<open>Properties\<close>

fun rw_acts :: "rw_action list \<Rightarrow> RWLock \<Rightarrow> RWLock option" where
  "rw_acts [] l = Some l"
| "rw_acts (a # as) l = Option.bind (rw_act a l) (rw_acts as)"

lemma rw_acts_reachable:
  "rw_acts as l = Some l' \<Longrightarrow> reachable rw_init rw_step l \<Longrightarrow> reachable rw_init rw_step l'"
proof (induction as arbitrary: l)
  case (Cons a as)
  then obtain l1 where l1: "rw_act a l = Some l1" "rw_acts as l1 = Some l'" by (auto simp: bind_eq_Some_conv)
  then have "rw_step l l1" by (auto simp: rw_step_def)
  from Cons.IH [OF l1(2) reach_step [OF Cons.prems(2) this]] show ?case .
qed simp

lemma new_RWLock_reachable: "reachable rw_init rw_step (new_RWLock n)"
  by (rule reach_init) (simp add: rw_init_def new_RWLock_def)

text \<open>
  C32. Exclusion: in every state that threads using the guards can reach, at most one thread
  writes, nobody reads while one writes, the counters of the lock are exactly the numbers of
  threads reading and waiting to write (so they stay between zero and the number of threads and
  the \<^verbatim>\<open>int\<close> counters do not overflow), and the flag says exactly whether a thread writes.
\<close>

theorem rwlock_exclusion:
  assumes "reachable rw_init rw_step l"
  shows "count_list (threads l) Writing \<le> 1 \<and>
    \<not> (Writing \<in> set (threads l) \<and> Reading \<in> set (threads l)) \<and>
    writerActive l = (Writing \<in> set (threads l)) \<and>
    activeReaders l = int (count_list (threads l) Reading) \<and>
    waitingWriters l = int (count_list (threads l) Write_asleep + count_list (threads l) Write_awake)"
  using rw.reachable_inv [OF assms] cnt_pos_iff [of l Writing] cnt_pos_iff [of l Reading]
  by (simp add: rw_inv_defs cnt_def split: if_splits)

theorem rwlock_exclusion_witness:
  "\<exists>l. rw_acts [Read_lock 0, Read_lock 1, Write_lock 2, Read_unlock 0 None, Read_unlock 1 (Some 2), Recheck 2,
       Read_lock 1] (new_RWLock 3) = Some l \<and>
     threads l = [Idle, Read_asleep, Writing] \<and> writerActive l = (Writing \<in> set (threads l))"
proof -
  let ?as = "[Read_lock 0, Read_lock 1, Write_lock 2, Read_unlock 0 None, Read_unlock 1 (Some 2), Recheck 2,
    Read_lock 1]"
  have "map_option threads (rw_acts ?as (new_RWLock 3)) = Some [Idle, Read_asleep, Writing]" by code_simp
  then obtain l where l: "rw_acts ?as (new_RWLock 3) = Some l" "threads l = [Idle, Read_asleep, Writing]" by auto
  from rwlock_exclusion [OF rw_acts_reachable [OF l(1) new_RWLock_reachable]] l show ?thesis by blast
qed

text \<open>
  C35. No lost wake-up: whenever some thread waits for the lock, asleep or awake, and no thread
  holds it, there is an awake thread that gets the lock as soon as it re-checks its predicate.
  The lock cannot be free while everyone who wants it sleeps.
\<close>

theorem rwlock_no_lost_wakeup:
  assumes "reachable rw_init rw_step l"
    and "Reading \<notin> set (threads l)" and "Writing \<notin> set (threads l)"
    and "\<exists>p\<in>{Read_asleep, Read_awake, Write_asleep, Write_awake}. p \<in> set (threads l)"
  shows "\<exists>t l'. rw_act (Recheck t) l = Some l' \<and>
    (at_pc (threads l') t Reading \<or> at_pc (threads l') t Writing)"
proof -
  have inv: "rw_inv l" using assms(1) by (rule rw.reachable_inv)
  have free: "activeReaders l = 0" "\<not> writerActive l"
    using inv assms(2,3) cnt_pos_iff [of l Reading] cnt_pos_iff [of l Writing] cnts_nonneg [of l]
    by (auto simp: rw_inv_defs split: if_splits)
  show ?thesis
  proof (cases "0 < waitingWriters l")
    case True
    from waiting_writer_awake [OF inv True free] obtain t where "at_pc (threads l) t Write_awake" by blast
    with free show ?thesis
      by (intro exI [of _ t] exI [of _ "write_wait t l"]) (auto simp: at_pc_def write_wait_def set_pc_def)
  next
    case False
    with inv free assms(4) have "0 < cnt l Read_awake" and idle: "waitingWriters l = 0"
      using cnts_nonneg [of l] by (auto simp: rw_inv_defs simp flip: cnt_pos_iff)
    then obtain t where "at_pc (threads l) t Read_awake" by (auto dest: cnt_at_pc)
    with free idle show ?thesis
      by (intro exI [of _ t] exI [of _ "read_wait t l"]) (auto simp: at_pc_def read_wait_def set_pc_def)
  qed
qed

theorem rwlock_no_lost_wakeup_witness:
  "\<exists>l t l'. rw_acts [Read_lock 0, Write_lock 1, Write_lock 2, Read_unlock 0 (Some 2)] (new_RWLock 3) = Some l \<and>
     rw_act (Recheck t) l = Some l' \<and> (at_pc (threads l') t Reading \<or> at_pc (threads l') t Writing)"
proof -
  let ?as = "[Read_lock 0, Write_lock 1, Write_lock 2, Read_unlock 0 (Some 2)]"
  have "map_option threads (rw_acts ?as (new_RWLock 3)) = Some [Idle, Write_asleep, Write_awake]" by code_simp
  then obtain l where l: "rw_acts ?as (new_RWLock 3) = Some l" "threads l = [Idle, Write_asleep, Write_awake]"
    by auto
  from l(2) have pcs: "Reading \<notin> set (threads l)" "Writing \<notin> set (threads l)"
    "\<exists>p\<in>{Read_asleep, Read_awake, Write_asleep, Write_awake}. p \<in> set (threads l)" by auto
  from rwlock_no_lost_wakeup [OF rw_acts_reachable [OF l(1) new_RWLock_reachable] pcs] l(1) show ?thesis by blast
qed

text \<open>
  C31. Readers cannot starve writers: in every endless run in which a thread that holds the lock
  releases it at some time and an awake thread re-checks its predicate at some time, whenever a
  writer waits, a writer is inside at some later point.
\<close>

theorem writers_not_starved:
  assumes "rw_run a s" and "rw_fair a s" and "0 < waitingWriters (s i)"
  shows "\<exists>j\<ge>i. writerActive (s j)"
proof (rule ccontr)
  assume "\<not> ?thesis"
  then have no_writer: "\<not> writerActive (s j)" if "i \<le> j" for j using that by blast
  have waiting: "0 < waitingWriters (s j)" if "i \<le> j" for j
    using that
  proof (induction j rule: dec_induct)
    case (step n)
    with writers_keep_waiting [OF rw_run_step [OF assms(1)], of n] no_writer [of "Suc n"] show ?case by simp
  qed (rule assms(3))
  from readers_drain [OF assms(1,2) waiting order_refl] obtain k where
    k: "i \<le> k" "\<And>m. k \<le> m \<Longrightarrow> activeReaders (s m) = 0" by blast
  from waiting_writer_awake [OF rw_run_inv [OF assms(1)] waiting [OF k(1)] k(2) no_writer [OF k(1)]]
  obtain t where "at_pc (threads (s k)) t Write_awake" by auto
  from eventually_acts [OF assms(1,2) this] obtain j where
    j: "k \<le> j" "actor (a j) = Some t" "at_pc (threads (s j)) t Write_awake" by (auto simp: runnable_def)
  from awake_writer_enters [OF rw_run_step [OF assms(1)] j(2,3)] k j(1) no_writer show False
    by (meson le_SucI le_trans)
qed

text \<open>A round of a reader and a writer, repeated for ever.\<close>

definition round_action :: "nat \<Rightarrow> rw_action" where
  "round_action i = [Read_lock 0, Write_lock 1, Read_unlock 0 (Some 1), Recheck 1, Write_unlock 1 None] ! (i mod 5)"

definition round_state :: "nat \<Rightarrow> RWLock" where
  "round_state i = the (rw_acts (map round_action [0..<i mod 5]) (new_RWLock 2))"

theorem writers_not_starved_witness:
  "rw_run round_action round_state \<and> rw_fair round_action round_state \<and>
   0 < waitingWriters (round_state 2) \<and> (\<exists>j\<ge>2. writerActive (round_state j))"
proof -
  have all: "list_all (\<lambda>k. rw_act (round_action k) (round_state k) = Some (round_state (Suc k)) \<and>
      length (threads (round_state k)) = 2) [0..<5]" by code_simp
  have period: "round_action i = round_action (i mod 5)" "round_state i = round_state (i mod 5)"
    "round_state (Suc i) = round_state (Suc (i mod 5))" for i
    by (simp_all add: round_action_def round_state_def mod_Suc_eq)
  have run: "rw_run round_action round_state"
    unfolding rw_run_def
  proof (intro conjI allI)
    show "rw_init (round_state 0)" by (simp add: rw_init_def round_state_def new_RWLock_def)
    show "rw_act (round_action i) (round_state i) = Some (round_state (Suc i))" for i
      using all period [of i] by (simp add: list_all_iff)
  qed
  have len: "length (threads (round_state i)) = 2" for i
    using all period [of i] by (simp add: list_all_iff)
  have fair: "rw_fair round_action round_state"
    unfolding rw_fair_def
  proof (intro allI impI)
    fix i t p
    assume "at_pc (threads (round_state i)) t p"
    then have "t = 0 \<or> t = 1" by (auto simp: at_pc_def len)
    moreover have "actor (round_action (2 + 5 * i)) = Some 0" "actor (round_action (3 + 5 * i)) = Some 1"
      unfolding round_action_def mod_mult_self2 by simp_all
    moreover have "i \<le> 2 + 5 * i" "i \<le> 3 + 5 * i" by simp_all
    ultimately show "\<exists>j\<ge>i. actor (round_action j) = Some t" by blast
  qed
  have "0 < waitingWriters (round_state 2)" by code_simp
  with writers_not_starved [OF run fair this] run fair show ?thesis by blast
qed

end
