(* ===== verification/LockFreeQueue.thy ===== *)
theory LockFreeQueue
  imports Prelude Threads Step_System
begin

text \<open>
  The multi-producer single-consumer queue of \<^verbatim>\<open>include/concurrency/LockFreeQueue.hpp\<close>. Nodes live
  in an explicit memory by address, so that following a pointer to a deleted node is
  \<open>Undefined_behaviour\<close>. Every access to memory that another thread can see is a step of its own:
  a \<^verbatim>\<open>push\<close> creates its node, exchanges the tail and links the previous tail, a \<^verbatim>\<open>pop\<close> loads the
  link, takes the value, deletes the old stub and moves the head. The steps of all threads
  interleave freely. The release and acquire orders of the source pair every link with the load
  that reads it; the steps are taken to be sequentially consistent.
\<close>

section \<open>State\<close>

record 'a Node =
  node_value :: "'a option"
  node_next :: "nat option"

datatype push_pc = P_idle | P_created nat | P_exchanged nat nat

datatype 'a pop_pc = C_idle | C_loaded nat | C_taken nat 'a | C_deleted nat 'a

record 'a LockFreeQueue =
  nodes :: "nat \<rightharpoonup> 'a Node"
  fresh :: nat
  head :: nat
  tail :: nat
  producers :: "push_pc list"
  consumer :: "'a pop_pc"

text \<open>The constructor, with the number of threads that will push.\<close>

definition new_LockFreeQueue :: "nat \<Rightarrow> 'a LockFreeQueue" where
  "new_LockFreeQueue n =
     \<lparr>nodes = [0 \<mapsto> \<lparr>node_value = None, node_next = None\<rparr>], fresh = 1, head = 0, tail = 0,
      producers = replicate n P_idle, consumer = C_idle\<rparr>"

definition load_node :: "'a LockFreeQueue \<Rightarrow> nat \<Rightarrow> 'a Node result" where
  "load_node q a = deref (nodes q a)"

section \<open>\<^verbatim>\<open>push\<close>\<close>

definition push_new :: "nat \<Rightarrow> 'a \<Rightarrow> 'a LockFreeQueue \<Rightarrow> 'a LockFreeQueue" where
  "push_new t x q =
     q\<lparr>nodes := (nodes q)(fresh q \<mapsto> \<lparr>node_value = Some x, node_next = None\<rparr>), fresh := fresh q + 1,
       producers := (producers q)[t := P_created (fresh q)]\<rparr>"

definition push_exchange :: "nat \<Rightarrow> nat \<Rightarrow> 'a LockFreeQueue \<Rightarrow> 'a LockFreeQueue" where
  "push_exchange t node q = q\<lparr>tail := node, producers := (producers q)[t := P_exchanged (tail q) node]\<rparr>"

definition push_link :: "nat \<Rightarrow> nat \<Rightarrow> nat \<Rightarrow> 'a LockFreeQueue \<Rightarrow> 'a LockFreeQueue result" where
  "push_link t prev node q =
     bind_result (load_node q prev) (\<lambda>n.
       Inr (q\<lparr>nodes := (nodes q)(prev \<mapsto> n\<lparr>node_next := Some node\<rparr>), producers := (producers q)[t := P_idle]\<rparr>))"

section \<open>\<^verbatim>\<open>pop\<close> and \<^verbatim>\<open>empty\<close>\<close>

text \<open>\<open>None\<close> is the return with \<^verbatim>\<open>false\<close>; otherwise the consumer goes on with the node it loaded.\<close>

definition pop_load :: "'a LockFreeQueue \<Rightarrow> 'a LockFreeQueue option result" where
  "pop_load q =
     bind_result (load_node q (head q)) (\<lambda>n.
       Inr (case node_next n of None \<Rightarrow> None | Some m \<Rightarrow> Some (q\<lparr>consumer := C_loaded m\<rparr>)))"

definition pop_take :: "nat \<Rightarrow> 'a LockFreeQueue \<Rightarrow> ('a \<times> 'a LockFreeQueue) result" where
  "pop_take m q =
     bind_result (load_node q m) (\<lambda>n.
     bind_result (deref (node_value n)) (\<lambda>x.
       Inr (x, q\<lparr>nodes := (nodes q)(m \<mapsto> n\<lparr>node_value := None\<rparr>), consumer := C_taken m x\<rparr>)))"

definition pop_delete :: "nat \<Rightarrow> 'a \<Rightarrow> 'a LockFreeQueue \<Rightarrow> 'a LockFreeQueue result" where
  "pop_delete m x q =
     bind_result (load_node q (head q)) (\<lambda>_.
       Inr (q\<lparr>nodes := (nodes q)(head q := None), consumer := C_deleted m x\<rparr>))"

definition pop_done :: "nat \<Rightarrow> 'a LockFreeQueue \<Rightarrow> 'a LockFreeQueue" where
  "pop_done m q = q\<lparr>head := m, consumer := C_idle\<rparr>"

definition lfq_empty :: "'a LockFreeQueue \<Rightarrow> bool result" where
  "lfq_empty q = bind_result (load_node q (head q)) (\<lambda>n. Inr (node_next n = None))"

section \<open>The destructor\<close>

text \<open>
  The loop follows the links and deletes each node. The fuel is the number of nodes ever created,
  and running out of it would be an endless loop.
\<close>

fun delete_nodes :: "nat \<Rightarrow> nat option \<Rightarrow> (nat \<rightharpoonup> 'a Node) \<Rightarrow> (nat \<rightharpoonup> 'a Node) result" where
  "delete_nodes fuel None ns = Inr ns"
| "delete_nodes 0 (Some a) ns = Inl Nontermination"
| "delete_nodes (Suc fuel) (Some a) ns =
     bind_result (deref (ns a)) (\<lambda>n. delete_nodes fuel (node_next n) (ns(a := None)))"

definition destroy_LockFreeQueue :: "'a LockFreeQueue \<Rightarrow> (nat \<rightharpoonup> 'a Node) result" where
  "destroy_LockFreeQueue q = delete_nodes (fresh q) (Some (head q)) (nodes q)"

section \<open>Threads\<close>

datatype 'a lfq_action = Push_new nat 'a | Push_exchange nat | Push_link nat | Pop | Empty

text \<open>What the threads observe: an item enters the queue, an item leaves it, nothing was ready.\<close>

datatype 'a lfq_event = Pushed nat 'a | Popped 'a | Nothing_ready

text \<open>The next step of a thread: \<open>None\<close> when the action is not its next step.\<close>

fun lfq_act :: "'a lfq_action \<Rightarrow> 'a LockFreeQueue \<Rightarrow> ('a lfq_event list \<times> 'a LockFreeQueue) result option" where
  "lfq_act (Push_new t x) q = (if at_pc (producers q) t P_idle then Some (Inr ([], push_new t x q)) else None)"
| "lfq_act (Push_exchange t) q =
     (if t < length (producers q) then
        (case producers q ! t of
           P_created node \<Rightarrow>
             Some (bind_result (load_node q node) (\<lambda>n.
                   bind_result (deref (node_value n)) (\<lambda>x. Inr ([Pushed t x], push_exchange t node q))))
         | _ \<Rightarrow> None)
      else None)"
| "lfq_act (Push_link t) q =
     (if t < length (producers q) then
        (case producers q ! t of
           P_exchanged prev node \<Rightarrow> Some (bind_result (push_link t prev node q) (\<lambda>q'. Inr ([], q')))
         | _ \<Rightarrow> None)
      else None)"
| "lfq_act Pop q =
     Some (case consumer q of
        C_idle \<Rightarrow> bind_result (pop_load q) (\<lambda>r. Inr (case r of None \<Rightarrow> ([Nothing_ready], q) | Some q' \<Rightarrow> ([], q')))
      | C_loaded m \<Rightarrow> bind_result (pop_take m q) (\<lambda>(x, q'). Inr ([Popped x], q'))
      | C_taken m x \<Rightarrow> bind_result (pop_delete m x q) (\<lambda>q'. Inr ([], q'))
      | C_deleted m x \<Rightarrow> Inr ([], pop_done m q))"
| "lfq_act Empty q =
     (case consumer q of
        C_idle \<Rightarrow> Some (bind_result (lfq_empty q) (\<lambda>b. Inr (if b then [Nothing_ready] else [], q)))
      | _ \<Rightarrow> None)"

definition lfq_init :: "'a LockFreeQueue \<Rightarrow> bool" where
  "lfq_init q \<longleftrightarrow> q = new_LockFreeQueue (length (producers q))"

definition lfq_step :: "'a LockFreeQueue \<Rightarrow> 'a lfq_event list \<Rightarrow> 'a LockFreeQueue \<Rightarrow> bool" where
  "lfq_step q es q' \<longleftrightarrow> (\<exists>a. lfq_act a q = Some (Inr (es, q')))"

end
