(* ===== verification/LockFreeQueue_Spec.thy ===== *)
theory LockFreeQueue_Spec
  imports LockFreeQueue
begin

text \<open>
  The queue implements a list: an item enters at the exchange of the tail and leaves when the
  consumer takes its value, and the consumer may find nothing ready only when the list is empty or
  some push stands between its exchange and its link. The forward simulation behind this also shows
  that no thread ever follows a pointer to a deleted node.
\<close>

section \<open>The abstract queue\<close>

text \<open>The items in order, and the threads whose push is not linked yet.\<close>

inductive fifo_step :: "'a list \<times> nat set \<Rightarrow> 'a lfq_event list \<Rightarrow> 'a list \<times> nat set \<Rightarrow> bool" where
  enqueue: "t \<notin> ts \<Longrightarrow> fifo_step (xs, ts) [Pushed t x] (xs @ [x], insert t ts)"
| settle: "t \<in> ts \<Longrightarrow> fifo_step (xs, ts) [] (xs, ts - {t})"
| dequeue: "fifo_step (x # xs, ts) [Popped x] (xs, ts)"
| not_ready: "xs = [] \<or> ts \<noteq> {} \<Longrightarrow> fifo_step (xs, ts) [Nothing_ready] (xs, ts)"

inductive_cases fifo_stepE: "fifo_step s e s'"

definition fifo_init :: "'a list \<times> nat set \<Rightarrow> bool" where
  "fifo_init s \<longleftrightarrow> s = ([], {})"

fun pushed :: "'a lfq_event list \<Rightarrow> 'a list" where
  "pushed [] = []"
| "pushed (Pushed t x # es) = x # pushed es"
| "pushed (e # es) = pushed es"

fun popped :: "'a lfq_event list \<Rightarrow> 'a list" where
  "popped [] = []"
| "popped (Popped x # es) = x # popped es"
| "popped (e # es) = popped es"

lemma pushed_append [simp]: "pushed (es @ fs) = pushed es @ pushed fs"
  by (induction es rule: pushed.induct) simp_all

lemma popped_append [simp]: "popped (es @ fs) = popped es @ popped fs"
  by (induction es rule: popped.induct) simp_all

lemma fifo_order: "run_of fifo_init fifo_step s es \<Longrightarrow> pushed es = popped es @ fst s"
  by (induction rule: run_of.induct) (auto simp: fifo_init_def elim!: fifo_stepE)

section \<open>The chain of nodes\<close>

text \<open>
  The nodes in the order of their exchanges. Each is linked to the next one, or its link is the
  pending one of exactly one producer.
\<close>

definition succs :: "nat list \<Rightarrow> (nat \<times> nat) set" where
  "succs c = set (zip c (tl c))"

definition nxt :: "(nat \<rightharpoonup> 'a Node) \<Rightarrow> nat \<Rightarrow> nat option" where
  "nxt ns a = Option.bind (ns a) node_next"

definition val :: "(nat \<rightharpoonup> 'a Node) \<Rightarrow> nat \<Rightarrow> 'a option" where
  "val ns a = Option.bind (ns a) node_value"

definition pending_links :: "push_pc list \<Rightarrow> (nat \<times> nat) set" where
  "pending_links ps = {(p, a). \<exists>t. at_pc ps t (P_exchanged p a)}"

definition pending_threads :: "push_pc list \<Rightarrow> nat set" where
  "pending_threads ps = {t. \<exists>p a. at_pc ps t (P_exchanged p a)}"

fun front :: "'a pop_pc \<Rightarrow> nat \<Rightarrow> nat" where
  "front (C_deleted m x) h = m"
| "front _ h = h"

text \<open>The nodes whose value the consumer has still to take.\<close>

fun waiting :: "'a pop_pc \<Rightarrow> nat list \<Rightarrow> nat list" where
  "waiting (C_taken m x) c = tl (tl c)"
| "waiting _ c = tl c"

fun consumer_ok :: "'a pop_pc \<Rightarrow> (nat \<rightharpoonup> 'a Node) \<Rightarrow> nat list \<Rightarrow> bool" where
  "consumer_ok (C_loaded m) ns c \<longleftrightarrow> nxt ns (hd c) = Some m"
| "consumer_ok (C_taken m x) ns c \<longleftrightarrow> nxt ns (hd c) = Some m"
| "consumer_ok _ ns c \<longleftrightarrow> True"

text \<open>Each node that a push still works on belongs to one thread.\<close>

fun node_of :: "push_pc \<Rightarrow> nat option" where
  "node_of P_idle = None"
| "node_of (P_created a) = Some a"
| "node_of (P_exchanged p a) = Some a"

definition owners_ok :: "push_pc list \<Rightarrow> bool" where
  "owners_ok ps \<longleftrightarrow>
     (\<forall>t u. t < length ps \<longrightarrow> u < length ps \<longrightarrow> node_of (ps ! t) \<noteq> None \<longrightarrow>
        node_of (ps ! t) = node_of (ps ! u) \<longrightarrow> t = u)"

definition chain_ok :: "(nat \<rightharpoonup> 'a Node) \<Rightarrow> push_pc list \<Rightarrow> nat list \<Rightarrow> bool" where
  "chain_ok ns ps c \<longleftrightarrow>
     c \<noteq> [] \<and> distinct c \<and> set c \<subseteq> dom ns \<and> nxt ns (last c) = None \<and>
     (\<forall>p a. (p, a) \<in> succs c \<longrightarrow> nxt ns p = (if (p, a) \<in> pending_links ps then None else Some a)) \<and>
     pending_links ps \<subseteq> succs c"

definition created :: "push_pc list \<Rightarrow> nat set" where
  "created ps = {a. \<exists>t. at_pc ps t (P_created a)}"

definition created_ok :: "(nat \<rightharpoonup> 'a Node) \<Rightarrow> push_pc list \<Rightarrow> nat list \<Rightarrow> bool" where
  "created_ok ns ps c \<longleftrightarrow> (\<forall>a\<in>created ps. a \<notin> set c \<and> nxt ns a = None \<and> val ns a \<noteq> None)"

definition lfq_rel :: "'a LockFreeQueue \<Rightarrow> nat list \<Rightarrow> 'a list \<Rightarrow> nat set \<Rightarrow> bool" where
  "lfq_rel q c xs ts \<longleftrightarrow>
     chain_ok (nodes q) (producers q) c \<and> created_ok (nodes q) (producers q) c \<and>
     owners_ok (producers q) \<and> consumer_ok (consumer q) (nodes q) c \<and>
     hd c = front (consumer q) (head q) \<and> last c = tail q \<and>
     dom (nodes q) = set c \<union> created (producers q) \<and> (\<forall>a\<in>dom (nodes q). a < fresh q) \<and>
     map (val (nodes q)) (waiting (consumer q) c) = map Some xs \<and> ts = pending_threads (producers q)"

definition lfq_sim :: "'a LockFreeQueue \<Rightarrow> 'a list \<times> nat set \<Rightarrow> bool" where
  "lfq_sim q s \<longleftrightarrow> (\<exists>c. lfq_rel q c (fst s) (snd s))"

lemma succs_mem: "(p, a) \<in> succs c \<Longrightarrow> p \<in> set c \<and> a \<in> set c"
  by (cases c) (auto simp: succs_def dest: set_zip_leftD set_zip_rightD)

lemma succs_snoc: "c \<noteq> [] \<Longrightarrow> succs (c @ [a]) = insert (last c, a) (succs c)"
proof (induction c)
  case (Cons x c)
  then show ?case by (cases c) (auto simp: succs_def)
qed simp

lemma succs_Cons: "succs (h # m # r) = insert (h, m) (succs (m # r))"
  by (simp add: succs_def)

lemma succs_not_last: "distinct c \<Longrightarrow> (last c, a) \<notin> succs c"
proof (induction c)
  case (Cons x c)
  then show ?case by (cases c) (auto simp: succs_Cons succs_def)
qed (simp add: succs_def)

lemma succs_functional: "distinct c \<Longrightarrow> (p, a) \<in> succs c \<Longrightarrow> (p, b) \<in> succs c \<Longrightarrow> a = b"
proof (induction c)
  case (Cons x c)
  then show ?case by (cases c) (auto simp: succs_Cons succs_def dest: set_zip_leftD)
qed (simp add: succs_def)

lemma succs_hd_tl: "distinct c \<Longrightarrow> (hd c, a) \<in> succs c \<Longrightarrow> \<exists>r. c = hd c # a # r"
proof (cases c)
  case (Cons x r)
  assume "distinct c" "(hd c, a) \<in> succs c"
  with Cons show ?thesis by (cases r) (auto simp: succs_Cons succs_def dest: set_zip_leftD)
qed (simp add: succs_def)

text \<open>How the pending links change with the step of one producer.\<close>

lemma pending_other:
  assumes "t < length ps" "\<And>x y. ps ! t \<noteq> P_exchanged x y" "\<And>x y. p \<noteq> P_exchanged x y"
  shows "pending_links (ps[t := p]) = pending_links ps" "pending_threads (ps[t := p]) = pending_threads ps"
proof -
  have "at_pc (ps[t := p]) u (P_exchanged x y) \<longleftrightarrow> at_pc ps u (P_exchanged x y)" for u x y
    using assms by (cases "u = t") (auto simp: at_pc_def)
  then show "pending_links (ps[t := p]) = pending_links ps" "pending_threads (ps[t := p]) = pending_threads ps"
    by (simp_all add: pending_links_def pending_threads_def)
qed

lemma pending_exchanged:
  assumes "t < length ps" "\<And>x y. ps ! t \<noteq> P_exchanged x y"
  shows "pending_links (ps[t := P_exchanged p a]) = insert (p, a) (pending_links ps)"
    and "pending_threads (ps[t := P_exchanged p a]) = insert t (pending_threads ps)"
    and "t \<notin> pending_threads ps"
proof -
  have at: "at_pc (ps[t := P_exchanged p a]) u (P_exchanged x y) \<longleftrightarrow>
      u = t \<and> x = p \<and> y = a \<or> at_pc ps u (P_exchanged x y)" for u x y
    using assms by (cases "u = t") (auto simp: at_pc_def)
  show "pending_links (ps[t := P_exchanged p a]) = insert (p, a) (pending_links ps)"
    "pending_threads (ps[t := P_exchanged p a]) = insert t (pending_threads ps)"
    unfolding pending_links_def pending_threads_def at by blast+
  show "t \<notin> pending_threads ps" using assms by (simp add: pending_threads_def at_pc_def)
qed

lemma pending_linked:
  assumes "at_pc ps t (P_exchanged p a)" "owners_ok ps"
  shows "pending_links (ps[t := P_idle]) = pending_links ps - {(p, a)}"
    and "pending_threads (ps[t := P_idle]) = pending_threads ps - {t}"
    and "t \<in> pending_threads ps" "(p, a) \<in> pending_links ps"
proof -
  have same: "u = t" if "at_pc ps u (P_exchanged p' a)" for u p'
    using assms(1) assms(2) [unfolded owners_ok_def, rule_format, of u t] that by (auto simp: at_pc_def)
  have at: "at_pc (ps[t := P_idle]) u (P_exchanged x y) \<longleftrightarrow> u \<noteq> t \<and> at_pc ps u (P_exchanged x y)" for u x y
    by (cases "u = t") (auto simp: at_pc_def)
  have at_t: "at_pc ps t (P_exchanged x y) \<longleftrightarrow> x = p \<and> y = a" for x y
    using assms(1) by (auto simp: at_pc_def)
  show "pending_links (ps[t := P_idle]) = pending_links ps - {(p, a)}"
  proof -
    have "(\<exists>u. u \<noteq> t \<and> at_pc ps u (P_exchanged x y)) \<longleftrightarrow>
        (\<exists>u. at_pc ps u (P_exchanged x y)) \<and> (x, y) \<noteq> (p, a)" for x y
      by (metis prod.inject same at_t)
    then show ?thesis unfolding pending_links_def at by auto
  qed
  show "pending_threads (ps[t := P_idle]) = pending_threads ps - {t}"
    unfolding pending_threads_def at by blast
  show "t \<in> pending_threads ps" "(p, a) \<in> pending_links ps"
    using assms(1) by (auto simp: pending_threads_def pending_links_def)
qed

lemma owners_update:
  assumes "owners_ok ps" "t < length ps" "node_of p = None \<or> node_of p = node_of (ps ! t) \<or>
    (\<forall>u<length ps. node_of (ps ! u) \<noteq> node_of p)"
  shows "owners_ok (ps[t := p])"
  unfolding owners_ok_def
proof (intro allI impI)
  fix u v
  assume uv: "u < length (ps[t := p])" "v < length (ps[t := p])" "node_of (ps[t := p] ! u) \<noteq> None"
    "node_of (ps[t := p] ! u) = node_of (ps[t := p] ! v)"
  have old: "node_of (ps ! u) \<noteq> None \<Longrightarrow> node_of (ps ! u) = node_of (ps ! v) \<Longrightarrow> u < length ps \<Longrightarrow>
      v < length ps \<Longrightarrow> u = v" for u v
    using assms(1) unfolding owners_ok_def by blast
  have new: "w = t" if "w < length ps" "node_of p \<noteq> None" "node_of p = node_of (ps ! w)" for w
    using assms(2,3) old [of t w] that by metis
  have at: "ps[t := p] ! w = (if w = t then p else ps ! w)" for w using assms(2) by (simp add: nth_list_update)
  show "u = v"
  proof (cases "u = t")
    case True
    with uv at [of u] at [of v] have "v = t \<or> node_of p = node_of (ps ! v) \<and> node_of p \<noteq> None" by metis
    with True uv(2) show ?thesis using new [of v] by (metis length_list_update)
  next
    case False
    with uv at [of u] at [of v] have "v = t \<and> node_of p = node_of (ps ! u) \<and> node_of p \<noteq> None \<or>
      node_of (ps ! u) = node_of (ps ! v) \<and> node_of (ps ! u) \<noteq> None" by metis
    with uv(1,2) show ?thesis using new [of u] old [of u v] by (metis length_list_update)
  qed
qed

lemma at_pc_moved:
  "t < length ps \<Longrightarrow> at_pc (ps[t := p]) u q \<longleftrightarrow> (if u = t then q = p else at_pc ps u q)"
  by (auto simp: at_pc_def)

lemma created_other:
  assumes "t < length ps" "\<And>a. ps ! t \<noteq> P_created a"
  shows "created (ps[t := p]) = {a. p = P_created a} \<union> created ps"
proof -
  have "\<not> at_pc ps t (P_created a)" for a using assms(2) by (simp add: at_pc_def)
  then have "(\<exists>u. if u = t then P_created a = p else at_pc ps u (P_created a)) \<longleftrightarrow>
      p = P_created a \<or> (\<exists>u. at_pc ps u (P_created a))" for a by metis
  then show ?thesis unfolding created_def at_pc_moved [OF assms(1)] by auto
qed

lemma created_exchanged:
  assumes "at_pc ps t (P_created a)" "owners_ok ps" "\<And>b. p \<noteq> P_created b"
  shows "created (ps[t := p]) = created ps - {a}"
proof -
  have same: "u = t" if "at_pc ps u (P_created a)" for u
    using assms(1) assms(2) [unfolded owners_ok_def, rule_format, of u t] that by (auto simp: at_pc_def)
  have at_t: "at_pc ps t (P_created b) \<longleftrightarrow> b = a" for b using assms(1) by (auto simp: at_pc_def)
  have t: "t < length ps" using assms(1) by (simp add: at_pc_def)
  have "(\<exists>u. if u = t then P_created b = p else at_pc ps u (P_created b)) \<longleftrightarrow>
      (\<exists>u. at_pc ps u (P_created b)) \<and> b \<noteq> a" for b
    by (metis same at_t assms(3))
  then show ?thesis unfolding created_def at_pc_moved [OF t] by auto
qed

lemma chain_ok_frame:
  assumes "chain_ok ns ps c" "\<And>a. a \<in> set c \<Longrightarrow> nxt ns' a = nxt ns a" "set c \<subseteq> dom ns'"
    "pending_links ps' = pending_links ps"
  shows "chain_ok ns' ps' c"
  using assms unfolding chain_ok_def by (simp add: succs_mem)

lemma tl_subset: "set (tl c) \<subseteq> set c"
  by (cases c) auto

lemma waiting_subset: "set (waiting k c) \<subseteq> set c"
  by (cases k) (auto dest: tl_subset [THEN subsetD])

lemma vals_frame: "(\<And>a. a \<in> set c \<Longrightarrow> val ns' a = val ns a) \<Longrightarrow>
  map (val ns') (waiting k c) = map (val ns) (waiting k c)"
  using waiting_subset [of k c] by auto

lemma lfq_relD:
  assumes "lfq_rel q c xs ts"
  shows "chain_ok (nodes q) (producers q) c" "created_ok (nodes q) (producers q) c" "owners_ok (producers q)"
    "consumer_ok (consumer q) (nodes q) c" "hd c = front (consumer q) (head q)" "last c = tail q"
    "dom (nodes q) = set c \<union> created (producers q)" "\<And>a. a \<in> dom (nodes q) \<Longrightarrow> a < fresh q"
    "map (val (nodes q)) (waiting (consumer q) c) = map Some xs" "ts = pending_threads (producers q)"
  using assms unfolding lfq_rel_def by simp_all

lemma lfq_relI:
  assumes "chain_ok (nodes q) (producers q) c" "created_ok (nodes q) (producers q) c" "owners_ok (producers q)"
    "consumer_ok (consumer q) (nodes q) c" "hd c = front (consumer q) (head q)" "last c = tail q"
    "dom (nodes q) = set c \<union> created (producers q)" "\<And>a. a \<in> dom (nodes q) \<Longrightarrow> a < fresh q"
    "map (val (nodes q)) (waiting (consumer q) c) = map Some xs" "ts = pending_threads (producers q)"
  shows "lfq_rel q c xs ts"
  using assms unfolding lfq_rel_def by blast

lemma chain_okD:
  assumes "chain_ok ns ps c"
  shows "c \<noteq> []" "distinct c" "set c \<subseteq> dom ns" "nxt ns (last c) = None" "pending_links ps \<subseteq> succs c"
    "\<And>p a. (p, a) \<in> succs c \<Longrightarrow> nxt ns p = (if (p, a) \<in> pending_links ps then None else Some a)"
  using assms unfolding chain_ok_def by simp_all

lemma consumer_ok_frame:
  "consumer_ok k ns c \<Longrightarrow> nxt ns' (hd c) = nxt ns (hd c) \<Longrightarrow> consumer_ok k ns' c"
  by (cases k) simp_all

lemma node_of_known:
  assumes "lfq_rel q c xs ts" "u < length (producers q)" "node_of (producers q ! u) = Some a"
  shows "a < fresh q"
proof -
  have "a \<in> set c \<union> created (producers q)"
  proof (cases "producers q ! u")
    case (P_created b)
    with assms show ?thesis by (auto simp: created_def at_pc_def)
  next
    case (P_exchanged p b)
    with assms have "(p, a) \<in> pending_links (producers q)" by (auto simp: pending_links_def at_pc_def)
    with chain_okD(5) [OF lfq_relD(1) [OF assms(1)]] have "(p, a) \<in> succs c" by blast
    then show ?thesis by (simp add: succs_mem)
  qed (use assms in simp)
  with lfq_relD(7,8) [OF assms(1)] show ?thesis by blast
qed

section \<open>Every step is simulated\<close>

lemma push_new_rel:
  assumes rel: "lfq_rel q c xs ts" and t: "at_pc (producers q) t P_idle"
  shows "lfq_rel (push_new t x q) c xs ts"
proof -
  note r = lfq_relD [OF rel] and k = chain_okD [OF lfq_relD(1) [OF rel]]
  let ?f = "fresh q" and ?ps = "(producers q)[t := P_created (fresh q)]"
  let ?ns = "(nodes q)(fresh q \<mapsto> \<lparr>node_value = Some x, node_next = None\<rparr>)"
  have t': "t < length (producers q)" "producers q ! t = P_idle" using t by (auto simp: at_pc_def)
  have pend: "pending_links ?ps = pending_links (producers q)" "pending_threads ?ps = pending_threads (producers q)"
    and cr: "created ?ps = insert ?f (created (producers q))"
    using t' by (simp_all add: pending_other created_other)
  have notin: "a \<noteq> ?f" if "a \<in> set c \<union> created (producers q)" for a using r(7,8) that by blast
  have nxt: "nxt ?ns a = (if a = ?f then None else nxt (nodes q) a)"
    and val: "val ?ns a = (if a = ?f then Some x else val (nodes q) a)" for a
    by (simp_all add: nxt_def val_def)
  have fresh: "?f \<notin> set c" using notin by blast
  show ?thesis
  proof (rule lfq_relI; unfold push_new_def; simp add: pend cr)
    show "chain_ok ?ns ?ps c"
      using notin k(3) pend by (intro chain_ok_frame [OF r(1)]) (auto simp: nxt)
    show "created_ok ?ns ?ps c" unfolding created_ok_def cr
      using r(2) fresh by (auto simp: created_ok_def nxt val)
    show "owners_ok ?ps" using node_of_known [OF rel] t' by (intro owners_update [OF r(3)]) force+
    show "consumer_ok (consumer q) ?ns c" using notin [of "hd c"] k(1) by (intro consumer_ok_frame [OF r(4)]) (simp add: nxt)
    show "map (val ?ns) (waiting (consumer q) c) = map Some xs"
      using notin by (subst vals_frame [of c _ "nodes q"]) (auto simp: val r(9))
  qed (use r in \<open>auto simp: less_Suc_eq\<close>)
qed

lemma chain_second:
  assumes "chain_ok ns ps c" "nxt ns (hd c) = Some m"
  obtains r where "c = hd c # m # r"
proof (cases c)
  case (Cons h r)
  note k = chain_okD [OF assms(1)]
  show ?thesis
  proof (cases r)
    case Nil
    with Cons k(4) assms(2) show ?thesis by simp
  next
    case (Cons b r')
    with \<open>c = h # r\<close> k(6) [of h b] assms(2) that show ?thesis by (auto simp: succs_Cons split: if_splits)
  qed
qed (use chain_okD(1) [OF assms(1)] in simp)

lemma waiting_snoc:
  assumes "chain_ok ns ps c" "consumer_ok k ns c"
  shows "waiting k (c @ [a]) = waiting k c @ [a]"
proof (cases k)
  case (C_taken m x)
  with assms chain_second [OF assms(1), of m] show ?thesis by (metis append_Cons consumer_ok.simps(2) list.sel(3) waiting.simps(1))
qed (use chain_okD(1) [OF assms(1)] in simp_all)

lemma push_exchange_rel:
  assumes rel: "lfq_rel q c xs ts" and t: "at_pc (producers q) t (P_created a)"
  shows "\<exists>x. val (nodes q) a = Some x \<and> lfq_rel (push_exchange t a q) (c @ [a]) (xs @ [x]) (insert t ts) \<and> t \<notin> ts"
proof -
  note r = lfq_relD [OF rel] and k = chain_okD [OF lfq_relD(1) [OF rel]]
  let ?ps = "(producers q)[t := P_exchanged (tail q) a]"
  have t': "t < length (producers q)" "producers q ! t = P_created a" using t by (auto simp: at_pc_def)
  have a: "a \<in> created (producers q)" using t by (auto simp: created_def)
  then obtain x where a': "a \<notin> set c" "nxt (nodes q) a = None" "val (nodes q) a = Some x"
    using r(2) by (auto simp: created_ok_def)
  have pend: "pending_links ?ps = insert (last c, a) (pending_links (producers q))"
      "pending_threads ?ps = insert t (pending_threads (producers q))" "t \<notin> pending_threads (producers q)"
    and cr: "created ?ps = created (producers q) - {a}"
    using t' pending_exchanged(1,2) [of t "producers q" "tail q" a] pending_exchanged(3) [of t "producers q"]
      created_exchanged [OF t r(3)] by (simp_all add: r(6))
  have succs: "succs (c @ [a]) = insert (last c, a) (succs c)" using k(1) by (rule succs_snoc)
  have "lfq_rel (push_exchange t a q) (c @ [a]) (xs @ [x]) (insert t ts)"
  proof (rule lfq_relI; unfold push_exchange_def; simp add: pend cr k(1))
    show "chain_ok (nodes q) ?ps (c @ [a])"
      unfolding chain_ok_def succs pend
      using k a' a r(7) succs_not_last [OF k(2)] by auto
    show "created_ok (nodes q) ?ps (c @ [a])" using r(2) by (simp add: created_ok_def cr)
    show "owners_ok ?ps" using t' by (intro owners_update [OF r(3)]) simp_all
    show "consumer_ok (consumer q) (nodes q) (c @ [a])"
      using r(4) k(1) by (cases "consumer q") simp_all
    show "map (val (nodes q)) (waiting (consumer q) (c @ [a])) = map Some xs @ [Some x]"
      using r(9) a'(3) by (simp add: waiting_snoc [OF r(1,4)])
  qed (use r a in auto)
  with a'(3) pend(3) r(10) show ?thesis by blast
qed

lemma push_link_rel:
  assumes rel: "lfq_rel q c xs ts" and t: "at_pc (producers q) t (P_exchanged p a)"
  shows "\<exists>q'. push_link t p a q = Inr q' \<and> lfq_rel q' c xs (ts - {t}) \<and> t \<in> ts"
proof -
  note r = lfq_relD [OF rel] and k = chain_okD [OF lfq_relD(1) [OF rel]]
  let ?ps = "(producers q)[t := P_idle]"
  have t': "t < length (producers q)" "producers q ! t = P_exchanged p a" using t by (auto simp: at_pc_def)
  note pend = pending_linked [OF t r(3)]
  have cr: "created ?ps = created (producers q)" using t' by (simp add: created_other)
  have pa: "(p, a) \<in> succs c" using pend(4) k(5) by blast
  then have p: "p \<in> set c" "p \<noteq> last c" using succs_mem [of p a c] succs_not_last [OF k(2)] by auto
  then obtain n where n: "nodes q p = Some n" using k(3) by blast
  let ?ns = "(nodes q)(p \<mapsto> n\<lparr>node_next := Some a\<rparr>)"
  let ?q = "q\<lparr>nodes := ?ns, producers := ?ps\<rparr>"
  have nxt: "nxt ?ns b = (if b = p then Some a else nxt (nodes q) b)" and val: "val ?ns b = val (nodes q) b" for b
    using n by (simp_all add: nxt_def val_def)
  have none: "nxt (nodes q) p = None" using k(6) [OF pa] pend(4) by simp
  have "lfq_rel ?q c xs (ts - {t})"
  proof (rule lfq_relI; simp add: pend cr)
    show "chain_ok ?ns ?ps c"
      unfolding chain_ok_def pend
    proof (intro conjI allI impI)
      fix p' b assume b: "(p', b) \<in> succs c"
      with succs_functional [OF k(2) pa, of b] k(6) [OF b] show "nxt ?ns p' =
          (if (p', b) \<in> pending_links (producers q) - {(p, a)} then None else Some b)"
        by (auto simp: nxt)
    qed (use k p in \<open>auto simp: nxt\<close>)
    show "created_ok ?ns ?ps c" using r(2) p(1) by (auto simp: created_ok_def cr nxt val)
    show "owners_ok ?ps" using t' by (intro owners_update [OF r(3)]) simp_all
    show "consumer_ok (consumer q) ?ns c" using r(4) none by (cases "consumer q") (auto simp: nxt)
    show "map (val ?ns) (waiting (consumer q) c) = map Some xs"
      by (subst vals_frame [of c _ "nodes q"]) (simp_all add: val r(9))
  qed (use r p in auto)
  with n pend(3) r(10) show ?thesis by (simp add: push_link_def load_node_def)
qed

lemma pop_load_rel:
  assumes rel: "lfq_rel q c xs ts" and idle: "consumer q = C_idle"
  obtains (missing) n where "nodes q (head q) = Some n" "node_next n = None" "xs = [] \<or> ts \<noteq> {}"
  | (ready) n m where "nodes q (head q) = Some n" "node_next n = Some m" "lfq_rel (q\<lparr>consumer := C_loaded m\<rparr>) c xs ts"
proof -
  note r = lfq_relD [OF rel] and k = chain_okD [OF lfq_relD(1) [OF rel]]
  have hd: "hd c = head q" using r(5) idle by simp
  then have "head q \<in> set c" using k(1) by (metis hd_in_set)
  then obtain n where n: "nodes q (head q) = Some n" using k(3) by blast
  then have nxt: "nxt (nodes q) (hd c) = node_next n" by (simp add: nxt_def hd)
  show ?thesis
  proof (cases "node_next n")
    case None
    have "xs = [] \<or> ts \<noteq> {}"
    proof (cases "tl c")
      case Nil
      then show ?thesis using r(9) idle by simp
    next
      case (Cons b r')
      with k(1) have "(hd c, b) \<in> succs c" by (cases c) (simp_all add: succs_Cons)
      with k(6) nxt None have "(hd c, b) \<in> pending_links (producers q)" by (metis option.distinct(1))
      then show ?thesis by (auto simp: pending_links_def pending_threads_def r(10))
    qed
    with n None show ?thesis by (rule that(1))
  next
    case (Some m)
    have "lfq_rel (q\<lparr>consumer := C_loaded m\<rparr>) c xs ts"
      by (rule lfq_relI) (use r idle nxt Some in simp_all)
    with n Some show ?thesis by (rule that(2))
  qed
qed

lemma pop_take_rel:
  assumes rel: "lfq_rel q c xs ts" and loaded: "consumer q = C_loaded m"
  obtains x xs' q' where "pop_take m q = Inr (x, q')" "xs = x # xs'" "lfq_rel q' c xs' ts"
proof -
  note r = lfq_relD [OF rel] and k = chain_okD [OF lfq_relD(1) [OF rel]]
  from r(4) loaded have m: "nxt (nodes q) (hd c) = Some m" by simp
  then obtain rest where c: "c = hd c # m # rest" by (rule chain_second [OF r(1)])
  have waiting: "waiting (consumer q) c = m # rest" using c loaded by (metis list.sel(3) waiting.simps(3))
  then obtain x xs' where x: "xs = x # xs'" "val (nodes q) m = Some x" "map (val (nodes q)) rest = map Some xs'"
    using r(9) by (cases xs) auto
  then obtain n where n: "nodes q m = Some n" "node_value n = Some x" by (auto simp: val_def bind_eq_Some_conv)
  let ?ns = "(nodes q)(m \<mapsto> n\<lparr>node_value := None\<rparr>)"
  let ?q = "q\<lparr>nodes := ?ns, consumer := C_taken m x\<rparr>"
  have nxt: "nxt ?ns b = nxt (nodes q) b" and val: "val ?ns b = (if b = m then None else val (nodes q) b)" for b
    using n by (simp_all add: nxt_def val_def)
  have mem: "m \<in> set c" "m \<notin> set rest" using k(2) arg_cong [OF c, of distinct] arg_cong [OF c, of set] by auto
  have "lfq_rel ?q c xs' ts"
  proof (rule lfq_relI; simp)
    show "chain_ok ?ns (producers q) c" using k(3) by (intro chain_ok_frame [OF r(1)]) (auto simp: nxt)
    show "created_ok ?ns (producers q) c" using r(2) mem(1) by (auto simp: created_ok_def nxt val)
    show "nxt ?ns (hd c) = Some m" using m by (simp add: nxt)
    have "tl (tl c) = rest" using c by (metis list.sel(3))
    moreover have "map (val ?ns) rest = map (val (nodes q)) rest"
      by (rule map_cong) (use mem(2) in \<open>auto simp: val\<close>)
    ultimately show "map (val ?ns) (tl (tl c)) = map Some xs'" using x(3) by simp
  qed (use r loaded mem in auto)
  with n x(1) that show ?thesis by (simp add: pop_take_def load_node_def)
qed

lemma pop_delete_rel:
  assumes rel: "lfq_rel q c xs ts" and taken: "consumer q = C_taken m x"
  obtains q' c' where "pop_delete m x q = Inr q'" "lfq_rel q' c' xs ts"
proof -
  note r = lfq_relD [OF rel] and k = chain_okD [OF lfq_relD(1) [OF rel]]
  from r(4) taken have m: "nxt (nodes q) (hd c) = Some m" by simp
  then obtain rest where c: "c = hd c # m # rest" by (rule chain_second [OF r(1)])
  let ?h = "head q" and ?ns = "(nodes q)(head q := None)"
  let ?q = "q\<lparr>nodes := ?ns, consumer := C_deleted m x\<rparr>"
  have h: "hd c = ?h" using r(5) taken by simp
  then have c': "c = ?h # m # rest" using c by simp
  have notin: "?h \<noteq> m" "?h \<notin> set rest" using k(2) unfolding c' by auto
  have nxt: "nxt ?ns b = (if b = ?h then None else nxt (nodes q) b)"
    and val: "val ?ns b = (if b = ?h then None else val (nodes q) b)" for b
    by (simp_all add: nxt_def val_def)
  have succs: "succs c = insert (?h, m) (succs (m # rest))" unfolding c' by (rule succs_Cons)
  have free: "(?h, b) \<notin> pending_links (producers q)" for b
    using k(5) k(6) [of ?h b] m h by (auto split: if_splits)
  have "lfq_rel ?q (m # rest) xs ts"
  proof (rule lfq_relI; simp)
    show "chain_ok ?ns (producers q) (m # rest)"
      unfolding chain_ok_def
    proof (intro conjI allI impI)
      show "pending_links (producers q) \<subseteq> succs (m # rest)" using k(5) free [of m] unfolding succs by blast
      show "nxt ?ns (last (m # rest)) = None" using k(4) c' by (simp add: nxt)
      fix p a assume "(p, a) \<in> succs (m # rest)"
      moreover from this have "p \<noteq> ?h" using notin succs_mem [of p a "m # rest"] by auto
      ultimately show "nxt ?ns p = (if (p, a) \<in> pending_links (producers q) then None else Some a)"
        using k(6) [of p a] succs by (simp add: nxt)
    qed (use k(2,3) notin c' in auto)
    show "created_ok ?ns (producers q) (m # rest)"
      using r(2) c' by (auto simp: created_ok_def nxt val)
    have "tl (tl c) = rest" unfolding c' by simp
    then have vals: "map (val (nodes q)) rest = map Some xs" using r(9) taken by simp
    have "map (val ?ns) rest = map (val (nodes q)) rest"
      by (rule map_cong) (use notin(2) in \<open>auto simp: val\<close>)
    then show "map (val ?ns) rest = map Some xs" using vals by (rule trans)
    show "dom (nodes q) - {?h} = insert m (set rest \<union> created (producers q))"
      using r(2,7) notin c' by (auto simp: created_ok_def)
    show "(rest = [] \<longrightarrow> m = tail q) \<and> (rest \<noteq> [] \<longrightarrow> last rest = tail q)" using r(6) c' by auto
  qed (use r notin in auto)
  moreover have "nodes q ?h \<noteq> None" using k(3) c' by auto
  ultimately show ?thesis using that by (auto simp: pop_delete_def load_node_def)
qed

lemma pop_done_rel: "lfq_rel q c xs ts \<Longrightarrow> consumer q = C_deleted m x \<Longrightarrow> lfq_rel (pop_done m q) c xs ts"
  by (simp add: lfq_rel_def pop_done_def)

text \<open>What a step of a thread may do next to an abstract state.\<close>

definition simulated :: "'a list \<Rightarrow> nat set \<Rightarrow> ('a lfq_event list \<times> 'a LockFreeQueue) result \<Rightarrow> bool" where
  "simulated xs ts res \<longleftrightarrow>
     (\<exists>es q' s'. res = Inr (es, q') \<and> lfq_sim q' s' \<and> (fifo_step (xs, ts) es s' \<or> es = [] \<and> s' = (xs, ts)))"

lemma simulated_silent: "res = Inr ([], q') \<Longrightarrow> lfq_rel q' c xs ts \<Longrightarrow> simulated xs ts res"
  unfolding simulated_def lfq_sim_def by fastforce

lemma simulated_event:
  "res = Inr (es, q') \<Longrightarrow> lfq_rel q' c xs' ts' \<Longrightarrow> fifo_step (xs, ts) es (xs', ts') \<Longrightarrow> simulated xs ts res"
  unfolding simulated_def lfq_sim_def by fastforce

lemma push_exchange_sim:
  assumes rel: "lfq_rel q c xs ts" and res: "lfq_act (Push_exchange t) q = Some res"
  shows "simulated xs ts res"
proof -
  from res obtain a where a: "at_pc (producers q) t (P_created a)"
    by (auto simp: at_pc_def split: if_splits push_pc.splits)
  from push_exchange_rel [OF rel a] obtain x where x: "val (nodes q) a = Some x"
    "lfq_rel (push_exchange t a q) (c @ [a]) (xs @ [x]) (insert t ts)" "t \<notin> ts" by blast
  from x(1) obtain n where "nodes q a = Some n" "node_value n = Some x" by (auto simp: val_def bind_eq_Some_conv)
  with res a have "res = Inr ([Pushed t x], push_exchange t a q)" by (simp add: at_pc_def load_node_def)
  then show ?thesis using x(2) by (rule simulated_event) (rule enqueue [OF x(3)])
qed

lemma push_link_sim:
  assumes rel: "lfq_rel q c xs ts" and res: "lfq_act (Push_link t) q = Some res"
  shows "simulated xs ts res"
proof -
  from res obtain p a where a: "at_pc (producers q) t (P_exchanged p a)"
    by (auto simp: at_pc_def split: if_splits push_pc.splits)
  from push_link_rel [OF rel a] obtain q' where
    q': "push_link t p a q = Inr q'" "lfq_rel q' c xs (ts - {t})" "t \<in> ts" by blast
  with res a have "res = Inr ([], q')" by (simp add: at_pc_def)
  then show ?thesis using q'(2) by (rule simulated_event) (rule settle [OF q'(3)])
qed

lemma look_sim:
  assumes rel: "lfq_rel q c xs ts" and idle: "consumer q = C_idle"
    and res: "lfq_act act q = Some res" and act: "act = Pop \<or> act = Empty"
  shows "simulated xs ts res"
  using rel idle
proof (cases rule: pop_load_rel)
  case (missing n)
  with res act idle have "res = Inr ([Nothing_ready], q)" by (auto simp: pop_load_def lfq_empty_def load_node_def)
  then show ?thesis using rel by (rule simulated_event) (rule not_ready [OF missing(3)])
next
  case (ready n m)
  with res act idle have "res = Inr ([], q\<lparr>consumer := C_loaded m\<rparr>) \<or> res = Inr ([], q)"
    by (auto simp: pop_load_def lfq_empty_def load_node_def)
  then show ?thesis using simulated_silent [OF _ ready(3)] simulated_silent [OF _ rel] by blast
qed

lemma pop_sim:
  assumes rel: "lfq_rel q c xs ts" and res: "lfq_act Pop q = Some res"
  shows "simulated xs ts res"
proof (cases "consumer q")
  case C_idle
  with rel show ?thesis using res by (rule look_sim) simp
next
  case (C_loaded m)
  with rel obtain x xs' q' where x: "pop_take m q = Inr (x, q')" "xs = x # xs'" "lfq_rel q' c xs' ts"
    by (rule pop_take_rel)
  with res C_loaded have "res = Inr ([Popped x], q')" by simp
  then show ?thesis using x(3) unfolding x(2) by (rule simulated_event) (rule dequeue)
next
  case (C_taken m x)
  with rel obtain q' c' where q': "pop_delete m x q = Inr q'" "lfq_rel q' c' xs ts" by (rule pop_delete_rel)
  with res C_taken have "res = Inr ([], q')" by simp
  then show ?thesis using q'(2) by (rule simulated_silent)
next
  case (C_deleted m x)
  with res have "res = Inr ([], pop_done m q)" by simp
  then show ?thesis using pop_done_rel [OF rel C_deleted] by (rule simulated_silent)
qed

lemma lfq_act_sim:
  assumes "lfq_sim q (xs, ts)" "lfq_act act q = Some res"
  shows "simulated xs ts res"
proof -
  obtain c where rel: "lfq_rel q c xs ts" using assms(1) by (auto simp: lfq_sim_def)
  show ?thesis
  proof (cases act)
    case (Push_new t x)
    with assms(2) have "at_pc (producers q) t P_idle" "res = Inr ([], push_new t x q)" by (auto split: if_splits)
    then show ?thesis using push_new_rel [OF rel] by (blast intro: simulated_silent)
  next
    case Empty
    with assms(2) have "consumer q = C_idle" by (cases "consumer q") simp_all
    with rel show ?thesis using assms(2) by (rule look_sim) (simp add: Empty)
  qed (use assms(2) rel in \<open>blast intro: push_exchange_sim push_link_sim pop_sim\<close>)+
qed

lemma lfq_init_sim: "lfq_init q \<Longrightarrow> lfq_sim q ([], {})"
proof -
  assume "lfq_init q"
  then obtain n where q: "q = new_LockFreeQueue n" by (auto simp: lfq_init_def)
  have at: "at_pc (replicate n P_idle) t p \<longleftrightarrow> t < n \<and> p = P_idle" for t p by (auto simp: at_pc_def)
  have "lfq_rel q [0] [] {}"
    by (rule lfq_relI) (auto simp: q new_LockFreeQueue_def chain_ok_def created_ok_def owners_ok_def succs_def nxt_def
        pending_links_def pending_threads_def created_def at split: if_splits)
  then show ?thesis by (auto simp: lfq_sim_def)
qed

interpretation lfq: forward_simulation lfq_init lfq_step fifo_init fifo_step lfq_sim
proof unfold_locales
  show "lfq_init q \<Longrightarrow> \<exists>a. fifo_init a \<and> lfq_sim q a" for q :: "'a LockFreeQueue"
    using lfq_init_sim by (auto simp: fifo_init_def)
  show "\<exists>b. lfq_sim q' b \<and> (fifo_step a e b \<or> e = [] \<and> b = a)"
    if "lfq_sim q a" "lfq_step q e q'" for q q' :: "'a LockFreeQueue" and a e
    using lfq_act_sim [of q "fst a" "snd a"] that unfolding lfq_step_def simulated_def by fastforce
qed

section \<open>A queue at rest\<close>

lemma rest_rel:
  assumes "lfq_rel q c xs ts" "set (producers q) \<subseteq> {P_idle}"
  shows "ts = {}" "dom (nodes q) = set c" "\<And>p a. (p, a) \<in> succs c \<Longrightarrow> nxt (nodes q) p = Some a"
proof -
  have at: "\<not> at_pc (producers q) t p" if "p \<noteq> P_idle" for t p using assms(2) that at_pc_in_set by fastforce
  then have none: "pending_links (producers q) = {}" "pending_threads (producers q) = {}" "created (producers q) = {}"
    by (simp_all add: pending_links_def pending_threads_def created_def)
  show "ts = {}" "dom (nodes q) = set c" using lfq_relD(7,10) [OF assms(1)] none by simp_all
  show "(p, a) \<in> succs c \<Longrightarrow> nxt (nodes q) p = Some a" for p a
    using chain_okD(6) [OF lfq_relD(1) [OF assms(1)]] none(1) by simp
qed

lemma delete_nodes_chain:
  assumes "distinct c" "dom ns = set c" "\<And>p a. (p, a) \<in> succs c \<Longrightarrow> nxt ns p = Some a"
    "c \<noteq> [] \<Longrightarrow> nxt ns (last c) = None" "length c \<le> fuel"
  shows "delete_nodes fuel (if c = [] then None else Some (hd c)) ns = Inr Map.empty"
  using assms
proof (induction c arbitrary: ns fuel)
  case (Cons a c)
  obtain fuel' where fuel: "fuel = Suc fuel'" using Cons.prems(5) by (cases fuel) simp_all
  obtain n where n: "ns a = Some n" using Cons.prems(2) by auto
  have "node_next n = (if c = [] then None else Some (hd c))"
    using Cons.prems(3) [of a "hd c"] Cons.prems(4) n by (cases c) (simp_all add: nxt_def succs_Cons)
  moreover have "delete_nodes fuel' (if c = [] then None else Some (hd c)) (ns(a := None)) = Inr Map.empty"
  proof (rule Cons.IH)
    show "distinct c" "dom (ns(a := None)) = set c" "length c \<le> fuel'" using Cons.prems(1,2,5) fuel by auto
    fix p b assume b: "(p, b) \<in> succs c"
    then have "p \<noteq> a" using succs_mem [of p b c] Cons.prems(1) by auto
    moreover have "(p, b) \<in> succs (a # c)" using b by (cases c) (simp_all add: succs_Cons, simp add: succs_def)
    ultimately show "nxt (ns(a := None)) p = Some b" using Cons.prems(3) [of p b] by (simp add: nxt_def)
  next
    assume "c \<noteq> []"
    then have "last c \<noteq> a" using Cons.prems(1) last_in_set [of c] by auto
    with \<open>c \<noteq> []\<close> show "nxt (ns(a := None)) (last c) = None" using Cons.prems(4) by (simp add: nxt_def)
  qed
  ultimately show ?case by (simp add: fuel n)
qed simp

lemma destroy_at_rest:
  assumes "lfq_rel q c xs ts" "set (producers q) \<subseteq> {P_idle}" "consumer q = C_idle"
  shows "destroy_LockFreeQueue q = Inr Map.empty"
proof -
  note r = lfq_relD [OF assms(1)] and k = chain_okD [OF lfq_relD(1) [OF assms(1)]] and e = rest_rel [OF assms(1,2)]
  have "set c \<subseteq> {..<fresh q}" using r(8) e(2) by blast
  then have "card (set c) \<le> fresh q" using card_mono [of "{..<fresh q}" "set c"] by simp
  then have "length c \<le> fresh q" using k(2) by (simp add: distinct_card)
  from delete_nodes_chain [OF k(2) e(2,3) k(4) this] show ?thesis
    using k(1) r(5) assms(3) by (simp add: destroy_LockFreeQueue_def)
qed

lemma empty_at_rest:
  assumes rel: "lfq_rel q c xs ts" and idle: "consumer q = C_idle" and none: "ts = {}"
  shows "lfq_empty q = Inr (xs = [])"
  using rel idle
proof (cases rule: pop_load_rel)
  case (missing n)
  with none show ?thesis by (simp add: lfq_empty_def load_node_def)
next
  case (ready n m)
  have hd: "hd c = head q" using lfq_relD(5) [OF rel] idle by simp
  then have "nxt (nodes q) (hd c) = Some m" using ready by (simp add: nxt_def)
  then obtain rest where "c = hd c # m # rest" by (rule chain_second [OF lfq_relD(1) [OF rel]])
  then have "tl c = m # rest" by (metis list.sel(3))
  then have "xs \<noteq> []" using lfq_relD(9) [OF rel] idle by auto
  with ready show ?thesis by (simp add: lfq_empty_def load_node_def)
qed

section \<open>Properties\<close>

fun lfq_acts :: "'a lfq_action list \<Rightarrow> 'a lfq_event list \<Rightarrow> 'a LockFreeQueue \<Rightarrow>
    ('a lfq_event list \<times> 'a LockFreeQueue) option" where
  "lfq_acts [] es q = Some (es, q)"
| "lfq_acts (a # as) es q =
     (case lfq_act a q of Some (Inr (e, q')) \<Rightarrow> lfq_acts as (es @ e) q' | _ \<Rightarrow> None)"

lemma lfq_acts_run:
  "lfq_acts as es q = Some (es', q') \<Longrightarrow> run_of lfq_init lfq_step q es \<Longrightarrow> run_of lfq_init lfq_step q' es'"
proof (induction as arbitrary: es q)
  case (Cons a as)
  then obtain e q1 where q1: "lfq_act a q = Some (Inr (e, q1))" "lfq_acts as (es @ e) q1 = Some (es', q')"
    by (auto split: option.splits sum.splits prod.splits)
  then have "lfq_step q e q1" by (auto simp: lfq_step_def)
  from Cons.IH [OF q1(2) run_step [OF Cons.prems(2) this]] show ?case .
qed simp

lemma new_LockFreeQueue_run: "run_of lfq_init lfq_step (new_LockFreeQueue n) []"
  by (rule run_init) (simp add: lfq_init_def new_LockFreeQueue_def)



text \<open>
  C36. At rest nothing is hidden and nothing leaks: when no push and no pop is under way,
  \<^verbatim>\<open>empty()\<close> says exactly whether everything pushed has been popped, and the destructor ends after
  deleting every node, each of them once.
\<close>

theorem lfq_at_rest:
  assumes "run_of lfq_init lfq_step q es" and "set (producers q) \<subseteq> {P_idle}" and "consumer q = C_idle"
  shows "lfq_empty q = Inr (pushed es = popped es) \<and> destroy_LockFreeQueue q = Inr Map.empty"
proof -
  from lfq.run_simulated [OF assms(1)] obtain xs ts where
    abs: "run_of fifo_init fifo_step (xs, ts) es" "lfq_sim q (xs, ts)" by auto
  then obtain c where rel: "lfq_rel q c xs ts" by (auto simp: lfq_sim_def)
  have "pushed es = popped es \<longleftrightarrow> xs = []" using fifo_order [OF abs(1)] by simp
  with empty_at_rest [OF rel assms(3) rest_rel(1) [OF rel assms(2)]] destroy_at_rest [OF rel assms(2,3)]
  show ?thesis by simp
qed

theorem lfq_at_rest_witness:
  "\<exists>q. lfq_acts [Push_new 0 (7::int), Push_exchange 0, Push_link 0] [] (new_LockFreeQueue 1) = Some ([Pushed 0 7], q) \<and>
     lfq_empty q = Inr False \<and> destroy_LockFreeQueue q = Inr Map.empty"
proof -
  let ?as = "[Push_new 0 (7::int), Push_exchange 0, Push_link 0]"
  have "map_option (\<lambda>(es, q). (es, producers q, consumer q)) (lfq_acts ?as [] (new_LockFreeQueue 1)) =
      Some ([Pushed 0 7], [P_idle], C_idle)" by code_simp
  then obtain q where q: "lfq_acts ?as [] (new_LockFreeQueue 1) = Some ([Pushed 0 7], q)"
    and rest: "producers q = [P_idle]" "consumer q = C_idle" by auto
  have "set (producers q) \<subseteq> {P_idle}" using rest(1) by simp
  from lfq_at_rest [OF lfq_acts_run [OF q new_LockFreeQueue_run] this rest(2)] q show ?thesis by auto
qed

end
