(* ===== verification/ThreadPool.thy ===== *)
theory ThreadPool
  imports Prelude Threads Step_System
begin

text \<open>
  The thread pool of \<^verbatim>\<open>include/concurrency/ThreadPool.hpp\<close> and \<^verbatim>\<open>src/concurrency/thread_pool.cpp\<close>.
  The steps that interleave are the critical sections under the mutex, the notifications, which
  \<^verbatim>\<open>submit\<close> and the destructor send after they released it, and the start and end of a task outside
  it. A task is an opaque value; whether it returns or throws, the worker goes on.
\<close>

section \<open>State\<close>

datatype 'a worker_pc = Checking | Asleep | Running 'a | Exited

text \<open>
  Where the destructor stands: not called, between the critical section and \<^verbatim>\<open>notify_all\<close>, joining
  the worker with an index, or returned.
\<close>

datatype dtor_pc = Alive | Stop_set | Joining nat | Destroyed

text \<open>\<open>notifying\<close> counts the calls of \<^verbatim>\<open>submit\<close> between their critical section and \<^verbatim>\<open>notify_one\<close>.\<close>

record 'a ThreadPool =
  workers :: "'a worker_pc list"
  tasks :: "'a list"
  stopping :: bool
  notifying :: nat
  dtor :: dtor_pc

definition new_ThreadPool :: "nat \<Rightarrow> 'a ThreadPool result" where
  "new_ThreadPool threadCount =
     (if threadCount = 0 then Inl (Invalid_argument ''ThreadPool: threadCount must be >= 1'')
      else Inr \<lparr>workers = replicate threadCount Checking, tasks = [], stopping = False, notifying = 0, dtor = Alive\<rparr>)"

section \<open>\<^verbatim>\<open>submit\<close>\<close>

definition submit :: "'a \<Rightarrow> 'a ThreadPool \<Rightarrow> 'a ThreadPool result" where
  "submit task p =
     (if stopping p then Inl (Runtime_error ''ThreadPool: submit after shutdown'')
      else Inr (p\<lparr>tasks := tasks p @ [task], notifying := notifying p + 1\<rparr>))"

definition submit_notify :: "nat option \<Rightarrow> 'a ThreadPool \<Rightarrow> 'a ThreadPool option" where
  "submit_notify w p =
     map_option (\<lambda>ws. p\<lparr>workers := ws, notifying := notifying p - 1\<rparr>) (notify_one Asleep Checking w (workers p))"

section \<open>\<^verbatim>\<open>workerLoop\<close>\<close>

text \<open>The critical section: the predicate of the wait, then the exit or the task at the front.\<close>

definition worker_check :: "nat \<Rightarrow> 'a ThreadPool \<Rightarrow> 'a ThreadPool" where
  "worker_check w p =
     (if \<not> stopping p \<and> tasks p = [] then p\<lparr>workers := (workers p)[w := Asleep]\<rparr>
      else (case tasks p of
              [] \<Rightarrow> p\<lparr>workers := (workers p)[w := Exited]\<rparr>
            | task # rest \<Rightarrow> p\<lparr>workers := (workers p)[w := Running task], tasks := rest\<rparr>))"

text \<open>The task ends, by returning or by an exception that the loop swallows.\<close>

definition worker_done :: "nat \<Rightarrow> 'a ThreadPool \<Rightarrow> 'a ThreadPool" where
  "worker_done w p = p\<lparr>workers := (workers p)[w := Checking]\<rparr>"

section \<open>The destructor\<close>

definition destroy_stop :: "'a ThreadPool \<Rightarrow> 'a ThreadPool" where
  "destroy_stop p = p\<lparr>stopping := True, dtor := Stop_set\<rparr>"

definition destroy_notify :: "'a ThreadPool \<Rightarrow> 'a ThreadPool" where
  "destroy_notify p = p\<lparr>workers := notify_all Asleep Checking (workers p), dtor := Joining 0\<rparr>"

definition destroy_join :: "nat \<Rightarrow> 'a ThreadPool \<Rightarrow> 'a ThreadPool option" where
  "destroy_join k p =
     (if k < length (workers p)
      then (case workers p ! k of Exited \<Rightarrow> Some (p\<lparr>dtor := Joining (k + 1)\<rparr>) | _ \<Rightarrow> None)
      else Some (p\<lparr>dtor := Destroyed\<rparr>))"

section \<open>Threads\<close>

datatype 'a pool_action =
    Submit 'a
  | Notify "nat option"
  | Wake nat
  | Check nat
  | Finish nat
  | Destroy
  | Destroy_notify
  | Join

datatype 'a pool_event = Submitted 'a | Rejected 'a | Started 'a | Finished 'a

text \<open>\<open>None\<close>: the action is not a next step of any thread.\<close>

fun pool_act :: "'a pool_action \<Rightarrow> 'a ThreadPool \<Rightarrow> ('a pool_event list \<times> 'a ThreadPool) option" where
  "pool_act (Submit x) p =
     (if dtor p = Destroyed then None
      else (case submit x p of Inl _ \<Rightarrow> Some ([Rejected x], p) | Inr p' \<Rightarrow> Some ([Submitted x], p')))"
| "pool_act (Notify w) p = (if notifying p = 0 then None else map_option (Pair []) (submit_notify w p))"
| "pool_act (Wake w) p =
     (if w < length (workers p)
      then (case workers p ! w of Asleep \<Rightarrow> Some ([], p\<lparr>workers := (workers p)[w := Checking]\<rparr>) | _ \<Rightarrow> None)
      else None)"
| "pool_act (Check w) p =
     (if w < length (workers p)
      then (case workers p ! w of
              Checking \<Rightarrow> Some (map Started (take 1 (tasks p)), worker_check w p)
            | _ \<Rightarrow> None)
      else None)"
| "pool_act (Finish w) p =
     (if w < length (workers p)
      then (case workers p ! w of Running x \<Rightarrow> Some ([Finished x], worker_done w p) | _ \<Rightarrow> None)
      else None)"
| "pool_act Destroy p = (if dtor p = Alive then Some ([], destroy_stop p) else None)"
| "pool_act Destroy_notify p = (if dtor p = Stop_set then Some ([], destroy_notify p) else None)"
| "pool_act Join p = (case dtor p of Joining k \<Rightarrow> map_option (Pair []) (destroy_join k p) | _ \<Rightarrow> None)"

definition pool_init :: "'a ThreadPool \<Rightarrow> bool" where
  "pool_init p \<longleftrightarrow> (\<exists>n. new_ThreadPool n = Inr p)"

definition pool_step :: "'a ThreadPool \<Rightarrow> 'a pool_event list \<Rightarrow> 'a ThreadPool \<Rightarrow> bool" where
  "pool_step p es p' \<longleftrightarrow> (\<exists>a. pool_act a p = Some (es, p'))"

end
