(* ===== verification/ThreadPool_Spec.thy ===== *)
theory ThreadPool_Spec
  imports ThreadPool "HOL-Library.Multiset"
begin

text \<open>
  What the pool promises: every accepted task is started exactly once, in the order of acceptance;
  a waiting task never finds all workers asleep with no notification on its way; and after the
  destructor began, every run is finite and ends only when all tasks have run and all workers are
  joined.
\<close>

section \<open>What happened\<close>

fun submitted :: "'a pool_event list \<Rightarrow> 'a list" where
  "submitted [] = []"
| "submitted (Submitted x # es) = x # submitted es"
| "submitted (e # es) = submitted es"

fun started :: "'a pool_event list \<Rightarrow> 'a list" where
  "started [] = []"
| "started (Started x # es) = x # started es"
| "started (e # es) = started es"

fun finished :: "'a pool_event list \<Rightarrow> 'a list" where
  "finished [] = []"
| "finished (Finished x # es) = x # finished es"
| "finished (e # es) = finished es"

lemma submitted_append [simp]: "submitted (es @ fs) = submitted es @ submitted fs"
  by (induction es rule: submitted.induct) simp_all

lemma started_append [simp]: "started (es @ fs) = started es @ started fs"
  by (induction es rule: started.induct) simp_all

lemma finished_append [simp]: "finished (es @ fs) = finished es @ finished fs"
  by (induction es rule: finished.induct) simp_all

text \<open>The task a worker is running, as a multiset over all workers.\<close>

fun task_of :: "'a worker_pc \<Rightarrow> 'a multiset" where
  "task_of (Running x) = {#x#}"
| "task_of _ = {#}"

definition running :: "'a ThreadPool \<Rightarrow> 'a multiset" where
  "running p = sum_list (map task_of (workers p))"

text \<open>Moving one worker changes a sum over all workers by the difference at that worker.\<close>

lemma sum_list_move:
  fixes f :: "'p \<Rightarrow> 'b::cancel_comm_monoid_add"
  assumes "w < length ws"
  shows "sum_list (map f (ws[w := q])) + f (ws ! w) = sum_list (map f ws) + f q"
proof -
  have "ws = take w ws @ ws ! w # drop (Suc w) ws" using assms by (rule id_take_nth_drop)
  then have "sum_list (map f ws) = sum_list (map f (take w ws @ ws ! w # drop (Suc w) ws))" by simp
  with assms show ?thesis by (simp add: upd_conv_take_nth_drop ac_simps)
qed

section \<open>The invariant\<close>

definition pool_ok :: "'a ThreadPool \<Rightarrow> bool" where
  "pool_ok p \<longleftrightarrow>
     workers p \<noteq> [] \<and> (stopping p \<longleftrightarrow> dtor p \<noteq> Alive) \<and>
     (Exited \<in> set (workers p) \<longrightarrow> stopping p \<and> tasks p = []) \<and>
     (Asleep \<in> set (workers p) \<longrightarrow> dtor p = Alive \<or> dtor p = Stop_set) \<and>
     (tasks p \<noteq> [] \<longrightarrow> 0 < notifying p \<or> (\<exists>w\<in>set (workers p). w \<noteq> Asleep))"

definition joined_ok :: "'a ThreadPool \<Rightarrow> bool" where
  "joined_ok p \<longleftrightarrow>
     (case dtor p of
        Joining k \<Rightarrow> k \<le> length (workers p) \<and> set (take k (workers p)) \<subseteq> {Exited}
      | Destroyed \<Rightarrow> set (workers p) \<subseteq> {Exited}
      | _ \<Rightarrow> True)"

definition pool_history :: "'a ThreadPool \<Rightarrow> 'a pool_event list \<Rightarrow> bool" where
  "pool_history p es \<longleftrightarrow>
     submitted es = started es @ tasks p \<and> mset (started es) = mset (finished es) + running p"

lemma new_ThreadPool_ok:
  assumes "pool_init p"
  shows "pool_ok p \<and> joined_ok p \<and> pool_history p []"
proof -
  from assms obtain n where n: "0 < n" and p: "p =
      \<lparr>workers = replicate n Checking, tasks = [], stopping = False, notifying = 0, dtor = Alive\<rparr>"
    by (auto simp: pool_init_def new_ThreadPool_def split: if_splits)
  have "sum_list (map task_of (replicate n Checking)) = ({#} :: 'a multiset)" by (induction n) simp_all
  then show ?thesis using n by (simp add: p pool_ok_def joined_ok_def pool_history_def running_def)
qed

text \<open>The moves of one worker, which has not exited.\<close>

lemma joined_move:
  assumes "joined_ok p" "w < length (workers p)" "workers p ! w \<noteq> Exited"
    "dtor p' = dtor p" "workers p' = (workers p)[w := q]"
  shows "joined_ok p'"
proof (cases "dtor p")
  case (Joining k)
  with assms(1) have k: "k \<le> length (workers p)" "set (take k (workers p)) \<subseteq> {Exited}" by (simp_all add: joined_ok_def)
  have "k \<le> w"
  proof (rule ccontr)
    assume "\<not> k \<le> w"
    then have "workers p ! w \<in> set (take k (workers p))" using assms(2) by (metis in_set_conv_nth length_take min_less_iff_conj not_le nth_take)
    with k(2) assms(3) show False by blast
  qed
  then show ?thesis using k assms(4,5) Joining by (simp add: joined_ok_def)
next
  case Destroyed
  with assms(1,3) nth_mem [OF assms(2)] show ?thesis by (auto simp: joined_ok_def)
qed (use assms in \<open>simp_all add: joined_ok_def\<close>)

lemma running_move:
  "w < length (workers p) \<Longrightarrow> workers p' = (workers p)[w := q] \<Longrightarrow>
     running p' + task_of (workers p ! w) = running p + task_of q"
  by (simp add: running_def sum_list_move)

lemma ok_move:
  assumes "pool_ok p" "w < length (workers p)" "workers p' = (workers p)[w := q]" "q \<noteq> Asleep" "q \<noteq> Exited"
    "set (tasks p') \<subseteq> set (tasks p)" "stopping p' = stopping p" "dtor p' = dtor p"
  shows "pool_ok p'"
  using assms set_update_subset_insert [of "workers p" w q] set_update_memI [OF assms(2), of q]
  unfolding pool_ok_def by auto

lemma notify_move:
  assumes "notify_one Asleep Checking w (workers p) = Some ws"
  obtains "ws = workers p" "Asleep \<notin> set (workers p)"
  | v where "v < length (workers p)" "workers p ! v = Asleep" "ws = (workers p)[v := Checking]"
  using assms
proof (cases rule: notify_oneE)
  case nobody
  then show ?thesis by (intro that(1))
next
  case (woken v)
  then show ?thesis by (intro that(2) [of v]) (simp_all add: at_pc_def)
qed

lemma check_ok:
  assumes "pool_ok p" "w < length (workers p)" "workers p ! w = Checking"
  shows "pool_ok (worker_check w p)"
proof (cases "tasks p")
  case Nil
  with assms set_update_subset_insert [of "workers p" w] show ?thesis
    by (auto simp: worker_check_def pool_ok_def)
next
  case (Cons x xs)
  then show ?thesis by (intro ok_move [OF assms(1,2), of _ "Running x"]) (auto simp: worker_check_def)
qed

lemma destroy_notify_ok:
  assumes "pool_ok p" "dtor p = Stop_set"
  shows "pool_ok (destroy_notify p)"
proof -
  let ?ws = "notify_all Asleep Checking (workers p)"
  have "?ws \<noteq> []" using assms(1) by (simp add: notify_all_def pool_ok_def)
  moreover have "Asleep \<notin> set ?ws" by (simp add: notify_all_none)
  ultimately have "\<exists>w\<in>set ?ws. w \<noteq> Asleep" "Asleep \<notin> set ?ws" "?ws \<noteq> []" using last_in_set [of ?ws] by metis+
  moreover have "Exited \<in> set ?ws \<Longrightarrow> Exited \<in> set (workers p)"
    by (auto simp: notify_all_def split: if_splits)
  ultimately show ?thesis using assms by (simp add: pool_ok_def destroy_notify_def)
qed

lemma pool_act_ok:
  assumes "pool_ok p" "pool_act a p = Some (es, p')"
  shows "pool_ok p'"
proof (cases a)
  case (Submit x)
  with assms show ?thesis by (auto simp: submit_def pool_ok_def split: if_splits)
next
  case (Notify v)
  with assms(2) obtain ws where ws: "notify_one Asleep Checking v (workers p) = Some ws"
    and p': "p' = p\<lparr>workers := ws, notifying := notifying p - 1\<rparr>"
    by (auto simp: submit_notify_def split: if_splits)
  from ws show ?thesis
  proof (cases rule: notify_move)
    case 1
    with assms(1) show ?thesis by (auto simp: p' pool_ok_def neq_Nil_conv)
  next
    case (2 u)
    then show ?thesis by (intro ok_move [OF assms(1), of u _ Checking]) (auto simp: p')
  qed
next
  case (Wake w)
  with assms show ?thesis by (intro ok_move [OF assms(1), of w _ Checking]) (auto split: if_splits worker_pc.splits)
next
  case (Check w)
  with assms show ?thesis by (auto split: if_splits worker_pc.splits intro: check_ok)
next
  case (Finish w)
  with assms show ?thesis
    by (intro ok_move [OF assms(1), of w _ Checking]) (auto simp: worker_done_def split: if_splits worker_pc.splits)
next
  case Destroy
  with assms show ?thesis by (auto simp: destroy_stop_def pool_ok_def split: if_splits)
next
  case Destroy_notify
  with assms(2) have "dtor p = Stop_set" "p' = destroy_notify p" by (simp_all split: if_splits)
  with assms(1) show ?thesis by (simp add: destroy_notify_ok)
next
  case Join
  with assms show ?thesis
    by (auto simp: destroy_join_def pool_ok_def split: if_splits dtor_pc.splits worker_pc.splits)
qed

lemma pool_act_joined:
  assumes "joined_ok p" "pool_act a p = Some (es, p')"
  shows "joined_ok p'"
proof (cases a)
  case (Submit x)
  with assms show ?thesis by (auto simp: submit_def joined_ok_def split: if_splits dtor_pc.splits)
next
  case (Notify v)
  with assms(2) obtain ws where ws: "notify_one Asleep Checking v (workers p) = Some ws"
    and p': "p' = p\<lparr>workers := ws, notifying := notifying p - 1\<rparr>"
    by (auto simp: submit_notify_def split: if_splits)
  from ws show ?thesis
  proof (cases rule: notify_move)
    case 1
    with assms(1) show ?thesis by (simp add: p' joined_ok_def split: dtor_pc.splits)
  next
    case (2 u)
    then show ?thesis by (intro joined_move [OF assms(1), of u _ Checking]) (simp_all add: p')
  qed
next
  case (Wake w)
  with assms show ?thesis
    by (intro joined_move [OF assms(1), of w _ Checking]) (auto split: if_splits worker_pc.splits)
next
  case (Check w)
  with assms(2) have w: "w < length (workers p)" "workers p ! w = Checking" "p' = worker_check w p"
    by (auto split: if_splits worker_pc.splits)
  then obtain q where "workers p' = (workers p)[w := q]" "dtor p' = dtor p"
    by (auto simp: worker_check_def split: list.splits if_splits)
  with w(1,2) show ?thesis by (intro joined_move [OF assms(1), of w _ q]) simp_all
next
  case (Finish w)
  with assms show ?thesis
    by (intro joined_move [OF assms(1), of w _ Checking]) (auto simp: worker_done_def split: if_splits worker_pc.splits)
next
  case Join
  with assms show ?thesis
    by (auto simp: destroy_join_def joined_ok_def take_Suc_conv_app_nth subset_iff
        split: if_splits dtor_pc.splits worker_pc.splits)
qed (use assms in \<open>auto simp: destroy_stop_def destroy_notify_def joined_ok_def split: if_splits\<close>)

lemma running_notify:
  assumes "notify_one Asleep Checking v (workers p) = Some ws"
  shows "running (p\<lparr>workers := ws\<rparr>) = running p"
  using assms
proof (cases rule: notify_move)
  case (2 u)
  then show ?thesis using running_move [of u p "p\<lparr>workers := ws\<rparr>" Checking] by simp
qed simp_all

lemma running_notify_all: "running (p\<lparr>workers := notify_all Asleep Checking ws\<rparr>) = running (p\<lparr>workers := ws\<rparr>)"
  by (induction ws) (simp_all add: running_def notify_all_def)

lemma pool_act_history:
  assumes "pool_history p es" "pool_act a p = Some (e, p')"
  shows "pool_history p' (es @ e)"
proof (cases a)
  case (Submit x)
  with assms show ?thesis by (auto simp: submit_def pool_history_def running_def split: if_splits)
next
  case (Notify v)
  with assms(2) obtain ws where ws: "notify_one Asleep Checking v (workers p) = Some ws" "e = []"
    and p': "p' = p\<lparr>workers := ws, notifying := notifying p - 1\<rparr>"
    by (auto simp: submit_notify_def split: if_splits)
  have "running p' = running p" using running_notify [OF ws(1)] by (simp add: p' running_def)
  with assms(1) show ?thesis by (simp add: pool_history_def p' ws(2))
next
  case (Wake w)
  with assms show ?thesis using running_move [of w p p' Checking]
    by (auto simp: pool_history_def split: if_splits worker_pc.splits)
next
  case (Check w)
  with assms show ?thesis using running_move [of w p p' Asleep] running_move [of w p p' Exited]
      running_move [of w p p' "Running (hd (tasks p))"]
    by (auto simp: pool_history_def worker_check_def split: if_splits worker_pc.splits list.splits)
next
  case (Finish w)
  with assms show ?thesis using running_move [of w p p' Checking]
    by (auto simp: pool_history_def worker_done_def split: if_splits worker_pc.splits)
next
  case Destroy_notify
  with assms show ?thesis using running_notify_all [of "workers p" p]
    by (auto simp: pool_history_def destroy_notify_def running_def split: if_splits)
qed (use assms in \<open>auto simp: destroy_stop_def destroy_join_def pool_history_def running_def
      split: if_splits dtor_pc.splits worker_pc.splits\<close>)

lemma pool_run_inv: "run_of pool_init pool_step p es \<Longrightarrow> pool_ok p \<and> joined_ok p \<and> pool_history p es"
  by (induction rule: run_of.induct)
    (auto simp: pool_step_def dest: new_ThreadPool_ok intro: pool_act_ok pool_act_joined pool_act_history)

section \<open>Shutting down\<close>

text \<open>
  What is left to do once the destructor began: every step that changes the pool takes at least one
  unit of it.
\<close>

fun weight :: "'a worker_pc \<Rightarrow> nat" where
  "weight Checking = 1"
| "weight Asleep = 2"
| "weight (Running x) = 2"
| "weight Exited = 0"

fun dtor_weight :: "nat \<Rightarrow> dtor_pc \<Rightarrow> nat" where
  "dtor_weight n Alive = 0"
| "dtor_weight n Stop_set = n + 2"
| "dtor_weight n (Joining k) = n + 1 - k"
| "dtor_weight n Destroyed = 0"

definition shutdown_work :: "'a ThreadPool \<Rightarrow> nat" where
  "shutdown_work p =
     2 * length (tasks p) + sum_list (map weight (workers p)) + notifying p + dtor_weight (length (workers p)) (dtor p)"

definition pool_change :: "'a ThreadPool \<Rightarrow> 'a ThreadPool \<Rightarrow> bool" where
  "pool_change p p' \<longleftrightarrow> (\<exists>a es. pool_act a p = Some (es, p') \<and> p' \<noteq> p)"

lemma work_move:
  assumes "w < length (workers p)" "workers p' = (workers p)[w := q]" "dtor p' = dtor p"
    "2 * length (tasks p') + weight q + notifying p' < 2 * length (tasks p) + weight (workers p ! w) + notifying p"
  shows "shutdown_work p' < shutdown_work p"
  using assms sum_list_move [OF assms(1), of weight q] by (simp add: shutdown_work_def)

lemma work_notify_all: "sum_list (map weight (notify_all Asleep Checking ws)) \<le> sum_list (map weight ws)"
  by (induction ws) (auto simp: notify_all_def)

lemma shutdown_step:
  assumes ok: "pool_ok p" "joined_ok p" and stop: "stopping p" and act: "pool_act a p = Some (es, p')" "p' \<noteq> p"
  shows "stopping p' \<and> shutdown_work p' < shutdown_work p"
proof (cases a)
  case (Submit x)
  with act stop show ?thesis by (simp add: submit_def split: if_splits)
next
  case (Notify v)
  with act(1) obtain ws where ws: "notify_one Asleep Checking v (workers p) = Some ws" "0 < notifying p"
    and p': "p' = p\<lparr>workers := ws, notifying := notifying p - 1\<rparr>"
    by (auto simp: submit_notify_def split: if_splits)
  from ws(1) show ?thesis
  proof (cases rule: notify_move)
    case 1
    with ws(2) stop show ?thesis by (simp add: p' shutdown_work_def)
  next
    case (2 u)
    then have "shutdown_work p' < shutdown_work p" by (intro work_move [of u p p' Checking]) (simp_all add: p')
    with stop show ?thesis by (simp add: p')
  qed
next
  case (Wake w)
  with act(1) stop show ?thesis
    by (auto intro: work_move [of w p _ Checking] split: if_splits worker_pc.splits)
next
  case (Check w)
  with act(1) stop show ?thesis
    by (cases "tasks p") (auto simp: worker_check_def intro: work_move [of w p _ Exited]
        work_move [of w p _ "Running (hd (tasks p))"] split: if_splits worker_pc.splits)
next
  case (Finish w)
  with act(1) stop show ?thesis
    by (auto simp: worker_done_def intro: work_move [of w p _ Checking] split: if_splits worker_pc.splits)
next
  case Destroy
  with act(1) stop ok(1) show ?thesis by (simp add: pool_ok_def split: if_splits)
next
  case Destroy_notify
  with act(1) stop work_notify_all [of "workers p"] show ?thesis
    by (auto simp: destroy_notify_def shutdown_work_def split: if_splits)
next
  case Join
  with act(1) stop ok(2) show ?thesis
    by (auto simp: destroy_join_def shutdown_work_def joined_ok_def split: if_splits dtor_pc.splits worker_pc.splits)
qed

lemma shutdown_bound:
  "pool_ok p \<Longrightarrow> joined_ok p \<Longrightarrow> stopping p \<Longrightarrow> (pool_change ^^ k) p q \<Longrightarrow> k + shutdown_work q \<le> shutdown_work p"
proof (induction k arbitrary: p)
  case (Suc k)
  from Suc.prems(4) obtain r where r: "pool_change p r" "(pool_change ^^ k) r q" by (metis relpowp_Suc_D2)
  then obtain a es where a: "pool_act a p = Some (es, r)" "r \<noteq> p" by (auto simp: pool_change_def)
  from shutdown_step [OF Suc.prems(1-3) a] have "stopping r" "shutdown_work r < shutdown_work p" by simp_all
  with Suc.IH [OF pool_act_ok [OF Suc.prems(1) a(1)] pool_act_joined [OF Suc.prems(2) a(1)] _ r(2)]
  show ?case by simp
qed simp

text \<open>Nothing but a wake-up without cause could still change the pool.\<close>

definition pool_stuck :: "'a ThreadPool \<Rightarrow> bool" where
  "pool_stuck p \<longleftrightarrow> (\<forall>a es p'. pool_act a p = Some (es, p') \<longrightarrow> p' \<noteq> p \<longrightarrow> (\<exists>w. a = Wake w))"

lemma stuckD:
  assumes "pool_stuck p" "pool_act a p = Some (es, p')" "\<And>w. a \<noteq> Wake w"
  shows "p' = p"
  using assms unfolding pool_stuck_def by blast

lemma stuck_notify:
  assumes "pool_stuck p"
  shows "notifying p = 0"
proof (rule ccontr)
  assume some: "notifying p \<noteq> 0"
  obtain v ws where ws: "notify_one Asleep Checking v (workers p) = Some ws"
    using notify_one_possible [of Asleep Checking "workers p"] by blast
  then have "pool_act (Notify v) p = Some ([], p\<lparr>workers := ws, notifying := notifying p - 1\<rparr>)"
    using some by (simp add: submit_notify_def)
  then have "p\<lparr>workers := ws, notifying := notifying p - 1\<rparr> = p" by (rule stuckD [OF assms]) simp
  then have "notifying p - 1 = notifying p" by (metis ThreadPool.select_convs(4) ThreadPool.surjective
      ThreadPool.update_convs(4) ThreadPool.update_convs(1))
  with some show False by simp
qed

lemma stuck_workers:
  assumes "pool_stuck p" "w < length (workers p)"
  shows "workers p ! w = Asleep \<or> workers p ! w = Exited"
proof (cases "workers p ! w")
  case Checking
  then have "pool_act (Check w) p = Some (map Started (take 1 (tasks p)), worker_check w p)" using assms(2) by simp
  then have "worker_check w p = p" by (rule stuckD [OF assms(1)]) simp
  moreover have "workers (worker_check w p) ! w \<noteq> Checking"
    using assms(2) by (simp add: worker_check_def split: list.splits)
  ultimately show ?thesis using Checking by simp
next
  case (Running x)
  then have "pool_act (Finish w) p = Some ([Finished x], worker_done w p)" using assms(2) by simp
  then have "worker_done w p = p" by (rule stuckD [OF assms(1)]) simp
  moreover have "workers (worker_done w p) ! w = Checking" using assms(2) by (simp add: worker_done_def)
  ultimately show ?thesis using Running by simp
qed simp_all

lemma stuck_dtor:
  assumes "pool_stuck p" "stopping p" "pool_ok p" "joined_ok p" "\<And>w. w < length (workers p) \<Longrightarrow> workers p ! w = Exited"
  shows "dtor p = Destroyed"
proof (cases "dtor p")
  case Stop_set
  then have "pool_act Destroy_notify p = Some ([], destroy_notify p)" by simp
  then have "destroy_notify p = p" by (rule stuckD [OF assms(1)]) simp
  moreover have "dtor (destroy_notify p) = Joining 0" by (simp add: destroy_notify_def)
  ultimately show ?thesis using Stop_set by simp
next
  case (Joining k)
  then obtain p' where "destroy_join k p = Some p'" and p': "dtor p' \<noteq> Joining k"
    using assms(5) [of k] by (cases "k < length (workers p)") (simp_all add: destroy_join_def)
  then have "pool_act Join p = Some ([], p')" using Joining by simp
  then have "p' = p" by (rule stuckD [OF assms(1)]) simp
  with p' Joining show ?thesis by simp
qed (use assms(2,3) in \<open>simp_all add: pool_ok_def\<close>)

lemma stuck_awake:
  assumes "pool_stuck p" "stopping p" "pool_ok p"
  shows "Asleep \<notin> set (workers p)"
proof
  assume "Asleep \<in> set (workers p)"
  with assms(2,3) have stop: "dtor p = Stop_set" by (auto simp: pool_ok_def)
  then have "pool_act Destroy_notify p = Some ([], destroy_notify p)" by simp
  then have "destroy_notify p = p" by (rule stuckD [OF assms(1)]) simp
  moreover have "dtor (destroy_notify p) = Joining 0" by (simp add: destroy_notify_def)
  ultimately show False using stop by simp
qed

lemma stuck_done:
  assumes "pool_stuck p" "stopping p" "pool_ok p" "joined_ok p" "pool_history p es"
  shows "dtor p = Destroyed \<and> tasks p = [] \<and> workers p = replicate (length (workers p)) Exited \<and>
    started es = submitted es \<and> mset (finished es) = mset (submitted es)"
proof -
  have exited: "workers p ! w = Exited" if "w < length (workers p)" for w
    using stuck_workers [OF assms(1) that] stuck_awake [OF assms(1-3)] nth_mem [OF that] by auto
  then have all: "workers p = replicate (length (workers p)) Exited" by (simp add: list_eq_iff_nth_eq)
  have "Exited \<in> set (workers p)" using exited [of 0] assms(3) nth_mem [of 0 "workers p"] by (auto simp: pool_ok_def)
  then have empty: "tasks p = []" using assms(3) by (auto simp: pool_ok_def)
  have "sum_list (map task_of (replicate n Exited)) = ({#} :: 'a multiset)" for n by (induction n) simp_all
  then have "running p = {#}" unfolding running_def by (subst all)
  with empty assms(5) all stuck_dtor [OF assms(1-4) exited] show ?thesis by (simp add: pool_history_def)
qed

section \<open>Properties\<close>

fun pool_acts :: "'a pool_action list \<Rightarrow> 'a pool_event list \<Rightarrow> 'a ThreadPool \<Rightarrow>
    ('a pool_event list \<times> 'a ThreadPool) option" where
  "pool_acts [] es p = Some (es, p)"
| "pool_acts (a # as) es p = (case pool_act a p of None \<Rightarrow> None | Some (e, p') \<Rightarrow> pool_acts as (es @ e) p')"

lemma pool_acts_run:
  "pool_acts as es p = Some (es', p') \<Longrightarrow> run_of pool_init pool_step p es \<Longrightarrow> run_of pool_init pool_step p' es'"
proof (induction as arbitrary: es p)
  case (Cons a as)
  then obtain e p1 where p1: "pool_act a p = Some (e, p1)" "pool_acts as (es @ e) p1 = Some (es', p')"
    by (auto split: option.splits)
  then have "pool_step p e p1" by (auto simp: pool_step_def)
  from Cons.IH [OF p1(2) run_step [OF Cons.prems(2) this]] show ?case .
qed simp

definition two_workers :: "int ThreadPool" where
  "two_workers = \<lparr>workers = [Checking, Checking], tasks = [], stopping = False, notifying = 0, dtor = Alive\<rparr>"

lemma two_workers_run: "run_of pool_init pool_step two_workers []"
  by (rule run_init) (auto simp: pool_init_def new_ThreadPool_def two_workers_def numeral_2_eq_2 intro!: exI [of _ 2])

text \<open>
  C33. Every accepted task is started exactly once and in the order of acceptance: in every
  interleaving of submitting threads, workers and the destructor, the tasks started so far followed
  by the tasks in the queue are exactly the tasks accepted so far, and the tasks started are the
  ones finished and the ones running. A task that waits is never forgotten: some worker is about
  to look at the queue or is running a task, or a notification is on its way that can wake one.
\<close>

theorem pool_runs_each_task_once:
  assumes "run_of pool_init pool_step p es"
  shows "submitted es = started es @ tasks p \<and> mset (started es) = mset (finished es) + running p \<and>
    (tasks p = [] \<or> 0 < notifying p \<or> (\<exists>w<length (workers p). workers p ! w = Checking \<or> (\<exists>x. workers p ! w = Running x)))"
proof -
  from pool_run_inv [OF assms] have ok: "pool_ok p" and hist: "pool_history p es" by blast+
  have "\<exists>w<length (workers p). workers p ! w = Checking \<or> (\<exists>x. workers p ! w = Running x)"
    if t: "tasks p \<noteq> []" "notifying p = 0"
  proof -
    from ok t obtain v where v: "v \<in> set (workers p)" "v \<noteq> Asleep" "v \<noteq> Exited" unfolding pool_ok_def by auto
    from v(2,3) have "v = Checking \<or> (\<exists>x. v = Running x)" by (cases v) simp_all
    with v(1) show ?thesis by (auto simp: in_set_conv_nth)
  qed
  with hist show ?thesis by (auto simp: pool_history_def)
qed

theorem pool_runs_each_task_once_witness:
  "\<exists>es p. pool_acts [Check 0, Submit 5, Submit 6, Check 1, Notify (Some 0), Check 0, Finish 1] [] two_workers = Some (es, p) \<and>
     es = [Submitted 5, Submitted 6, Started 5, Started 6, Finished 5] \<and> submitted es = started es @ tasks p"
proof -
  let ?as = "[Check 0, Submit 5, Submit 6, Check 1, Notify (Some 0), Check 0, Finish 1]"
  have "map_option fst (pool_acts ?as [] two_workers) = Some [Submitted 5, Submitted 6, Started 5, Started 6, Finished 5]"
    by code_simp
  then obtain p where p: "pool_acts ?as [] two_workers = Some ([Submitted 5, Submitted 6, Started 5, Started 6, Finished 5], p)"
    by auto
  from pool_runs_each_task_once [OF pool_acts_run [OF p two_workers_run]] p show ?thesis by blast
qed

text \<open>
  C34. The destructor drains the pool: once it began, the pool changes at most a fixed number of
  times, whatever the threads do, and it stops changing only when the destructor has returned,
  all workers have exited, the queue is empty and every task ever accepted has started and finished.
\<close>

theorem pool_shutdown_drains:
  assumes "run_of pool_init pool_step p es" and "stopping p"
  shows "(\<forall>k q. (pool_change ^^ k) p q \<longrightarrow> k \<le> shutdown_work p) \<and>
    (pool_stuck p \<longrightarrow> dtor p = Destroyed \<and> tasks p = [] \<and> workers p = replicate (length (workers p)) Exited \<and>
       started es = submitted es \<and> mset (finished es) = mset (submitted es))"
  using pool_run_inv [OF assms(1)] shutdown_bound [of p] stuck_done [of p es] assms(2) add_leD1 by blast

theorem pool_shutdown_drains_witness:
  "\<exists>p q. pool_acts [Check 0, Check 1, Submit 5, Destroy, Submit 6] [] two_workers = Some ([Submitted 5, Rejected 6], p) \<and>
     shutdown_work p = 11 \<and> (\<forall>k r. (pool_change ^^ k) p r \<longrightarrow> k \<le> shutdown_work p) \<and>
     pool_acts [Notify (Some 0), Destroy_notify, Check 0, Finish 0, Check 1, Check 0, Join, Join, Join]
       [Submitted 5, Rejected 6] p = Some ([Submitted 5, Rejected 6, Started 5, Finished 5], q) \<and>
     pool_stuck q \<and> dtor q = Destroyed"
proof -
  let ?as = "[Check 0, Check 1, Submit 5, Destroy, Submit 6]"
  let ?p = "\<lparr>workers = [Asleep, Asleep], tasks = [5], stopping = True, notifying = 1, dtor = Stop_set\<rparr> :: int ThreadPool"
  let ?bs = "[Notify (Some 0), Destroy_notify, Check 0, Finish 0, Check 1, Check 0, Join, Join, Join]"
  let ?q = "\<lparr>workers = [Exited, Exited], tasks = [], stopping = True, notifying = 0, dtor = Destroyed\<rparr> :: int ThreadPool"
  have p: "pool_acts ?as [] two_workers = Some ([Submitted 5, Rejected 6], ?p)" "shutdown_work ?p = 11" by code_simp+
  have q: "pool_acts ?bs [Submitted 5, Rejected 6] ?p = Some ([Submitted 5, Rejected 6, Started 5, Finished 5], ?q)"
    by code_simp
  note run = pool_acts_run [OF p(1) two_workers_run]
  have stuck: "pool_stuck ?q"
    unfolding pool_stuck_def
  proof (intro allI impI)
    fix a es p' assume "pool_act a ?q = Some (es, p')" "p' \<noteq> ?q"
    then show "\<exists>w. a = Wake w"
      by (cases a) (auto simp: submit_def nth_Cons' split: if_splits worker_pc.splits)
  qed
  have "dtor ?q = Destroyed" using pool_shutdown_drains [OF pool_acts_run [OF q run]] stuck by simp
  then show ?thesis using pool_shutdown_drains [OF run] p q stuck by (intro exI [of _ ?p] exI [of _ ?q]) simp
qed

end
