(* ===== verification/TCPServer.thy ===== *)
theory TCPServer
  imports QueryExecutor ThreadPool "HOL-Library.Sublist"
begin

text \<open>
  The server of \<^verbatim>\<open>include/network/TCPServer.hpp\<close> and \<^verbatim>\<open>src/network/tcp_server.cpp\<close>: the constructor,
  reading and splitting lines, writing replies. The operating system is not modelled: what a system
  call returns is an argument, one list element for each call of a loop, and a loop whose list ends
  before it leaves has not returned (\<open>None\<close>). The threads of the server are put together in
  \<^verbatim>\<open>Server_System\<close>.
\<close>

section \<open>System calls\<close>

text \<open>\<^verbatim>\<open>EWOULDBLOCK\<close> is \<^verbatim>\<open>EAGAIN\<close>; any other error carries its \<^verbatim>\<open>strerror\<close> text.\<close>

datatype errno = EAGAIN | EINTR | Other_errno string

text \<open>\<^verbatim>\<open>read\<close> returns bytes, none of them at the end of the stream, or fails.\<close>

datatype read_result = Read_bytes string | Read_errno errno

text \<open>
  \<^verbatim>\<open>send\<close> takes a number of bytes, or fails; on \<^verbatim>\<open>EAGAIN\<close> the code polls, and the result of \<^verbatim>\<open>poll\<close> is
  part of the answer.
\<close>

datatype send_result = Send_bytes nat | Send_would_block int | Send_interrupted | Send_failed

definition throwErrno :: "string \<Rightarrow> string \<Rightarrow> 'a result" where
  "throwErrno what_failed strerror = Inl (Runtime_error (''TCPServer: '' @ what_failed @ '': '' @ strerror))"

section \<open>Constructor\<close>

text \<open>What the system answers to the calls of the constructor, in their order.\<close>

record startup =
  os_socket :: "string + nat"
  os_bind :: "string option"
  os_getsockname :: "16 word"
  os_listen :: "string option"
  os_pipe :: "string + nat \<times> nat"
  os_kqueue :: "string + nat"
  os_register :: "string option"

record listener =
  listenFd :: nat
  kqueueFd :: nat
  wakePipe :: "nat \<times> nat"
  port_number :: "16 word"

text \<open>The descriptors that are open when the constructor returns or throws, beside its result.\<close>

definition new_TCPServer :: "16 word \<Rightarrow> nat \<Rightarrow> startup \<Rightarrow> nat list \<times> listener result" where
  "new_TCPServer port workerCount os =
     (case new_ThreadPool workerCount :: unit ThreadPool result of
        Inl e \<Rightarrow> ([], Inl e)
      | Inr _ \<Rightarrow>
     (case os_socket os of
        Inl e \<Rightarrow> ([], throwErrno ''socket'' e)
      | Inr lfd \<Rightarrow>
     (case os_bind os of
        Some e \<Rightarrow> ([lfd], throwErrno (''bind to port '' @ to_string_size (unat port)) e)
      | None \<Rightarrow>
     (case os_listen os of
        Some e \<Rightarrow> ([lfd], throwErrno ''listen'' e)
      | None \<Rightarrow>
     (case os_pipe os of
        Inl e \<Rightarrow> ([lfd], throwErrno ''pipe'' e)
      | Inr (rd, wr) \<Rightarrow>
     (case os_kqueue os of
        Inl e \<Rightarrow> ([lfd, rd, wr], throwErrno ''kqueue'' e)
      | Inr kq \<Rightarrow>
     (case os_register os of
        Some e \<Rightarrow> ([lfd, rd, wr, kq], throwErrno ''kevent register'' e)
      | None \<Rightarrow>
          ([lfd, rd, wr, kq],
           Inr \<lparr>listenFd = lfd, kqueueFd = kq, wakePipe = (rd, wr), port_number = os_getsockname os\<rparr>))))))))"

section \<open>Connections\<close>

definition kMaxLineBytes :: nat where
  "kMaxLineBytes = 64 * 1024"

definition kMaxPendingQueries :: nat where
  "kMaxPendingQueries = 1024"

record Connection =
  fd :: nat
  inbox :: string
  pending :: "string list"
  busy :: bool
  closed :: bool

definition new_Connection :: "nat \<Rightarrow> Connection" where
  "new_Connection descriptor = \<lparr>fd = descriptor, inbox = [], pending = [], busy = False, closed = False\<rparr>"

text \<open>The read loop of \<^verbatim>\<open>handleReadable\<close>: the new inbox, and whether the peer closed or failed.\<close>

fun read_loop :: "read_result list \<Rightarrow> string \<Rightarrow> (string \<times> bool) option" where
  "read_loop [] box = None"
| "read_loop (Read_bytes bs # rs) box = (if bs \<noteq> [] then read_loop rs (box @ bs) else Some (box, True))"
| "read_loop (Read_errno EAGAIN # rs) box = Some (box, False)"
| "read_loop (Read_errno EINTR # rs) box = read_loop rs box"
| "read_loop (Read_errno (Other_errno e) # rs) box = Some (box, True)"

definition newline :: char where
  "newline = CHR 0x0A"

fun find_newline :: "string \<Rightarrow> nat option" where
  "find_newline [] = None"
| "find_newline (c # s) = (if c = newline then Some 0 else map_option Suc (find_newline s))"

text \<open>A carriage return at the end of a line is telnet's.\<close>

definition strip_return :: "string \<Rightarrow> string" where
  "strip_return line = (if line \<noteq> [] \<and> last line = CHR 0x0D then butlast line else line)"

text \<open>
  One line goes onto the strand: the new connection, whether a task must be dispatched for it, and
  whether a limit is exceeded.
\<close>

definition queue_line :: "string \<Rightarrow> Connection \<Rightarrow> Connection \<times> bool \<times> bool" where
  "queue_line line conn =
     (if line = [] then (conn, False, False)
      else if length line > kMaxLineBytes then (conn, False, True)
      else if length (pending conn) \<ge> kMaxPendingQueries then (conn, False, True)
      else (conn\<lparr>pending := pending conn @ [line], busy := True\<rparr>, \<not> busy conn, False))"

text \<open>One round of the splitting loop; \<open>None\<close> when no complete line is left.\<close>

definition split_step :: "Connection \<Rightarrow> (Connection \<times> bool \<times> bool) option" where
  "split_step conn =
     (case find_newline (inbox conn) of
        None \<Rightarrow> None
      | Some k \<Rightarrow>
          Some (queue_line (strip_return (take k (inbox conn))) (conn\<lparr>inbox := drop (k + 1) (inbox conn)\<rparr>)))"

lemma find_newline_length: "find_newline s = Some k \<Longrightarrow> k < length s"
  by (induction s arbitrary: k) (auto split: if_splits)

lemma queue_line_inbox: "queue_line line conn = (conn', d, over) \<Longrightarrow> inbox conn' = inbox conn"
  by (auto simp: queue_line_def split: if_splits)

lemma split_step_shorter:
  "split_step conn = Some (conn', d, over) \<Longrightarrow> length (inbox conn') < length (inbox conn)"
  by (auto simp: split_step_def split: option.splits dest!: find_newline_length queue_line_inbox)

text \<open>The splitting loop when no worker comes in between.\<close>

function split_loop :: "Connection \<Rightarrow> bool \<Rightarrow> Connection \<times> bool \<times> bool" where
  "split_loop conn dispatch =
     (case split_step conn of
        None \<Rightarrow> (conn, dispatch, False)
      | Some (conn', d, over) \<Rightarrow> if over then (conn', dispatch \<or> d, True) else split_loop conn' (dispatch \<or> d))"
  by pat_completeness auto
termination
  by (relation "measure (\<lambda>(conn, _). length (inbox conn))") (auto dest: split_step_shorter)

declare split_loop.simps [simp del]

text \<open>
  \<^verbatim>\<open>handleReadable\<close> up to the dispatch: the connection, whether a task must be dispatched, and
  whether the connection must be dropped.
\<close>

definition handleReadable :: "read_result list \<Rightarrow> Connection \<Rightarrow> (Connection \<times> bool \<times> bool) option" where
  "handleReadable reads conn =
     (case read_loop reads (inbox conn) of
        None \<Rightarrow> None
      | Some (box, peerClosed) \<Rightarrow>
          (let (conn', shouldDispatch, overLimit) = split_loop (conn\<lparr>inbox := box\<rparr>) False
           in Some (conn', shouldDispatch, peerClosed \<or> overLimit \<or> length (inbox conn') > kMaxLineBytes)))"

section \<open>\<^verbatim>\<open>writeAll\<close>\<close>

text \<open>The bytes the system took, and the result of the call.\<close>

fun writeAll :: "send_result list \<Rightarrow> string \<Rightarrow> (string \<times> bool) option" where
  "writeAll sends [] = Some ([], True)"
| "writeAll [] (c # cs) = None"
| "writeAll (Send_bytes n # sends) (c # cs) =
     (if n > 0 then map_option (apfst (append (take n (c # cs)))) (writeAll sends (drop n (c # cs)))
      else Some ([], False))"
| "writeAll (Send_would_block polled # sends) (c # cs) =
     (if polled \<le> 0 then Some ([], False) else writeAll sends (c # cs))"
| "writeAll (Send_interrupted # sends) (c # cs) = writeAll sends (c # cs)"
| "writeAll (Send_failed # sends) (c # cs) = Some ([], False)"

end
