(* ===== verification/Server_System.thy ===== *)
theory Server_System
  imports TCPServer Step_System
begin

text \<open>
  The threads of the server of \<^verbatim>\<open>src/network/tcp_server.cpp\<close>: the event loop of \<^verbatim>\<open>run\<close> and the worker
  tasks that \<^verbatim>\<open>dispatch\<close> submits, one step for each critical section under the mutex of a connection,
  each executed query, each reply written and each system call that matters. A submitted task is a job
  that some worker will run, as the pool guarantees. A query runs in one step.

  Connection objects are never reused and are named by their position in a list, since descriptor
  numbers are reused once closed. The system knows which object it gave an open descriptor to: writing
  to a descriptor that is not the object's own, or closing it, is \<open>Undefined_behaviour\<close>.
\<close>

section \<open>State\<close>

text \<open>What \<^verbatim>\<open>kevent\<close> reports as readable.\<close>

datatype ready = Wake_pipe | Listen_socket | Client nat

text \<open>
  The position of the event loop: before \<^verbatim>\<open>run\<close>, at the loop condition, waiting in \<^verbatim>\<open>kevent\<close>, in a batch of events, in the
  splitting loop of a connection (with \<^verbatim>\<open>shouldDispatch\<close>, \<^verbatim>\<open>peerClosed\<close>), after it (with
  \<^verbatim>\<open>shouldDispatch\<close> and whether to drop), returned, or left by an exception.
\<close>

datatype loop_pc =
    Not_running
  | Loop_top
  | In_kevent
  | In_batch "ready list"
  | In_split nat bool bool "ready list"
  | After_split nat bool bool "ready list"
  | Loop_returned
  | Loop_threw string

text \<open>The position of a worker task: at the top of its loop, with a query, with a reply to write.\<close>

datatype job_pc = Job_top | Job_query string | Job_reply string

text \<open>
  Besides the fields of the class: \<open>wake\<close> tells whether the wake pipe has bytes to read, and \<open>stoppers\<close> counts the
  calls of \<^verbatim>\<open>stop\<close> that have cleared \<^verbatim>\<open>running_\<close> and not yet written to the pipe.
\<close>

record Server =
  db :: database
  conns :: "Connection list"
  connections :: "(nat \<times> nat) list"
  fd_owner :: "nat \<rightharpoonup> nat"
  jobs :: "(nat \<times> job_pc) list"
  loop :: loop_pc
  running :: bool
  wake :: bool
  stoppers :: nat

definition new_Server :: "database \<Rightarrow> Server" where
  "new_Server d = \<lparr>db = d, conns = [], connections = [], fd_owner = Map.empty, jobs = [], loop = Not_running, running = False,
     wake = False, stoppers = 0\<rparr>"

definition set_conn :: "nat \<Rightarrow> Connection \<Rightarrow> Server \<Rightarrow> Server" where
  "set_conn c conn s = s\<lparr>conns := (conns s)[c := conn]\<rparr>"

text \<open>\<^verbatim>\<open>::close\<close> by the code that works for a connection object.\<close>

definition close_fd :: "nat \<Rightarrow> Server \<Rightarrow> Server result" where
  "close_fd c s =
     (let f = fd (conns s ! c)
      in if fd_owner s f = Some c then Inr (s\<lparr>fd_owner := (fd_owner s)(f := None)\<rparr>) else Inl Undefined_behaviour)"

section \<open>\<^verbatim>\<open>stop\<close> and the loop of \<^verbatim>\<open>run\<close>\<close>

text \<open>The two effects of \<^verbatim>\<open>stop\<close>, which other threads may run between: the store and the write to the pipe.\<close>

definition stop_store :: "Server \<Rightarrow> Server" where
  "stop_store s = s\<lparr>running := False, stoppers := stoppers s + 1\<rparr>"

definition stop_write :: "Server \<Rightarrow> Server" where
  "stop_write s = s\<lparr>wake := True, stoppers := stoppers s - 1\<rparr>"

definition run_enter :: "Server \<Rightarrow> Server" where
  "run_enter s = s\<lparr>loop := Loop_top, running := True\<rparr>"

text \<open>The loop condition.\<close>

definition run_top :: "Server \<Rightarrow> Server" where
  "run_top s = s\<lparr>loop := (if running s then In_kevent else Loop_returned)\<rparr>"

text \<open>
  \<^verbatim>\<open>kevent\<close> without a timeout reports at least one event and at most the 64 of the array, is interrupted
  (\<open>Inl None\<close>) or fails with the \<^verbatim>\<open>strerror\<close> text of its error. The wake pipe is reported only when it has
  something to read.
\<close>

definition max_events :: nat where
  "max_events = 64"

fun kevent_answers :: "string option + ready list \<Rightarrow> Server \<Rightarrow> bool" where
  "kevent_answers (Inr events) s \<longleftrightarrow>
     events \<noteq> [] \<and> length events \<le> max_events \<and> (Wake_pipe \<in> set events \<longrightarrow> wake s)"
| "kevent_answers (Inl e) s \<longleftrightarrow> True"

fun run_wait :: "string option + ready list \<Rightarrow> Server \<Rightarrow> Server" where
  "run_wait (Inr events) s = s\<lparr>loop := In_batch events\<rparr>"
| "run_wait (Inl None) s = s\<lparr>loop := Loop_top\<rparr>"
| "run_wait (Inl (Some e)) s = s\<lparr>loop := Loop_threw (''TCPServer: kevent wait: '' @ e)\<rparr>"

section \<open>\<^verbatim>\<open>acceptClients\<close>\<close>

text \<open>\<^verbatim>\<open>accept\<close> gives a descriptor, and registering it with the event queue may fail.\<close>

datatype accept_result = Accepted nat bool | Accept_errno errno

text \<open>
  One round of the loop for an accepted descriptor. The system gives out descriptors that are not open.
\<close>

definition accept_one :: "nat \<Rightarrow> bool \<Rightarrow> Server \<Rightarrow> Server" where
  "accept_one f registered s =
     (if \<not> registered then s
      else (let c = length (conns s)
            in s\<lparr>conns := conns s @ [new_Connection f], fd_owner := (fd_owner s)(f \<mapsto> c),
                 connections := (if map_of (connections s) f = None then (f, c) # connections s else connections s)\<rparr>))"

fun acceptClients :: "accept_result list \<Rightarrow> Server \<Rightarrow> Server option" where
  "acceptClients [] s = None"
| "acceptClients (Accepted f registered # rs) s =
     (if fd_owner s f = None then acceptClients rs (accept_one f registered s) else None)"
| "acceptClients (Accept_errno EAGAIN # rs) s = Some s"
| "acceptClients (Accept_errno EINTR # rs) s = acceptClients rs s"
| "acceptClients (Accept_errno (Other_errno e) # rs) s = Some s"

section \<open>\<^verbatim>\<open>dropConnection\<close>\<close>

definition dropConnection :: "nat \<Rightarrow> Server \<Rightarrow> Server result" where
  "dropConnection f s =
     (case map_of (connections s) f of
        None \<Rightarrow> Inr s
      | Some c \<Rightarrow>
          (let s1 = set_conn c ((conns s ! c)\<lparr>closed := True\<rparr>)
                      (s\<lparr>connections := filter (\<lambda>(g, _). g \<noteq> f) (connections s)\<rparr>)
           in if busy (conns s ! c) then Inr s1 else close_fd c s1))"

section \<open>Events of a batch\<close>

text \<open>What the outside sees.\<close>

datatype server_event =
    Queued nat string
  | Executed nat string string
  | Replied nat string
  | Lost nat

definition batch_read :: "read_result list \<Rightarrow> nat \<Rightarrow> ready list \<Rightarrow> Server \<Rightarrow> Server option" where
  "batch_read reads c rest s =
     map_option (\<lambda>(box, peerClosed). set_conn c ((conns s ! c)\<lparr>inbox := box\<rparr>) (s\<lparr>loop := In_split c False peerClosed rest\<rparr>))
       (read_loop reads (inbox (conns s ! c)))"

text \<open>One round of the splitting loop, or its end with the check of the inbox.\<close>

definition batch_split :: "nat \<Rightarrow> bool \<Rightarrow> bool \<Rightarrow> ready list \<Rightarrow> Server \<Rightarrow> server_event list \<times> Server" where
  "batch_split c d peer rest s =
     (case split_step (conns s ! c) of
        None \<Rightarrow> ([], s\<lparr>loop := After_split c d (peer \<or> length (inbox (conns s ! c)) > kMaxLineBytes) rest\<rparr>)
      | Some (conn, d', over) \<Rightarrow>
          (map (Queued c) (drop (length (pending (conns s ! c))) (pending conn)),
           set_conn c conn (s\<lparr>loop := (if over then After_split c (d \<or> d') True rest else In_split c (d \<or> d') peer rest)\<rparr>)))"

text \<open>After the splitting loop: \<^verbatim>\<open>dispatch\<close>, then \<^verbatim>\<open>dropConnection\<close>, then the next event.\<close>

definition batch_finish :: "nat \<Rightarrow> bool \<Rightarrow> bool \<Rightarrow> ready list \<Rightarrow> Server \<Rightarrow> Server result" where
  "batch_finish c d dropping rest s =
     (if d then Inr (s\<lparr>jobs := jobs s @ [(c, Job_top)], loop := After_split c False dropping rest\<rparr>)
      else if dropping then dropConnection (fd (conns s ! c)) (s\<lparr>loop := In_batch rest\<rparr>)
      else Inr (s\<lparr>loop := In_batch rest\<rparr>))"

section \<open>The task of \<^verbatim>\<open>dispatch\<close>\<close>

text \<open>The end of a task: under the mutex, \<^verbatim>\<open>busy\<close> is cleared and a deferred close is done.\<close>

definition job_end :: "nat \<Rightarrow> Connection \<Rightarrow> Server \<Rightarrow> Server result" where
  "job_end c conn s =
     (let s1 = set_conn c (conn\<lparr>busy := False\<rparr>) s
      in if closed conn then close_fd c s1 else Inr s1)"

definition job_top :: "nat \<Rightarrow> nat \<Rightarrow> Server \<Rightarrow> Server result" where
  "job_top j c s =
     (case pending (conns s ! c) of
        [] \<Rightarrow> job_end c (conns s ! c) (s\<lparr>jobs := erase_at j (jobs s)\<rparr>)
      | query # rest \<Rightarrow>
          Inr (set_conn c ((conns s ! c)\<lparr>pending := rest\<rparr>) (s\<lparr>jobs := (jobs s)[j := (c, Job_query query)]\<rparr>)))"

definition job_execute :: "nat \<Rightarrow> nat \<Rightarrow> string \<Rightarrow> Server \<Rightarrow> (server_event list \<times> Server) result" where
  "job_execute j c query s =
     bind_result (execute (db s) query) (\<lambda>(reply, d).
       Inr ([Executed c query reply], s\<lparr>db := d, jobs := (jobs s)[j := (c, Job_reply (reply @ [newline]))]\<rparr>))"

definition job_write :: "send_result list \<Rightarrow> nat \<Rightarrow> nat \<Rightarrow> string \<Rightarrow> Server \<Rightarrow> (server_event list \<times> Server) result option" where
  "job_write sends j c reply s =
     (if fd_owner s (fd (conns s ! c)) \<noteq> Some c then Some (Inl Undefined_behaviour)
      else (case writeAll sends reply of
              None \<Rightarrow> None
            | Some (_, True) \<Rightarrow> Some (Inr ([Replied c reply], s\<lparr>jobs := (jobs s)[j := (c, Job_top)]\<rparr>))
            | Some (_, False) \<Rightarrow>
                Some (bind_result (job_end c ((conns s ! c)\<lparr>pending := []\<rparr>) (s\<lparr>jobs := erase_at j (jobs s)\<rparr>))
                  (\<lambda>s'. Inr ([Lost c], s')))))"

section \<open>Threads\<close>

datatype server_action =
    Stop_store
  | Stop_write
  | Run_enter
  | Loop_test
  | Loop_wait "string option + ready list"
  | Loop_event "accept_result list" "read_result list"
  | Loop_split
  | Loop_finish
  | Job nat "send_result list"

definition silent :: "Server result \<Rightarrow> (server_event list \<times> Server) result" where
  "silent r = bind_result r (\<lambda>s. Inr ([], s))"

text \<open>An event of a batch; the wake pipe is read until it is empty.\<close>

fun loop_event :: "accept_result list \<Rightarrow> read_result list \<Rightarrow> ready list \<Rightarrow> Server \<Rightarrow> Server option" where
  "loop_event accepts reads [] s = Some (s\<lparr>loop := Loop_top\<rparr>)"
| "loop_event accepts reads (Wake_pipe # rest) s = Some (s\<lparr>loop := In_batch rest, wake := False\<rparr>)"
| "loop_event accepts reads (Listen_socket # rest) s = acceptClients accepts (s\<lparr>loop := In_batch rest\<rparr>)"
| "loop_event accepts reads (Client f # rest) s =
     (case map_of (connections s) f of
        None \<Rightarrow> Some (s\<lparr>loop := In_batch rest\<rparr>)
      | Some c \<Rightarrow> batch_read reads c rest s)"

fun server_act :: "server_action \<Rightarrow> Server \<Rightarrow> (server_event list \<times> Server) result option" where
  "server_act Stop_store s = Some (Inr ([], stop_store s))"
| "server_act Stop_write s = (if stoppers s > 0 then Some (Inr ([], stop_write s)) else None)"
| "server_act Run_enter s = (case loop s of Not_running \<Rightarrow> Some (Inr ([], run_enter s)) | _ \<Rightarrow> None)"
| "server_act Loop_test s = (case loop s of Loop_top \<Rightarrow> Some (Inr ([], run_top s)) | _ \<Rightarrow> None)"
| "server_act (Loop_wait r) s =
     (case loop s of
        In_kevent \<Rightarrow> if kevent_answers r s then Some (Inr ([], run_wait r s)) else None
      | _ \<Rightarrow> None)"
| "server_act (Loop_event accepts reads) s =
     (case loop s of
        In_batch events \<Rightarrow> map_option (\<lambda>s'. Inr ([], s')) (loop_event accepts reads events s)
      | _ \<Rightarrow> None)"
| "server_act Loop_split s =
     (case loop s of In_split c d peer rest \<Rightarrow> Some (Inr (batch_split c d peer rest s)) | _ \<Rightarrow> None)"
| "server_act Loop_finish s =
     (case loop s of After_split c d dropping rest \<Rightarrow> Some (silent (batch_finish c d dropping rest s)) | _ \<Rightarrow> None)"
| "server_act (Job j sends) s =
     (if j < length (jobs s)
      then (case jobs s ! j of
              (c, Job_top) \<Rightarrow> Some (silent (job_top j c s))
            | (c, Job_query query) \<Rightarrow> Some (job_execute j c query s)
            | (c, Job_reply reply) \<Rightarrow> job_write sends j c reply s)
      else None)"

definition server_init :: "database \<Rightarrow> Server \<Rightarrow> bool" where
  "server_init d s \<longleftrightarrow> s = new_Server d"

definition server_step :: "Server \<Rightarrow> server_event list \<Rightarrow> Server \<Rightarrow> bool" where
  "server_step s es s' \<longleftrightarrow> (\<exists>a. server_act a s = Some (Inr (es, s')))"

section \<open>The destructor\<close>

text \<open>
  \<^verbatim>\<open>~TCPServer\<close> after \<^verbatim>\<open>pool_.reset()\<close> has run every task: the descriptors of the connections still in
  the table are closed. \<open>None\<close> while tasks are left.
\<close>

fun close_all :: "(nat \<times> nat) list \<Rightarrow> Server \<Rightarrow> Server result" where
  "close_all [] s = Inr s"
| "close_all ((f, c) # rest) s =
     (if fd_owner s f = None then Inl Undefined_behaviour
      else close_all rest (s\<lparr>fd_owner := (fd_owner s)(f := None)\<rparr>))"

definition destroy_Server :: "Server \<Rightarrow> Server result option" where
  "destroy_Server s = (if jobs s = [] then Some (close_all (connections s) s) else None)"

end
