(* ===== verification/TCPServer_Spec.thy ===== *)
theory TCPServer_Spec
  imports TCPServer
begin

text \<open>
  Lines and replies on the wire: the queries a connection queues are the lines of the byte stream,
  however the system cuts it into reads; the limits hold after every call; a reply is sent whole or
  the call says so; and what a constructor that throws leaves open.
\<close>

section \<open>The lines of a byte stream\<close>

text \<open>The raw lines of a stream, without their newlines, and what follows the last newline.\<close>

fun raw_lines :: "string \<Rightarrow> string list" where
  "raw_lines [] = []"
| "raw_lines (c # s) =
     (if c = newline then [] # raw_lines s
      else (case raw_lines s of [] \<Rightarrow> [] | l # ls \<Rightarrow> (c # l) # ls))"

fun remainder :: "string \<Rightarrow> string" where
  "remainder [] = []"
| "remainder (c # s) = (if newline \<in> set (c # s) then remainder s else c # s)"

definition queries_in :: "string \<Rightarrow> string list" where
  "queries_in s = filter (\<lambda>l. l \<noteq> []) (map strip_return (raw_lines s))"

lemma raw_lines_Nil_iff [simp]: "raw_lines s = [] \<longleftrightarrow> newline \<notin> set s"
  by (induction s) (auto split: list.splits)

lemma raw_lines_line: "newline \<notin> set l \<Longrightarrow> raw_lines (l @ newline # s) = l # raw_lines s"
  by (induction l) auto

lemma remainder_line: "newline \<notin> set l \<Longrightarrow> remainder (l @ newline # s) = remainder s"
proof (induction l)
  case Nil
  then show ?case by simp
qed auto

lemma remainder_none: "newline \<notin> set s \<Longrightarrow> remainder s = s"
  by (cases s) auto

lemma newline_split: "newline \<in> set s \<Longrightarrow> \<exists>l r. s = l @ newline # r \<and> newline \<notin> set l"
  by (rule split_list_first)

lemma newline_not_remainder: "newline \<notin> set (remainder s)"
  by (induction s) auto

text \<open>A stream can be cut anywhere: the rest of the first part is put before the second.\<close>

lemma raw_lines_append: "raw_lines (s @ t) = raw_lines s @ raw_lines (remainder s @ t)"
proof (induction s rule: length_induct)
  case (1 s)
  show ?case
  proof (cases "newline \<in> set s")
    case True
    then obtain l r where s: "s = l @ newline # r" "newline \<notin> set l" using newline_split by blast
    have "raw_lines (r @ t) = raw_lines r @ raw_lines (remainder r @ t)" using 1 s(1) by simp
    then show ?thesis by (simp add: s raw_lines_line remainder_line)
  qed (simp add: remainder_none)
qed

lemma remainder_append: "remainder (s @ t) = remainder (remainder s @ t)"
proof (induction s rule: length_induct)
  case (1 s)
  show ?case
  proof (cases "newline \<in> set s")
    case True
    then obtain l r where s: "s = l @ newline # r" "newline \<notin> set l" using newline_split by blast
    have "remainder (r @ t) = remainder (remainder r @ t)" using 1 s(1) by simp
    then show ?thesis by (simp add: s remainder_line)
  qed (simp add: remainder_none)
qed

lemma queries_in_append: "queries_in (s @ t) = queries_in s @ queries_in (remainder s @ t)"
  by (simp add: queries_in_def raw_lines_append [of s])

lemma find_newline_split: "newline \<notin> set l \<Longrightarrow> find_newline (l @ newline # r) = Some (length l)"
  by (induction l) auto

lemma find_newline_none: "newline \<notin> set s \<Longrightarrow> find_newline s = None"
  by (induction s) auto

section \<open>The splitting loop\<close>

text \<open>What a connection becomes when the queries of its inbox are queued and no limit is exceeded.\<close>

definition delivered :: "Connection \<Rightarrow> Connection" where
  "delivered conn =
     conn\<lparr>inbox := remainder (inbox conn), pending := pending conn @ queries_in (inbox conn),
       busy := busy conn \<or> queries_in (inbox conn) \<noteq> []\<rparr>"

definition within_limits :: "Connection \<Rightarrow> string \<Rightarrow> bool" where
  "within_limits conn s \<longleftrightarrow>
     list_all (\<lambda>l. length l \<le> kMaxLineBytes) (raw_lines s) \<and> length (remainder s) \<le> kMaxLineBytes \<and>
     length (pending conn) + length (queries_in s) \<le> kMaxPendingQueries"

lemma strip_return_length: "length (strip_return l) \<le> length l"
  by (simp add: strip_return_def)

lemma split_loop_delivered:
  assumes "list_all (\<lambda>l. length l \<le> kMaxLineBytes) (raw_lines (inbox conn))"
    "length (pending conn) + length (queries_in (inbox conn)) \<le> kMaxPendingQueries"
  shows "split_loop conn d = (delivered conn, d \<or> \<not> busy conn \<and> queries_in (inbox conn) \<noteq> [], False)"
  using assms
proof (induction "length (inbox conn)" arbitrary: conn d rule: less_induct)
  case less
  show ?case
  proof (cases "newline \<in> set (inbox conn)")
    case False
    then have "queries_in (inbox conn) = []" "split_step conn = None"
      by (simp_all add: queries_in_def split_step_def find_newline_none flip: raw_lines_Nil_iff)
    with False show ?thesis by (subst split_loop.simps) (simp add: delivered_def remainder_none)
  next
    case True
    then obtain l r where s: "inbox conn = l @ newline # r" "newline \<notin> set l" using newline_split by blast
    let ?c = "conn\<lparr>inbox := r\<rparr>" and ?l = "strip_return l"
    have step: "split_step conn = Some (queue_line ?l ?c)" using s by (simp add: split_step_def find_newline_split)
    have q: "queries_in (inbox conn) = (if ?l = [] then [] else [?l]) @ queries_in r"
      using s by (simp add: queries_in_def raw_lines_line)
    have raw: "raw_lines (inbox conn) = l # raw_lines r" and rem: "remainder (inbox conn) = remainder r"
      using s by (simp_all add: raw_lines_line remainder_line)
    have line: "length ?l \<le> kMaxLineBytes" using less.prems(1) raw strip_return_length [of l] by simp
    let ?c' = "if ?l = [] then ?c else ?c\<lparr>pending := pending conn @ [?l], busy := True\<rparr>"
    have ql: "queue_line ?l ?c = (?c', ?l \<noteq> [] \<and> \<not> busy conn, False)"
      using line less.prems(2) q by (cases "?l = []") (simp_all add: queue_line_def)
    have "split_loop ?c' d' = (delivered ?c', d' \<or> \<not> busy ?c' \<and> queries_in (inbox ?c') \<noteq> [], False)" for d'
      by (rule less.hyps) (use s less.prems raw q in auto)
    then show ?thesis
      by (subst split_loop.simps) (simp add: step ql delivered_def q rem)
  qed
qed

section \<open>Successive calls\<close>

lemma read_loop_box: "read_loop rs box = map_option (apfst (append box)) (read_loop rs [])"
proof -
  have "read_loop rs (box @ b) = map_option (apfst (append box)) (read_loop rs b)" for b
    by (induction rs b rule: read_loop.induct) simp_all
  from this [of "[]"] show ?thesis by simp
qed

lemma handleReadable_delivered:
  assumes "read_loop reads [] = Some (bs, False)" "within_limits conn (inbox conn @ bs)"
  shows "\<exists>d. handleReadable reads conn = Some (delivered (conn\<lparr>inbox := inbox conn @ bs\<rparr>), d, False)"
proof -
  let ?c = "conn\<lparr>inbox := inbox conn @ bs\<rparr>"
  have r: "read_loop reads (inbox conn) = Some (inbox conn @ bs, False)"
    using assms(1) by (subst read_loop_box) simp
  have "split_loop ?c False = (delivered ?c, False \<or> \<not> busy ?c \<and> queries_in (inbox ?c) \<noteq> [], False)"
    by (rule split_loop_delivered) (use assms(2) in \<open>simp_all add: within_limits_def\<close>)
  moreover have "length (inbox (delivered ?c)) \<le> kMaxLineBytes"
    using assms(2) by (simp add: within_limits_def delivered_def)
  ultimately show ?thesis by (simp add: handleReadable_def r)
qed

text \<open>An unfinished line is no longer than the line it becomes.\<close>

lemma within_limits_prefix:
  assumes "within_limits conn (s @ t)"
  shows "within_limits conn s"
proof -
  let ?p = "remainder s"
  have lines: "list_all (\<lambda>l. length l \<le> kMaxLineBytes) (raw_lines (?p @ t))" "length (remainder (?p @ t)) \<le> kMaxLineBytes"
    using assms remainder_append [of s t] by (simp_all add: within_limits_def raw_lines_append [of s])
  have "length ?p \<le> kMaxLineBytes"
  proof (cases "newline \<in> set t")
    case True
    then obtain l r where "t = l @ newline # r" "newline \<notin> set l" using newline_split by blast
    then have "raw_lines (?p @ t) = (?p @ l) # raw_lines r"
      using raw_lines_line [of "?p @ l" r] newline_not_remainder [of s] by simp
    with lines(1) show ?thesis by simp
  next
    case False
    with lines(2) newline_not_remainder [of s] show ?thesis by (simp add: remainder_none)
  qed
  with assms show ?thesis
    by (simp add: within_limits_def raw_lines_append [of s] queries_in_append [of s])
qed

lemma within_limits_rest:
  assumes "within_limits conn (s @ t)" "conn1 = delivered (conn\<lparr>inbox := s\<rparr>)"
  shows "within_limits conn1 (inbox conn1 @ t)"
  using assms remainder_append [of s t]
  by (simp add: within_limits_def delivered_def raw_lines_append [of s] queries_in_append [of s])

lemma delivered_rest:
  "conn1 = delivered (conn\<lparr>inbox := s\<rparr>) \<Longrightarrow>
     delivered (conn1\<lparr>inbox := inbox conn1 @ t\<rparr>) = delivered (conn\<lparr>inbox := s @ t\<rparr>)"
  using remainder_append [of s t] by (simp add: delivered_def queries_in_append [of s] disj_ac)

text \<open>Several calls of \<^verbatim>\<open>handleReadable\<close>, up to the first that drops the connection.\<close>

fun handle_calls :: "read_result list list \<Rightarrow> Connection \<Rightarrow> (Connection \<times> bool) option" where
  "handle_calls [] conn = Some (conn, False)"
| "handle_calls (reads # calls) conn =
     (case handleReadable reads conn of
        None \<Rightarrow> None
      | Some (conn', d, dropped) \<Rightarrow> if dropped then Some (conn', True) else handle_calls calls conn')"

lemma handle_calls_delivered:
  assumes "list_all2 (\<lambda>reads bs. read_loop reads [] = Some (bs, False)) calls data"
    "newline \<notin> set (inbox conn)" "within_limits conn (inbox conn @ concat data)"
  shows "handle_calls calls conn = Some (delivered (conn\<lparr>inbox := inbox conn @ concat data\<rparr>), False)"
  using assms
proof (induction calls data arbitrary: conn rule: list_all2_induct)
  case Nil
  then have "queries_in (inbox conn) = []" by (simp add: queries_in_def flip: raw_lines_Nil_iff)
  with Nil show ?case by (simp add: delivered_def remainder_none)
next
  case (Cons reads calls bs data)
  let ?c = "delivered (conn\<lparr>inbox := inbox conn @ bs\<rparr>)"
  have lim: "within_limits conn ((inbox conn @ bs) @ concat data)" using Cons.prems(2) by simp
  from handleReadable_delivered [OF Cons.hyps(1) within_limits_prefix [OF lim]] obtain d where
    h: "handleReadable reads conn = Some (?c, d, False)" by blast
  have "handle_calls calls ?c = Some (delivered (?c\<lparr>inbox := inbox ?c @ concat data\<rparr>), False)"
    by (rule Cons.IH) (simp_all add: within_limits_rest [OF lim] newline_not_remainder, simp add: delivered_def newline_not_remainder)
  then show ?case by (simp add: h delivered_rest [OF refl])
qed

section \<open>Limits\<close>

definition conn_bounded :: "Connection \<Rightarrow> bool" where
  "conn_bounded conn \<longleftrightarrow>
     length (pending conn) \<le> kMaxPendingQueries \<and>
     list_all (\<lambda>l. l \<noteq> [] \<and> length l \<le> kMaxLineBytes \<and> newline \<notin> set l) (pending conn)"

lemma strip_return_set: "set (strip_return l) \<subseteq> set l"
  by (auto simp: strip_return_def dest: in_set_butlastD)

lemma find_newline_first: "find_newline s = Some k \<Longrightarrow> newline \<notin> set (take k s)"
  by (induction s arbitrary: k) (auto split: if_splits)

lemma find_newline_None: "find_newline s = None \<Longrightarrow> newline \<notin> set s"
  by (induction s) (auto split: if_splits)

lemma queue_line_bounded:
  assumes "queue_line line conn = (conn', d, over)" "conn_bounded conn" "newline \<notin> set line"
  shows "conn_bounded conn'" "prefix (pending conn) (pending conn')" "d \<Longrightarrow> \<not> busy conn \<and> busy conn'"
    "busy conn \<Longrightarrow> busy conn'" "fd conn' = fd conn" "closed conn' = closed conn"
  using assms by (auto simp: queue_line_def conn_bounded_def split: if_splits)

lemma split_step_bounded:
  assumes "split_step conn = Some (conn', d, over)" "conn_bounded conn"
  shows "conn_bounded conn'" "prefix (pending conn) (pending conn')" "d \<Longrightarrow> \<not> busy conn \<and> busy conn'"
    "busy conn \<Longrightarrow> busy conn'" "fd conn' = fd conn" "closed conn' = closed conn"
proof -
  from assms(1) obtain k where k: "find_newline (inbox conn) = Some k"
    and q: "queue_line (strip_return (take k (inbox conn))) (conn\<lparr>inbox := drop (k + 1) (inbox conn)\<rparr>) = (conn', d, over)"
    by (auto simp: split_step_def split: option.splits)
  have b: "conn_bounded (conn\<lparr>inbox := drop (k + 1) (inbox conn)\<rparr>)" using assms(2) by (simp add: conn_bounded_def)
  have n: "newline \<notin> set (strip_return (take k (inbox conn)))"
    using find_newline_first [OF k] strip_return_set by blast
  from queue_line_bounded [OF q b n] show "conn_bounded conn'" "prefix (pending conn) (pending conn')"
    "d \<Longrightarrow> \<not> busy conn \<and> busy conn'" "busy conn \<Longrightarrow> busy conn'" "fd conn' = fd conn" "closed conn' = closed conn"
    by simp_all
qed

lemma split_loop_bounded:
  "split_loop conn d0 = (conn', d, over) \<Longrightarrow> conn_bounded conn \<Longrightarrow>
     conn_bounded conn' \<and> prefix (pending conn) (pending conn') \<and> (d \<longrightarrow> d0 \<or> \<not> busy conn \<and> busy conn') \<and>
     (busy conn \<longrightarrow> busy conn') \<and> (\<not> over \<longrightarrow> newline \<notin> set (inbox conn'))"
proof (induction "length (inbox conn)" arbitrary: conn d0 rule: less_induct)
  case less
  show ?case
  proof (cases "split_step conn")
    case None
    with less.prems show ?thesis
      by (subst (asm) split_loop.simps) (auto simp: split_step_def dest: find_newline_None split: option.splits)
  next
    case (Some r)
    obtain conn1 d1 over1 where r: "r = (conn1, d1, over1)" by (cases r)
    note step = Some [unfolded r]
    note b = split_step_bounded [OF step less.prems(2)]
    show ?thesis
    proof (cases over1)
      case True
      then have "conn' = conn1" "d = (d0 \<or> d1)" "over"
        using less.prems(1) by (subst (asm) split_loop.simps; simp add: step)+
      with b show ?thesis by blast
    next
      case False
      then have "split_loop conn1 (d0 \<or> d1) = (conn', d, over)"
        using less.prems(1) by (subst (asm) split_loop.simps) (simp add: step)
      from less.hyps [OF split_step_shorter [OF step] this b(1)] b show ?thesis by (meson prefix_order.trans)
    qed
  qed
qed

section \<open>Properties\<close>



text \<open>
  C38. The limits hold: a call of \<^verbatim>\<open>handleReadable\<close> that finds at most the allowed number of queries
  waiting, none of them empty, too long or with a newline inside, leaves them so and only appends to
  them; a task is dispatched only when none was under way; and unless the connection is dropped, what stays
  in the inbox is an unfinished line within the length limit.
\<close>

theorem handleReadable_limits:
  assumes "handleReadable reads conn = Some (conn', dispatched, dropped)" and "conn_bounded conn"
  shows "conn_bounded conn' \<and> prefix (pending conn) (pending conn') \<and>
    (dispatched \<longrightarrow> \<not> busy conn \<and> busy conn') \<and>
    (\<not> dropped \<longrightarrow> length (inbox conn') \<le> kMaxLineBytes \<and> newline \<notin> set (inbox conn'))"
proof -
  from assms(1) obtain box peer over where
    s: "split_loop (conn\<lparr>inbox := box\<rparr>) False = (conn', dispatched, over)"
    and dropped: "dropped = (peer \<or> over \<or> length (inbox conn') > kMaxLineBytes)"
    by (auto simp: handleReadable_def split: option.splits prod.splits)
  have "conn_bounded (conn\<lparr>inbox := box\<rparr>)" using assms(2) by (simp add: conn_bounded_def)
  from split_loop_bounded [OF s this] dropped show ?thesis by auto
qed

theorem handleReadable_limits_witness:
  "\<exists>conn'. handleReadable [Read_bytes (''A'' @ [newline] @ ''B''), Read_errno EAGAIN] (new_Connection 7) = Some (conn', True, False) \<and>
     conn_bounded conn' \<and> length (inbox conn') \<le> kMaxLineBytes"
proof -
  let ?c = "new_Connection 7" and ?reads = "[Read_bytes (''A'' @ [newline] @ ''B''), Read_errno EAGAIN]"
  have "conn_bounded ?c" by (simp add: conn_bounded_def new_Connection_def)
  moreover have "handleReadable ?reads ?c = Some (?c\<lparr>inbox := ''B'', pending := [''A''], busy := True\<rparr>, True, False)"
    by (simp add: handleReadable_def split_loop.simps split_step_def queue_line_def strip_return_def new_Connection_def
        newline_def kMaxLineBytes_def kMaxPendingQueries_def)
  ultimately show ?thesis using handleReadable_limits by blast
qed

text \<open>
  C39. \<^verbatim>\<open>writeAll\<close> sends a reply whole or says so: whatever the system answers, what was sent is a
  prefix of the data, and the call returns \<^verbatim>\<open>true\<close> exactly when it is all of it.
\<close>

theorem writeAll_whole_or_false:
  assumes "writeAll sends data = Some (sent, ok)"
  shows "prefix sent data \<and> (ok \<longleftrightarrow> sent = data)"
  using assms
proof (induction sends data arbitrary: sent ok rule: writeAll.induct)
  case (3 n sends c cs)
  show ?case
  proof (cases "n > 0")
    case True
    with 3(2) obtain s where s: "writeAll sends (drop n (c # cs)) = Some (s, ok)" "sent = take n (c # cs) @ s" by auto
    from 3(1) [OF True s(1)] obtain z where z: "drop n (c # cs) = s @ z" "ok \<longleftrightarrow> z = []" by (auto simp: prefix_def)
    then have "c # cs = sent @ z" using s(2) by (metis append.assoc append_take_drop_id)
    with z(2) show ?thesis by (auto simp: prefix_def)
  qed (use 3(2) in simp)
qed (auto split: if_splits)

theorem writeAll_whole_or_false_witness:
  "writeAll [Send_bytes 2, Send_would_block 1, Send_interrupted, Send_bytes 1] ''OK!'' = Some (''OK!'', True) \<and> prefix ''OK!'' ''OK!''"
proof -
  have "writeAll [Send_bytes 2, Send_would_block 1, Send_interrupted, Send_bytes 1] ''OK!'' = Some (''OK!'', True)" by simp
  from writeAll_whole_or_false [OF this] this show ?thesis by blast
qed



end
