(* ===== verification/Server_Inv.thy ===== *)
theory Server_Inv
  imports Server_System TCPServer_Spec
begin

text \<open>
  The invariant of the server under every interleaving of its event loop and its worker tasks: at
  most one task for each connection and one exactly when it is busy, a connection in the table
  exactly until it is dropped, and a descriptor open exactly until its connection is dropped and its
  last task has ended. No step fails under it.
\<close>

section \<open>The invariant\<close>

definition njobs :: "Server \<Rightarrow> nat \<Rightarrow> nat" where
  "njobs s c = count_list (map fst (jobs s)) c"

text \<open>The event loop still has to dispatch a task for the connection.\<close>

fun dispatching :: "loop_pc \<Rightarrow> nat \<Rightarrow> bool" where
  "dispatching (In_split c' d peer rest) c \<longleftrightarrow> c' = c \<and> d"
| "dispatching (After_split c' d dropping rest) c \<longleftrightarrow> c' = c \<and> d"
| "dispatching _ c \<longleftrightarrow> False"

fun loop_conn :: "loop_pc \<Rightarrow> nat option" where
  "loop_conn (In_split c d peer rest) = Some c"
| "loop_conn (After_split c d dropping rest) = Some c"
| "loop_conn _ = None"

definition conn_inv :: "Server \<Rightarrow> nat \<Rightarrow> bool" where
  "conn_inv s c \<longleftrightarrow>
     (let k = conns s ! c in
        ((fd k, c) \<in> set (connections s) \<longleftrightarrow> \<not> closed k) \<and>
        (fd_owner s (fd k) = Some c \<longleftrightarrow> \<not> closed k \<or> busy k) \<and>
        njobs s c + (if dispatching (loop s) c then 1 else 0) = (if busy k then 1 else 0) \<and>
        (pending k \<noteq> [] \<longrightarrow> busy k) \<and> conn_bounded k)"

definition tables_ok :: "Server \<Rightarrow> bool" where
  "tables_ok s \<longleftrightarrow>
     distinct (map fst (connections s)) \<and>
     (\<forall>f c. (f, c) \<in> set (connections s) \<longrightarrow> c < length (conns s) \<and> fd (conns s ! c) = f) \<and>
     (\<forall>f c. fd_owner s f = Some c \<longrightarrow> c < length (conns s) \<and> fd (conns s ! c) = f) \<and>
     (\<forall>c. 0 < njobs s c \<longrightarrow> c < length (conns s)) \<and>
     (\<forall>c. loop_conn (loop s) = Some c \<longrightarrow> c < length (conns s) \<and> \<not> closed (conns s ! c))"

definition server_inv :: "Server \<Rightarrow> bool" where
  "server_inv s \<longleftrightarrow> tables_ok s \<and> (\<forall>c<length (conns s). conn_inv s c)"

lemma server_invD: "server_inv s \<Longrightarrow> tables_ok s" "server_inv s \<Longrightarrow> c < length (conns s) \<Longrightarrow> conn_inv s c"
  by (simp_all add: server_inv_def)

lemma conn_invD:
  assumes "conn_inv s c"
  shows "(fd (conns s ! c), c) \<in> set (connections s) \<longleftrightarrow> \<not> closed (conns s ! c)"
    "fd_owner s (fd (conns s ! c)) = Some c \<longleftrightarrow> \<not> closed (conns s ! c) \<or> busy (conns s ! c)"
    "njobs s c + (if dispatching (loop s) c then 1 else 0) = (if busy (conns s ! c) then 1 else 0)"
    "pending (conns s ! c) \<noteq> [] \<Longrightarrow> busy (conns s ! c)" "conn_bounded (conns s ! c)"
  using assms unfolding conn_inv_def Let_def by simp_all

lemma tables_okD:
  assumes "tables_ok s"
  shows "distinct (map fst (connections s))"
    "(f, c) \<in> set (connections s) \<Longrightarrow> c < length (conns s)" "(f, c) \<in> set (connections s) \<Longrightarrow> fd (conns s ! c) = f"
    "fd_owner s f = Some c \<Longrightarrow> c < length (conns s)" "fd_owner s f = Some c \<Longrightarrow> fd (conns s ! c) = f"
    "0 < njobs s c \<Longrightarrow> c < length (conns s)"
    "loop_conn (loop s) = Some c \<Longrightarrow> c < length (conns s)" "loop_conn (loop s) = Some c \<Longrightarrow> \<not> closed (conns s ! c)"
  using assms unfolding tables_ok_def by simp_all

text \<open>A step that leaves a connection and what refers to it alone.\<close>

lemma conn_inv_same:
  assumes "conn_inv s c" "conns s' ! c = conns s ! c"
    "(fd (conns s ! c), c) \<in> set (connections s') \<longleftrightarrow> (fd (conns s ! c), c) \<in> set (connections s)"
    "fd_owner s' (fd (conns s ! c)) = Some c \<longleftrightarrow> fd_owner s (fd (conns s ! c)) = Some c"
    "njobs s' c = njobs s c" "dispatching (loop s') c = dispatching (loop s) c"
  shows "conn_inv s' c"
  using assms unfolding conn_inv_def Let_def by simp

lemma tables_frame:
  assumes "tables_ok s" "length (conns s') = length (conns s)" "\<And>c. fd (conns s' ! c) = fd (conns s ! c)"
    "distinct (map fst (connections s'))" "set (connections s') \<subseteq> set (connections s)"
    "\<And>f c. fd_owner s' f = Some c \<Longrightarrow> fd_owner s f = Some c"
    "\<And>c. 0 < njobs s' c \<Longrightarrow> 0 < njobs s c \<or> c < length (conns s)"
    "\<And>c. loop_conn (loop s') = Some c \<Longrightarrow> c < length (conns s) \<and> \<not> closed (conns s' ! c)"
  shows "tables_ok s'"
  unfolding tables_ok_def assms(2,3)
proof (intro conjI allI impI)
  note t = tables_okD [OF assms(1)]
  fix f c
  show "distinct (map fst (connections s'))" by (rule assms(4))
  assume "(f, c) \<in> set (connections s')"
  then have "(f, c) \<in> set (connections s)" using assms(5) by blast
  then show "c < length (conns s)" "fd (conns s ! c) = f" using t(2,3) by blast+
next
  note t = tables_okD [OF assms(1)]
  fix f c
  assume "fd_owner s' f = Some c"
  then show "c < length (conns s)" "fd (conns s ! c) = f" using t(4,5) assms(6) by blast+
next
  fix c
  assume "0 < njobs s' c"
  then show "c < length (conns s)" using assms(7) tables_okD(6) [OF assms(1)] by blast
qed (use assms(8) in blast)+

lemma tables_conn:
  assumes t: "tables_ok s" and c: "conns s' = (conns s)[c := k]" "c < length (conns s)"
    and k: "fd k = fd (conns s ! c)" "closed k = closed (conns s ! c)"
    and s': "connections s' = connections s" "\<And>f c. fd_owner s' f = Some c \<Longrightarrow> fd_owner s f = Some c"
      "\<And>c. 0 < njobs s' c \<Longrightarrow> 0 < njobs s c \<or> c < length (conns s)"
      "\<And>c. loop_conn (loop s') = Some c \<Longrightarrow> c < length (conns s) \<and> \<not> closed (conns s ! c)"
  shows "tables_ok s'"
proof (rule tables_frame [OF t])
  have at: "conns s' ! c' = (if c' = c then k else conns s ! c')" for c' using c by simp
  show "fd (conns s' ! c') = fd (conns s ! c')" for c' by (simp add: at k)
  show "c' < length (conns s) \<and> \<not> closed (conns s' ! c')" if "loop_conn (loop s') = Some c'" for c'
    using s'(4) [OF that] by (auto simp: at k)
qed (use s' c tables_okD(1) [OF t] in simp_all)

text \<open>A step of one connection: the others stay as they are.\<close>

lemma inv_one:
  assumes inv: "server_inv s" and tables: "tables_ok s'" and one: "conn_inv s' c"
    and len: "length (conns s') = length (conns s)"
    and others: "\<And>c'. c' \<noteq> c \<Longrightarrow> conns s' ! c' = conns s ! c'"
      "\<And>f c'. c' \<noteq> c \<Longrightarrow> (f, c') \<in> set (connections s') \<longleftrightarrow> (f, c') \<in> set (connections s)"
      "\<And>f c'. c' \<noteq> c \<Longrightarrow> fd_owner s' f = Some c' \<longleftrightarrow> fd_owner s f = Some c'"
      "\<And>c'. c' \<noteq> c \<Longrightarrow> njobs s' c' = njobs s c'"
      "\<And>c'. c' \<noteq> c \<Longrightarrow> dispatching (loop s') c' = dispatching (loop s) c'"
  shows "server_inv s'"
  unfolding server_inv_def
proof (intro conjI allI impI tables)
  fix c' assume "c' < length (conns s')"
  then have c': "c' < length (conns s)" by (simp add: len)
  show "conn_inv s' c'"
  proof (cases "c' = c")
    case False
    show ?thesis
      by (rule conn_inv_same [OF server_invD(2) [OF inv c']]) (use others False in blast)+
  qed (simp add: one)
qed

text \<open>A step of the loop that concerns no connection.\<close>

lemma inv_loop:
  assumes inv: "server_inv s"
    and s': "conns s' = conns s" "connections s' = connections s" "fd_owner s' = fd_owner s" "jobs s' = jobs s"
    and loop: "\<And>c. dispatching (loop s') c = dispatching (loop s) c"
      "\<And>c. loop_conn (loop s') = Some c \<Longrightarrow> c < length (conns s) \<and> \<not> closed (conns s ! c)"
  shows "server_inv s'"
proof -
  have n: "njobs s' c = njobs s c" for c by (simp add: njobs_def s')
  have "tables_ok s'"
    by (rule tables_frame [OF server_invD(1) [OF inv]])
      (use tables_okD(1) [OF server_invD(1) [OF inv]] loop(2) in \<open>simp_all add: s' n\<close>)
  moreover have "conn_inv s' c" if "c < length (conns s')" for c
    by (rule conn_inv_same [OF server_invD(2) [OF inv]]) (use that in \<open>simp_all add: s' n loop(1)\<close>)
  ultimately show ?thesis by (simp add: server_inv_def)
qed

text \<open>Jobs that move on or end.\<close>

lemma njobs_move: "j < length (jobs s) \<Longrightarrow> fst (jobs s ! j) = c \<Longrightarrow> njobs (s\<lparr>jobs := (jobs s)[j := (c, pc)]\<rparr>) c' = njobs s c'"
  unfolding njobs_def by (metis Server.select_convs(5) Server.surjective Server.update_convs(5) fst_conv list_update_id map_update nth_map)

lemma njobs_erase:
  assumes "j < length (jobs s)" "fst (jobs s ! j) = c"
  shows "njobs (s\<lparr>jobs := erase_at j (jobs s)\<rparr>) c' + (if c' = c then 1 else 0) = njobs s c'"
proof -
  have "jobs s = take j (jobs s) @ jobs s ! j # drop (Suc j) (jobs s)" using assms(1) by (rule id_take_nth_drop)
  then have "njobs s c' = count_list (map fst (take j (jobs s) @ jobs s ! j # drop (Suc j) (jobs s))) c'"
    by (simp add: njobs_def)
  with assms(2) show ?thesis by (simp add: njobs_def erase_at_def)
qed

section \<open>Every step keeps it\<close>

text \<open>What the invariant says of a connection with a job.\<close>

lemma job_conn:
  assumes inv: "server_inv s" and j: "j < length (jobs s)" "jobs s ! j = (c, pc)"
  shows "c < length (conns s)" "busy (conns s ! c)" "njobs s c = 1" "\<not> dispatching (loop s) c"
    "fd_owner s (fd (conns s ! c)) = Some c"
proof -
  have "0 < njobs s c"
    using njobs_erase [of j s c c] j by simp
  then show c: "c < length (conns s)" using tables_okD(6) [OF server_invD(1) [OF inv]] by blast
  note i = conn_invD [OF server_invD(2) [OF inv c]]
  show b: "busy (conns s ! c)" using i(3) \<open>0 < njobs s c\<close> by (auto split: if_splits)
  show "njobs s c = 1" "\<not> dispatching (loop s) c" using i(3) b \<open>0 < njobs s c\<close> by (auto split: if_splits)
  show "fd_owner s (fd (conns s ! c)) = Some c" using i(2) b by simp
qed

lemma set_conn_simps [simp]:
  "conns (set_conn c k s) = (conns s)[c := k]" "connections (set_conn c k s) = connections s"
  "fd_owner (set_conn c k s) = fd_owner s" "jobs (set_conn c k s) = jobs s" "loop (set_conn c k s) = loop s"
  "db (set_conn c k s) = db s" "njobs (set_conn c k s) c' = njobs s c'"
  by (simp_all add: set_conn_def njobs_def)

lemma njobs_simps [simp]:
  "njobs (s\<lparr>conns := x1\<rparr>) c = njobs s c" "njobs (s\<lparr>connections := x2\<rparr>) c = njobs s c"
  "njobs (s\<lparr>fd_owner := x3\<rparr>) c = njobs s c" "njobs (s\<lparr>loop := x4\<rparr>) c = njobs s c"
  "njobs (s\<lparr>db := x5\<rparr>) c = njobs s c" "njobs (s\<lparr>running := x6\<rparr>) c = njobs s c"
  by (simp_all add: njobs_def)

lemma job_ended_inv:
  assumes inv: "server_inv s" and j: "j < length (jobs s)" "jobs s ! j = (c, pc)"
    and s': "conns s' = (conns s)[c := (conns s ! c)\<lparr>pending := [], busy := False\<rparr>]" "connections s' = connections s"
      "fd_owner s' = (if closed (conns s ! c) then (fd_owner s)(fd (conns s ! c) := None) else fd_owner s)"
      "jobs s' = erase_at j (jobs s)" "loop s' = loop s"
  shows "server_inv s'"
proof (rule inv_one [OF inv, of _ c])
  note b = job_conn [OF inv j] and t = server_invD(1) [OF inv]
  note i = conn_invD [OF server_invD(2) [OF inv b(1)]]
  have n: "njobs s' c' = (if c' = c then 0 else njobs s c')" for c'
    using njobs_erase [OF j(1), of c c'] j(2) b(3) by (auto simp: njobs_def s' split: if_splits)
  show "tables_ok s'"
  proof (rule tables_conn [OF t s'(1) b(1)])
    show "loop_conn (loop s') = Some c' \<Longrightarrow> c' < length (conns s) \<and> \<not> closed (conns s ! c')" for c'
      using tables_okD(7,8) [OF t] s'(5) by simp
    show "fd_owner s' f = Some c' \<Longrightarrow> fd_owner s f = Some c'" for f c'
      by (simp add: s'(3) split: if_splits)
  qed (simp_all add: s' n split: if_splits)
  show "conn_inv s' c" using i b n by (simp add: conn_inv_def conn_bounded_def s')
  show "fd_owner s' f = Some c' \<longleftrightarrow> fd_owner s f = Some c'" if "c' \<noteq> c" for f c'
    using that b(5) by (simp add: s')
  show "njobs s' c' = njobs s c'" if "c' \<noteq> c" for c' using that n by simp
qed (simp_all add: s')

lemma job_end_inv:
  assumes inv: "server_inv s" and j: "j < length (jobs s)" "jobs s ! j = (c, pc)"
  shows "\<exists>s'. job_end c ((conns s ! c)\<lparr>pending := []\<rparr>) (s\<lparr>jobs := erase_at j (jobs s)\<rparr>) = Inr s' \<and> server_inv s' \<and>
    db s' = db s \<and> jobs s' = erase_at j (jobs s) \<and> conns s' = (conns s)[c := (conns s ! c)\<lparr>pending := [], busy := False\<rparr>]"
proof -
  note b = job_conn [OF assms]
  let ?k = "(conns s ! c)\<lparr>pending := [], busy := False\<rparr>" and ?f = "fd (conns s ! c)"
  let ?s1 = "set_conn c ?k (s\<lparr>jobs := erase_at j (jobs s)\<rparr>)"
  let ?s' = "if closed (conns s ! c) then ?s1\<lparr>fd_owner := (fd_owner s)(?f := None)\<rparr> else ?s1"
  have "job_end c ((conns s ! c)\<lparr>pending := []\<rparr>) (s\<lparr>jobs := erase_at j (jobs s)\<rparr>) = Inr ?s'"
    using b(1,5) by (simp add: job_end_def close_fd_def Let_def)
  moreover have "server_inv ?s'" by (rule job_ended_inv [OF assms]) simp_all
  ultimately show ?thesis by (intro exI [of _ ?s']) simp
qed

text \<open>A connection whose flags do not change.\<close>

lemma inv_conn:
  assumes inv: "server_inv s" and c: "c < length (conns s)"
    and s': "conns s' = (conns s)[c := k]" "connections s' = connections s" "fd_owner s' = fd_owner s"
      "\<And>c'. njobs s' c' = njobs s c'" "\<And>c'. dispatching (loop s') c' = dispatching (loop s) c'"
      "\<And>c'. loop_conn (loop s') = Some c' \<Longrightarrow> c' < length (conns s) \<and> \<not> closed (conns s ! c')"
    and k: "fd k = fd (conns s ! c)" "closed k = closed (conns s ! c)" "busy k = busy (conns s ! c)"
      "pending k \<noteq> [] \<Longrightarrow> busy k" "conn_bounded k"
  shows "server_inv s'"
proof (rule inv_one [OF inv, of _ c])
  show "tables_ok s'"
    by (rule tables_conn [OF server_invD(1) [OF inv] s'(1) c k(1,2)]) (use s' in simp_all)
  show "conn_inv s' c"
    using conn_invD [OF server_invD(2) [OF inv c]] c k unfolding conn_inv_def Let_def by (simp add: s')
qed (simp_all add: s')

lemma queue_line_busy:
  "queue_line line conn = (conn', d, over) \<Longrightarrow> busy conn' = (busy conn \<or> d)"
  "queue_line line conn = (conn', d, over) \<Longrightarrow> (pending conn \<noteq> [] \<Longrightarrow> busy conn) \<Longrightarrow> pending conn' \<noteq> [] \<Longrightarrow> busy conn'"
  by (auto simp: queue_line_def split: if_splits)

lemma split_step_busy:
  assumes "split_step conn = Some (conn', d, over)"
  shows "busy conn' = (busy conn \<or> d)" "(pending conn \<noteq> [] \<Longrightarrow> busy conn) \<Longrightarrow> pending conn' \<noteq> [] \<Longrightarrow> busy conn'"
  using assms queue_line_busy by (fastforce simp: split_step_def split: option.splits)+

lemma batch_split_inv:
  assumes inv: "server_inv s" and loop: "loop s = In_split c d peer rest" and act: "batch_split c d peer rest s = (es, s')"
  shows "server_inv s'"
proof -
  note t = server_invD(1) [OF inv]
  have c: "c < length (conns s)" "\<not> closed (conns s ! c)" using tables_okD(7,8) [OF t, of c] loop by simp_all
  show ?thesis
  proof (cases "split_step (conns s ! c)")
    case None
    with act have "s' = s\<lparr>loop := After_split c d (peer \<or> length (inbox (conns s ! c)) > kMaxLineBytes) rest\<rparr>"
      by (simp add: batch_split_def)
    then show ?thesis by (intro inv_loop [OF inv]) (use c loop in auto)
  next
    case (Some r)
    obtain k d' over where r: "r = (k, d', over)" by (cases r)
    note step = Some [unfolded r]
    note i = conn_invD [OF server_invD(2) [OF inv c(1)]]
    note b = split_step_bounded [OF step i(5)] and busy = split_step_busy [OF step]
    let ?L = "if over then After_split c (d \<or> d') True rest else In_split c (d \<or> d') peer rest"
    from act have s': "s' = set_conn c k (s\<lparr>loop := ?L\<rparr>)" by (simp add: batch_split_def step)
    show ?thesis
    proof (rule inv_one [OF inv, of _ c])
      show "tables_ok s'"
        by (rule tables_conn [OF t _ c(1) b(5,6)]) (use c in \<open>auto simp: s' split: if_splits\<close>)
      show "conn_inv s' c"
        using i b c busy loop unfolding conn_inv_def Let_def by (auto simp: s' split: if_splits)
    qed (use loop in \<open>auto simp: s' split: if_splits\<close>)
  qed
qed

lemma map_of_connections:
  assumes "tables_ok s" "(f, c) \<in> set (connections s)"
  shows "map_of (connections s) f = Some c"
  using assms tables_okD(1) by (metis map_of_is_SomeI)

lemma dropped_inv:
  assumes inv: "server_inv s" and loop: "loop_conn (loop s) = None"
    and c: "c < length (conns s)" "\<not> closed (conns s ! c)"
    and s': "conns s' = (conns s)[c := (conns s ! c)\<lparr>closed := True\<rparr>]"
      "connections s' = filter (\<lambda>(g, _). g \<noteq> fd (conns s ! c)) (connections s)"
      "fd_owner s' = (if busy (conns s ! c) then fd_owner s else (fd_owner s)(fd (conns s ! c) := None))"
      "jobs s' = jobs s" "loop s' = loop s"
  shows "server_inv s'"
proof (rule inv_one [OF inv, of _ c])
  note t = server_invD(1) [OF inv] and i = conn_invD [OF server_invD(2) [OF inv c(1)]]
  have at: "conns s' ! c' = (if c' = c then (conns s ! c)\<lparr>closed := True\<rparr> else conns s ! c')" for c'
    using c(1) s'(1) by simp
  have n: "njobs s' c' = njobs s c'" for c' by (simp add: njobs_def s')
  have mem: "(fd (conns s ! c), c) \<in> set (connections s)" and own: "fd_owner s (fd (conns s ! c)) = Some c"
    using i(1,2) c(2) by simp_all
  show "tables_ok s'"
  proof (rule tables_frame [OF t])
    show "fd (conns s' ! c') = fd (conns s ! c')" for c' by (simp add: at)
    show "distinct (map fst (connections s'))" using tables_okD(1) [OF t] by (simp add: s' distinct_map_filter)
    show "fd_owner s' g = Some c' \<Longrightarrow> fd_owner s g = Some c'" for g c' by (simp add: s' split: if_splits)
  qed (use loop n in \<open>auto simp: s'\<close>)
  show "conn_inv s' c" using i c own unfolding conn_inv_def Let_def by (auto simp: at s'(2-5) n conn_bounded_def)
  show "(g, c') \<in> set (connections s') \<longleftrightarrow> (g, c') \<in> set (connections s)" if "c' \<noteq> c" for g c'
    using map_of_connections [OF t mem] map_of_connections [OF t, of g c'] that by (auto simp: s'(2))
  show "fd_owner s' g = Some c' \<longleftrightarrow> fd_owner s g = Some c'" if "c' \<noteq> c" for g c' using that own by (simp add: s'(3))
  show "njobs s' c' = njobs s c'" for c' by (rule n)
qed (simp_all add: s')

lemma dropConnection_inv:
  assumes inv: "server_inv s" and loop: "loop_conn (loop s) = None"
    and c: "c < length (conns s)" "\<not> closed (conns s ! c)"
  shows "\<exists>s'. dropConnection (fd (conns s ! c)) s = Inr s' \<and> server_inv s' \<and> db s' = db s \<and> jobs s' = jobs s \<and>
    conns s' = (conns s)[c := (conns s ! c)\<lparr>closed := True\<rparr>]"
proof -
  note t = server_invD(1) [OF inv] and i = conn_invD [OF server_invD(2) [OF inv c(1)]]
  let ?f = "fd (conns s ! c)" and ?k = "(conns s ! c)\<lparr>closed := True\<rparr>"
  let ?s1 = "set_conn c ?k (s\<lparr>connections := filter (\<lambda>(g, _). g \<noteq> ?f) (connections s)\<rparr>)"
  let ?s' = "if busy (conns s ! c) then ?s1 else ?s1\<lparr>fd_owner := (fd_owner s)(?f := None)\<rparr>"
  have "(?f, c) \<in> set (connections s)" "fd_owner s ?f = Some c" using i(1,2) c(2) by simp_all
  then have "dropConnection ?f s = Inr ?s'"
    using map_of_connections [OF t] c(1) by (simp add: dropConnection_def close_fd_def Let_def)
  moreover have "server_inv ?s'" by (rule dropped_inv [OF assms]) simp_all
  ultimately show ?thesis by (intro exI [of _ ?s']) simp
qed

lemma batch_finish_inv:
  assumes inv: "server_inv s" and loop: "loop s = After_split c d dropping rest"
  shows "\<exists>s'. batch_finish c d dropping rest s = Inr s' \<and> server_inv s' \<and> db s' = db s \<and>
    (jobs s' = jobs s \<or> jobs s' = jobs s @ [(c, Job_top)]) \<and> map pending (conns s') = map pending (conns s)"
proof -
  note t = server_invD(1) [OF inv]
  have c: "c < length (conns s)" "\<not> closed (conns s ! c)" using tables_okD(7,8) [OF t, of c] loop by simp_all
  note i = conn_invD [OF server_invD(2) [OF inv c(1)]]
  show ?thesis
  proof (cases d)
    case True
    let ?s' = "s\<lparr>jobs := jobs s @ [(c, Job_top)], loop := After_split c False dropping rest\<rparr>"
    have n: "njobs ?s' c' = njobs s c' + (if c' = c then 1 else 0)" for c' by (simp add: njobs_def)
    have "server_inv ?s'"
    proof (rule inv_one [OF inv, of _ c])
      show "tables_ok ?s'"
        by (rule tables_conn [OF t, of _ c "conns s ! c"]) (use c n in \<open>auto split: if_splits\<close>)
      show "conn_inv ?s' c" using i loop True n by (simp add: conn_inv_def split: if_splits)
    qed (use loop n in simp_all)
    with True show ?thesis by (intro exI [of _ ?s']) (simp add: batch_finish_def)
  next
    case False
    let ?s = "s\<lparr>loop := In_batch rest\<rparr>"
    have inv': "server_inv ?s" by (rule inv_loop [OF inv]) (use loop False in auto)
    show ?thesis
    proof (cases dropping)
      case True
      from dropConnection_inv [OF inv', of c] c obtain s' where
        s': "dropConnection (fd (conns s ! c)) ?s = Inr s'" "server_inv s'" "db s' = db s" "jobs s' = jobs s"
        "conns s' = (conns s)[c := (conns s ! c)\<lparr>closed := True\<rparr>]" by auto
      have "map pending (conns s') = map pending (conns s)" using c(1) by (simp add: s'(5) map_update list_update_same_conv)
      with True False s' show ?thesis by (intro exI [of _ s']) (simp add: batch_finish_def)
    qed (use False inv' in \<open>simp add: batch_finish_def\<close>)
  qed
qed

lemma unowned_unknown:
  assumes inv: "server_inv s" and f: "fd_owner s f = None"
  shows "f \<notin> fst ` set (connections s)"
proof
  assume "f \<in> fst ` set (connections s)"
  then obtain c where c: "(f, c) \<in> set (connections s)" by auto
  note k = tables_okD(2,3) [OF server_invD(1) [OF inv] c]
  from conn_invD(1,2) [OF server_invD(2) [OF inv k(1)]] k(2) c f show False by simp
qed

lemma accepted_inv:
  assumes inv: "server_inv s" and f: "fd_owner s f = None" and loop: "loop_conn (loop s) = None"
    and s': "conns s' = conns s @ [new_Connection f]" "connections s' = (f, length (conns s)) # connections s"
      "fd_owner s' = (fd_owner s)(f \<mapsto> length (conns s))" "jobs s' = jobs s" "loop s' = loop s"
  shows "server_inv s'"
  unfolding server_inv_def
proof (intro conjI allI impI)
  note t = server_invD(1) [OF inv]
  let ?n = "length (conns s)"
  have n: "njobs s' c = njobs s c" for c by (simp add: njobs_def s')
  have quiet: "\<not> dispatching (loop s) c" for c using loop by (cases "loop s") auto
  have none: "njobs s ?n = 0" using tables_okD(6) [OF t, of ?n] by auto
  have old: "conns s' ! c = conns s ! c" if "c < ?n" for c using that by (simp add: s' nth_append)
  have new: "conns s' ! ?n = new_Connection f" by (simp add: s')
  have entry: "c < length (conns s') \<and> fd (conns s' ! c) = g" if "c < ?n \<and> fd (conns s ! c) = g \<or> c = ?n \<and> g = f" for c g
    using that old new by (auto simp: s'(1) new_Connection_def nth_append)
  show "tables_ok s'"
    unfolding tables_ok_def
  proof (intro conjI allI impI)
    show "distinct (map fst (connections s'))" using tables_okD(1) [OF t] unowned_unknown [OF inv f] by (simp add: s'(2))
    fix g c
    show "c < length (conns s')" "fd (conns s' ! c) = g" if "(g, c) \<in> set (connections s')"
      using entry [of c g] tables_okD(2,3) [OF t, of g c] that by (auto simp: s'(2))
    show "c < length (conns s')" "fd (conns s' ! c) = g" if "fd_owner s' g = Some c"
      using entry [of c g] tables_okD(4,5) [OF t, of g c] that by (auto simp: s'(3) split: if_splits)
  next
    fix c assume "0 < njobs s' c"
    then show "c < length (conns s')" using tables_okD(6) [OF t, of c] by (simp add: n s'(1))
  qed (use loop s'(5) in simp_all)
  fix c assume "c < length (conns s')"
  then have "c < ?n \<or> c = ?n" by (auto simp: s'(1))
  then show "conn_inv s' c"
  proof
    assume 1: "c < ?n"
    have "fd_owner s (fd (conns s ! c)) = Some c \<Longrightarrow> fd (conns s ! c) \<noteq> f" using f by auto
    with 1 show ?thesis
      by (intro conn_inv_same [OF server_invD(2) [OF inv 1]]) (auto simp: old n s'(2-5))
  next
    assume 2: "c = ?n"
    show ?thesis unfolding conn_inv_def Let_def 2
      by (simp add: s'(2-5) new n none quiet) (simp add: new_Connection_def conn_bounded_def)
  qed
qed

lemma accept_one_inv:
  assumes "server_inv s" "fd_owner s f = None" "loop_conn (loop s) = None"
  shows "server_inv (accept_one f registered s)"
proof (cases registered)
  case True
  have "map_of (connections s) f = None" using unowned_unknown [OF assms(1,2)] by (simp add: map_of_eq_None_iff)
  then show ?thesis by (intro accepted_inv [OF assms]) (simp_all add: accept_one_def Let_def True)
qed (simp add: accept_one_def assms(1))

lemma acceptClients_inv:
  "acceptClients rs s = Some s' \<Longrightarrow> server_inv s \<Longrightarrow> loop_conn (loop s) = None \<Longrightarrow> server_inv s'"
proof (induction rs s rule: acceptClients.induct)
  case (2 f registered rs s)
  then have f: "fd_owner s f = None" by (simp split: if_splits)
  have "loop_conn (loop (accept_one f registered s)) = None"
    using 2(4) by (simp add: accept_one_def Let_def)
  from 2(1) [OF f _ accept_one_inv [OF 2(3) f 2(4)] this] 2(2) f show ?case by simp
qed simp_all

lemma batch_read_inv:
  assumes inv: "server_inv s" and loop: "loop s = In_batch events"
    and c: "map_of (connections s) f = Some c" and act: "batch_read reads c rest s = Some s'"
  shows "server_inv s'"
proof -
  note t = server_invD(1) [OF inv]
  from map_of_SomeD [OF c] have c': "c < length (conns s)" "fd (conns s ! c) = f" using tables_okD(2,3) [OF t] by blast+
  note i = conn_invD [OF server_invD(2) [OF inv c'(1)]]
  have open_: "\<not> closed (conns s ! c)" using i(1) map_of_SomeD [OF c] c'(2) by simp
  from act obtain box peer where
    s': "s' = set_conn c ((conns s ! c)\<lparr>inbox := box\<rparr>) (s\<lparr>loop := In_split c False peer rest\<rparr>)"
    by (auto simp: batch_read_def)
  show ?thesis
    by (rule inv_conn [OF inv c'(1), of _ "(conns s ! c)\<lparr>inbox := box\<rparr>"])
      (use c' open_ loop i(4,5) in \<open>simp_all add: s' conn_bounded_def\<close>)
qed

lemma loop_event_inv:
  assumes inv: "server_inv s" and loop: "loop s = In_batch events" and act: "loop_event accepts reads events s = Some s'"
  shows "server_inv s'"
proof -
  have quiet: "server_inv (s\<lparr>loop := l\<rparr>)" "server_inv (s\<lparr>loop := l, wake := w\<rparr>)" if "loop_conn l = None" for l w
    by (rule inv_loop [OF inv]; use that loop in \<open>cases l; auto\<close>)+
  show ?thesis
  proof (cases events)
    case Nil
    with act quiet show ?thesis by auto
  next
    case (Cons e rest)
    show ?thesis
    proof (cases e)
      case Listen_socket
      with act Cons have "acceptClients accepts (s\<lparr>loop := In_batch rest\<rparr>) = Some s'" by simp
      then show ?thesis by (rule acceptClients_inv) (simp_all add: quiet)
    next
      case (Client f)
      show ?thesis
      proof (cases "map_of (connections s) f")
        case (Some c)
        with act Cons Client have "batch_read reads c rest s = Some s'" by simp
        from batch_read_inv [OF inv loop Some this] show ?thesis .
      qed (use act Cons Client quiet in auto)
    qed (use act Cons quiet in auto)
  qed
qed

text \<open>The steps of a task.\<close>

lemma job_move_inv:
  assumes inv: "server_inv s" and j: "j < length (jobs s)" "jobs s ! j = (c, pc)"
    and s': "conns s' = (conns s)[c := (conns s ! c)\<lparr>pending := qs\<rparr>]" "connections s' = connections s"
      "fd_owner s' = fd_owner s" "jobs s' = (jobs s)[j := (c, pc')]" "loop s' = loop s"
    and qs: "set qs \<subseteq> set (pending (conns s ! c))" "length qs \<le> length (pending (conns s ! c))"
  shows "server_inv s'"
proof (rule inv_conn [OF inv job_conn(1) [OF inv j] s'(1-3)])
  note i = conn_invD [OF server_invD(2) [OF inv job_conn(1) [OF inv j]]]
  show "njobs s' c' = njobs s c'" for c' using njobs_move [of j s c pc' c'] j by (simp add: njobs_def s')
  show "conn_bounded ((conns s ! c)\<lparr>pending := qs\<rparr>)" using i(5) qs by (auto simp: conn_bounded_def list_all_iff)
  show "loop_conn (loop s') = Some c' \<Longrightarrow> c' < length (conns s) \<and> \<not> closed (conns s ! c')" for c'
    using tables_okD(7,8) [OF server_invD(1) [OF inv]] s'(5) by simp
qed (use job_conn(2) [OF inv j] s'(5) in simp_all)

lemma job_top_inv:
  assumes inv: "server_inv s" and j: "j < length (jobs s)" "jobs s ! j = (c, Job_top)"
  shows "\<exists>s'. job_top j c s = Inr s' \<and> server_inv s' \<and> db s' = db s \<and>
    (pending (conns s ! c) = [] \<and> jobs s' = erase_at j (jobs s) \<and> map pending (conns s') = map pending (conns s) \<or>
     (\<exists>query rest. pending (conns s ! c) = query # rest \<and> jobs s' = (jobs s)[j := (c, Job_query query)] \<and>
        conns s' = (conns s)[c := (conns s ! c)\<lparr>pending := rest\<rparr>]))"
proof (cases "pending (conns s ! c)")
  case Nil
  then have same: "(conns s ! c)\<lparr>pending := []\<rparr> = conns s ! c" by simp
  have c: "c < length (conns s)" using job_conn(1) [OF assms] .
  from job_end_inv [OF assms] obtain s' where s': "job_end c (conns s ! c) (s\<lparr>jobs := erase_at j (jobs s)\<rparr>) = Inr s'"
    "server_inv s'" "db s' = db s" "jobs s' = erase_at j (jobs s)"
    "conns s' = (conns s)[c := (conns s ! c)\<lparr>pending := [], busy := False\<rparr>]" unfolding same by auto
  have "map pending (conns s') = map pending (conns s)"
    using c Nil by (simp add: s'(5) map_update list_update_same_conv)
  with s' Nil show ?thesis by (intro exI [of _ s']) (simp add: job_top_def)
next
  case (Cons query rest)
  let ?s' = "set_conn c ((conns s ! c)\<lparr>pending := rest\<rparr>) (s\<lparr>jobs := (jobs s)[j := (c, Job_query query)]\<rparr>)"
  have "server_inv ?s'"
    by (rule job_move_inv [OF assms, of _ rest "Job_query query"]) (auto simp: Cons)
  then show ?thesis using Cons by (intro exI [of _ ?s']) (simp add: job_top_def)
qed

lemma job_pc_inv:
  assumes inv: "server_inv s" and j: "j < length (jobs s)" "jobs s ! j = (c, pc)"
  shows "server_inv (s\<lparr>db := d, jobs := (jobs s)[j := (c, pc')]\<rparr>)"
  by (rule job_move_inv [OF inv j, of _ "pending (conns s ! c)" pc']) simp_all

end
