(* ===== verification/Server_Spec.thy ===== *)
theory Server_Spec
  imports Server_Inv Query_Props
begin

text \<open>
  What the clients of the server observe: the replies on a connection answer its queries in order, and
  all queries of all connections took effect one after another; descriptors are closed exactly once.
\<close>

section \<open>What happened\<close>

fun queued :: "nat \<Rightarrow> server_event list \<Rightarrow> string list" where
  "queued c [] = []"
| "queued c (Queued c' line # es) = (if c' = c then line # queued c es else queued c es)"
| "queued c (e # es) = queued c es"

text \<open>The queries executed with their replies, of all connections and of one.\<close>

fun executions :: "server_event list \<Rightarrow> (string \<times> string) list" where
  "executions [] = []"
| "executions (Executed c query reply # es) = (query, reply) # executions es"
| "executions (e # es) = executions es"

fun executed :: "nat \<Rightarrow> server_event list \<Rightarrow> (string \<times> string) list" where
  "executed c [] = []"
| "executed c (Executed c' query reply # es) =
     (if c' = c then (query, reply) # executed c es else executed c es)"
| "executed c (e # es) = executed c es"

fun replied :: "nat \<Rightarrow> server_event list \<Rightarrow> string list" where
  "replied c [] = []"
| "replied c (Replied c' reply # es) = (if c' = c then reply # replied c es else replied c es)"
| "replied c (e # es) = replied c es"

lemma queued_append [simp]: "queued c (es @ fs) = queued c es @ queued c fs"
  by (induction c es rule: queued.induct) simp_all

lemma executions_append [simp]: "executions (es @ fs) = executions es @ executions fs"
  by (induction es rule: executions.induct) simp_all

lemma executed_append [simp]: "executed c (es @ fs) = executed c es @ executed c fs"
  by (induction c es rule: executed.induct) simp_all

lemma replied_append [simp]: "replied c (es @ fs) = replied c es @ replied c fs"
  by (induction c es rule: replied.induct) simp_all

lemma queued_map [simp]: "queued c (map (Queued c') ls) = (if c' = c then ls else [])"
  by (induction ls) auto

lemma other_map [simp]:
  "executions (map (Queued c') ls) = []" "executed c (map (Queued c') ls) = []" "replied c (map (Queued c') ls) = []"
  by (induction ls) simp_all

section \<open>What is under way\<close>

fun hand_query :: "job_pc option \<Rightarrow> string list" where
  "hand_query (Some (Job_query query)) = [query]"
| "hand_query _ = []"

fun hand_reply :: "job_pc option \<Rightarrow> string list" where
  "hand_reply (Some (Job_reply reply)) = [reply]"
| "hand_reply _ = []"

definition waiting_queries :: "Server \<Rightarrow> nat \<Rightarrow> string list" where
  "waiting_queries s c = (if c < length (conns s) then pending (conns s ! c) else [])"

definition server_hist :: "database \<Rightarrow> Server \<Rightarrow> server_event list \<Rightarrow> bool" where
  "server_hist d s es \<longleftrightarrow>
     run_queries (map fst (executions es)) d = Inr (map snd (executions es), db s) \<and>
     (\<forall>c. Lost c \<notin> set es \<longrightarrow>
        queued c es = map fst (executed c es) @ hand_query (map_of (jobs s) c) @ waiting_queries s c \<and>
        map (\<lambda>(_, reply). reply @ [newline]) (executed c es) = replied c es @ hand_reply (map_of (jobs s) c))"

lemma hist_silent:
  assumes "server_hist d s es" "db s' = db s"
    "\<And>c. hand_query (map_of (jobs s') c) @ waiting_queries s' c = hand_query (map_of (jobs s) c) @ waiting_queries s c"
    "\<And>c. hand_reply (map_of (jobs s') c) = hand_reply (map_of (jobs s) c)"
  shows "server_hist d s' es"
  using assms by (simp add: server_hist_def)

text \<open>A job is the only one of its connection.\<close>

lemma job_split:
  assumes "server_inv s" "j < length (jobs s)" "jobs s ! j = (c, pc)"
  obtains xs ys where "jobs s = xs @ (c, pc) # ys" "length xs = j" "c \<notin> fst ` set xs" "c \<notin> fst ` set ys"
proof -
  let ?xs = "take j (jobs s)" and ?ys = "drop (Suc j) (jobs s)"
  have js: "jobs s = ?xs @ (c, pc) # ?ys" using id_take_nth_drop [OF assms(2)] assms(3) by simp
  have "count_list (map fst (?xs @ (c, pc) # ?ys)) c = 1"
    using job_conn(3) [OF assms] js by (simp add: njobs_def)
  then have "count_list (map fst ?xs) c = 0" "count_list (map fst ?ys) c = 0" by simp_all
  then have "c \<notin> fst ` set ?xs" "c \<notin> fst ` set ?ys" by (simp_all add: count_list_0_iff)
  with js that [of ?xs ?ys] assms(2) show ?thesis by simp
qed

lemma map_of_job:
  assumes "server_inv s" "j < length (jobs s)" "jobs s ! j = (c, pc)"
  shows "map_of (jobs s) c = Some pc" "map_of ((jobs s)[j := (c, pc')]) = (map_of (jobs s))(c \<mapsto> pc')"
    "map_of (erase_at j (jobs s)) = (map_of (jobs s))(c := None)"
proof -
  obtain xs ys where js: "jobs s = xs @ (c, pc) # ys" "length xs = j" "c \<notin> fst ` set xs" "c \<notin> fst ` set ys"
    by (rule job_split [OF assms])
  have none: "map_of xs c = None" "map_of ys c = None" using js(3,4) by (simp_all add: map_of_eq_None_iff)
  then show "map_of (jobs s) c = Some pc" by (simp add: js(1) map_add_def)
  show "map_of ((jobs s)[j := (c, pc')]) = (map_of (jobs s))(c \<mapsto> pc')"
    using none by (auto simp: js(1) list_update_append simp flip: js(2) simp: map_add_def fun_eq_iff split: option.splits)
  show "map_of (erase_at j (jobs s)) = (map_of (jobs s))(c := None)"
    using none by (auto simp: js(1) erase_at_def simp flip: js(2) simp: map_add_def fun_eq_iff split: option.splits)
qed

lemma waiting_same: "map pending (conns s') = map pending (conns s) \<Longrightarrow> waiting_queries s' c = waiting_queries s c"
  unfolding waiting_queries_def by (metis length_map nth_map)

section \<open>Every step keeps the history\<close>

definition db_good :: "database \<Rightarrow> bool" where
  "db_good d \<longleftrightarrow> db_inv d {#} \<and> plain (database_relations d)"

lemma execute_good:
  assumes "db_good d"
  shows "\<exists>reply d'. execute d query = Inr (reply, d') \<and> db_good d'"
proof -
  from run_queries_spec [of d "{#}" "[query]"] assms obtain rs d' where
    r: "run_queries [query] d = Inr (rs, d')" "db_inv d' {#}"
    "database_relations d' = snd (query_meanings [query] (database_relations d))"
    by (auto simp: db_good_def)
  have "plain (database_relations d')"
    using query_meaning_plain [of "database_relations d" query] assms r(3)
    by (simp add: db_good_def case_prod_beta Let_def)
  with r(1,2) show ?thesis by (auto simp: db_good_def bind_result_eq_Inr)
qed

lemma run_queries_snoc:
  "run_queries qs d = Inr (rs, d') \<Longrightarrow> execute d' query = Inr (reply, d'') \<Longrightarrow>
     run_queries (qs @ [query]) d = Inr (rs @ [reply], d'')"
  by (induction qs arbitrary: d rs) (auto simp: bind_result_eq_Inr)

lemma split_hist:
  assumes hist: "server_hist d s es" and c: "c < length (conns s)" and bounded: "conn_bounded (conns s ! c)"
    and act: "batch_split c dispatch peer rest s = (e, s')"
  shows "server_hist d s' (es @ e)"
proof (cases "split_step (conns s ! c)")
  case None
  with act have "e = []" "db s' = db s" "jobs s' = jobs s" "conns s' = conns s" by (auto simp: batch_split_def)
  with hist_silent [OF hist, of s'] show ?thesis by (simp add: waiting_queries_def)
next
  case (Some r)
  obtain k d' over where r: "r = (k, d', over)" by (cases r)
  note step = Some [unfolded r]
  from split_step_bounded(2) [OF step bounded] obtain ls where ls: "pending k = pending (conns s ! c) @ ls"
    by (auto simp: prefix_def)
  have e: "e = map (Queued c) ls" and s': "db s' = db s" "jobs s' = jobs s" "conns s' = (conns s)[c := k]"
    using act ls by (auto simp: batch_split_def step)
  have w: "waiting_queries s' c' = waiting_queries s c' @ (if c' = c then ls else [])" for c'
    using c ls by (simp add: waiting_queries_def s')
  have "Lost c' \<notin> set (map (Queued c) ls)" for c' by auto
  with hist show ?thesis by (auto simp: server_hist_def s' w e)
qed

lemma execute_hist:
  assumes inv: "server_inv s" and hist: "server_hist d s es"
    and j: "j < length (jobs s)" "jobs s ! j = (c, Job_query query)" and ex: "execute (db s) query = Inr (reply, d')"
  shows "server_hist d (s\<lparr>db := d', jobs := (jobs s)[j := (c, Job_reply (reply @ [newline]))]\<rparr>) (es @ [Executed c query reply])"
proof -
  note m = map_of_job [OF inv j]
  have "run_queries (map fst (executions es) @ [query]) d = Inr (map snd (executions es) @ [reply], d')"
    using hist ex by (intro run_queries_snoc) (auto simp: server_hist_def)
  then show ?thesis using hist m by (auto simp: server_hist_def waiting_queries_def)
qed

lemma reply_hist:
  assumes inv: "server_inv s" and hist: "server_hist d s es" and j: "j < length (jobs s)" "jobs s ! j = (c, Job_reply reply)"
  shows "server_hist d (s\<lparr>jobs := (jobs s)[j := (c, Job_top)]\<rparr>) (es @ [Replied c reply])"
  using hist map_of_job [OF inv j] by (auto simp: server_hist_def waiting_queries_def)

lemma lost_hist:
  assumes inv: "server_inv s" and hist: "server_hist d s es" and j: "j < length (jobs s)" "jobs s ! j = (c, pc)"
    and s': "db s' = db s" "jobs s' = erase_at j (jobs s)" "conns s' = (conns s)[c := k]"
  shows "server_hist d s' (es @ [Lost c])"
  using hist map_of_job [OF inv j] by (auto simp: server_hist_def waiting_queries_def s' nth_list_update)

lemma top_hist:
  assumes inv: "server_inv s" and hist: "server_hist d s es" and j: "j < length (jobs s)" "jobs s ! j = (c, Job_top)"
  shows "\<exists>s'. job_top j c s = Inr s' \<and> server_inv s' \<and> db s' = db s \<and> server_hist d s' es"
proof -
  note m = map_of_job [OF inv j] and c = job_conn(1) [OF inv j]
  from job_top_inv [OF inv j] obtain s' where s': "job_top j c s = Inr s'" "server_inv s'" "db s' = db s"
    and cases: "pending (conns s ! c) = [] \<and> jobs s' = erase_at j (jobs s) \<and> map pending (conns s') = map pending (conns s) \<or>
     (\<exists>query rest. pending (conns s ! c) = query # rest \<and> jobs s' = (jobs s)[j := (c, Job_query query)] \<and>
        conns s' = (conns s)[c := (conns s ! c)\<lparr>pending := rest\<rparr>])" by blast
  from cases have "server_hist d s' es"
  proof (elim disjE conjE exE)
    assume "jobs s' = erase_at j (jobs s)" "map pending (conns s') = map pending (conns s)"
    with m waiting_same [of s' s] show ?thesis by (intro hist_silent [OF hist s'(3)]) simp_all
  next
    fix query rest
    assume "pending (conns s ! c) = query # rest" "jobs s' = (jobs s)[j := (c, Job_query query)]"
      "conns s' = (conns s)[c := (conns s ! c)\<lparr>pending := rest\<rparr>]"
    with m c show ?thesis by (intro hist_silent [OF hist s'(3)]) (simp_all add: waiting_queries_def)
  qed
  with s' show ?thesis by blast
qed

definition server_good :: "database \<Rightarrow> Server \<Rightarrow> server_event list \<Rightarrow> bool" where
  "server_good d s es \<longleftrightarrow> server_inv s \<and> db_good (db s) \<and> server_hist d s es"

lemma server_goodI: "server_inv s \<Longrightarrow> db_good (db s) \<Longrightarrow> server_hist d s es \<Longrightarrow> server_good d s es"
  by (simp add: server_good_def)

text \<open>Steps that only move the event loop, or accept connections with nothing waiting.\<close>

lemma hist_loop:
  assumes "server_hist d s es" "db s' = db s" "jobs s' = jobs s" "\<And>c. waiting_queries s' c = waiting_queries s c"
  shows "server_hist d s' es"
  using hist_silent [OF assms(1,2)] assms(3,4) by simp

lemma acceptClients_same:
  "acceptClients rs s = Some s' \<Longrightarrow>
     db s' = db s \<and> jobs s' = jobs s \<and> (\<forall>c. waiting_queries s' c = waiting_queries s c)"
proof (induction rs s rule: acceptClients.induct)
  case (2 f registered rs s)
  then have f: "fd_owner s f = None" by (simp split: if_splits)
  let ?s = "accept_one f registered s"
  have "db ?s = db s" "jobs ?s = jobs s" "waiting_queries ?s c = waiting_queries s c" for c
    by (simp_all add: accept_one_def Let_def waiting_queries_def nth_append new_Connection_def)
  with 2(1) [OF f] 2(2) f show ?case by simp
qed simp_all

lemma loop_event_hist:
  assumes hist: "server_hist d s es" and inv: "server_inv s" and act: "loop_event accepts reads events s = Some s'"
  shows "server_hist d s' es \<and> db s' = db s"
proof -
  have "db s' = db s \<and> jobs s' = jobs s \<and> (\<forall>c. waiting_queries s' c = waiting_queries s c)"
  proof (cases events)
    case (Cons e rest)
    have quiet: "waiting_queries (s\<lparr>loop := l\<rparr>) c = waiting_queries s c"
      "waiting_queries (s\<lparr>loop := l, wake := w\<rparr>) c = waiting_queries s c" for l w c by (simp_all add: waiting_queries_def)
    show ?thesis
    proof (cases e)
      case Listen_socket
      with act Cons have "acceptClients accepts (s\<lparr>loop := In_batch rest\<rparr>) = Some s'" by simp
      from acceptClients_same [OF this] show ?thesis by (simp add: quiet)
    next
      case (Client f)
      show ?thesis
      proof (cases "map_of (connections s) f")
        case (Some c)
        with act Cons Client obtain box peer where
          "s' = set_conn c ((conns s ! c)\<lparr>inbox := box\<rparr>) (s\<lparr>loop := In_split c False peer rest\<rparr>)"
          by (auto simp: batch_read_def)
        moreover have "pending ((conns s)[c := (conns s ! c)\<lparr>inbox := box\<rparr>] ! c') = pending (conns s ! c')"
          if "c' < length (conns s)" for c' using that by (cases "c' = c") simp_all
        ultimately show ?thesis by (simp add: waiting_queries_def)
      qed (use act Cons Client quiet in auto)
    qed (use act Cons quiet in auto)
  qed (use act in \<open>auto simp: waiting_queries_def\<close>)
  with hist_loop [OF hist] show ?thesis by blast
qed

lemma finish_hist:
  assumes good: "server_good d s es" and loop: "loop s = After_split c dispatch dropping rest"
  shows "\<exists>s'. batch_finish c dispatch dropping rest s = Inr s' \<and> server_good d s' es"
proof -
  from batch_finish_inv [of s, OF _ loop] good obtain s' where
    s': "batch_finish c dispatch dropping rest s = Inr s'" "server_inv s'" "db s' = db s"
    "jobs s' = jobs s \<or> jobs s' = jobs s @ [(c, Job_top)]" "map pending (conns s') = map pending (conns s)"
    unfolding server_good_def by blast
  have "hand_query (map_of (jobs s @ [(c, Job_top)]) c') = hand_query (map_of (jobs s) c')"
    "hand_reply (map_of (jobs s @ [(c, Job_top)]) c') = hand_reply (map_of (jobs s) c')" for c'
    by (simp_all add: map_add_def split: option.splits)
  then have "hand_query (map_of (jobs s') c') = hand_query (map_of (jobs s) c')"
    "hand_reply (map_of (jobs s') c') = hand_reply (map_of (jobs s) c')" for c'
    using s'(4) by metis+
  moreover have "server_hist d s es" "db_good (db s)" using good by (simp_all add: server_good_def)
  ultimately have "server_hist d s' es" "db_good (db s')"
    using hist_silent [of d s es s'] s'(3) waiting_same [OF s'(5)] by simp_all
  with s'(1,2) show ?thesis by (simp add: server_good_def)
qed

lemma write_hist:
  assumes good: "server_good d s es" and j: "j < length (jobs s)" "jobs s ! j = (c, Job_reply reply)"
    and act: "job_write sends j c reply s = Some r"
  shows "\<exists>e s'. r = Inr (e, s') \<and> server_good d s' (es @ e)"
proof -
  have g: "server_inv s" "db_good (db s)" "server_hist d s es" using good by (simp_all add: server_good_def)
  note b = job_conn [OF g(1) j]
  from act b(5) obtain sent ok where w: "writeAll sends reply = Some (sent, ok)"
    by (auto simp: job_write_def split: option.splits)
  show ?thesis
  proof (cases ok)
    case True
    let ?s' = "s\<lparr>jobs := (jobs s)[j := (c, Job_top)]\<rparr>"
    have "server_inv ?s'"
      by (rule job_move_inv [OF g(1) j, of _ "pending (conns s ! c)" Job_top]) simp_all
    moreover from True act b(5) w have "r = Inr ([Replied c reply], ?s')" by (simp add: job_write_def)
    ultimately show ?thesis using reply_hist [OF g(1,3) j] g(2) by (auto simp: server_good_def)
  next
    case False
    from job_end_inv [OF g(1) j] obtain s' where
      s': "job_end c ((conns s ! c)\<lparr>pending := []\<rparr>) (s\<lparr>jobs := erase_at j (jobs s)\<rparr>) = Inr s'" "server_inv s'"
      "db s' = db s" "jobs s' = erase_at j (jobs s)"
      "conns s' = (conns s)[c := (conns s ! c)\<lparr>pending := [], busy := False\<rparr>]" by blast
    with act b(5) w False have "r = Inr ([Lost c], s')" by (simp add: job_write_def)
    with lost_hist [OF g(1,3) j s'(3-5)] s'(2,3) g(2) show ?thesis by (auto simp: server_good_def)
  qed
qed

lemma job_good:
  assumes good: "server_good d s es" and act: "server_act (Job j sends) s = Some r"
  shows "\<exists>e s'. r = Inr (e, s') \<and> server_good d s' (es @ e)"
proof -
  have g: "server_inv s" "db_good (db s)" "server_hist d s es" using good by (simp_all add: server_good_def)
  from act have j: "j < length (jobs s)" by (simp split: if_splits)
  obtain c pc where pc: "jobs s ! j = (c, pc)" by (cases "jobs s ! j")
  show ?thesis
  proof (cases pc)
    case Job_top
    from top_hist [OF g(1,3) j pc [unfolded Job_top]] obtain s' where
      s': "job_top j c s = Inr s'" "server_inv s'" "db s' = db s" "server_hist d s' es" by blast
    with act j pc Job_top have "r = Inr ([], s')" by (simp add: silent_def)
    with s' g(2) show ?thesis by (auto simp: server_good_def)
  next
    case (Job_query query)
    from execute_good [OF g(2), of query] obtain reply d' where ex: "execute (db s) query = Inr (reply, d')" "db_good d'"
      by blast
    let ?s' = "s\<lparr>db := d', jobs := (jobs s)[j := (c, Job_reply (reply @ [newline]))]\<rparr>"
    have "r = Inr ([Executed c query reply], ?s')" using act j pc Job_query ex(1) by (simp add: job_execute_def)
    with execute_hist [OF g(1,3) j pc [unfolded Job_query] ex(1)] ex(2)
      job_pc_inv [OF g(1) j pc, of "Job_reply (reply @ [newline])" d'] show ?thesis by (auto simp: server_good_def)
  next
    case (Job_reply reply)
    with act j pc have "job_write sends j c reply s = Some r" by simp
    with write_hist [OF good j pc [unfolded Job_reply]] show ?thesis by blast
  qed
qed

lemma server_act_good:
  assumes good: "server_good d s es" and act: "server_act a s = Some r"
  shows "\<exists>e s'. r = Inr (e, s') \<and> server_good d s' (es @ e)"
proof -
  have g: "server_inv s" "db_good (db s)" "server_hist d s es" using good by (simp_all add: server_good_def)
  have quiet: "server_good d s' es" if s': "conns s' = conns s" "connections s' = connections s" "fd_owner s' = fd_owner s"
      "jobs s' = jobs s" "db s' = db s" and l: "loop s' = loop s \<or> loop_conn (loop s) = None \<and> loop_conn (loop s') = None" for s'
  proof -
    have "dispatching (loop s') c = dispatching (loop s) c" for c using l by (cases "loop s"; cases "loop s'") auto
    then have "server_inv s'"
      by (intro inv_loop [OF g(1) s'(1-4)]) (use l tables_okD(7,8) [OF server_invD(1) [OF g(1)]] in auto)
    moreover have "server_hist d s' es" by (rule hist_loop [OF g(3) s'(5,4)]) (simp add: waiting_queries_def s')
    ultimately show ?thesis using g(2) by (simp add: server_good_def s')
  qed
  show ?thesis
  proof (cases a)
    case Stop_store
    with act quiet [of "stop_store s"] show ?thesis by (auto simp: stop_store_def)
  next
    case Stop_write
    with act quiet [of "stop_write s"] show ?thesis by (auto simp: stop_write_def split: if_splits)
  next
    case Run_enter
    with act have "loop s = Not_running" "r = Inr ([], run_enter s)" by (simp_all split: loop_pc.splits)
    with quiet [of "run_enter s"] show ?thesis by (simp add: run_enter_def)
  next
    case Loop_test
    with act have "loop s = Loop_top" "r = Inr ([], run_top s)" by (simp_all split: loop_pc.splits)
    with quiet [of "run_top s"] show ?thesis by (simp add: run_top_def)
  next
    case (Loop_wait w)
    with act have "loop s = In_kevent" "r = Inr ([], run_wait w s)" by (simp_all split: loop_pc.splits if_splits)
    with quiet [of "run_wait w s"] show ?thesis by (cases "(w, s)" rule: run_wait.cases) simp_all
  next
    case (Loop_event accepts reads)
    with act obtain events s' where e: "loop s = In_batch events" "loop_event accepts reads events s = Some s'" "r = Inr ([], s')"
      by (auto split: loop_pc.splits)
    with loop_event_inv [OF g(1)] loop_event_hist [OF g(3,1)] g(2) show ?thesis by (auto simp: server_good_def)
  next
    case Loop_split
    with act obtain c dispatch peer rest where loop: "loop s = In_split c dispatch peer rest"
      and r: "r = Inr (batch_split c dispatch peer rest s)" by (auto split: loop_pc.splits)
    obtain e s' where b: "batch_split c dispatch peer rest s = (e, s')" by (cases "batch_split c dispatch peer rest s")
    have c: "c < length (conns s)" using tables_okD(7) [OF server_invD(1) [OF g(1)], of c] loop by simp
    have "db s' = db s" using b by (auto simp: batch_split_def split: option.splits)
    with batch_split_inv [OF g(1) loop b] split_hist [OF g(3) c conn_invD(5) [OF server_invD(2) [OF g(1) c]] b] g(2) r b
    show ?thesis by (auto simp: server_good_def)
  next
    case Loop_finish
    with act obtain c dispatch dropping rest where loop: "loop s = After_split c dispatch dropping rest"
      and r: "r = silent (batch_finish c dispatch dropping rest s)" by (auto split: loop_pc.splits)
    from finish_hist [OF good loop] r show ?thesis by (auto simp: silent_def)
  next
    case (Job j sends)
    with job_good [OF good] act show ?thesis by blast
  qed
qed

lemma server_run_good:
  assumes "run_of (server_init (new_database hs hi)) server_step s es"
  shows "server_good (new_database hs hi) s es"
  using assms
proof (induction rule: run_of.induct)
  case (run_init s)
  let ?d = "new_database hs hi"
  have "database_relations ?d = Map.empty" using new_database_inv(2) [of hs hi] by (simp add: database_relations_def)
  then have "db_good ?d" using new_database_inv(1) [of hs hi] by (simp add: db_good_def plain_def)
  moreover have "server_inv (new_Server ?d)"
    by (simp add: server_inv_def tables_ok_def new_Server_def njobs_def)
  moreover have "server_hist ?d (new_Server ?d) []"
    by (simp add: server_hist_def new_Server_def waiting_queries_def)
  ultimately show ?case using run_init by (simp add: server_good_def server_init_def new_Server_def)
next
  case (run_step s es e t)
  then obtain a where "server_act a s = Some (Inr (e, t))" by (auto simp: server_step_def)
  with server_act_good [OF run_step(3)] show ?case by fastforce
qed

end
