(* ===== verification/Server_Props.thy ===== *)
theory Server_Props
  imports Server_Spec
begin

text \<open>
  The properties of every run of the server: serial replies, and descriptors closed once.
\<close>

section \<open>Runs\<close>

fun server_acts :: "server_action list \<Rightarrow> server_event list \<Rightarrow> Server \<Rightarrow> (server_event list \<times> Server) option" where
  "server_acts [] es s = Some (es, s)"
| "server_acts (a # as) es s =
     (case server_act a s of Some (Inr (e, s')) \<Rightarrow> server_acts as (es @ e) s' | _ \<Rightarrow> None)"

lemma server_acts_run:
  "server_acts as es s = Some (es', s') \<Longrightarrow> run_of (server_init d) server_step s es \<Longrightarrow>
     run_of (server_init d) server_step s' es'"
proof (induction as arbitrary: es s)
  case (Cons a as)
  then obtain e s1 where s1: "server_act a s = Some (Inr (e, s1))" "server_acts as (es @ e) s1 = Some (es', s')"
    by (auto split: option.splits sum.splits prod.splits)
  then have "server_step s e s1" by (auto simp: server_step_def)
  from Cons.IH [OF s1(2) run_step [OF Cons.prems(2) this]] show ?case .
qed simp

lemma new_Server_run: "run_of (server_init d) server_step (new_Server d) []"
  by (rule run_init) (simp add: server_init_def)

text \<open>A client connects, sends a line that is no statement, gets the error and goes away.\<close>

definition demo_db :: database where
  "demo_db = new_database (\<lambda>_. 0) (\<lambda>_. 0)"

definition demo_actions :: "server_action list" where
  "demo_actions =
     [Run_enter, Loop_test, Loop_wait (Inr [Listen_socket]), Loop_event [Accepted 9 True, Accept_errno EAGAIN] [],
      Loop_event [] [], Loop_test, Loop_wait (Inr [Client 9]), Loop_event [] [Read_bytes [CHR ''x'', newline], Read_bytes []], Loop_split, Loop_split,
      Loop_finish, Job 0 [], Loop_finish, Job 0 [], Job 0 [Send_bytes 1000], Job 0 []]"

lemma demo_reply: "\<exists>reply d. execute demo_db ''x'' = Inr (reply, d) \<and> is_error reply \<and> length reply < 1000"
proof -
  have "map_sum id (\<lambda>(reply, d). is_error reply \<and> length reply < 1000) (execute demo_db ''x'') = Inr True" by code_simp
  then show ?thesis by (cases "execute demo_db ''x''") auto
qed

lemma writeAll_once: "data \<noteq> [] \<Longrightarrow> length data \<le> n \<Longrightarrow> writeAll [Send_bytes n] data = Some (data, True)"
  by (cases data) auto

lemma demo_run:
  "\<exists>reply s. server_acts demo_actions [] (new_Server demo_db) =
       Some ([Queued 0 ''x'', Executed 0 ''x'' reply, Replied 0 (reply @ [newline])], s) \<and>
     is_error reply \<and> fd_owner s = Map.empty \<and> jobs s = [] \<and> loop s = In_batch [] \<and>
     map closed (conns s) = [True] \<and> connections s = []"
proof -
  from demo_reply obtain reply d where r: "execute demo_db ''x'' = Inr (reply, d)" "is_error reply" "length reply < 1000" by blast
  have w: "writeAll [Send_bytes 1000] (reply @ [newline]) = Some (reply @ [newline], True)"
    by (rule writeAll_once) (use r(3) in simp_all)
  have nl: "CHR ''x'' \<noteq> newline" by (simp add: newline_def)
  show ?thesis
    unfolding demo_actions_def new_Server_def
    by (simp add: run_enter_def run_top_def max_events_def accept_one_def new_Connection_def batch_read_def set_conn_def batch_split_def
        split_step_def queue_line_def strip_return_def nl kMaxLineBytes_def kMaxPendingQueries_def batch_finish_def silent_def
        dropConnection_def close_fd_def job_top_def job_end_def job_execute_def job_write_def erase_at_def r w Let_def)
qed

section \<open>Serial replies\<close>

text \<open>
  C4. The server answers as if it were serial: for every interleaving of the event loop with any number of
  worker tasks, and whatever the system calls answer, all executed queries of all connections took effect
  one after another on the empty database, each reply being the one its query means on plain relations.
  On a connection that no write failed on, the queries executed, the one a worker holds and the
  ones waiting are the lines received, in order, and the replies written are those of the executed queries, in
  order, except for the last one while it is still to be written. No step closes or writes to a
  descriptor that is not the connection's own, and no query ends in undefined behaviour.
\<close>

theorem server_serial:
  assumes "run_of (server_init (new_database hs hi)) server_step s es"
  shows "run_queries (map fst (executions es)) (new_database hs hi) = Inr (map snd (executions es), db s) \<and>
    list_all2 replies_exactly (fst (query_meanings (map fst (executions es)) Map.empty)) (map snd (executions es)) \<and>
    (\<forall>c. Lost c \<notin> set es \<longrightarrow>
       queued c es = map fst (executed c es) @ hand_query (map_of (jobs s) c) @ waiting_queries s c \<and>
       map (\<lambda>(_, reply). reply @ [newline]) (executed c es) = replied c es @ hand_reply (map_of (jobs s) c)) \<and>
    (\<forall>a e. server_act a s \<noteq> Some (Inl e))"
proof -
  let ?d = "new_database hs hi"
  have good: "server_good ?d s es" using assms by (rule server_run_good)
  then have hist: "server_hist ?d s es" by (simp add: server_good_def)
  have D: "database_relations ?d = Map.empty"
    using new_database_inv(2) [of hs hi] by (simp add: database_relations_def)
  have "plain (database_relations ?d)" unfolding D by (simp add: plain_def)
  from run_queries_spec [OF new_database_inv(1) this, of "map fst (executions es)"] hist
  have "list_all2 replies_exactly (fst (query_meanings (map fst (executions es)) Map.empty)) (map snd (executions es))"
    unfolding D server_hist_def by auto
  moreover have "server_act a s \<noteq> Some (Inl e)" for a e using server_act_good [OF good, of a "Inl e"] by auto
  ultimately show ?thesis using hist unfolding server_hist_def by blast
qed

theorem server_serial_witness:
  "\<exists>reply s. server_acts demo_actions [] (new_Server demo_db) =
       Some ([Queued 0 ''x'', Executed 0 ''x'' reply, Replied 0 (reply @ [newline])], s) \<and>
     run_queries [''x''] demo_db = Inr ([reply], db s) \<and> is_error reply"
proof -
  let ?es = "\<lambda>reply. [Queued 0 ''x'', Executed 0 ''x'' reply, Replied 0 (reply @ [newline])]"
  from demo_run obtain reply s where r: "server_acts demo_actions [] (new_Server demo_db) = Some (?es reply, s)" "is_error reply"
    by blast
  from server_serial [OF server_acts_run [OF r(1) new_Server_run, unfolded demo_db_def]]
  have "run_queries (map fst (executions (?es reply))) demo_db = Inr (map snd (executions (?es reply)), db s)"
    unfolding demo_db_def by blast
  with r show ?thesis by auto
qed

section \<open>Descriptors\<close>

lemma close_all_owner:
  "distinct (map fst cs) \<Longrightarrow> (\<And>f c. (f, c) \<in> set cs \<Longrightarrow> fd_owner s f = Some c) \<Longrightarrow>
     \<exists>s'. close_all cs s = Inr s' \<and> fd_owner s' = (\<lambda>f. if f \<in> fst ` set cs then None else fd_owner s f)"
proof (induction cs arbitrary: s)
  case (Cons x cs)
  obtain f c where x: "x = (f, c)" by (cases x)
  let ?s = "s\<lparr>fd_owner := (fd_owner s)(f := None)\<rparr>"
  have "fd_owner ?s g = Some c'" if "(g, c') \<in> set cs" for g c'
  proof -
    have "g \<noteq> f" using that Cons.prems(1) x by force
    with that Cons.prems(2) show ?thesis by simp
  qed
  with Cons.IH [of ?s] Cons.prems(1) obtain s' where
    s': "close_all cs ?s = Inr s'" "fd_owner s' = (\<lambda>g. if g \<in> fst ` set cs then None else fd_owner ?s g)" by auto
  moreover have "fd_owner s f = Some c" using Cons.prems(2) x by simp
  ultimately show ?case by (auto simp: x fun_eq_iff)
qed simp

lemma destroy_closes:
  assumes inv: "server_inv s" and rest: "jobs s = []" "loop_conn (loop s) = None"
  shows "\<exists>s'. destroy_Server s = Some (Inr s') \<and> fd_owner s' = Map.empty"
proof -
  note t = tables_okD [OF server_invD(1) [OF inv]]
  have own: "fd_owner s f = Some c" if "(f, c) \<in> set (connections s)" for f c
    using conn_invD(1,2) [OF server_invD(2) [OF inv t(2) [OF that]]] t(3) [OF that] that by simp
  have idle: "\<not> dispatching (loop s) c" for c using rest(2) by (cases "loop s") auto
  obtain s' where s': "close_all (connections s) s = Inr s'"
    "fd_owner s' = (\<lambda>f. if f \<in> fst ` set (connections s) then None else fd_owner s f)"
    using close_all_owner [OF t(1), of s] own by blast
  have "f \<in> fst ` set (connections s)" if f: "fd_owner s f = Some c" for f c
  proof -
    note i = conn_invD [OF server_invD(2) [OF inv t(4) [OF f]]]
    have "\<not> busy (conns s ! c)" using i(3) rest(1) idle by (simp add: njobs_def split: if_splits)
    then have "(f, c) \<in> set (connections s)" using i(1,2) f t(5) [OF f] by simp
    then show ?thesis by force
  qed
  then have "fd_owner s' f = None" for f unfolding s'(2) by (cases "fd_owner s f") auto
  with s'(1) rest(1) show ?thesis by (auto simp: destroy_Server_def)
qed

text \<open>
  C14. Every descriptor is closed exactly once: in every reachable state a connection's descriptor is its
  own and open exactly until the event loop has dropped the connection and its last task has ended; a
  busy connection has exactly one task, submitted or about to be, and only a busy one has
  queries waiting; and once \<^verbatim>\<open>run\<close> has ended and the pool has drained, the destructor closes every
  descriptor that is still open and no other.
\<close>

theorem descriptors_closed_once:
  assumes "run_of (server_init (new_database hs hi)) server_step s es"
  shows "(\<forall>c<length (conns s).
      (fd_owner s (fd (conns s ! c)) = Some c) = (\<not> closed (conns s ! c) \<or> busy (conns s ! c)) \<and>
      count_list (map fst (jobs s)) c + (if dispatching (loop s) c then 1 else 0) = (if busy (conns s ! c) then 1 else 0) \<and>
      (pending (conns s ! c) = [] \<or> busy (conns s ! c))) \<and>
    (jobs s = [] \<and> loop_conn (loop s) = None \<longrightarrow> (\<exists>s'. destroy_Server s = Some (Inr s') \<and> fd_owner s' = Map.empty))"
proof -
  have inv: "server_inv s" using server_run_good [OF assms] by (simp add: server_good_def)
  have "(fd_owner s (fd (conns s ! c)) = Some c) = (\<not> closed (conns s ! c) \<or> busy (conns s ! c)) \<and>
      count_list (map fst (jobs s)) c + (if dispatching (loop s) c then 1 else 0) = (if busy (conns s ! c) then 1 else 0) \<and>
      (pending (conns s ! c) = [] \<or> busy (conns s ! c))" if "c < length (conns s)" for c
    using conn_invD(2-4) [OF server_invD(2) [OF inv that]] unfolding njobs_def by blast
  with destroy_closes [OF inv] show ?thesis by blast
qed

theorem descriptors_closed_once_witness:
  "\<exists>es s s'. server_acts demo_actions [] (new_Server demo_db) = Some (es, s) \<and> map closed (conns s) = [True] \<and>
     destroy_Server s = Some (Inr s') \<and> fd_owner s' = Map.empty"
proof -
  from demo_run obtain reply s where r: "server_acts demo_actions [] (new_Server demo_db) =
      Some ([Queued 0 ''x'', Executed 0 ''x'' reply, Replied 0 (reply @ [newline])], s)" "jobs s = []"
    "loop s = In_batch []" "map closed (conns s) = [True]" by (elim exE conjE) (rule that)
  from descriptors_closed_once [OF server_acts_run [OF r(1) new_Server_run, unfolded demo_db_def]] r(2,3)
  obtain s' where "destroy_Server s = Some (Inr s')" "fd_owner s' = Map.empty" by auto
  with r(1,4) show ?thesis by (intro exI conjI)
qed

end
