(* ===== verification/Server_Shutdown.thy ===== *)
theory Server_Shutdown
  imports Server_Props
begin

text \<open>
  Stopping the server: after \<^verbatim>\<open>stop\<close> the event loop returns and the tasks of the pool end.
\<close>

text \<open>What the event loop has still to do before it reads \<^verbatim>\<open>running_\<close> again.\<close>

definition loop_rank :: "Server \<Rightarrow> nat \<times> nat \<times> nat" where
  "loop_rank s =
     (case loop s of
        In_batch events \<Rightarrow> (length events + 1, 0, 0)
      | In_split c d peer rest \<Rightarrow> (length rest + 1, 2, length (inbox (conns s ! c)))
      | After_split c d dropping rest \<Rightarrow> (length rest + 1, 1, if d then 1 else 0)
      | In_kevent \<Rightarrow> (max_events + 2, 0, 0)
      | Loop_top \<Rightarrow> (0, 1, 0)
      | _ \<Rightarrow> (0, 0, 0))"

abbreviation rank_less :: "((nat \<times> nat \<times> nat) \<times> (nat \<times> nat \<times> nat)) set" where
  "rank_less \<equiv> less_than <*lex*> less_than <*lex*> less_than"

fun of_stop :: "server_action \<Rightarrow> bool" where
  "of_stop Stop_store = True"
| "of_stop Stop_write = True"
| "of_stop _ = False"

definition loop_ended :: "Server \<Rightarrow> bool" where
  "loop_ended s \<longleftrightarrow> loop s = Loop_returned \<or> (\<exists>e. loop s = Loop_threw e)"

text \<open>The fields that \<^verbatim>\<open>run\<close> and \<^verbatim>\<open>stop\<close> synchronise with.\<close>

definition control :: "Server \<Rightarrow> loop_pc \<times> bool \<times> bool \<times> nat" where
  "control s = (loop s, running s, wake s, stoppers s)"

lemma close_fd_same: "close_fd c s = Inr s' \<Longrightarrow> control s' = control s \<and> conns s' = conns s \<and> jobs s' = jobs s"
  by (auto simp: close_fd_def control_def Let_def split: if_splits)

lemma set_conn_control [simp]: "control (set_conn c k s) = control s" "running (set_conn c k s) = running s"
  "wake (set_conn c k s) = wake s" "stoppers (set_conn c k s) = stoppers s"
  by (simp_all add: set_conn_def control_def)

lemma inbox_update: "inbox k = inbox (cs ! c) \<Longrightarrow> inbox (cs[c := k] ! c') = inbox (cs ! c')"
  by (cases "c < length cs") (auto simp: nth_list_update list_update_beyond not_less)

lemma job_end_same:
  assumes "job_end c k s = Inr s'"
  shows "control s' = control s \<and> conns s' = (conns s)[c := k\<lparr>busy := False\<rparr>] \<and> jobs s' = jobs s"
  using assms by (auto simp: job_end_def Let_def dest!: close_fd_same split: if_splits)

text \<open>What a step of a task does: it ends it, or takes it further.\<close>

fun job_cost :: "job_pc \<Rightarrow> nat" where
  "job_cost Job_top = 0"
| "job_cost (Job_query query) = 2"
| "job_cost (Job_reply reply) = 1"

lemma job_step_shape:
  assumes "server_act (Job j sends) s = Some (Inr (e, s'))"
  shows "\<exists>c pc k. j < length (jobs s) \<and> jobs s ! j = (c, pc) \<and> control s' = control s \<and> conns s' = (conns s)[c := k] \<and>
    inbox k = inbox (conns s ! c) \<and> length (pending k) \<le> length (pending (conns s ! c)) \<and>
    (jobs s' = erase_at j (jobs s) \<or>
     (\<exists>pc'. jobs s' = (jobs s)[j := (c, pc')] \<and>
        job_cost pc' + 3 * length (pending k) < job_cost pc + 3 * length (pending (conns s ! c))))"
proof -
  from assms have j: "j < length (jobs s)" by (simp split: if_splits)
  obtain c pc where pc: "jobs s ! j = (c, pc)" by (cases "jobs s ! j")
  let ?P = "\<lambda>k. control s' = control s \<and> conns s' = (conns s)[c := k] \<and>
    inbox k = inbox (conns s ! c) \<and> length (pending k) \<le> length (pending (conns s ! c)) \<and>
    (jobs s' = erase_at j (jobs s) \<or>
     (\<exists>pc'. jobs s' = (jobs s)[j := (c, pc')] \<and>
        job_cost pc' + 3 * length (pending k) < job_cost pc + 3 * length (pending (conns s ! c))))"
  have ended: "?P (k\<lparr>busy := False\<rparr>)"
    if "job_end c k (s\<lparr>jobs := erase_at j (jobs s)\<rparr>) = Inr s'" "inbox k = inbox (conns s ! c)"
      "length (pending k) \<le> length (pending (conns s ! c))" for k
    using job_end_same [OF that(1)] that(2,3) by (simp add: control_def)
  have "\<exists>k. ?P k"
  proof (cases pc)
    case Job_top
    show ?thesis
    proof (cases "pending (conns s ! c)")
      case Nil
      with assms j pc Job_top have "job_end c (conns s ! c) (s\<lparr>jobs := erase_at j (jobs s)\<rparr>) = Inr s'"
        by (simp add: silent_def job_top_def bind_result_eq_Inr)
      from ended [OF this] show ?thesis by blast
    next
      case (Cons q qs)
      with assms j pc Job_top have "s' = set_conn c ((conns s ! c)\<lparr>pending := qs\<rparr>) (s\<lparr>jobs := (jobs s)[j := (c, Job_query q)]\<rparr>)"
        by (simp add: silent_def job_top_def)
      with Cons Job_top show ?thesis
        by (intro exI [of _ "(conns s ! c)\<lparr>pending := qs\<rparr>"]) (auto simp: control_def intro!: exI [of _ "Job_query q"])
    qed
  next
    case (Job_query query)
    with assms j pc have "job_execute j c query s = Inr (e, s')" by simp
    then obtain reply d where "s' = s\<lparr>db := d, jobs := (jobs s)[j := (c, Job_reply reply)]\<rparr>"
      by (auto simp: job_execute_def bind_result_eq_Inr)
    with Job_query show ?thesis
      by (intro exI [of _ "conns s ! c"]) (auto simp: control_def intro!: exI [of _ "Job_reply reply"])
  next
    case (Job_reply reply)
    with assms j pc have w: "job_write sends j c reply s = Some (Inr (e, s'))" by simp
    then obtain sent ok where ok: "writeAll sends reply = Some (sent, ok)" "fd_owner s (fd (conns s ! c)) = Some c"
      by (auto simp: job_write_def split: if_splits option.splits)
    show ?thesis
    proof (cases ok)
      case False
      with w ok have "job_end c ((conns s ! c)\<lparr>pending := []\<rparr>) (s\<lparr>jobs := erase_at j (jobs s)\<rparr>) = Inr s'"
        by (simp add: job_write_def bind_result_eq_Inr)
      from ended [OF this] show ?thesis by auto
    next
      case True
      with w ok have "s' = s\<lparr>jobs := (jobs s)[j := (c, Job_top)]\<rparr>" by (simp add: job_write_def)
      with Job_reply show ?thesis
        by (intro exI [of _ "conns s ! c"]) (auto simp: control_def intro!: exI [of _ Job_top])
    qed
  qed
  with j pc show ?thesis by blast
qed

lemma job_same:
  assumes "server_act (Job j sends) s = Some (Inr (e, s'))"
  shows "control s' = control s \<and> loop_rank s' = loop_rank s"
proof -
  from job_step_shape [OF assms] obtain c k where
    s': "control s' = control s" "conns s' = (conns s)[c := k]" "inbox k = inbox (conns s ! c)" by blast
  then have "inbox (conns s' ! c') = inbox (conns s ! c')" for c' by (simp add: inbox_update)
  with s'(1) show ?thesis by (simp add: loop_rank_def control_def split: loop_pc.splits)
qed

text \<open>The work left to the tasks.\<close>

definition job_work :: "Server \<Rightarrow> nat" where
  "job_work s = (\<Sum>(c, pc) \<leftarrow> jobs s. 1 + job_cost pc + 3 * length (pending (conns s ! c)))"

lemma sum_list_split: "j < length xs \<Longrightarrow> sum_list (map f xs) = f (xs ! j) + sum_list (map f (erase_at j xs))"
  for f :: "'a \<Rightarrow> nat"
  by (subst id_take_nth_drop [of j xs]) (simp_all add: erase_at_def)

lemma erase_at_update: "erase_at j (xs[j := x]) = erase_at j xs"
  by (simp add: erase_at_def)

lemma job_work_step:
  assumes inv: "server_inv s" and act: "server_act (Job j sends) s = Some (Inr (e, s'))"
  shows "job_work s' < job_work s"
proof -
  from job_step_shape [OF act] obtain c pc k where j: "j < length (jobs s)" "jobs s ! j = (c, pc)"
    and k: "conns s' = (conns s)[c := k]" "length (pending k) \<le> length (pending (conns s ! c))"
    and moved: "jobs s' = erase_at j (jobs s) \<or> (\<exists>pc'. jobs s' = (jobs s)[j := (c, pc')] \<and>
        job_cost pc' + 3 * length (pending k) < job_cost pc + 3 * length (pending (conns s ! c)))" by blast
  let ?f = "\<lambda>t (c, pc). 1 + job_cost pc + 3 * length (pending (conns t ! c))"
  have le: "length (pending (conns s' ! c')) \<le> length (pending (conns s ! c'))" for c'
    using k by (cases "c < length (conns s)") (auto simp: nth_list_update list_update_beyond not_less)
  then have rest: "sum_list (map (?f s') xs) \<le> sum_list (map (?f s) xs)" for xs
    by (intro sum_list_mono) auto
  note w = sum_list_split [OF j(1), of "?f s"]
  from moved show ?thesis
  proof (elim disjE exE conjE)
    assume "jobs s' = erase_at j (jobs s)"
    with w rest [of "erase_at j (jobs s)"] j(2) show ?thesis by (simp add: job_work_def)
  next
    fix pc'
    assume pc': "jobs s' = (jobs s)[j := (c, pc')]" "job_cost pc' + 3 * length (pending k) < job_cost pc + 3 * length (pending (conns s ! c))"
    have "?f s' (c, pc') < ?f s (c, pc)"
      using pc'(2) k job_conn(1) [OF inv j] by simp
    moreover have "job_work s' = ?f s' (c, pc') + sum_list (map (?f s') (erase_at j (jobs s)))"
      using sum_list_split [of j "jobs s'" "?f s'"] j(1) by (simp add: job_work_def pc'(1) erase_at_update)
    ultimately show ?thesis using w rest [of "erase_at j (jobs s)"] j(2) by (simp add: job_work_def)
  qed
qed

lemma acceptClients_loop: "acceptClients rs s = Some s' \<Longrightarrow> loop s' = loop s \<and> running s' = running s \<and> stoppers s' = stoppers s"
  by (induction rs s rule: acceptClients.induct) (auto simp: accept_one_def Let_def split: if_splits)

lemma loop_event_rank:
  assumes "loop s = In_batch events" "loop_event accepts reads events s = Some s'"
  shows "(loop_rank s', loop_rank s) \<in> rank_less \<and> running s' = running s \<and> stoppers s' = stoppers s \<and> loop s' \<noteq> Not_running"
proof (cases events)
  case (Cons e rest)
  then show ?thesis
    using assms by (cases e) (auto simp: loop_rank_def batch_read_def dest!: acceptClients_loop split: option.splits)
qed (use assms in \<open>auto simp: loop_rank_def\<close>)

lemma split_rank:
  assumes "loop s = In_split c d peer rest" "batch_split c d peer rest s = (e, s')" "c < length (conns s)"
  shows "(loop_rank s', loop_rank s) \<in> rank_less \<and> running s' = running s \<and> stoppers s' = stoppers s \<and> loop s' \<noteq> Not_running"
proof (cases "split_step (conns s ! c)")
  case None
  with assms(1,2) show ?thesis by (auto simp: batch_split_def loop_rank_def)
next
  case (Some r)
  obtain conn d' over where r: "r = (conn, d', over)" by (cases r)
  have s': "s' = set_conn c conn (s\<lparr>loop := (if over then After_split c (d \<or> d') True rest else In_split c (d \<or> d') peer rest)\<rparr>)"
    using assms(2) Some r by (simp add: batch_split_def)
  have "length (inbox conn) < length (inbox (conns s ! c))" using split_step_shorter Some r by simp
  with assms(1,3) show ?thesis by (cases over) (simp_all add: s' loop_rank_def set_conn_def)
qed

lemma dropConnection_same: "dropConnection f s = Inr s' \<Longrightarrow> loop s' = loop s \<and> running s' = running s \<and> stoppers s' = stoppers s"
  by (auto simp: dropConnection_def control_def set_conn_def Let_def dest!: close_fd_same split: option.splits if_splits)

lemma finish_rank:
  assumes "loop s = After_split c d dropping rest" "batch_finish c d dropping rest s = Inr s'"
  shows "(loop_rank s', loop_rank s) \<in> rank_less \<and> running s' = running s \<and> stoppers s' = stoppers s \<and> loop s' \<noteq> Not_running"
proof (cases "\<not> d \<and> dropping")
  case True
  with assms(2) have "dropConnection (fd (conns s ! c)) (s\<lparr>loop := In_batch rest\<rparr>) = Inr s'"
    by (simp add: batch_finish_def)
  from dropConnection_same [OF this] assms(1) show ?thesis by (simp add: loop_rank_def)
next
  case False
  with assms show ?thesis by (cases d) (auto simp: batch_finish_def loop_rank_def)
qed

lemma wait_rank:
  assumes "loop s = In_kevent" "kevent_answers r s"
  shows "(loop_rank (run_wait r s), loop_rank s) \<in> rank_less \<and> running (run_wait r s) = running s \<and>
    stoppers (run_wait r s) = stoppers s \<and> loop (run_wait r s) \<noteq> Not_running"
  using assms by (cases "(r, s)" rule: run_wait.cases) (simp_all add: loop_rank_def)

text \<open>No call of \<^verbatim>\<open>stop\<close> is missed by a loop that went on to wait: the pipe is readable, or about to be.\<close>

definition wake_ok :: "Server \<Rightarrow> bool" where
  "wake_ok s \<longleftrightarrow> (loop s = In_kevent \<longrightarrow> running s \<or> wake s \<or> 0 < stoppers s)"

lemma wake_ok_control: "control s' = control s \<Longrightarrow> wake_ok s \<Longrightarrow> wake_ok s'"
  by (simp add: control_def wake_ok_def)

lemma loop_event_leaves: "loop_event accepts reads events s = Some s' \<Longrightarrow> loop s' \<noteq> In_kevent \<and> loop s' \<noteq> Loop_returned"
  by (cases "(accepts, reads, events, s)" rule: loop_event.cases)
    (auto simp: batch_read_def dest!: acceptClients_loop split: option.splits)

lemma wake_ok_step:
  assumes "wake_ok s" "server_act a s = Some (Inr (e, s'))"
  shows "wake_ok s'"
proof (cases a)
  case (Loop_wait r)
  with assms show ?thesis
    by (cases "(r, s)" rule: run_wait.cases) (auto simp: wake_ok_def split: loop_pc.splits if_splits)
next
  case (Loop_event accepts reads)
  with assms loop_event_leaves show ?thesis by (auto simp: wake_ok_def split: loop_pc.splits)
next
  case Loop_split
  with assms show ?thesis by (auto simp: wake_ok_def batch_split_def split: loop_pc.splits option.splits if_splits)
next
  case Loop_finish
  with assms obtain c d dropping rest where "batch_finish c d dropping rest s = Inr s'"
    by (auto simp: silent_def bind_result_eq_Inr split: loop_pc.splits)
  then have "loop s' \<noteq> In_kevent" by (auto simp: batch_finish_def dest!: dropConnection_same split: if_splits)
  then show ?thesis by (simp add: wake_ok_def)
next
  case (Job j sends)
  with job_same [of j sends s e s'] assms wake_ok_control show ?thesis by blast
qed (use assms in \<open>auto simp: wake_ok_def stop_store_def stop_write_def run_enter_def run_top_def split: loop_pc.splits if_splits\<close>)

lemma wake_ok_run: "run_of (server_init d) server_step s es \<Longrightarrow> wake_ok s"
proof (induction rule: run_of.induct)
  case (run_init s)
  then show ?case by (simp add: server_init_def new_Server_def wake_ok_def)
next
  case (run_step s es e t)
  then obtain a where "server_act a s = Some (Inr (e, t))" by (auto simp: server_step_def)
  with wake_ok_step run_step show ?case by blast
qed

lemma loop_can_move:
  assumes "loop s \<noteq> Not_running" "loop s = In_kevent \<Longrightarrow> wake s"
  shows "loop_ended s \<or> (\<exists>a r. \<not> of_stop a \<and> server_act a s = Some r)"
proof (cases "loop s")
  case Loop_top
  then show ?thesis by (intro disjI2 exI [of _ Loop_test]) simp
next
  case In_kevent
  with assms(2) show ?thesis by (intro disjI2 exI [of _ "Loop_wait (Inr [Wake_pipe])"]) (simp add: max_events_def)
next
  case (In_batch events)
  have "\<exists>s'. loop_event [Accept_errno EAGAIN] [Read_errno EAGAIN] events s = Some s'"
  proof (cases events)
    case (Cons e rest)
    then show ?thesis by (cases e) (auto simp: batch_read_def split: option.splits)
  qed simp
  with In_batch show ?thesis by (intro disjI2 exI [of _ "Loop_event [Accept_errno EAGAIN] [Read_errno EAGAIN]"]) auto
next
  case (In_split c d peer rest)
  then show ?thesis by (intro disjI2 exI [of _ Loop_split]) simp
next
  case (After_split c d dropping rest)
  then show ?thesis by (intro disjI2 exI [of _ Loop_finish]) simp
qed (use assms in \<open>auto simp: loop_ended_def\<close>)

definition work :: "Server \<Rightarrow> (nat \<times> nat \<times> nat) \<times> nat" where
  "work s = (loop_rank s, job_work s)"

abbreviation work_less :: "(((nat \<times> nat \<times> nat) \<times> nat) \<times> ((nat \<times> nat \<times> nat) \<times> nat)) set" where
  "work_less \<equiv> rank_less <*lex*> less_than"

lemma wf_work_less: "wf work_less"
  by (simp add: wf_lex_prod)

lemma stopped_step:
  assumes inv: "server_inv s" and stopped: "\<not> running s" "loop s \<noteq> Not_running"
    and act: "server_act a s = Some (Inr (e, s'))"
  shows "\<not> running s' \<and> loop s' \<noteq> Not_running \<and>
    (if of_stop a then work s' = work s else (work s', work s) \<in> work_less \<and> stoppers s' = stoppers s)"
proof (cases a)
  case Loop_test
  with act stopped show ?thesis by (auto simp: run_top_def work_def loop_rank_def split: loop_pc.splits)
next
  case (Loop_wait r)
  with act have "loop s = In_kevent" "kevent_answers r s" "s' = run_wait r s" by (simp_all split: loop_pc.splits if_splits)
  with wait_rank stopped Loop_wait show ?thesis by (simp add: work_def)
next
  case (Loop_event accepts reads)
  with act obtain events where "loop s = In_batch events" "loop_event accepts reads events s = Some s'"
    by (auto split: loop_pc.splits)
  from loop_event_rank [OF this] stopped Loop_event show ?thesis by (simp add: work_def)
next
  case Loop_split
  with act obtain c d peer rest where l: "loop s = In_split c d peer rest" "batch_split c d peer rest s = (e, s')"
    by (auto split: loop_pc.splits)
  have "c < length (conns s)" using tables_okD(7) [OF server_invD(1) [OF inv], of c] l(1) by simp
  with split_rank [OF l] stopped Loop_split show ?thesis by (simp add: work_def)
next
  case Loop_finish
  with act obtain c d dropping rest where "loop s = After_split c d dropping rest" "batch_finish c d dropping rest s = Inr s'"
    by (auto simp: silent_def bind_result_eq_Inr split: loop_pc.splits)
  from finish_rank [OF this] stopped Loop_finish show ?thesis by (simp add: work_def)
next
  case (Job j sends)
  with job_same [of j sends s e s'] job_work_step [OF inv, of j sends e s'] act stopped show ?thesis
    by (simp add: work_def control_def del: server_act.simps)
qed (use act stopped in \<open>auto simp: stop_store_def stop_write_def work_def loop_rank_def job_work_def split: loop_pc.splits if_splits\<close>)

lemma job_can_move:
  assumes "jobs s \<noteq> []"
  shows "\<exists>r. server_act (Job 0 [Send_failed]) s = Some r"
proof -
  obtain c pc where "jobs s ! 0 = (c, pc)" by (cases "jobs s ! 0")
  moreover have "\<exists>r. job_write [Send_failed] 0 c reply s = Some r" for reply
  proof -
    obtain sent ok where "writeAll [Send_failed] reply = Some (sent, ok)" by (cases reply) auto
    then show ?thesis by (cases ok) (simp_all add: job_write_def)
  qed
  ultimately show ?thesis using assms by (cases pc) auto
qed

lemma server_can_move:
  assumes "loop s \<noteq> Not_running" "loop s = In_kevent \<Longrightarrow> wake s" "\<not> (loop_ended s \<and> jobs s = [])"
  shows "\<exists>a r. \<not> of_stop a \<and> server_act a s = Some r"
proof (cases "loop_ended s")
  case True
  with assms(3) obtain r where "server_act (Job 0 [Send_failed]) s = Some r" using job_can_move [of s] by blast
  then show ?thesis by (intro exI [of _ "Job 0 [Send_failed]"] exI [of _ r]) simp
next
  case False
  with loop_can_move [OF assms(1,2)] show ?thesis by blast
qed

lemma stopped_wakes:
  assumes "run_of (server_init d) server_step s es" "\<not> running s" "stoppers s = 0"
  shows "loop s = In_kevent \<Longrightarrow> wake s"
  using wake_ok_run [OF assms(1)] assms(2,3) by (simp add: wake_ok_def)



text \<open>The descent as one run: from such a state the server can be run to its end.\<close>

lemma server_acts_Cons:
  "server_act a s = Some (Inr (e, s')) \<Longrightarrow> server_acts (a # as) es s = server_acts as (es @ e) s'"
  by simp

lemma shutdown_run:
  assumes "run_of (server_init (new_database hs hi)) server_step s es" "\<not> running s" "loop s \<noteq> Not_running" "stoppers s = 0"
  shows "\<exists>as es' s'. server_acts as es s = Some (es', s') \<and> loop_ended s' \<and> jobs s' = []"
  using assms
proof (induction "work s" arbitrary: s es rule: wf_induct_rule [OF wf_work_less])
  case (1 s)
  show ?case
  proof (cases "loop_ended s \<and> jobs s = []")
    case True
    then have "server_acts [] es s = Some (es, s) \<and> loop_ended s \<and> jobs s = []" by simp
    then show ?thesis by blast
  next
    case False
    have good: "server_good (new_database hs hi) s es" by (rule server_run_good [OF 1(2)])
    obtain a r where a: "\<not> of_stop a" "server_act a s = Some r"
      using server_can_move [OF 1(4) stopped_wakes [OF 1(2,3,5)] False] by blast
    then obtain e s1 where s1: "server_act a s = Some (Inr (e, s1))" using server_act_good [OF good] by blast
    have inv: "server_inv s" using good by (simp add: server_good_def)
    have step: "server_step s e s1" using s1 by (auto simp: server_step_def)
    from stopped_step [OF inv 1(3,4) s1] a(1)
    have "\<not> running s1" "loop s1 \<noteq> Not_running" "(work s1, work s) \<in> work_less" "stoppers s1 = 0" using 1(5) by simp_all
    with 1(1) [of s1 "es @ e"] run_step [OF 1(2) step] server_acts_Cons [OF s1] show ?thesis by metis
  qed
qed

text \<open>
  A \<^verbatim>\<open>stop\<close> that comes before \<^verbatim>\<open>run\<close> is forgotten: \<^verbatim>\<open>run\<close> sets \<^verbatim>\<open>running_\<close>, drains the pipe and waits again.
\<close>

lemma stop_before_run_lost:
  "\<exists>s. server_acts [Stop_store, Stop_write, Run_enter, Loop_test, Loop_wait (Inr [Wake_pipe]), Loop_event [] [], Loop_event [] [],
       Loop_test] [] (new_Server demo_db) = Some ([], s) \<and> running s \<and> loop s = In_kevent \<and> \<not> wake s"
  by (simp add: stop_store_def stop_write_def run_enter_def run_top_def new_Server_def max_events_def)

end
