(* ===== verification/Main_Program.thy ===== *)
theory Main_Program
  imports Server_Shutdown
begin

text \<open>
  The entry point of \<^verbatim>\<open>main.cpp\<close>: the port argument, the signal handler, and the server from its
  construction to its destruction, with what the process prints and its exit status.
\<close>

section \<open>The port argument\<close>

text \<open>
  \<^verbatim>\<open>std::atoi\<close>: white space, an optional sign, the longest run of digits, zero when there is none. A value
  that is no 32-bit \<^verbatim>\<open>int\<close> is undefined behaviour.
\<close>

definition atoi :: "string \<Rightarrow> int result" where
  "atoi s =
     (let t = dropWhile isspace s;
          neg = (t \<noteq> [] \<and> hd t = CHR ''-'');
          body = (if neg \<or> t \<noteq> [] \<and> hd t = CHR ''+'' then tl t else t);
          n = int (undecimal (takeWhile isdigit body));
          v = (if neg then - n else n)
      in if - (2 ^ 31) \<le> v \<and> v < 2 ^ 31 then Inr v else Inl Undefined_behaviour)"

text \<open>The checked port of \<^verbatim>\<open>main\<close>, none when it prints the usage and gives up.\<close>

definition main_port :: "string list \<Rightarrow> 16 word option result" where
  "main_port argv =
     (if length argv > 1
      then bind_result (atoi (argv ! 1)) (\<lambda>parsed.
        if parsed \<le> 0 \<or> 65535 < parsed then Inr None else Inr (Some (word_of_int parsed)))
      else Inr (Some 5432))"

section \<open>Signals\<close>

text \<open>\<^verbatim>\<open>handleSignal\<close> calls \<^verbatim>\<open>stop\<close> once \<^verbatim>\<open>g_server\<close> is set.\<close>

definition handleSignal :: "bool \<Rightarrow> server_action list" where
  "handleSignal g_server = (if g_server then [Stop_store, Stop_write] else [])"

section \<open>The process\<close>

datatype exit_status = EXIT_SUCCESS | EXIT_FAILURE

text \<open>What the process leaves behind: its two output streams, its status and the client descriptors still open.\<close>

record outcome =
  cout :: string
  cerr :: string
  status :: exit_status
  open_clients :: "nat \<rightharpoonup> nat"

definition banner :: "16 word \<Rightarrow> string" where
  "banner port =
     ''CppDB listening on 127.0.0.1:'' @ to_string_size (unat port) @ ''  (connect with: nc localhost '' @
     to_string_size (unat port) @ '')'' @ [newline]"

text \<open>
  \<^verbatim>\<open>main\<close> on the answers of the constructor's system calls and on one schedule of the event loop, the
  workers and the signal handler, beginning with the call of \<^verbatim>\<open>run\<close>. The scope of the server ends with its
  destructor, whether \<^verbatim>\<open>run\<close> returned or threw. \<open>None\<close> when \<^verbatim>\<open>run\<close> has not ended or the destructor still waits for tasks.
\<close>

definition main :: "string list \<Rightarrow> startup \<Rightarrow> database \<Rightarrow> server_action list \<Rightarrow> outcome result option" where
  "main argv os d schedule =
     (case main_port argv of
        Inl e \<Rightarrow> Some (Inl e)
      | Inr None \<Rightarrow>
          Some (Inr \<lparr>cout = [], cerr = ''usage: '' @ argv ! 0 @ '' [port]'' @ [newline], status = EXIT_FAILURE,
            open_clients = Map.empty\<rparr>)
      | Inr (Some port) \<Rightarrow>
     (case snd (new_TCPServer port 4 os) of
        Inl e \<Rightarrow>
          Some (Inr \<lparr>cout = [], cerr = ''fatal: '' @ what e @ [newline], status = EXIT_FAILURE, open_clients = Map.empty\<rparr>)
      | Inr server \<Rightarrow>
     (case server_acts (Run_enter # schedule) [] (new_Server d) of
        None \<Rightarrow> None
      | Some (_, s) \<Rightarrow>
          map_option (\<lambda>r. bind_result r (\<lambda>s'.
            Inr (case loop s of
                   Loop_threw e \<Rightarrow>
                     \<lparr>cout = banner (port_number server), cerr = ''fatal: '' @ e @ [newline], status = EXIT_FAILURE,
                       open_clients = fd_owner s'\<rparr>
                 | _ \<Rightarrow>
                     \<lparr>cout = banner (port_number server) @ ''CppDB shut down cleanly.'' @ [newline], cerr = [],
                       status = EXIT_SUCCESS, open_clients = fd_owner s'\<rparr>)))
          (if loop_ended s then destroy_Server s else None))))"

section \<open>What the port argument accepts\<close>

lemma hd_decimal: "isdigit (hd (decimal n))"
  using decimal_digits [of n] by (simp add: list_all_iff)

lemma atoi_decimal:
  assumes "n < 2 ^ 31"
  shows "atoi (decimal n) = Inr (int n)"
proof -
  have d: "isdigit (hd (decimal n))" by (rule hd_decimal)
  then have "\<not> isspace (hd (decimal n))" "hd (decimal n) \<noteq> CHR ''+''" by (auto simp: isdigit_def isspace_def)
  then have "dropWhile isspace (decimal n) = decimal n" "hd (decimal n) \<noteq> CHR ''+''" by (cases "decimal n"; simp)+
  with assms show ?thesis by (simp add: atoi_def)
qed

lemma main_port_decimal:
  assumes "n < 2 ^ 31"
  shows "main_port [name, decimal n] = Inr (if 1 \<le> n \<and> n \<le> 65535 then Some (of_nat n) else None)"
  using atoi_decimal [OF assms] by (simp add: main_port_def)

lemma main_port_number:
  assumes "main_port argv = Inr (Some port)"
  shows "0 < unat port \<and> (if length argv > 1 then atoi (argv ! 1) = Inr (int (unat port)) else port = 5432)"
proof (cases "length argv > 1")
  case True
  with assms obtain parsed where p: "atoi (argv ! 1) = Inr parsed" "0 < parsed" "parsed \<le> 65535" "port = word_of_int parsed"
    by (auto simp: main_port_def bind_result_eq_Inr split: if_splits)
  then have "int (unat port) = parsed" by (simp add: unat_eq_nat_uint uint_word_of_int)
  moreover from this p(2) have "0 < unat port" by linarith
  ultimately show ?thesis using p(1) True by simp
next
  case False
  with assms show ?thesis by (simp add: main_port_def)
qed

section \<open>How the process ends\<close>

text \<open>Nothing but \<^verbatim>\<open>stop\<close> makes the loop return.\<close>

lemma begun_step:
  assumes act: "server_act a s = Some (Inr (e, s'))" and begun: "loop s \<noteq> Not_running"
  shows "loop s' \<noteq> Not_running \<and>
    (a \<noteq> Stop_store \<and> running s \<and> loop s \<noteq> Loop_returned \<longrightarrow> running s' \<and> loop s' \<noteq> Loop_returned)"
proof (cases a)
  case (Loop_wait r)
  with act begun show ?thesis by (cases "(r, s)" rule: run_wait.cases) (auto split: loop_pc.splits if_splits)
next
  case (Loop_event accepts reads)
  with act obtain events where "loop s = In_batch events" "loop_event accepts reads events s = Some s'"
    by (auto split: loop_pc.splits)
  from loop_event_rank [OF this] loop_event_leaves [OF this(2)] show ?thesis by simp
next
  case Loop_split
  with act begun show ?thesis by (auto simp: batch_split_def split: loop_pc.splits option.splits if_splits)
next
  case Loop_finish
  with act obtain c d dropping rest where f: "loop s = After_split c d dropping rest" "batch_finish c d dropping rest s = Inr s'"
    by (auto simp: silent_def bind_result_eq_Inr split: loop_pc.splits)
  then have "loop s' \<noteq> Loop_returned" by (auto simp: batch_finish_def dest!: dropConnection_same split: if_splits)
  with finish_rank [OF f] show ?thesis by simp
next
  case (Job j sends)
  with job_same [of j sends s e s'] act begun show ?thesis by (simp add: control_def del: server_act.simps)
qed (use act begun in \<open>auto simp: stop_store_def stop_write_def run_top_def split: loop_pc.splits if_splits\<close>)

lemma begun_acts:
  "server_acts as es s = Some (es', s') \<Longrightarrow> loop s \<noteq> Not_running \<Longrightarrow>
     loop s' \<noteq> Not_running \<and>
     (Stop_store \<notin> set as \<and> running s \<and> loop s \<noteq> Loop_returned \<longrightarrow> running s' \<and> loop s' \<noteq> Loop_returned)"
proof (induction as arbitrary: es s)
  case (Cons a as)
  then obtain e s1 where s1: "server_act a s = Some (Inr (e, s1))" "server_acts as (es @ e) s1 = Some (es', s')"
    by (auto simp del: server_act.simps split: option.splits sum.splits prod.splits)
  note b = begun_step [OF s1(1) Cons.prems(2)]
  from Cons.IH [OF s1(2)] b show ?case by (metis list.set_intros(1,2))
qed simp

lemma server_acts_append:
  "server_acts (as @ bs) es s = (case server_acts as es s of None \<Rightarrow> None | Some (es', s') \<Rightarrow> server_acts bs es' s')"
  by (induction as arbitrary: es s) (auto simp del: server_act.simps split: option.splits sum.splits)

lemma stops_finish:
  "\<exists>s'. server_acts (replicate (stoppers s) Stop_write) es s = Some (es, s') \<and> stoppers s' = 0 \<and>
     running s' = running s \<and> loop s' = loop s"
proof (induction "stoppers s" arbitrary: s)
  case (Suc n)
  have n: "stoppers (stop_write s) = n" using Suc(2) by (simp add: stop_write_def)
  from Suc(1) [of "stop_write s"] n obtain s' where
    "server_acts (replicate n Stop_write) es (stop_write s) = Some (es, s')" "stoppers s' = 0"
    "running s' = running (stop_write s)" "loop s' = loop (stop_write s)" by auto
  with Suc(2) show ?case by (auto simp: stop_write_def simp flip: Suc(2))
qed simp

text \<open>After a signal, whatever was going on, the process can be run to its end.\<close>

lemma signal_shutdown:
  assumes run: "run_of (server_init (new_database hs hi)) server_step s es" and begun: "loop s \<noteq> Not_running"
  shows "\<exists>rest es' s'. server_acts (handleSignal True @ rest) es s = Some (es', s') \<and> loop_ended s' \<and> jobs s' = []"
proof -
  let ?s = "stop_write (stop_store s)"
  have acts: "server_acts (handleSignal True) es s = Some (es, ?s)" by (simp add: handleSignal_def stop_store_def)
  from stops_finish [of ?s es] obtain s1 where
    s1: "server_acts (replicate (stoppers ?s) Stop_write) es ?s = Some (es, s1)" "stoppers s1 = 0"
    "running s1 = running ?s" "loop s1 = loop ?s" by blast
  have "run_of (server_init (new_database hs hi)) server_step s1 es"
    using server_acts_run [OF s1(1) server_acts_run [OF acts run]] .
  moreover have "\<not> running s1" "loop s1 \<noteq> Not_running"
    using s1(3,4) begun by (simp_all add: stop_write_def stop_store_def)
  ultimately obtain as es' s' where "server_acts as es s1 = Some (es', s')" "loop_ended s'" "jobs s' = []"
    using shutdown_run s1(2) by blast
  then show ?thesis using acts s1(1)
    by (intro exI [of _ "replicate (stoppers ?s) Stop_write @ as"]) (simp add: server_acts_append)
qed

lemma main_after_run:
  assumes "main_port argv = Inr (Some port)" "snd (new_TCPServer port 4 os) = Inr server"
    and acts: "server_acts (Run_enter # schedule) [] (new_Server (new_database hs hi)) = Some (es, s)"
  shows "case main argv os (new_database hs hi) schedule of
      None \<Rightarrow> \<not> (loop_ended s \<and> jobs s = [])
    | Some (Inl e) \<Rightarrow> False
    | Some (Inr out) \<Rightarrow> loop_ended s \<and> open_clients out = Map.empty \<and> (status out = EXIT_SUCCESS \<longleftrightarrow> loop s = Loop_returned)"
proof (cases "loop_ended s \<and> jobs s = []")
  case True
  have "server_inv s" using server_run_good [OF server_acts_run [OF acts new_Server_run]] by (simp add: server_good_def)
  with destroy_closes [of s] True obtain s' where "destroy_Server s = Some (Inr s')" "fd_owner s' = Map.empty"
    by (auto simp: loop_ended_def)
  with assms True show ?thesis by (auto simp: main_def loop_ended_def simp del: server_acts.simps)
next
  case False
  with assms show ?thesis by (auto simp: main_def destroy_Server_def simp del: server_acts.simps)
qed



end
