(* ===== verification/Query_Threads.thy ===== *)
theory Query_Threads
  imports QueryExecutor Step_System
begin

text \<open>
  Calls of \<^verbatim>\<open>QueryExecutor::execute\<close> on one database by any number of threads. A call is cut where other
  threads may run: it takes the lock of the catalogue once, to create or drop a table or to fetch
  the handle of a table; then the one member of the table it calls takes the lock of that table; then the
  handle is let go. Each of these is a step. The text of a query, its tokens, its statement and the schema of
  a table are never shared and changed, so the rest of the work belongs to the step it precedes or follows.
\<close>

section \<open>A call in steps\<close>

text \<open>The table a statement works on and what it does there; none for the statements on the catalogue.\<close>

fun table_statement :: "Statement \<Rightarrow> (string \<times> (table \<Rightarrow> string result \<times> table)) option" where
  "table_statement (InsertStatement table cols literals) = Some (table, insert_body table cols literals)"
| "table_statement (SelectStatement table cols ws) = Some (table, select_body cols ws)"
| "table_statement (UpdateStatement table sets ws) = Some (table, update_body sets ws)"
| "table_statement (DeleteStatement table ws) = Some (table, delete_body ws)"
| "table_statement _ = None"

datatype call_pc =
    Call_start
  | Call_table SharedPtr Statement
  | Call_release SharedPtr "string result"
  | Call_done string

definition call_reply :: "string result \<Rightarrow> database \<Rightarrow> (call_pc \<times> database) result" where
  "call_reply r db =
     (case r of
        Inl e \<Rightarrow> bind_result (caught e db) (\<lambda>(reply, db'). Inr (Call_done reply, db'))
      | Inr reply \<Rightarrow> Inr (Call_done reply, db))"

definition call_start :: "database \<Rightarrow> string \<Rightarrow> (call_pc \<times> database) result" where
  "call_start db query =
     (case bind_result (tokenize query) parse of
        Inl e \<Rightarrow> call_reply (Inl e) db
      | Inr statement \<Rightarrow>
          (case table_statement statement of
             None \<Rightarrow> (case run db statement of (r, db') \<Rightarrow> call_reply r db')
           | Some (table, _) \<Rightarrow>
               (case tableOrThrow db table of
                  Inl e \<Rightarrow> call_reply (Inl e) db
                | Inr (p, db') \<Rightarrow> Inr (Call_table p statement, db'))))"

definition call_table :: "database \<Rightarrow> SharedPtr \<Rightarrow> Statement \<Rightarrow> (call_pc \<times> database) result" where
  "call_table db p statement =
     (case table_statement statement of
        None \<Rightarrow> Inl Undefined_behaviour
      | Some (_, body) \<Rightarrow>
          bind_result (sp_deref (db_mem db) p) (\<lambda>t.
          bind_result (sp_store (db_mem db) p (snd (body t))) (\<lambda>m.
            Inr (Call_release p (fst (body t)), db\<lparr>db_mem := m\<rparr>))))"

definition call_release :: "database \<Rightarrow> SharedPtr \<Rightarrow> string result \<Rightarrow> (call_pc \<times> database) result" where
  "call_release db p r = bind_result (drop_handle db p) (call_reply r)"

section \<open>Calls side by side\<close>

record Calls =
  cdb :: database
  calls :: "(string \<times> call_pc) list"

definition new_Calls :: "database \<Rightarrow> Calls" where
  "new_Calls db = \<lparr>cdb = db, calls = []\<rparr>"

datatype call_event = Called nat string | Returned nat string

datatype call_action = Call string | Step nat

fun returned :: "nat \<Rightarrow> call_pc \<Rightarrow> call_event list" where
  "returned i (Call_done reply) = [Returned i reply]"
| "returned i _ = []"

definition call_step :: "nat \<Rightarrow> string \<Rightarrow> (call_pc \<times> database) result \<Rightarrow> Calls \<Rightarrow> (call_event list \<times> Calls) result" where
  "call_step i query r s =
     bind_result r (\<lambda>(pc, db). Inr (returned i pc, s\<lparr>cdb := db, calls := (calls s)[i := (query, pc)]\<rparr>))"

text \<open>A new call gets the next number. A call that has returned has no more steps.\<close>

fun call_act :: "call_action \<Rightarrow> Calls \<Rightarrow> (call_event list \<times> Calls) result option" where
  "call_act (Call query) s =
     Some (Inr ([Called (length (calls s)) query], s\<lparr>calls := calls s @ [(query, Call_start)]\<rparr>))"
| "call_act (Step i) s =
     (if i < length (calls s)
      then (case calls s ! i of
              (query, Call_start) \<Rightarrow> Some (call_step i query (call_start (cdb s) query) s)
            | (query, Call_table p statement) \<Rightarrow> Some (call_step i query (call_table (cdb s) p statement) s)
            | (query, Call_release p r) \<Rightarrow> Some (call_step i query (call_release (cdb s) p r) s)
            | (query, Call_done reply) \<Rightarrow> None)
      else None)"

definition calls_init :: "database \<Rightarrow> Calls \<Rightarrow> bool" where
  "calls_init db s \<longleftrightarrow> s = new_Calls db"

definition calls_step :: "Calls \<Rightarrow> call_event list \<Rightarrow> Calls \<Rightarrow> bool" where
  "calls_step s es s' \<longleftrightarrow> (\<exists>a. call_act a s = Some (Inr (es, s')))"

section \<open>A call alone\<close>

text \<open>The steps of a call one after another.\<close>

definition call_through :: "database \<Rightarrow> string \<Rightarrow> (call_pc \<times> database) result" where
  "call_through db query =
     bind_result (call_start db query) (\<lambda>(pc, db1). case pc of
       Call_table p statement \<Rightarrow>
         bind_result (call_table db1 p statement) (\<lambda>(pc', db2). case pc' of
           Call_release p' r \<Rightarrow> call_release db2 p' r
         | _ \<Rightarrow> Inr (pc', db2))
     | _ \<Rightarrow> Inr (pc, db1))"

end
