(* ===== verification/Linearization.thy ===== *)
theory Linearization
  imports Query_Threads Query_Props Database_Handles
begin

text \<open>
  The calls of \<^verbatim>\<open>Query_Threads\<close> take effect one at a time. A call takes effect where it has its reply,
  with one exception: a call that works on a table which has lost its name in the meantime takes
  effect just before the statement that dropped the table, which is still within the call.
\<close>

section \<open>Serial orders\<close>

text \<open>A call that took effect: its number, its query and its reply.\<close>

type_synonym commit = "nat \<times> string \<times> string"

fun legal_from :: "relations \<Rightarrow> commit list \<Rightarrow> relations \<Rightarrow> bool" where
  "legal_from D [] D' \<longleftrightarrow> D' = D"
| "legal_from D ((i, query, reply) # L) D' \<longleftrightarrow>
     replies_exactly (fst (query_meaning query D)) reply \<and> legal_from (snd (query_meaning query D)) L D'"

lemma legal_from_append: "legal_from D (L @ M) D'' \<longleftrightarrow> (\<exists>D'. legal_from D L D' \<and> legal_from D' M D'')"
  by (induction D L D'' rule: legal_from.induct) auto

lemma legal_from_unique: "legal_from D L D' \<Longrightarrow> legal_from D L D'' \<Longrightarrow> D' = D''"
  by (induction D L D' rule: legal_from.induct) auto

lemma legal_from_after: "legal_from D0 L D \<Longrightarrow> legal_from D0 (L @ M) D'' \<longleftrightarrow> legal_from D M D''"
  using legal_from_unique by (auto simp: legal_from_append)

lemma legal_from_plain: "legal_from D L D' \<Longrightarrow> plain D \<Longrightarrow> plain D'"
  by (induction D L D' rule: legal_from.induct) (auto intro: query_meaning_plain)

lemma legal_from_meanings:
  "legal_from D L D' \<longleftrightarrow>
     list_all2 replies_exactly (fst (query_meanings (map (fst \<circ> snd) L) D)) (map (snd \<circ> snd) L) \<and>
     D' = snd (query_meanings (map (fst \<circ> snd) L) D)"
  by (induction D L D' rule: legal_from.induct) (auto simp: Let_def split_beta)

text \<open>What a legal order reaches are relations of a database, so no reply looks like an error that is none.\<close>

lemma legal_database:
  assumes "legal_from Map.empty L D"
  obtains db where "db_inv db {#}" "database_relations db = D" "plain D"
proof -
  let ?d = "new_database (\<lambda>_. 0) (\<lambda>_. 0)"
  have "database_relations ?d = Map.empty"
    using new_database_inv(2) by (simp add: database_relations_def)
  moreover have "plain (Map.empty :: relations)" by (simp add: plain_def)
  moreover from this have "plain D" by (rule legal_from_plain [OF assms])
  ultimately show ?thesis
    using run_queries_spec [OF new_database_inv(1), of "\<lambda>_. 0" "\<lambda>_. 0" "map (fst \<circ> snd) L"] assms that
    by (auto simp: legal_from_meanings)
qed

lemma legal_replies:
  assumes "legal_from Map.empty L D" and "replies (fst (query_meaning query D)) reply"
  shows "replies_exactly (fst (query_meaning query D)) reply"
proof -
  from assms(1) obtain db where "db_inv db {#}" "database_relations db = D" "plain D" by (rule legal_database)
  with assms(2) replies_exactly_iff query_meaning_not_error [of db "{#}" query] show ?thesis by blast
qed

text \<open>A call on a table may be put before the statement that drops the table.\<close>

lemma legal_insert:
  assumes legal: "legal_from D0 (L @ (d, drop_query, drop_reply) # M) D''" and L: "legal_from D0 L D"
    and d: "bind_result (tokenize drop_query) parse = Inr (DropTableStatement name)" and R: "D name = Some R"
    and q: "query_meaning query D = at_table name f D" and reply: "replies_exactly (fst (f R)) reply"
  shows "legal_from D0 (L @ (i, query, reply) # (d, drop_query, drop_reply) # M) D''"
    and "legal_from D0 (L @ [(i, query, reply)]) (D(name \<mapsto> snd (f R)))"
proof -
  have m: "query_meaning query D = (fst (f R), D(name \<mapsto> snd (f R)))"
    using q R by (simp add: at_table_def split_beta)
  have "query_meaning drop_query D = (Some ''OK'', D(name := None))"
    "query_meaning drop_query (D(name \<mapsto> snd (f R))) = (Some ''OK'', D(name := None))"
    using d R by (simp_all add: query_meaning_def)
  with m legal L reply show "legal_from D0 (L @ (i, query, reply) # (d, drop_query, drop_reply) # M) D''"
    "legal_from D0 (L @ [(i, query, reply)]) (D(name \<mapsto> snd (f R)))"
    by (simp_all add: legal_from_after [OF L])
qed

section \<open>Real time\<close>

text \<open>Call \<open>i\<close> had returned when call \<open>j\<close> began.\<close>

definition ended_before :: "call_event list \<Rightarrow> nat \<Rightarrow> nat \<Rightarrow> bool" where
  "ended_before es i j \<longleftrightarrow> (\<exists>es1 es2 query reply. es = es1 @ es2 \<and> Returned i reply \<in> set es1 \<and> Called j query \<in> set es2)"

lemma ended_before_Nil [simp]: "\<not> ended_before [] i j"
  by (simp add: ended_before_def)

lemma ended_before_snoc:
  "ended_before (es @ [e]) i j \<longleftrightarrow> ended_before es i j \<or> (\<exists>query reply. e = Called j query \<and> Returned i reply \<in> set es)"
proof
  assume "ended_before (es @ [e]) i j"
  then obtain es1 es2 query reply where
    split: "es @ [e] = es1 @ es2" "Returned i reply \<in> set es1" "Called j query \<in> set es2" by (auto simp: ended_before_def)
  then obtain es2' where es2: "es2 = es2' @ [e]" "es = es1 @ es2'" by (cases es2 rule: rev_cases) auto
  with split show "ended_before es i j \<or> (\<exists>query reply. e = Called j query \<and> Returned i reply \<in> set es)"
    by (auto simp: ended_before_def)
next
  assume "ended_before es i j \<or> (\<exists>query reply. e = Called j query \<and> Returned i reply \<in> set es)"
  then show "ended_before (es @ [e]) i j"
  proof
    assume "ended_before es i j"
    then obtain es1 es2 query reply where
      "es = es1 @ es2" "Returned i reply \<in> set es1" "Called j query \<in> set es2" by (auto simp: ended_before_def)
    then have "es @ [e] = es1 @ (es2 @ [e])" "Called j query \<in> set (es2 @ [e])" by simp_all
    with \<open>Returned i reply \<in> set es1\<close> show ?thesis unfolding ended_before_def by blast
  next
    assume "\<exists>query reply. e = Called j query \<and> Returned i reply \<in> set es"
    then obtain query reply where "e = Called j query" "Returned i reply \<in> set es" by blast
    then show ?thesis unfolding ended_before_def by (intro exI [of _ es] exI [of _ "[e]"]) auto
  qed
qed

lemma ended_before_returned [simp]: "ended_before (es @ returned k pc) i j \<longleftrightarrow> ended_before es i j"
  by (cases pc) (simp_all add: ended_before_snoc)

lemma ended_before_called: "ended_before es i j \<Longrightarrow> (\<exists>reply. Returned i reply \<in> set es) \<and> (\<exists>query. Called j query \<in> set es)"
  by (auto simp: ended_before_def)

definition ordered :: "call_event list \<Rightarrow> nat list \<Rightarrow> bool" where
  "ordered es L \<longleftrightarrow> (\<forall>L1 j L2 i. L = L1 @ j # L2 \<longrightarrow> ended_before es i j \<longrightarrow> i \<in> set L1)"

lemma ordered_insert:
  assumes "ordered es (L @ M)" and "\<And>j. ended_before es j i \<Longrightarrow> j \<in> set L" and "\<And>j. \<not> ended_before es i j"
  shows "ordered es (L @ i # M)"
  unfolding ordered_def
proof (intro allI impI)
  fix L1 j L2 k
  assume eq: "L @ i # M = L1 @ j # L2" and b: "ended_before es k j"
  from eq consider (left) X where "L = L1 @ j # X" | (here) "L1 = L" "j = i" | (right) X where "L1 = L @ i # X" "M = X @ j # L2"
    by (auto simp: append_eq_append_conv2 Cons_eq_append_conv append_eq_Cons_conv)
  then show "k \<in> set L1"
  proof cases
    case left
    then have "L @ M = L1 @ j # (X @ M)" by simp
    with assms(1) b show ?thesis unfolding ordered_def by blast
  next
    case here
    with assms(2) b show ?thesis by simp
  next
    case right
    then have "L @ M = (L @ X) @ j # L2" by simp
    with assms(1) b have "k \<in> set (L @ X)" unfolding ordered_def by blast
    with right show ?thesis by auto
  qed
qed

section \<open>Calls that took effect\<close>

definition reply_of :: "string result \<Rightarrow> string" where
  "reply_of r = (case r of Inl e \<Rightarrow> ''ERROR: '' @ what e | Inr reply \<Rightarrow> reply)"

fun committed :: "string \<times> call_pc \<Rightarrow> (string \<times> string) option" where
  "committed (query, Call_release p r) = Some (query, reply_of r)"
| "committed (query, Call_done reply) = Some (query, reply)"
| "committed _ = None"

definition hist_ok :: "(string \<times> call_pc) list \<Rightarrow> call_event list \<Rightarrow> commit list \<Rightarrow> bool" where
  "hist_ok cs es L \<longleftrightarrow> distinct (map fst L) \<and>
     (\<forall>i query reply. (i, query, reply) \<in> set L \<longleftrightarrow> i < length cs \<and> committed (cs ! i) = Some (query, reply)) \<and>
     ordered es (map fst L) \<and>
     (\<forall>i reply. Returned i reply \<in> set es \<longrightarrow> i < length cs \<and> snd (cs ! i) = Call_done reply) \<and>
     (\<forall>i query. Called i query \<in> set es \<longleftrightarrow> i < length cs \<and> fst (cs ! i) = query)"

lemma hist_okD:
  assumes "hist_ok cs es L"
  shows "distinct (map fst L)"
    "(i, query, reply) \<in> set L \<longleftrightarrow> i < length cs \<and> committed (cs ! i) = Some (query, reply)"
    "ordered es (map fst L)"
    "Returned i reply \<in> set es \<Longrightarrow> i < length cs \<and> snd (cs ! i) = Call_done reply"
    "Called i query \<in> set es \<longleftrightarrow> i < length cs \<and> fst (cs ! i) = query"
  using assms unfolding hist_ok_def by blast+

lemma ended_before_committed:
  assumes h: "hist_ok cs es L" and b: "ended_before es j i"
  shows "j \<in> fst ` set L"
proof -
  from ended_before_called [OF b] obtain reply where "Returned j reply \<in> set es" by blast
  with hist_okD(4) [OF h] have "j < length cs" "cs ! j = (fst (cs ! j), Call_done reply)" by (simp_all add: prod_eq_iff)
  then have "j < length cs" "committed (cs ! j) = Some (fst (cs ! j), reply)" by (metis committed.simps(2))+
  then have "(j, fst (cs ! j), reply) \<in> set L" using hist_okD(2) [OF h] by blast
  then show ?thesis by force
qed

lemma hist_commit:
  assumes h: "hist_ok cs es (L @ M)" and i: "i < length cs" "cs ! i = (query, pc)" "committed (query, pc) = None"
    and pc': "committed (query, pc') = Some (query, reply)" and b: "\<And>j. ended_before es j i \<Longrightarrow> j \<in> fst ` set L"
  shows "hist_ok (cs[i := (query, pc')]) (es @ returned i pc') (L @ (i, query, reply) # M)"
proof -
  note d = hist_okD [OF h]
  have new: "i \<notin> fst ` set L" "i \<notin> fst ` set M" using d(2) [of i] i by force+
  have quiet: "\<not> ended_before es i j" for j using d(4) [of i] i ended_before_called [of es i j] by auto
  have "ordered es (map fst (L @ (i, query, reply) # M))"
    using ordered_insert [of es "map fst L" "map fst M" i] d(3) b quiet by auto
  then have "ordered (es @ returned i pc') (map fst (L @ (i, query, reply) # M))" by (simp add: ordered_def)
  moreover have "(k, q, r) \<in> set (L @ (i, query, reply) # M) \<longleftrightarrow>
      k < length cs \<and> committed (cs[i := (query, pc')] ! k) = Some (q, r)" for k q r
    using d(2) [of k q r] new i pc' by (cases "k = i") force+
  moreover have "Returned k r \<in> set (es @ returned i pc') \<Longrightarrow> k < length cs \<and> snd (cs[i := (query, pc')] ! k) = Call_done r" for k r
    using d(4) [of k r] i by (cases "k = i"; cases pc') auto
  moreover have "Called k q \<in> set (es @ returned i pc') \<longleftrightarrow> k < length cs \<and> fst (cs[i := (query, pc')] ! k) = q" for k q
    using d(5) [of k q] i by (cases "k = i"; cases pc') auto
  ultimately show ?thesis using d(1) new unfolding hist_ok_def by simp
qed

lemma hist_move:
  assumes h: "hist_ok cs es L" and i: "i < length cs" "cs ! i = (query, pc)" "\<And>reply. pc \<noteq> Call_done reply"
    and pc': "committed (query, pc') = committed (query, pc)"
  shows "hist_ok (cs[i := (query, pc')]) (es @ returned i pc') L"
proof -
  note d = hist_okD [OF h]
  have "ordered (es @ returned i pc') (map fst L)" using d(3) by (simp add: ordered_def)
  moreover have "(k, q, r) \<in> set L \<longleftrightarrow> k < length cs \<and> committed (cs[i := (query, pc')] ! k) = Some (q, r)" for k q r
    using d(2) [of k q r] i pc' by (cases "k = i") auto
  moreover have "Returned k r \<in> set (es @ returned i pc') \<Longrightarrow> k < length cs \<and> snd (cs[i := (query, pc')] ! k) = Call_done r" for k r
    using d(4) [of k r] i by (cases "k = i"; cases pc') auto
  moreover have "Called k q \<in> set (es @ returned i pc') \<longleftrightarrow> k < length cs \<and> fst (cs[i := (query, pc')] ! k) = q" for k q
    using d(5) [of k q] i by (cases "k = i"; cases pc') auto
  ultimately show ?thesis using d(1) unfolding hist_ok_def by simp
qed

lemma hist_call:
  assumes h: "hist_ok cs es L"
  shows "hist_ok (cs @ [(query, Call_start)]) (es @ [Called (length cs) query]) L"
proof -
  note d = hist_okD [OF h]
  have "ended_before es k j" if "map fst L = L1 @ j # L2" "ended_before (es @ [Called (length cs) query]) k j" for L1 j L2 k
  proof -
    have "j \<in> fst ` set L" using that(1) by (metis in_set_conv_decomp list.set_map)
    then have "j < length cs" using d(2) by force
    with that(2) show ?thesis by (simp add: ended_before_snoc)
  qed
  then have "ordered (es @ [Called (length cs) query]) (map fst L)" using d(3) unfolding ordered_def by blast
  moreover have "(k, q, r) \<in> set L \<longleftrightarrow> k < Suc (length cs) \<and> committed ((cs @ [(query, Call_start)]) ! k) = Some (q, r)" for k q r
    using d(2) [of k q r] by (auto simp: nth_append less_Suc_eq)
  moreover have "Called k q \<in> set (es @ [Called (length cs) query]) \<longleftrightarrow>
      k < Suc (length cs) \<and> fst ((cs @ [(query, Call_start)]) ! k) = q" for k q
    using d(5) [of k q] by (auto simp: nth_append less_Suc_eq)
  ultimately show ?thesis using d(1,4) unfolding hist_ok_def by (fastforce simp: nth_append)
qed

section \<open>Handles\<close>

fun handles_of :: "call_pc \<Rightarrow> SharedPtr multiset" where
  "handles_of (Call_table p statement) = {#p#}"
| "handles_of (Call_release p r) = {#p#}"
| "handles_of _ = {#}"

definition held :: "(string \<times> call_pc) list \<Rightarrow> SharedPtr multiset" where
  "held cs = (\<Sum>(query, pc) \<leftarrow> cs. handles_of pc)"

lemma held_split:
  assumes "i < length cs" "cs ! i = (query, pc)"
  obtains C where "held cs = handles_of pc + C" "\<And>q pc'. held (cs[i := (q, pc')]) = handles_of pc' + C"
proof
  let ?C = "held (take i cs) + held (drop (Suc i) cs)"
  show "held cs = handles_of pc + ?C"
    using assms by (subst id_take_nth_drop [of i cs]) (simp_all add: held_def)
  show "held (cs[i := (q, pc')]) = handles_of pc' + ?C" for q pc'
    using assms(1) by (simp add: held_def upd_conv_take_nth_drop)
qed

lemma held_snoc [simp]: "held (cs @ [(query, pc)]) = held cs + handles_of pc"
  by (simp add: held_def)

definition holder :: "(string \<times> call_pc) list \<Rightarrow> nat \<Rightarrow> string \<Rightarrow> SharedPtr \<Rightarrow> Statement \<Rightarrow> bool" where
  "holder cs i query p statement \<longleftrightarrow> i < length cs \<and> cs ! i = (query, Call_table p statement)"

lemma holder_held: "holder cs i query p statement \<Longrightarrow> p \<in># held cs"
  unfolding holder_def by (elim conjE, rule held_split) auto

end
