(* ===== verification/Linearizability.thy ===== *)
theory Linearizability
  imports Linearization
begin

text \<open>
  The invariant that every interleaving of calls keeps, and that it makes the executor linearizable.
\<close>

section \<open>One step of a call\<close>

lemma table_statement_agrees:
  assumes "bind_result (tokenize query) parse = Inr statement" and "table_statement statement = Some (name, body)"
  obtains f where "\<And>D. query_meaning query D = at_table name f D"
    "\<And>t. tbl_inv t \<Longrightarrow> table_agrees (body t) (f (table_relation t))"
proof (cases statement)
  case (InsertStatement table cols literals)
  with that [of "insert_relation cols literals"] assms parsed_query(2) [of query table cols literals] insert_body_agrees
  show ?thesis by (auto simp: query_meaning_def)
next
  case (SelectStatement table cols ws)
  with that [of "select_relation cols ws"] assms select_body_agrees show ?thesis by (auto simp: query_meaning_def)
next
  case (UpdateStatement table sets ws)
  with that [of "update_relation sets ws"] assms update_body_agrees show ?thesis by (auto simp: query_meaning_def)
next
  case (DeleteStatement table ws)
  with that [of "delete_relation ws"] assms delete_body_agrees show ?thesis by (auto simp: query_meaning_def)
qed (use assms(2) in simp_all)

lemma outcome_reply:
  assumes "outcome m r"
  shows "call_reply r db = Inr (Call_done (reply_of r), db)" "replies m (reply_of r)"
  using assms by (auto simp: outcome_def call_reply_def caught_def failure_def reply_of_def replies_def split: option.splits)

text \<open>Handles whose tables and names a step of the catalogue leaves alone.\<close>

definition kept :: "database \<Rightarrow> database \<Rightarrow> SharedPtr multiset \<Rightarrow> bool" where
  "kept db db' C \<longleftrightarrow> (\<forall>q \<in># C. sp_value (db_mem db') q = sp_value (db_mem db) q)"

definition renamed :: "database \<Rightarrow> database \<Rightarrow> SharedPtr multiset \<Rightarrow> bool" where
  "renamed db db' C \<longleftrightarrow> (\<exists>q \<in># C. \<exists>n. (catalogue db' n = Some q) \<noteq> (catalogue db n = Some q))"

lemma createTable_frame:
  assumes inv: "db_inv db C" and r: "createTable db name sc = Inr (b, db')"
  shows "kept db db' C" "\<not> renamed db db' C"
proof -
  note d = db_invD [OF inv]
  let ?M = "named (catalogue db) + C"
  from r obtain t where t: "name \<noteq> []" "new_table (id_hash db) sc kDefaultCacheCapacity = Inr t"
    by (auto simp: createTable_def bind_result_eq_Inr split: if_splits)
  from sp.make_law [OF d(2), of t] obtain p m where p: "makeShared (db_mem db) t = (p, m)" "sp_inv m (add_mset p ?M)"
    "p \<notin># ?M" "\<forall>q \<in># ?M. sp_value m q = sp_value (db_mem db) q" by blast
  from hm.ins_law [OF d(1), of name p] obtain ts where ts: "hm_insert (tables db) name p = Inr (catalogue db name = None, ts)"
    "contents ts = (if catalogue db name = None then (catalogue db)(name \<mapsto> p) else catalogue db)" by blast
  from sp.release_law [OF p(2)] obtain m' where m': "sp_release m p = Inr m'"
    "\<forall>q \<in># ?M. sp_value m' q = sp_value m q" by blast
  have "tables db' = ts" and mem: "db_mem db' = m \<or> db_mem db' = m'"
    using r t p(1) ts(1) m'(1) by (auto simp: createTable_def split: if_splits)
  with ts(2) p(3) show "\<not> renamed db db' C" by (auto simp: renamed_def)
  from mem p(4) m'(2) show "kept db db' C" by (auto simp: kept_def)
qed

lemma dropTable_frame:
  assumes inv: "db_inv db C" and r: "dropTable db name = Inr (b, db')"
  shows "kept db db' C" "catalogue db' = (catalogue db)(name := None)"
proof -
  from dropTable_spec [OF inv, of name] r show "kept db db' C" by (auto simp: kept_def)
  from hm.era_law [OF db_invD(1) [OF inv], of name] r show "catalogue db' = (catalogue db)(name := None)"
    by (auto simp: dropTable_def bind_result_eq_Inr split: option.splits)
qed

lemma call_start_table:
  assumes inv: "db_inv db C" and parsed: "bind_result (tokenize query) parse = Inr statement"
    and nb: "table_statement statement = Some (name, body)"
  shows "(\<exists>reply. call_start db query = Inr (Call_done reply, db) \<and>
      replies (fst (query_meaning query (database_relations db))) reply \<and>
      snd (query_meaning query (database_relations db)) = database_relations db) \<or>
    (\<exists>p db'. call_start db query = Inr (Call_table p statement, db') \<and> catalogue db name = Some p \<and> db_inv db' (add_mset p C) \<and>
      catalogue db' = catalogue db \<and> database_relations db' = database_relations db \<and> kept db db' C)"
proof (cases "table_of db name")
  case None
  then have "tableOrThrow db name = Inl (Query_error (''no such table '' @ quoted name))"
    using getTable_spec [OF inv, of name] by (simp add: tableOrThrow_def sp_null_def)
  moreover have "query_meaning query (database_relations db) = (None, database_relations db)"
    by (rule table_statement_agrees [OF parsed nb]) (simp add: at_table_def database_relations_def None)
  ultimately show ?thesis using parsed nb
    by (auto simp: call_start_def call_reply_def caught_def replies_def)
next
  case (Some t)
  with getTable_spec [OF inv, of name] obtain p db1 where
    p: "getTable db name = Inr (p, db1)" "catalogue db name = Some p" "db_inv db1 (add_mset p C)"
      "tables db1 = tables db" "sp_value (db_mem db1) p = Some t" "table_of db1 = table_of db" "kept db db1 C"
    by (auto simp: kept_def)
  have "sp_ptr p \<noteq> None" using p(5) by (auto simp: sp_value_def bind_eq_Some_conv)
  then have "call_start db query = Inr (Call_table p statement, db1)"
    using parsed nb p(1) by (auto simp: call_start_def tableOrThrow_def)
  with p show ?thesis by (auto simp: database_relations_def)
qed

text \<open>The first step of a call: it fetches a handle, drops a table, or is done otherwise.\<close>

lemma call_start_cases:
  assumes inv: "db_inv db C"
  obtains (fetch) statement name body p db' where "bind_result (tokenize query) parse = Inr statement"
      "table_statement statement = Some (name, body)" "call_start db query = Inr (Call_table p statement, db')"
      "catalogue db name = Some p" "db_inv db' (add_mset p C)" "catalogue db' = catalogue db"
      "database_relations db' = database_relations db" "kept db db' C"
  | (dropping) name reply db' where "bind_result (tokenize query) parse = Inr (DropTableStatement name)"
      "call_start db query = Inr (Call_done reply, db')" "db_inv db' C"
      "replies (fst (query_meaning query (database_relations db))) reply"
      "database_relations db' = snd (query_meaning query (database_relations db))" "kept db db' C"
      "catalogue db' = (catalogue db)(name := None)"
  | (other) reply db' where "call_start db query = Inr (Call_done reply, db')" "db_inv db' C"
      "replies (fst (query_meaning query (database_relations db))) reply"
      "database_relations db' = snd (query_meaning query (database_relations db))" "kept db db' C" "\<not> renamed db db' C"
proof (cases "bind_result (tokenize query) parse")
  case (Inl e)
  with parsed_query(1) [OF Inl] inv show ?thesis
    by (intro other [of "''ERROR: '' @ what e" db])
      (auto simp: call_start_def call_reply_def caught_def query_meaning_def replies_def kept_def renamed_def)
next
  case (Inr statement)
  show ?thesis
  proof (cases "table_statement statement")
    case None
    obtain r db' where run: "run db statement = (r, db')" by (cases "run db statement")
    have "agrees C (run db statement) (statement_meaning statement (database_relations db))"
      using Inr by (intro run_agrees [OF inv]) (simp add: parsed_query(2))
    with Inr run have a: "db_inv db' C" "outcome (fst (query_meaning query (database_relations db))) r"
      "database_relations db' = snd (query_meaning query (database_relations db))"
      by (simp_all add: agrees_def query_meaning_def)
    have start: "call_start db query = Inr (Call_done (reply_of r), db')"
      using Inr None run outcome_reply(1) [OF a(2)] by (simp add: call_start_def)
    from None show ?thesis
    proof (cases statement)
      case (DropTableStatement name)
      with run have "\<exists>b. dropTable db name = Inr (b, db') \<or> db' = db \<and> (\<exists>e. dropTable db name = Inl e)"
        by (auto simp: run_drop_def split: sum.splits)
      with dropTable_spec [OF inv, of name] obtain b where "dropTable db name = Inr (b, db')" by auto
      from dropTable_frame [OF inv this] dropping [OF Inr [unfolded DropTableStatement] start a(1) outcome_reply(2) [OF a(2)] a(3)]
      show ?thesis by blast
    next
      case (CreateTableStatement name ds)
      with run have "db' = db \<or> (\<exists>b sc. createTable db name sc = Inr (b, db'))"
        by (auto simp: run_create_def split: sum.splits)
      then have "kept db db' C \<and> \<not> renamed db db' C" using createTable_frame [OF inv] by (auto simp: kept_def renamed_def)
      with other [OF start a(1) outcome_reply(2) [OF a(2)] a(3)] show ?thesis by blast
    qed simp_all
  next
    case (Some nb)
    obtain name body where nb: "table_statement statement = Some (name, body)" using Some by (cases nb) auto
    from call_start_table [OF inv Inr nb] show ?thesis
    proof (elim disjE exE conjE)
      fix reply
      assume "call_start db query = Inr (Call_done reply, db)" "replies (fst (query_meaning query (database_relations db))) reply"
        "snd (query_meaning query (database_relations db)) = database_relations db"
      with inv show ?thesis by (intro other) (auto simp: kept_def renamed_def)
    qed (use fetch [OF Inr nb] in blast)
  qed
qed

section \<open>The invariant\<close>

text \<open>
  The order \<open>L\<close> up to the statement that dropped the table of \<open>p\<close> leaves the rows that the table has now.
\<close>

definition drop_point :: "database \<Rightarrow> commit list \<Rightarrow> nat \<Rightarrow> SharedPtr \<Rightarrow> string \<Rightarrow> commit list \<Rightarrow> bool" where
  "drop_point db L d p name L1 \<longleftrightarrow>
     (\<exists>query reply L2 D t. L = L1 @ (d, query, reply) # L2 \<and> bind_result (tokenize query) parse = Inr (DropTableStatement name) \<and>
        legal_from Map.empty L1 D \<and> sp_value (db_mem db) p = Some t \<and> D name = Some (table_relation t))"

definition nameless :: "database \<Rightarrow> (string \<times> call_pc) list \<Rightarrow> SharedPtr set" where
  "nameless db cs = {p. p \<notin> ran (catalogue db) \<and> (\<exists>i query statement. holder cs i query p statement)}"

text \<open>\<open>dr\<close> tells which call dropped a table.\<close>

definition handle_ok ::
    "database \<Rightarrow> call_event list \<Rightarrow> commit list \<Rightarrow> (SharedPtr \<Rightarrow> nat) \<Rightarrow> nat \<Rightarrow> string \<Rightarrow> SharedPtr \<Rightarrow> Statement \<Rightarrow> bool" where
  "handle_ok db es L dr i query p statement \<longleftrightarrow>
     bind_result (tokenize query) parse = Inr statement \<and>
     (\<exists>name body. table_statement statement = Some (name, body) \<and>
        (if p \<in> ran (catalogue db) then catalogue db name = Some p
         else \<exists>L1. drop_point db L (dr p) p name L1 \<and> (\<forall>j. ended_before es j i \<longrightarrow> j \<in> fst ` set L1)))"

definition handles_ok :: "database \<Rightarrow> (string \<times> call_pc) list \<Rightarrow> call_event list \<Rightarrow> commit list \<Rightarrow> (SharedPtr \<Rightarrow> nat) \<Rightarrow> bool" where
  "handles_ok db cs es L dr \<longleftrightarrow> inj_on dr (nameless db cs) \<and>
     (\<forall>i query p statement. holder cs i query p statement \<longrightarrow> handle_ok db es L dr i query p statement)"

definition linearized :: "Calls \<Rightarrow> call_event list \<Rightarrow> commit list \<Rightarrow> (SharedPtr \<Rightarrow> nat) \<Rightarrow> bool" where
  "linearized s es L dr \<longleftrightarrow> db_inv (cdb s) (held (calls s)) \<and> legal_from Map.empty L (database_relations (cdb s)) \<and>
     hist_ok (calls s) es L \<and> handles_ok (cdb s) (calls s) es L dr"

lemma drop_point_extend: "drop_point db L d p name L1 \<Longrightarrow> drop_point db (L @ X) d p name L1"
  unfolding drop_point_def by (metis append.assoc append_Cons)

lemma handle_ok_cong: "dr' p = dr p \<Longrightarrow> handle_ok db es L dr' i query p statement = handle_ok db es L dr i query p statement"
  by (simp only: handle_ok_def)

lemma handle_ok_frame:
  assumes "handle_ok db es L dr i query p statement" and "\<And>n. catalogue db' n = Some p \<longleftrightarrow> catalogue db n = Some p"
    and "p \<notin> ran (catalogue db) \<Longrightarrow> sp_value (db_mem db') p = sp_value (db_mem db) p"
    and "\<And>j. ended_before es' j i \<Longrightarrow> ended_before es j i"
  shows "handle_ok db' es' (L @ X) dr i query p statement"
proof -
  have ran: "p \<in> ran (catalogue db') \<longleftrightarrow> p \<in> ran (catalogue db)" using assms(2) by (auto simp: ran_def)
  have "drop_point db' (L @ X) (dr p) p name L1" if "p \<notin> ran (catalogue db)" "drop_point db L (dr p) p name L1" for name L1
    using drop_point_extend [OF that(2)] assms(3) [OF that(1)] by (simp add: drop_point_def)
  with assms(1,2,4) show ?thesis unfolding handle_ok_def ran by (auto split: if_splits; blast)
qed

lemma handles_frame:
  assumes ok: "handles_ok db cs es L dr"
    and cs: "\<And>i query p statement. holder cs' i query p statement \<Longrightarrow> holder cs i query p statement"
    and names: "\<not> renamed db db' (held cs)"
    and vals: "\<And>i query p statement. holder cs' i query p statement \<Longrightarrow> p \<notin> ran (catalogue db) \<Longrightarrow>
        sp_value (db_mem db') p = sp_value (db_mem db) p"
    and es: "\<And>i j query p statement. holder cs i query p statement \<Longrightarrow> ended_before es' j i \<Longrightarrow> ended_before es j i"
  shows "handles_ok db' cs' es' (L @ X) dr"
proof -
  have same: "catalogue db' n = Some p \<longleftrightarrow> catalogue db n = Some p" if "holder cs i query p statement" for n p i query statement
    using names holder_held [OF that] by (auto simp: renamed_def)
  have "nameless db' cs' \<subseteq> nameless db cs" using cs same by (auto simp: nameless_def ran_def; blast)
  with ok have "inj_on dr (nameless db' cs')" unfolding handles_ok_def by (blast intro: inj_on_subset)
  moreover have "handle_ok db' es' (L @ X) dr i query p statement" if h: "holder cs' i query p statement" for i query p statement
  proof (rule handle_ok_frame)
    show "handle_ok db es L dr i query p statement" using ok cs [OF h] by (simp add: handles_ok_def)
  qed (use same [OF cs [OF h]] vals [OF h] es [OF cs [OF h]] in auto)
  ultimately show ?thesis by (simp add: handles_ok_def)
qed

section \<open>Steps\<close>

lemma linearizedD:
  assumes "linearized s es L dr"
  shows "db_inv (cdb s) (held (calls s))" "legal_from Map.empty L (database_relations (cdb s))"
    "hist_ok (calls s) es L" "handles_ok (cdb s) (calls s) es L dr"
  using assms by (simp_all add: linearized_def)

lemma holder_update:
  assumes "holder (cs[i := (query, pc)]) k q p statement" and "\<And>p statement. pc \<noteq> Call_table p statement"
  shows "holder cs k q p statement \<and> k \<noteq> i"
  using assms by (cases "k = i") (auto simp: holder_def)

lemma lin_call:
  assumes "linearized s es L dr"
  shows "linearized (s\<lparr>calls := calls s @ [(query, Call_start)]\<rparr>) (es @ [Called (length (calls s)) query]) L dr"
proof -
  note d = linearizedD [OF assms]
  let ?cs = "calls s @ [(query, Call_start)]" and ?es = "es @ [Called (length (calls s)) query]"
  have "handles_ok (cdb s) ?cs ?es (L @ []) dr"
  proof (rule handles_frame [OF d(4)])
    show "ended_before ?es j i \<Longrightarrow> ended_before es j i" if "holder (calls s) i q p statement" for i j q p statement
      using that by (auto simp: holder_def ended_before_snoc)
  qed (auto simp: holder_def renamed_def nth_append split: if_splits)
  with d hist_call [OF d(3), of query] show ?thesis by (simp add: linearized_def)
qed

text \<open>A call that is done with its first step, and did not take a name from a held table.\<close>

lemma lin_commit_end:
  assumes lin: "linearized s es L dr" and i: "i < length (calls s)" "calls s ! i = (query, pc)" "committed (query, pc) = None"
    and pc': "committed (query, pc') = Some (query, reply)" "\<And>p statement. pc' \<noteq> Call_table p statement"
    and reply: "replies (fst (query_meaning query (database_relations (cdb s)))) reply"
    and db': "db_inv db' (held ((calls s)[i := (query, pc')]))"
      "database_relations db' = snd (query_meaning query (database_relations (cdb s)))"
    and handles: "handles_ok db' ((calls s)[i := (query, pc')]) (es @ returned i pc') (L @ [(i, query, reply)]) dr'"
  shows "linearized (s\<lparr>cdb := db', calls := (calls s)[i := (query, pc')]\<rparr>) (es @ returned i pc') (L @ [(i, query, reply)]) dr'"
proof -
  note d = linearizedD [OF lin]
  have "hist_ok ((calls s)[i := (query, pc')]) (es @ returned i pc') (L @ (i, query, reply) # [])"
    by (rule hist_commit [of _ _ L "[]", OF _ i pc'(1)]) (use d(3) ended_before_committed [OF d(3)] in auto)
  moreover have "legal_from Map.empty (L @ [(i, query, reply)]) (database_relations db')"
    using legal_replies [OF d(2) reply] db'(2) by (simp add: legal_from_after [OF d(2)])
  ultimately show ?thesis using db'(1) handles by (simp add: linearized_def)
qed

lemma drop_point_call: "drop_point db L d p name L1 \<Longrightarrow> d \<in> fst ` set L"
  by (force simp: drop_point_def)

lemma nameless_dropped:
  assumes "handles_ok db cs es L dr" "p \<in> nameless db cs"
  shows "dr p \<in> fst ` set L"
proof -
  from assms(2) obtain i query statement where "holder cs i query p statement" "p \<notin> ran (catalogue db)"
    unfolding nameless_def by blast
  with assms(1) obtain name L1 where "drop_point db L (dr p) p name L1" unfolding handles_ok_def handle_ok_def by metis
  then show ?thesis by (rule drop_point_call)
qed

lemma nameless_drop:
  assumes p: "catalogue db name = Some p" and db': "catalogue db' = (catalogue db)(name := None)"
    and h: "\<And>k qk pk sk. holder cs' k qk pk sk \<Longrightarrow> holder cs k qk pk sk"
  shows "nameless db' cs' \<subseteq> insert p (nameless db cs)"
proof
  fix pk
  assume pk: "pk \<in> nameless db' cs'"
  then obtain k qk sk where hk: "holder cs k qk pk sk" "pk \<notin> ran (catalogue db')" using h unfolding nameless_def by blast
  show "pk \<in> insert p (nameless db cs)"
  proof (cases "pk = p")
    case False
    have "catalogue db n \<noteq> Some pk" for n
    proof (cases "n = name")
      case False
      then have "catalogue db n = catalogue db' n" by (simp add: db')
      with hk(2) show ?thesis by (simp add: ran_def)
    qed (use p False in simp)
    then have "pk \<notin> ran (catalogue db)" by (simp add: ran_def)
    with hk(1) show ?thesis by (auto simp: nameless_def)
  qed simp
qed

lemma handles_drop:
  assumes lin: "linearized s es L dr" and i: "i < length (calls s)" "calls s ! i = (query, Call_start)"
    and q: "bind_result (tokenize query) parse = Inr (DropTableStatement name)" and p: "catalogue (cdb s) name = Some p"
    and db': "catalogue db' = (catalogue (cdb s))(name := None)" "kept (cdb s) db' (held (calls s))"
  shows "handles_ok db' ((calls s)[i := (query, Call_done reply)]) (es @ [Returned i reply]) (L @ [(i, query, reply)]) (dr(p := i))"
proof -
  note d = linearizedD [OF lin]
  let ?db = "cdb s" and ?cs = "calls s" and ?cs' = "(calls s)[i := (query, Call_done reply)]" and ?dr = "dr(p := i)"
  have only: "n = name" if "catalogue ?db n = Some p" for n
    using inj_onD [OF db_invD(3) [OF d(1)], of n name] that p by (simp add: domIff)
  have h: "holder ?cs k qk pk sk" if "holder ?cs' k qk pk sk" for k qk pk sk using holder_update [OF that] by simp
  have ok: "handle_ok ?db es L dr k qk pk sk" if "holder ?cs' k qk pk sk" for k qk pk sk
    using d(4) h [OF that] by (simp add: handles_ok_def)
  have nl: "nameless db' ?cs' \<subseteq> insert p (nameless ?db ?cs)" by (rule nameless_drop [OF p db'(1)]) (rule h)
  have "dr pk \<in> fst ` set L" if "pk \<in> nameless ?db ?cs" for pk
    using nameless_dropped [OF d(4) that] .
  moreover have "i \<notin> fst ` set L" using hist_okD(2) [OF d(3), of i] i by force
  ultimately have "inj_on ?dr (nameless db' ?cs')"
    using d(4) nl unfolding handles_ok_def by (intro inj_on_subset [OF _ nl]) (auto simp: inj_on_def)
  moreover have "handle_ok db' (es @ [Returned i reply]) (L @ [(i, query, reply)]) ?dr k qk pk sk" if hk: "holder ?cs' k qk pk sk" for k qk pk sk
  proof (cases "pk = p")
    case True
    have "p \<in> ran (catalogue ?db)" using p by (rule ranI)
    with ok [OF hk] True obtain n body where sk': "bind_result (tokenize qk) parse = Inr sk"
      "table_statement sk = Some (n, body)" "catalogue ?db n = Some p" unfolding handle_ok_def by auto
    then have sk: "bind_result (tokenize qk) parse = Inr sk" "table_statement sk = Some (name, body)" using only by simp_all
    have pk: "p \<in># held ?cs" using holder_held [OF h [OF hk]] True by simp
    obtain t where t: "sp_value (db_mem ?db) p = Some t" by (rule handle_deref [OF d(1) pk])
    then have "database_relations ?db name = Some (table_relation t)" using p by (simp add: database_relations_def table_of_def)
    moreover have "sp_value (db_mem db') p = Some t" using t db'(2) pk by (simp add: kept_def)
    ultimately have "drop_point db' (L @ [(i, query, reply)]) i p name L" using q d(2) unfolding drop_point_def by blast
    moreover have "p \<notin> ran (catalogue db')" using only by (auto simp: db'(1) ran_def split: if_splits)
    moreover have "ended_before es j k \<Longrightarrow> j \<in> fst ` set L" for j by (rule ended_before_committed [OF d(3)])
    ultimately show ?thesis unfolding handle_ok_def using sk True
      by (intro conjI exI [of _ name] exI [of _ body]) (auto simp: ended_before_snoc intro!: exI [of _ L])
  next
    case False
    have "catalogue db' n = Some pk \<longleftrightarrow> catalogue ?db n = Some pk" for n using False p by (auto simp: db'(1))
    from handle_ok_frame [OF ok [OF hk] this, of "es @ [Returned i reply]" "[(i, query, reply)]"] db'(2) holder_held [OF h [OF hk]]
    have "handle_ok db' (es @ [Returned i reply]) (L @ [(i, query, reply)]) dr k qk pk sk" by (simp add: kept_def ended_before_snoc)
    with False show ?thesis by (subst handle_ok_cong [of ?dr pk dr]) simp_all
  qed
  ultimately show ?thesis by (simp add: handles_ok_def)
qed

lemma handles_fetch:
  assumes ok: "handles_ok db cs es L dr" and i: "i < length cs" and p: "catalogue db name = Some p"
    and q: "bind_result (tokenize query) parse = Inr statement" "table_statement statement = Some (name, body)"
  shows "handles_ok db (cs[i := (query, Call_table p statement)]) es L dr"
proof -
  let ?cs = "cs[i := (query, Call_table p statement)]"
  have ran: "p \<in> ran (catalogue db)" using p by (rule ranI)
  have h: "holder cs k qk pk sk \<or> k = i \<and> qk = query \<and> pk = p \<and> sk = statement" if "holder ?cs k qk pk sk" for k qk pk sk
    using that by (cases "k = i") (auto simp: holder_def)
  have "nameless db ?cs \<subseteq> nameless db cs"
  proof
    fix pk
    assume "pk \<in> nameless db ?cs"
    then obtain k qk sk where "holder ?cs k qk pk sk" "pk \<notin> ran (catalogue db)" unfolding nameless_def by blast
    with h [of k qk pk sk] ran show "pk \<in> nameless db cs" unfolding nameless_def by blast
  qed
  then have "inj_on dr (nameless db ?cs)" using ok unfolding handles_ok_def by (blast intro: inj_on_subset)
  moreover have "handle_ok db es L dr i query p statement"
    unfolding handle_ok_def using q p ran by (intro conjI exI [of _ name] exI [of _ body]) simp_all
  ultimately show ?thesis using ok h unfolding handles_ok_def by metis
qed

lemma handles_done:
  assumes "linearized s es L dr" "kept (cdb s) db' (held (calls s))" "\<not> renamed (cdb s) db' (held (calls s))"
  shows "handles_ok db' ((calls s)[i := (query, Call_done reply)]) (es @ [Returned i reply]) (L @ [(i, query, reply)]) dr"
proof (rule handles_frame [OF linearizedD(4) [OF assms(1)] _ assms(3)])
  show "holder (calls s) k qk pk sk" if "holder ((calls s)[i := (query, Call_done reply)]) k qk pk sk" for k qk pk sk
    using holder_update [OF that] by simp
  then show "sp_value (db_mem db') pk = sp_value (db_mem (cdb s)) pk"
    if "holder ((calls s)[i := (query, Call_done reply)]) k qk pk sk" for k qk pk sk
    using assms(2) holder_held that by (meson kept_def)
qed (simp add: ended_before_snoc)

lemma lin_start:
  assumes lin: "linearized s es L dr" and i: "i < length (calls s)" "calls s ! i = (query, Call_start)"
  shows "\<exists>pc db' L' dr'. call_start (cdb s) query = Inr (pc, db') \<and>
    linearized (s\<lparr>cdb := db', calls := (calls s)[i := (query, pc)]\<rparr>) (es @ returned i pc) L' dr'"
proof -
  note d = linearizedD [OF lin]
  obtain C where C: "held (calls s) = C" "\<And>pc. held ((calls s)[i := (query, pc)]) = handles_of pc + C"
    using held_split [OF i] by (metis add_cancel_right_left handles_of.simps(3))
  note frame = handles_done [OF lin]
  have commit: ?thesis if start: "call_start (cdb s) query = Inr (Call_done reply, db')" and inv: "db_inv db' (held (calls s))"
    and reply: "replies (fst (query_meaning query (database_relations (cdb s)))) reply"
      "database_relations db' = snd (query_meaning query (database_relations (cdb s)))"
    and handles: "handles_ok db' ((calls s)[i := (query, Call_done reply)]) (es @ [Returned i reply]) (L @ [(i, query, reply)]) dr'"
    for reply db' dr'
  proof -
    have "linearized (s\<lparr>cdb := db', calls := (calls s)[i := (query, Call_done reply)]\<rparr>) (es @ returned i (Call_done reply))
        (L @ [(i, query, reply)]) dr'"
      by (rule lin_commit_end [OF lin i]) (use inv reply handles C in simp_all)
    with start show ?thesis by blast
  qed
  from d(1) show ?thesis
  proof (rule call_start_cases [of _ _ query])
    fix statement name body p db'
    assume q: "bind_result (tokenize query) parse = Inr statement" "table_statement statement = Some (name, body)"
      and start: "call_start (cdb s) query = Inr (Call_table p statement, db')" and p: "catalogue (cdb s) name = Some p"
      and db': "db_inv db' (add_mset p (held (calls s)))" "catalogue db' = catalogue (cdb s)"
        "database_relations db' = database_relations (cdb s)" "kept (cdb s) db' (held (calls s))"
    have "handles_ok db' (calls s) es (L @ []) dr"
      by (rule handles_frame [OF d(4)]) (use db'(2,4) holder_held in \<open>auto simp: renamed_def kept_def\<close>)
    then have "handles_ok db' ((calls s)[i := (query, Call_table p statement)]) es L dr"
      using handles_fetch [OF _ i(1) _ q, of db' es L dr p] p db'(2) by simp
    moreover have "hist_ok ((calls s)[i := (query, Call_table p statement)]) (es @ returned i (Call_table p statement)) L"
      by (rule hist_move [OF d(3) i]) simp_all
    ultimately show ?thesis using start d(2) db'(1,3) C
      by (intro exI [of _ "Call_table p statement"] exI [of _ db'] exI [of _ L] exI [of _ dr]) (simp add: linearized_def)
  next
    fix name reply db'
    assume q: "bind_result (tokenize query) parse = Inr (DropTableStatement name)"
      and start: "call_start (cdb s) query = Inr (Call_done reply, db')" and inv: "db_inv db' (held (calls s))"
      and reply: "replies (fst (query_meaning query (database_relations (cdb s)))) reply"
        "database_relations db' = snd (query_meaning query (database_relations (cdb s)))"
      and db': "kept (cdb s) db' (held (calls s))" "catalogue db' = (catalogue (cdb s))(name := None)"
    have "\<exists>dr'. handles_ok db' ((calls s)[i := (query, Call_done reply)]) (es @ [Returned i reply]) (L @ [(i, query, reply)]) dr'"
    proof (cases "catalogue (cdb s) name")
      case None
      then have "catalogue db' = catalogue (cdb s)" using db'(2) by auto
      with frame [OF db'(1)] show ?thesis by (auto simp: renamed_def)
    next
      case (Some p)
      from handles_drop [OF lin i q Some db'(2,1)] show ?thesis by blast
    qed
    with commit [OF start inv reply] show ?thesis by blast
  next
    fix reply db'
    assume "call_start (cdb s) query = Inr (Call_done reply, db')" "db_inv db' (held (calls s))"
      "replies (fst (query_meaning query (database_relations (cdb s)))) reply"
      "database_relations db' = snd (query_meaning query (database_relations (cdb s)))"
      "kept (cdb s) db' (held (calls s))" "\<not> renamed (cdb s) db' (held (calls s))"
    with commit frame show ?thesis by blast
  qed
qed

lemma lin_release:
  assumes lin: "linearized s es L dr" and i: "i < length (calls s)" "calls s ! i = (query, Call_release p r)"
    and r: "outcome m r"
  shows "\<exists>db'. call_release (cdb s) p r = Inr (Call_done (reply_of r), db') \<and>
    linearized (s\<lparr>cdb := db', calls := (calls s)[i := (query, Call_done (reply_of r))]\<rparr>) (es @ [Returned i (reply_of r)]) L dr"
proof -
  note d = linearizedD [OF lin]
  let ?cs = "(calls s)[i := (query, Call_done (reply_of r))]"
  obtain C where C: "held (calls s) = add_mset p C" "held ?cs = C" using held_split [OF i] by (metis add_mset_add_single
      add_cancel_right_left handles_of.simps(2,4) union_commute)
  from drop_handle_spec [of "cdb s" p C] d(1) C(1) obtain db' where db': "drop_handle (cdb s) p = Inr db'" "db_inv db' C"
    "tables db' = tables (cdb s)" "table_of db' = table_of (cdb s)" "\<forall>q \<in># C. sp_value (db_mem db') q = sp_value (db_mem (cdb s)) q"
    by auto
  have "handles_ok db' ?cs (es @ [Returned i (reply_of r)]) (L @ []) dr"
  proof (rule handles_frame [OF d(4)])
    show "holder (calls s) k qk pk sk" if "holder ?cs k qk pk sk" for k qk pk sk using holder_update [OF that] by simp
    show "sp_value (db_mem db') pk = sp_value (db_mem (cdb s)) pk" if "holder ?cs k qk pk sk" for k qk pk sk
      using holder_held [OF that] db'(5) C(2) by simp
  qed (simp_all add: ended_before_snoc renamed_def db'(3))
  moreover have "hist_ok ?cs (es @ returned i (Call_done (reply_of r))) L" by (rule hist_move [OF d(3) i]) simp_all
  moreover have "call_release (cdb s) p r = Inr (Call_done (reply_of r), db')"
    using db'(1) outcome_reply(1) [OF r] by (simp add: call_release_def)
  ultimately show ?thesis using d(2) db'(2,4) C(2) by (simp add: linearized_def database_relations_def)
qed

lemma distinct_split:
  assumes "distinct (map fst L)" and "L = L1 @ (d, q, r) # L2" and "L = M1 @ (d, q', r') # M2"
  shows "M1 = L1 \<and> q' = q \<and> r' = r"
proof -
  have "L1 @ (d, q, r) # L2 = M1 @ (d, q', r') # M2" using assms(2,3) by simp
  then consider X where "M1 = L1 @ (d, q, r) # X" "L2 = X @ (d, q', r') # M2" | "M1 = L1" "(d, q, r) = (d, q', r')"
    | X where "L1 = M1 @ (d, q', r') # X"
    by (auto simp: append_eq_append_conv2 Cons_eq_append_conv append_eq_Cons_conv)
  then show ?thesis using assms(1,2) by cases auto
qed

text \<open>
  A call that works on a table without a name takes effect before the statement that dropped the table;
  what is known of the tables dropped earlier or later stays true.
\<close>

lemma drop_point_insert:
  assumes L: "L = L1 @ (dp, drop_query, drop_reply) # L2" "distinct (map fst L)"
      "bind_result (tokenize drop_query) parse = Inr (DropTableStatement name)" "legal_from Map.empty L1 D" "D name = Some R"
    and f: "query_meaning query D = at_table name f D" "replies_exactly (fst (f R)) reply"
    and M: "drop_point db L dk pk n M"
    and k: "if dk = dp then \<exists>t'. sp_value (db_mem db') pk = Some t' \<and> table_relation t' = snd (f R)
      else sp_value (db_mem db') pk = sp_value (db_mem db) pk"
  shows "\<exists>M'. drop_point db' (L1 @ (i, query, reply) # (dp, drop_query, drop_reply) # L2) dk pk n M' \<and> set M \<subseteq> set M'"
proof -
  let ?L = "L1 @ (i, query, reply) # (dp, drop_query, drop_reply) # L2"
  from M obtain q0 r0 M2 D0 t0 where M': "L = M @ (dk, q0, r0) # M2"
    "bind_result (tokenize q0) parse = Inr (DropTableStatement n)" "legal_from Map.empty M D0"
    "sp_value (db_mem db) pk = Some t0" "D0 n = Some (table_relation t0)" unfolding drop_point_def by blast
  show ?thesis
  proof (cases "dk = dp")
    case True
    with distinct_split [OF L(2,1)] M'(1) have eq: "M = L1" "q0 = drop_query" by auto
    then have n: "n = name" using M'(2) L(3) by simp
    have "legal_from Map.empty L1 D \<Longrightarrow> legal_from Map.empty (L1 @ [(i, query, reply)]) (D(name \<mapsto> snd (f R)))"
      using f L(5) by (simp add: legal_from_after at_table_def split_beta)
    with L(4) have "drop_point db' ?L dk pk n (L1 @ [(i, query, reply)])"
      unfolding drop_point_def using True n L(3) k by fastforce
    with eq show ?thesis by (intro exI [of _ "L1 @ [(i, query, reply)]"]) auto
  next
    case False
    then have v: "sp_value (db_mem db') pk = Some t0" using k M'(4) by simp
    from L(1) M'(1) False consider (earlier) X where "L1 = M @ (dk, q0, r0) # X"
      | (later) X where "M = L1 @ (dp, drop_query, drop_reply) # X" "L2 = X @ (dk, q0, r0) # M2"
      by (auto simp: append_eq_append_conv2 Cons_eq_append_conv append_eq_Cons_conv)
    then show ?thesis
    proof cases
      case earlier
      then have "?L = M @ (dk, q0, r0) # X @ (i, query, reply) # (dp, drop_query, drop_reply) # L2" by simp
      with M' v show ?thesis unfolding drop_point_def by blast
    next
      case later
      let ?M = "L1 @ (i, query, reply) # (dp, drop_query, drop_reply) # X"
      have "?L = ?M @ (dk, q0, r0) # M2" using later by simp
      moreover have "legal_from Map.empty ?M D0" using legal_insert(1) [OF M'(3) [unfolded later(1)] L(4,3,5) f] .
      ultimately have "drop_point db' ?L dk pk n ?M" using M'(2,5) v unfolding drop_point_def by blast
      with later(1) show ?thesis by (intro exI [of _ ?M]) auto
    qed
  qed
qed

lemma handles_insert:
  assumes lin: "linearized s es L dr" and i: "holder (calls s) i query p statement" and p: "p \<notin> ran (catalogue (cdb s))"
    and L: "L = L1 @ (dr p, drop_query, drop_reply) # L2"
      "bind_result (tokenize drop_query) parse = Inr (DropTableStatement name)" "legal_from Map.empty L1 D" "D name = Some R"
    and f: "query_meaning query D = at_table name f D" "replies_exactly (fst (f R)) reply"
    and db': "catalogue db' = catalogue (cdb s)" "sp_value (db_mem db') p = Some t'" "table_relation t' = snd (f R)"
      "\<And>q. q \<in># held (calls s) \<Longrightarrow> q \<noteq> p \<Longrightarrow> sp_value (db_mem db') q = sp_value (db_mem (cdb s)) q"
    and cs': "cs' = (calls s)[i := (query, Call_release p r)]"
  shows "handles_ok db' cs' es (L1 @ (i, query, reply) # (dr p, drop_query, drop_reply) # L2) dr"
proof -
  note d = linearizedD [OF lin]
  let ?cs = "calls s" and ?db = "cdb s" and ?L = "L1 @ (i, query, reply) # (dr p, drop_query, drop_reply) # L2"
  have h: "holder ?cs k qk pk sk" if "holder cs' k qk pk sk" for k qk pk sk using holder_update that unfolding cs' by blast
  have nl: "nameless db' cs' \<subseteq> nameless ?db ?cs" using h unfolding nameless_def db'(1) by blast
  then have "inj_on dr (nameless db' cs')" using d(4) unfolding handles_ok_def by (blast intro: inj_on_subset)
  moreover have "handle_ok db' es ?L dr k qk pk sk" if hk: "holder cs' k qk pk sk" for k qk pk sk
  proof -
    from d(4) h [OF hk] obtain n body where k: "bind_result (tokenize qk) parse = Inr sk" "table_statement sk = Some (n, body)"
      and at: "if pk \<in> ran (catalogue ?db) then catalogue ?db n = Some pk
        else \<exists>M. drop_point ?db L (dr pk) pk n M \<and> (\<forall>j. ended_before es j k \<longrightarrow> j \<in> fst ` set M)"
      unfolding handles_ok_def handle_ok_def by blast
    have "\<exists>M. drop_point db' ?L (dr pk) pk n M \<and> (\<forall>j. ended_before es j k \<longrightarrow> j \<in> fst ` set M)" if pk: "pk \<notin> ran (catalogue ?db)"
    proof -
      from at pk obtain M where M: "drop_point ?db L (dr pk) pk n M" "\<forall>j. ended_before es j k \<longrightarrow> j \<in> fst ` set M" by auto
      have "pk \<in> nameless ?db ?cs" "p \<in> nameless ?db ?cs" using h [OF hk] i pk p unfolding nameless_def by blast+
      then have "dr pk = dr p \<longleftrightarrow> pk = p" using d(4) unfolding handles_ok_def by (meson inj_onD)
      with db'(2-4) holder_held [OF h [OF hk]] have "if dr pk = dr p then \<exists>t'. sp_value (db_mem db') pk = Some t' \<and>
          table_relation t' = snd (f R) else sp_value (db_mem db') pk = sp_value (db_mem ?db) pk" by auto
      from drop_point_insert [OF L(1) hist_okD(1) [OF d(3)] L(2-4) f M(1) this] M(2) show ?thesis by blast
    qed
    with k at show ?thesis unfolding handle_ok_def db'(1) by (intro conjI exI [of _ n] exI [of _ body]) auto
  qed
  ultimately show ?thesis by (simp add: handles_ok_def)
qed

text \<open>The step on the table: it calls one member of a well-formed table, named or not.\<close>

lemma call_table_step:
  assumes lin: "linearized s es L dr" and i: "i < length (calls s)" "calls s ! i = (query, Call_table p statement)"
  obtains name body f t t' r db' where "handle_ok (cdb s) es L dr i query p statement"
    "table_statement statement = Some (name, body)" "\<And>D. query_meaning query D = at_table name f D"
    "sp_value (db_mem (cdb s)) p = Some t" "call_table (cdb s) p statement = Inr (Call_release p r, db')"
    "outcome (fst (f (table_relation t))) r" "table_relation t' = snd (f (table_relation t))"
    "catalogue db' = catalogue (cdb s)" "sp_value (db_mem db') p = Some t'"
    "db_inv db' (held ((calls s)[i := (query, Call_release p r)]))"
    "\<And>n. table_of db' n = (if catalogue (cdb s) n = Some p then Some t' else table_of (cdb s) n)"
    "\<And>q. q \<in># held (calls s) \<Longrightarrow> q \<noteq> p \<Longrightarrow> sp_value (db_mem db') q = sp_value (db_mem (cdb s)) q"
proof -
  note d = linearizedD [OF lin]
  have hold: "holder (calls s) i query p statement" using i by (simp add: holder_def)
  have p: "p \<in># held (calls s)" by (rule holder_held [OF hold])
  obtain t where t: "sp_deref (db_mem (cdb s)) p = Inr t" "tbl_inv t" "sp_value (db_mem (cdb s)) p = Some t"
    by (rule handle_deref [OF d(1) p])
  from d(4) hold have ok: "handle_ok (cdb s) es L dr i query p statement" by (simp add: handles_ok_def)
  then obtain name body where q: "bind_result (tokenize query) parse = Inr statement" "table_statement statement = Some (name, body)"
    unfolding handle_ok_def by blast
  obtain f where f: "\<And>D. query_meaning query D = at_table name f D" "table_agrees (body t) (f (table_relation t))"
    using table_statement_agrees [OF q] t(2) by metis
  have b: "tbl_inv (snd (body t))" "outcome (fst (f (table_relation t))) (fst (body t))"
    "table_relation (snd (body t)) = snd (f (table_relation t))" using f(2) by (simp_all add: table_agrees_def)
  from store_handle_spec [OF d(1) p b(1)] obtain m where m: "sp_store (db_mem (cdb s)) p (snd (body t)) = Inr m"
    "db_inv ((cdb s)\<lparr>db_mem := m\<rparr>) (held (calls s))" "sp_value m p = Some (snd (body t))"
    "\<forall>n. table_of ((cdb s)\<lparr>db_mem := m\<rparr>) n = (if catalogue (cdb s) n = Some p then Some (snd (body t)) else table_of (cdb s) n)"
    "\<forall>q \<in># held (calls s). q \<noteq> p \<longrightarrow> sp_value m q = sp_value (db_mem (cdb s)) q" by blast
  have "held ((calls s)[i := (query, Call_release p (fst (body t)))]) = held (calls s)"
    using held_split [OF i] by (metis handles_of.simps(1,2))
  moreover have "call_table (cdb s) p statement = Inr (Call_release p (fst (body t)), (cdb s)\<lparr>db_mem := m\<rparr>)"
    using q(2) t(1) m(1) by (simp add: call_table_def)
  ultimately show ?thesis using ok q(2) f(1) t(3) b(2,3) m
    by (intro that [of name body f t "fst (body t)" "(cdb s)\<lparr>db_mem := m\<rparr>" "snd (body t)"]) simp_all
qed

lemma lin_table:
  assumes lin: "linearized s es L dr" and i: "i < length (calls s)" "calls s ! i = (query, Call_table p statement)"
  shows "\<exists>r db' L'. call_table (cdb s) p statement = Inr (Call_release p r, db') \<and> (\<exists>m. outcome m r) \<and>
    linearized (s\<lparr>cdb := db', calls := (calls s)[i := (query, Call_release p r)]\<rparr>) es L' dr"
proof (rule call_table_step [OF lin i])
  fix name body f t t' r db'
  assume at: "handle_ok (cdb s) es L dr i query p statement" "table_statement statement = Some (name, body)"
    and f: "\<And>D. query_meaning query D = at_table name f D" and t: "sp_value (db_mem (cdb s)) p = Some t"
    and step: "call_table (cdb s) p statement = Inr (Call_release p r, db')"
    and b: "outcome (fst (f (table_relation t))) r" "table_relation t' = snd (f (table_relation t))"
    and db': "catalogue db' = catalogue (cdb s)" "sp_value (db_mem db') p = Some t'"
      "db_inv db' (held ((calls s)[i := (query, Call_release p r)]))"
      "\<And>n. table_of db' n = (if catalogue (cdb s) n = Some p then Some t' else table_of (cdb s) n)"
      "\<And>q. q \<in># held (calls s) \<Longrightarrow> q \<noteq> p \<Longrightarrow> sp_value (db_mem db') q = sp_value (db_mem (cdb s)) q"
  note d = linearizedD [OF lin]
  let ?cs = "(calls s)[i := (query, Call_release p r)]" and ?R = "table_relation t"
  have "\<exists>L'. linearized (s\<lparr>cdb := db', calls := ?cs\<rparr>) es L' dr"
  proof (cases "p \<in> ran (catalogue (cdb s))")
    case True
    then have name: "catalogue (cdb s) name = Some p" using at by (auto simp: handle_ok_def)
    have D: "database_relations (cdb s) name = Some ?R" using name t by (simp add: database_relations_def table_of_def)
    have "catalogue (cdb s) n = Some p \<longleftrightarrow> n = name" for n
      using inj_onD [OF db_invD(3) [OF d(1)], of n name] name by (auto simp: domIff)
    then have rel: "database_relations db' = snd (query_meaning query (database_relations (cdb s)))"
      using D db'(4) b(2) by (auto simp: f at_table_def database_relations_def fun_eq_iff split_beta)
    have "handles_ok db' ?cs (es @ returned i (Call_release p r)) (L @ [(i, query, reply_of r)]) dr"
    proof (rule handles_frame [OF d(4)])
      show hu: "holder (calls s) k qk pk sk" if "holder ?cs k qk pk sk" for k qk pk sk using holder_update [OF that] by simp
      show "sp_value (db_mem db') pk = sp_value (db_mem (cdb s)) pk" if "holder ?cs k qk pk sk" "pk \<notin> ran (catalogue (cdb s))" for k qk pk sk
        using db'(5) holder_held [OF hu [OF that(1)]] that(2) True by auto
    qed (simp_all add: renamed_def db'(1))
    from lin_commit_end [OF lin i _ _ _ _ _ rel this] db'(3) outcome_reply(2) [OF b(1)] D
    show ?thesis by (auto simp: f at_table_def split_beta)
  next
    case False
    then obtain L1 where L1: "drop_point (cdb s) L (dr p) p name L1" "\<forall>j. ended_before es j i \<longrightarrow> j \<in> fst ` set L1"
      using at by (auto simp: handle_ok_def)
    then obtain dq rq L2 D where L: "L = L1 @ (dr p, dq, rq) # L2" "bind_result (tokenize dq) parse = Inr (DropTableStatement name)"
      "legal_from Map.empty L1 D" "D name = Some ?R" using t unfolding drop_point_def by auto
    have rep: "replies_exactly (fst (f ?R)) (reply_of r)"
      using legal_replies [OF L(3), of query "reply_of r"] outcome_reply(2) [OF b(1)] L(4) by (simp add: f at_table_def split_beta)
    have hold: "holder (calls s) i query p statement" using i by (simp add: holder_def)
    from handles_insert [OF lin hold False L f rep db'(1,2) b(2) db'(5) refl]
    have "handles_ok db' ?cs es (L1 @ (i, query, reply_of r) # (dr p, dq, rq) # L2) dr" .
    moreover have "hist_ok ?cs (es @ returned i (Call_release p r)) (L1 @ (i, query, reply_of r) # (dr p, dq, rq) # L2)"
      by (rule hist_commit [OF d(3) [unfolded L(1)] i]) (use L1(2) in simp_all)
    moreover note legal_insert(1) [OF d(2) [unfolded L(1)] L(3,2,4) f rep, of i]
    moreover have "database_relations db' = database_relations (cdb s)"
      using db'(4) False by (auto simp: database_relations_def fun_eq_iff ran_def)
    ultimately show ?thesis using db'(3) by (auto simp: linearized_def)
  qed
  with step b(1) show ?thesis by blast
qed

section \<open>Linearizability\<close>

definition results_ok :: "(string \<times> call_pc) list \<Rightarrow> bool" where
  "results_ok cs \<longleftrightarrow> (\<forall>i query p r. i < length cs \<longrightarrow> cs ! i = (query, Call_release p r) \<longrightarrow> (\<exists>m. outcome m r))"

lemma results_update:
  assumes "results_ok cs" "\<And>p r. pc = Call_release p r \<Longrightarrow> \<exists>m. outcome m r"
  shows "results_ok (cs[i := (query, pc)])"
  unfolding results_ok_def
proof (intro allI impI)
  fix k q p r
  assume "k < length (cs[i := (query, pc)])" "cs[i := (query, pc)] ! k = (q, Call_release p r)"
  then show "\<exists>m. outcome m r" using assms by (cases "k = i") (auto simp: results_ok_def)
qed

definition calls_good :: "Calls \<Rightarrow> call_event list \<Rightarrow> bool" where
  "calls_good s es \<longleftrightarrow> results_ok (calls s) \<and> (\<exists>L dr. linearized s es L dr)"

lemma calls_goodI: "results_ok (calls s) \<Longrightarrow> linearized s es L dr \<Longrightarrow> calls_good s es"
  by (auto simp: calls_good_def)

lemma call_act_good:
  assumes good: "calls_good s es" and act: "call_act a s = Some res"
  shows "\<exists>e s'. res = Inr (e, s') \<and> calls_good s' (es @ e)"
proof -
  from good obtain L dr where lin: "linearized s es L dr" and ok: "results_ok (calls s)" by (auto simp: calls_good_def)
  show ?thesis
  proof (cases a)
    case (Call query)
    have "results_ok (calls s @ [(query, Call_start)])" using ok by (auto simp: results_ok_def nth_append less_Suc_eq)
    then have "calls_good (s\<lparr>calls := calls s @ [(query, Call_start)]\<rparr>) (es @ [Called (length (calls s)) query])"
      by (intro calls_goodI [OF _ lin_call [OF lin]]) simp
    with Call act show ?thesis by auto
  next
    case (Step i)
    with act have i: "i < length (calls s)" by (simp split: if_splits)
    obtain query pc where pc: "calls s ! i = (query, pc)" by (cases "calls s ! i")
    show ?thesis
    proof (cases pc)
      case Call_start
      with lin_start [OF lin i] pc obtain pc' db' L' dr' where
        n: "call_start (cdb s) query = Inr (pc', db')"
          "linearized (s\<lparr>cdb := db', calls := (calls s)[i := (query, pc')]\<rparr>) (es @ returned i pc') L' dr'" by blast
      have "pc' \<noteq> Call_release p r" for p r
        using n(1) by (auto simp: call_start_def call_reply_def bind_result_eq_Inr split: sum.splits option.splits prod.splits)
      then have "results_ok ((calls s)[i := (query, pc')])" by (intro results_update [OF ok]) blast
      with n(2) have "calls_good (s\<lparr>cdb := db', calls := (calls s)[i := (query, pc')]\<rparr>) (es @ returned i pc')"
        by (intro calls_goodI) simp_all
      with n(1) Step act i pc Call_start show ?thesis by (auto simp: call_step_def)
    next
      case (Call_table p statement)
      with lin_table [OF lin i] pc obtain r db' L' where
        n: "call_table (cdb s) p statement = Inr (Call_release p r, db')" "\<exists>m. outcome m r"
        "linearized (s\<lparr>cdb := db', calls := (calls s)[i := (query, Call_release p r)]\<rparr>) es L' dr" by blast
      have "results_ok ((calls s)[i := (query, Call_release p r)])" by (intro results_update [OF ok]) (use n(2) in simp)
      with n(3) have "calls_good (s\<lparr>cdb := db', calls := (calls s)[i := (query, Call_release p r)]\<rparr>) es"
        by (intro calls_goodI) simp_all
      with n(1) Step act i pc Call_table show ?thesis by (auto simp: call_step_def)
    next
      case (Call_release p r)
      with ok i pc obtain m where "outcome m r" unfolding results_ok_def by blast
      with lin_release [OF lin i] pc Call_release obtain db' where
        n: "call_release (cdb s) p r = Inr (Call_done (reply_of r), db')"
        "linearized (s\<lparr>cdb := db', calls := (calls s)[i := (query, Call_done (reply_of r))]\<rparr>) (es @ [Returned i (reply_of r)]) L dr"
        by blast
      have "results_ok ((calls s)[i := (query, Call_done (reply_of r))])" by (intro results_update [OF ok]) simp
      with n(2) have "calls_good (s\<lparr>cdb := db', calls := (calls s)[i := (query, Call_done (reply_of r))]\<rparr>)
          (es @ [Returned i (reply_of r)])" by (intro calls_goodI) simp_all
      with n(1) Step act i pc Call_release show ?thesis by (auto simp: call_step_def)
    qed (use Step act i pc in simp)
  qed
qed

interpretation lin: history_invariant "calls_init (new_database hs hi)" calls_step calls_good for hs hi
proof
  fix s assume "calls_init (new_database hs hi) s"
  then have s: "cdb s = new_database hs hi" "calls s = []" by (simp_all add: calls_init_def new_Calls_def)
  have "linearized s [] [] (\<lambda>_. 0)"
    using new_database_inv [of hs hi]
    by (auto simp: linearized_def s held_def database_relations_def hist_ok_def ordered_def handles_ok_def nameless_def holder_def)
  then show "calls_good s []" by (auto simp: calls_good_def s results_ok_def)
next
  fix s es e t assume "calls_good s es" "calls_step s e t"
  with call_act_good show "calls_good t (es @ e)" by (fastforce simp: calls_step_def)
qed

lemma call_enabled:
  assumes "calls_good s es" "i < length (calls s)"
  shows "(\<exists>reply. snd (calls s ! i) = Call_done reply) \<or> (\<exists>e s'. call_act (Step i) s = Some (Inr (e, s')))"
proof -
  obtain query pc where pc: "calls s ! i = (query, pc)" by (cases "calls s ! i")
  then have "(\<exists>reply. snd (calls s ! i) = Call_done reply) \<or> (\<exists>res. call_act (Step i) s = Some res)"
    using assms(2) by (cases pc) simp_all
  with call_act_good [OF assms(1)] show ?thesis by blast
qed


text \<open>A row is inserted into a table that another call drops after the first has its handle.\<close>

fun call_acts :: "call_action list \<Rightarrow> call_event list \<Rightarrow> Calls \<Rightarrow> (call_event list \<times> Calls) option" where
  "call_acts [] es s = Some (es, s)"
| "call_acts (a # as) es s =
     (case call_act a s of Some (Inr (e, s')) \<Rightarrow> call_acts as (es @ e) s' | _ \<Rightarrow> None)"

lemma call_acts_run:
  "call_acts as es s = Some (es', s') \<Longrightarrow> run_of (calls_init db) calls_step s es \<Longrightarrow> run_of (calls_init db) calls_step s' es'"
proof (induction as arbitrary: es s)
  case (Cons a as)
  then obtain e s1 where s1: "call_act a s = Some (Inr (e, s1))" "call_acts as (es @ e) s1 = Some (es', s')"
    by (auto simp del: call_act.simps split: option.splits sum.splits prod.splits)
  then have "calls_step s e s1" by (auto simp: calls_step_def)
  from Cons.IH [OF s1(2) run_step [OF Cons.prems(2) this]] show ?case .
qed simp

definition demo_calls :: "call_action list" where
  "demo_calls =
     [Call ''CREATE TABLE t (id INT)'', Step 0, Call ''INSERT INTO t (id) VALUES (1)'', Step 1, Call ''DROP TABLE t'', Step 2,
      Call ''SELECT * FROM t'', Step 3, Step 1, Step 1]"

lemma demo_calls_run:
  "map_option (\<lambda>(es, s). (butlast (butlast (butlast es)), drop 7 es))
     (call_acts demo_calls [] (new_Calls (new_database (\<lambda>_. 0) (\<lambda>_. 0)))) =
   Some ([Called 0 ''CREATE TABLE t (id INT)'', Returned 0 ''OK'', Called 1 ''INSERT INTO t (id) VALUES (1)'',
     Called 2 ''DROP TABLE t'', Returned 2 ''OK''], [Returned 1 ''OK''])"
  by code_simp


section \<open>A call alone\<close>

lemma run_table_statement: "table_statement statement = Some (name, body) \<Longrightarrow> run db statement = with_table db name body"
  by (cases statement) (auto simp: run_insert_def run_select_def run_update_def run_delete_def)

lemma run_catalogue_statement: "bind_result (tokenize query) parse = Inr statement \<Longrightarrow> table_statement statement = None \<Longrightarrow>
  call_start db query = bind_result (execute db query) (\<lambda>(reply, db'). Inr (Call_done reply, db'))"
  by (auto simp: call_start_def call_reply_def execute_def split: prod.splits sum.splits)

text \<open>Without other threads the steps are \<^verbatim>\<open>execute\<close>.\<close>

lemma call_through_execute:
  assumes inv: "db_inv db C"
  shows "call_through db query = bind_result (execute db query) (\<lambda>(reply, db'). Inr (Call_done reply, db'))"
proof (cases "bind_result (tokenize query) parse")
  case (Inl e)
  then show ?thesis by (auto simp: call_through_def call_start_def call_reply_def execute_def caught_def)
next
  case (Inr statement)
  show ?thesis
  proof (cases "table_statement statement")
    case None
    from run_catalogue_statement [OF Inr this, of db] show ?thesis
      by (cases "execute db query") (auto simp: call_through_def)
  next
    case (Some nb)
    obtain name body where nb: "table_statement statement = Some (name, body)" using Some by (cases nb) auto
    note run = run_table_statement [OF nb, of db]
    show ?thesis
    proof (cases "tableOrThrow db name")
      case (Inl e)
      then show ?thesis using Inr nb run
        by (auto simp: call_through_def call_start_def call_reply_def execute_def with_table_def caught_def)
    next
      case found: (Inr pd)
      obtain p db1 where pd: "pd = (p, db1)" by (cases pd)
      then have start: "call_start db query = Inr (Call_table p statement, db1)" using found Inr nb by (simp add: call_start_def)
      from call_start_table [OF inv Inr nb] start have inv1: "db_inv db1 (add_mset p C)" by auto
      obtain t where t: "sp_deref (db_mem db1) p = Inr t" "tbl_inv t" by (rule handle_deref [OF inv1]) auto
      obtain f where "table_agrees (body t) (f (table_relation t))" using table_statement_agrees [OF Inr nb] t(2) by metis
      then have "tbl_inv (snd (body t))" by (simp add: table_agrees_def)
      from store_handle_spec [OF inv1 _ this, of p] obtain m where m: "sp_store (db_mem db1) p (snd (body t)) = Inr m"
        "db_inv (db1\<lparr>db_mem := m\<rparr>) (add_mset p C)" by auto
      from drop_handle_spec [OF m(2)] obtain db2 where "drop_handle (db1\<lparr>db_mem := m\<rparr>) p = Inr db2" by blast
      then show ?thesis using start found pd t(1) m(1) Inr nb run
        by (auto simp: call_through_def call_table_def call_release_def call_reply_def execute_def with_table_def split_beta Let_def
            split: sum.splits)
    qed
  qed
qed

end
