(* ===== verification/Table_Threads.thy ===== *)
theory Table_Threads
  imports Table_Props RWLock
begin

text \<open>
  A table of \<^verbatim>\<open>src/core/table.cpp\<close> that any number of threads call at the same time, with its
  readers-writer lock. A member takes a \<^verbatim>\<open>ReadGuard\<close> or a \<^verbatim>\<open>WriteGuard\<close>, does its work, and lets the guard go.
  Readers may be inside together, and \<open>findById\<close> changes the cache although it is a reader: its two
  uses of the cache, each under the mutex of the cache, and the search between them are steps of their own. The
  work of every other member is one step: a writer is alone, and the other readers change nothing.
  \<open>insert\<close> and \<open>updateWhere\<close> check their arguments against the schema before they lock, and a call they
  reject never touches the lock.
\<close>

fun reads_only :: "table_op \<Rightarrow> bool" where
  "reads_only (T_find i) = True"
| "reads_only (T_selectWhere P) = True"
| "reads_only (T_selectIdRange lo hi) = True"
| "reads_only _ = False"

definition guard_pc :: "table_op \<Rightarrow> rw_pc" where
  "guard_pc op = (if reads_only op then Reading else Writing)"

text \<open>Where a thread is: outside, in the constructor of its guard or past it, in \<open>findById\<close>, or done and about to unlock.\<close>

datatype member_pc =
    M_none
  | M_entered table_op
  | M_searching int64
  | M_storing int64 Row
  | M_leaving table_op table_answer

fun outside :: "member_pc \<Rightarrow> bool" where
  "outside M_none = True"
| "outside _ = False"

record Guarded_Table =
  guard_lock :: RWLock
  guarded :: table
  members :: "member_pc list"

definition new_Guarded_Table :: "nat \<Rightarrow> table \<Rightarrow> Guarded_Table" where
  "new_Guarded_Table n t = \<lparr>guard_lock = new_RWLock n, guarded = t, members = replicate n M_none\<rparr>"

text \<open>A member that has its answer, with its thread.\<close>

type_synonym member_event = "nat \<times> table_op \<times> table_answer"

definition answer_with ::
    "nat \<Rightarrow> table_op \<Rightarrow> table_answer \<Rightarrow> table \<Rightarrow> Guarded_Table \<Rightarrow> (member_event list \<times> Guarded_Table) result" where
  "answer_with k op a t s = Inr ([(k, op, a)], s\<lparr>guarded := t, members := (members s)[k := M_leaving op a]\<rparr>)"

section \<open>The checks before the lock\<close>

fun precheck :: "Schema \<Rightarrow> table_op \<Rightarrow> unit result" where
  "precheck sc (T_insert row) =
     (if columns (row_schema row) \<noteq> columns sc
      then Inl (Invalid_argument ''Table: row schema does not match table schema'')
      else if \<not> validate sc row
      then Inl (Invalid_argument ''Table: row is incomplete or fails type checks'')
      else bind_result (row_getInt row kIdColumn) (\<lambda>_. Inr ()))"
| "precheck sc (T_updateWhere P as) = fold_result (check_assignment sc) as ()"
| "precheck sc _ = Inr ()"

section \<open>The steps of \<open>findById\<close>\<close>

definition find_get :: "nat \<Rightarrow> int64 \<Rightarrow> Guarded_Table \<Rightarrow> (member_event list \<times> Guarded_Table) result" where
  "find_get k i s =
     bind_result (lru_get (cache (guarded s)) i) (\<lambda>(hit, c). case hit of
       Some row \<Rightarrow> answer_with k (T_find i) (T_row (Some row)) ((guarded s)\<lparr>cache := c\<rparr>) s
     | None \<Rightarrow> Inr ([], s\<lparr>guarded := (guarded s)\<lparr>cache := c\<rparr>, members := (members s)[k := M_searching i]\<rparr>))"

definition find_search :: "nat \<Rightarrow> int64 \<Rightarrow> Guarded_Table \<Rightarrow> (member_event list \<times> Guarded_Table) result" where
  "find_search k i s =
     bind_result (btree_search (rows (guarded s)) i) (\<lambda>p. case p of
       None \<Rightarrow> answer_with k (T_find i) (T_row None) (guarded s) s
     | Some q \<Rightarrow>
         bind_result (btree_deref (rows (guarded s)) q) (\<lambda>row.
           Inr ([], s\<lparr>members := (members s)[k := M_storing i row]\<rparr>)))"

definition find_put :: "nat \<Rightarrow> int64 \<Rightarrow> Row \<Rightarrow> Guarded_Table \<Rightarrow> (member_event list \<times> Guarded_Table) result" where
  "find_put k i row s =
     bind_result (lru_put (cache (guarded s)) i row) (\<lambda>c.
       answer_with k (T_find i) (T_row (Some row)) ((guarded s)\<lparr>cache := c\<rparr>) s)"

section \<open>Members\<close>

fun member_body :: "nat \<Rightarrow> table_op \<Rightarrow> Guarded_Table \<Rightarrow> (member_event list \<times> Guarded_Table) result" where
  "member_body k (T_find i) s = find_get k i s"
| "member_body k op s = bind_result (table_step op (guarded s)) (\<lambda>(a, t). answer_with k op a t s)"

datatype member_action =
    Enter nat table_op
  | Wait rw_action
  | Body nat
  | Leave nat "nat option"

fun waits :: "rw_action \<Rightarrow> bool" where
  "waits (Recheck k) = True"
| "waits (Wake k) = True"
| "waits _ = False"

definition move_member :: "nat \<Rightarrow> member_pc \<Rightarrow> RWLock \<Rightarrow> Guarded_Table \<Rightarrow> (member_event list \<times> Guarded_Table) result" where
  "move_member k pc l s = Inr ([], s\<lparr>guard_lock := l, members := (members s)[k := pc]\<rparr>)"

fun member_act :: "member_action \<Rightarrow> Guarded_Table \<Rightarrow> (member_event list \<times> Guarded_Table) result option" where
  "member_act (Enter k op) s =
     (if k < length (members s) \<and> outside (members s ! k)
      then (case precheck (tbl_schema (guarded s)) op of
              Inl (Invalid_argument msg) \<Rightarrow> Some (Inr ([(k, op, T_rejected)], s))
            | Inl e \<Rightarrow> Some (Inl e)
            | Inr _ \<Rightarrow> map_option (\<lambda>l. move_member k (M_entered op) l s)
                (rw_act (if reads_only op then Read_lock k else Write_lock k) (guard_lock s)))
      else None)"
| "member_act (Wait a) s =
     (if waits a then map_option (\<lambda>l. Inr ([], s\<lparr>guard_lock := l\<rparr>)) (rw_act a (guard_lock s)) else None)"
| "member_act (Body k) s =
     (if k < length (members s)
      then (case members s ! k of
              M_entered op \<Rightarrow> if at_pc (threads (guard_lock s)) k (guard_pc op) then Some (member_body k op s) else None
            | M_searching i \<Rightarrow> Some (find_search k i s)
            | M_storing i row \<Rightarrow> Some (find_put k i row s)
            | _ \<Rightarrow> None)
      else None)"
| "member_act (Leave k w) s =
     (if k < length (members s)
      then (case members s ! k of
              M_leaving op a \<Rightarrow> map_option (\<lambda>l. move_member k M_none l s)
                (rw_act (if reads_only op then Read_unlock k w else Write_unlock k w) (guard_lock s))
            | _ \<Rightarrow> None)
      else None)"

text \<open>Rows reach a table through \<open>makeRow\<close> and \<open>set\<close> only.\<close>

fun action_wf :: "member_action \<Rightarrow> bool" where
  "action_wf (Enter k op) \<longleftrightarrow> op_wf op"
| "action_wf _ \<longleftrightarrow> True"

definition members_init :: "nat \<Rightarrow> table \<Rightarrow> Guarded_Table \<Rightarrow> bool" where
  "members_init n t s \<longleftrightarrow> s = new_Guarded_Table n t"

definition members_step :: "Guarded_Table \<Rightarrow> member_event list \<Rightarrow> Guarded_Table \<Rightarrow> bool" where
  "members_step s es s' \<longleftrightarrow> (\<exists>a. action_wf a \<and> member_act a s = Some (Inr (es, s')))"

end
