(* ===== verification/Table_Threads_Spec.thy ===== *)
theory Table_Threads_Spec
  imports Table_Threads RWLock_Spec
begin

text \<open>
  The members of a shared table are atomic: the lock keeps writers away from readers, so the rows do not
  change under a reader, and readers that share the cache only ever put rows of the table into it.
\<close>

section \<open>Invariant\<close>

fun member_ok :: "Guarded_Table \<Rightarrow> nat \<Rightarrow> member_pc \<Rightarrow> bool" where
  "member_ok s k M_none \<longleftrightarrow> True"
| "member_ok s k (M_entered op) \<longleftrightarrow> op_wf op"
| "member_ok s k (M_searching i) \<longleftrightarrow> at_pc (threads (guard_lock s)) k Reading"
| "member_ok s k (M_storing i row) \<longleftrightarrow>
     at_pc (threads (guard_lock s)) k Reading \<and> map_of (entries (rows (guarded s))) i = Some row"
| "member_ok s k (M_leaving op a) \<longleftrightarrow> at_pc (threads (guard_lock s)) k (guard_pc op)"

definition members_good :: "Schema \<Rightarrow> (int64 \<times> Row) list \<Rightarrow> Guarded_Table \<Rightarrow> member_event list \<Rightarrow> bool" where
  "members_good sc b s es \<longleftrightarrow> rw_inv (guard_lock s) \<and> tbl_inv (guarded s) \<and> tbl_schema (guarded s) = sc \<and>
     table_spec_run sc (map (fst \<circ> snd) es) b = (map (snd \<circ> snd) es, entries (rows (guarded s))) \<and>
     (\<forall>k < length (members s). member_ok s k (members s ! k))"

lemma members_goodD:
  assumes "members_good sc b s es"
  shows "rw_inv (guard_lock s)" "tbl_inv (guarded s)" "tbl_schema (guarded s) = sc"
    "table_spec_run sc (map (fst \<circ> snd) es) b = (map (snd \<circ> snd) es, entries (rows (guarded s)))"
    "k < length (members s) \<Longrightarrow> member_ok s k (members s ! k)"
  using assms by (simp_all add: members_good_def)

lemma table_spec_run_snoc:
  "table_spec_run sc (xs @ [x]) es =
     (let (as, es') = table_spec_run sc xs es; (a, es'') = table_spec_step sc x es' in (as @ [a], es''))"
  by (induction xs arbitrary: es) (simp_all add: Let_def split_beta)

text \<open>A reader and a writer are never inside together.\<close>

lemma writer_alone:
  assumes "rw_inv l" "at_pc (threads l) k Writing"
  shows "\<not> at_pc (threads l) j Reading"
proof
  assume "at_pc (threads l) j Reading"
  then have "1 \<le> cnt l Reading" by (rule at_pc_cnt)
  moreover have "1 \<le> cnt l Writing" by (rule at_pc_cnt [OF assms(2)])
  ultimately show False using assms(1) by (auto simp: rw_inv_defs split: if_splits)
qed

section \<open>Steps\<close>

lemma member_ok_frame:
  assumes "member_ok s j pc" and "rows (guarded s') = rows (guarded s)"
    and "\<And>p. runnable p \<Longrightarrow> at_pc (threads (guard_lock s)) j p \<Longrightarrow> at_pc (threads (guard_lock s')) j p"
  shows "member_ok s' j pc"
  using assms by (cases pc) (auto simp: runnable_def guard_pc_def)

text \<open>A step of the lock by thread \<open>k\<close>, or of nobody in particular.\<close>

lemma lock_step_good:
  assumes good: "members_good sc b s es" and act: "rw_act a (guard_lock s) = Some l"
    and s': "guard_lock s' = l" "guarded s' = guarded s" "length (members s') = length (members s)"
    and pcs: "\<And>j. j < length (members s) \<Longrightarrow> actor a \<noteq> Some j \<Longrightarrow> members s' ! j = members s ! j"
    and own: "\<And>j. j < length (members s) \<Longrightarrow> actor a = Some j \<Longrightarrow> member_ok s' j (members s' ! j)"
  shows "members_good sc b s' es"
proof -
  note d = members_goodD [OF good]
  have "member_ok s' j (members s' ! j)" if j: "j < length (members s)" for j
  proof (cases "actor a = Some j")
    case False
    with pcs j d(5) have "member_ok s j (members s' ! j)" by simp
    then show ?thesis by (rule member_ok_frame) (use s' others_keep [OF act False] in simp_all)
  qed (use own j in simp)
  with d rw_act_inv [OF d(1) act] s' show ?thesis by (simp add: members_good_def)
qed

text \<open>A step of a member that has its answer.\<close>

lemma answer_good:
  assumes good: "members_good sc b s es" and k: "k < length (members s)" and inside: "at_pc (threads (guard_lock s)) k (guard_pc op)"
    and a: "table_spec_step sc op (entries (rows (guarded s))) = (a, entries (rows t))"
    and t: "tbl_inv t" "tbl_schema t = sc" and same: "reads_only op \<Longrightarrow> rows t = rows (guarded s)"
  shows "\<exists>s'. answer_with k op a t s = Inr ([(k, op, a)], s') \<and> members_good sc b s' (es @ [(k, op, a)])"
proof -
  note d = members_goodD [OF good]
  let ?s = "s\<lparr>guarded := t, members := (members s)[k := M_leaving op a]\<rparr>"
  have "member_ok ?s j (members ?s ! j)" if j: "j < length (members s)" for j
  proof (cases "j = k")
    case False
    have "member_ok ?s j (members s ! j)"
    proof (cases "reads_only op")
      case True
      then show ?thesis by (intro member_ok_frame [OF d(5) [OF j]]) (simp_all add: same)
    next
      case writer: False
      then have "\<not> at_pc (threads (guard_lock s)) j Reading" using writer_alone [OF d(1)] inside by (simp add: guard_pc_def)
      with d(5) [OF j] show ?thesis by (cases "members s ! j") simp_all
    qed
    with False show ?thesis by simp
  qed (use k inside in simp)
  then have "members_good sc b ?s (es @ [(k, op, a)])"
    using d t a unfolding members_good_def by (simp add: table_spec_run_snoc)
  then show ?thesis by (auto simp: answer_with_def)
qed

text \<open>A step of \<open>findById\<close> that has no answer yet.\<close>

lemma find_move_good:
  assumes good: "members_good sc b s es" and k: "k < length (members s)"
    and t: "tbl_inv t" "tbl_schema t = sc" "rows t = rows (guarded s)"
    and ok: "member_ok (s\<lparr>guarded := t\<rparr>) k pc"
  shows "members_good sc b (s\<lparr>guarded := t, members := (members s)[k := pc]\<rparr>) es"
proof -
  note d = members_goodD [OF good]
  let ?s = "s\<lparr>guarded := t, members := (members s)[k := pc]\<rparr>"
  have "member_ok ?s j (members ?s ! j)" if j: "j < length (members s)" for j
  proof (cases "j = k")
    case True
    have "member_ok ?s k pc" by (rule member_ok_frame [OF ok]) simp_all
    with True k show ?thesis by simp
  next
    case False
    have "member_ok ?s j (members s ! j)" by (rule member_ok_frame [OF d(5) [OF j]]) (simp_all add: t(3))
    with False show ?thesis by simp
  qed
  with d t show ?thesis by (simp add: members_good_def)
qed

lemma cache_good: "tbl_inv t \<Longrightarrow> lru_inv c \<Longrightarrow> \<forall>(k, v) \<in> set (lru_entries c). map_of (entries (rows t)) k = Some v \<Longrightarrow>
  tbl_inv (t\<lparr>cache := c\<rparr>)"
  by (simp add: tbl_inv_def table_map_def)

lemma find_get_good:
  assumes good: "members_good sc b s es" and k: "k < length (members s)" and inside: "at_pc (threads (guard_lock s)) k Reading"
  shows "\<exists>e s'. find_get k i s = Inr (e, s') \<and> members_good sc b s' (es @ e)"
proof -
  note d = members_goodD [OF good] and t = tbl_invD [OF members_goodD(2) [OF good]]
  from lru.get_coherent [OF t(3,5), of i] obtain hit c where c: "lru_get (cache (guarded s)) i = Inr (hit, c)" "lru_inv c"
    "\<forall>(k, v) \<in> set (lru_entries c). map_of (entries (rows (guarded s))) k = Some v"
    "\<forall>w. hit = Some w \<longrightarrow> map_of (entries (rows (guarded s))) i = Some w" by blast
  let ?t = "(guarded s)\<lparr>cache := c\<rparr>"
  note inv = cache_good [OF d(2) c(2,3)]
  show ?thesis
  proof (cases hit)
    case (Some row)
    have "\<exists>s'. answer_with k (T_find i) (T_row (Some row)) ?t s = Inr ([(k, T_find i, T_row (Some row))], s') \<and>
        members_good sc b s' (es @ [(k, T_find i, T_row (Some row))])"
      by (rule answer_good [OF good k]) (use inv d(3) c(4) Some inside in \<open>simp_all add: guard_pc_def\<close>)
    with c(1) Some show ?thesis by (auto simp: find_get_def)
  next
    case None
    have "members_good sc b (s\<lparr>guarded := ?t, members := (members s)[k := M_searching i]\<rparr>) es"
      by (rule find_move_good [OF good k inv]) (use d(3) inside in simp_all)
    with c(1) None show ?thesis by (auto simp: find_get_def)
  qed
qed

lemma find_search_good:
  assumes good: "members_good sc b s es" and k: "k < length (members s)" and inside: "at_pc (threads (guard_lock s)) k Reading"
  shows "\<exists>e s'. find_search k i s = Inr (e, s') \<and> members_good sc b s' (es @ e)"
proof -
  note d = members_goodD [OF good] and t = tbl_invD [OF members_goodD(2) [OF good]]
  show ?thesis
  proof (cases "map_of (entries (rows (guarded s))) i")
    case None
    have "\<exists>s'. answer_with k (T_find i) (T_row None) (guarded s) s = Inr ([(k, T_find i, T_row None)], s') \<and>
        members_good sc b s' (es @ [(k, T_find i, T_row None)])"
      by (rule answer_good [OF good k]) (use d(2,3) None inside in \<open>simp_all add: guard_pc_def\<close>)
    with bt.srch_None [OF t(2) None] show ?thesis by (auto simp: find_search_def)
  next
    case (Some row)
    from bt.srch_Some [OF t(2) Some] obtain p where
      p: "btree_search (rows (guarded s)) i = Inr (Some p)" "btree_deref (rows (guarded s)) p = Inr row" by metis
    have "members_good sc b (s\<lparr>guarded := guarded s, members := (members s)[k := M_storing i row]\<rparr>) es"
      by (rule find_move_good [OF good k d(2,3)]) (use inside Some in simp_all)
    with p show ?thesis by (simp add: find_search_def)
  qed
qed

lemma find_put_good:
  assumes good: "members_good sc b s es" and k: "k < length (members s)" and inside: "at_pc (threads (guard_lock s)) k Reading"
    and row: "map_of (entries (rows (guarded s))) i = Some row"
  shows "\<exists>e s'. find_put k i row s = Inr (e, s') \<and> members_good sc b s' (es @ e)"
proof -
  note d = members_goodD [OF good] and t = tbl_invD [OF members_goodD(2) [OF good]]
  from lru.put_coherent [OF t(3,5) row] obtain c where c: "lru_put (cache (guarded s)) i row = Inr c" "lru_inv c"
    "\<forall>(k, v) \<in> set (lru_entries c). map_of (entries (rows (guarded s))) k = Some v" by blast
  have "\<exists>s'. answer_with k (T_find i) (T_row (Some row)) ((guarded s)\<lparr>cache := c\<rparr>) s = Inr ([(k, T_find i, T_row (Some row))], s') \<and>
      members_good sc b s' (es @ [(k, T_find i, T_row (Some row))])"
    by (rule answer_good [OF good k]) (use cache_good [OF d(2) c(2,3)] d(3) row inside in \<open>simp_all add: guard_pc_def\<close>)
  with c(1) show ?thesis by (auto simp: find_put_def)
qed

lemma member_body_good:
  assumes good: "members_good sc b s es" and k: "k < length (members s)"
    and inside: "at_pc (threads (guard_lock s)) k (guard_pc op)" and wf: "op_wf op"
  shows "\<exists>e s'. member_body k op s = Inr (e, s') \<and> members_good sc b s' (es @ e)"
proof (cases "\<exists>i. op = T_find i")
  case True
  with find_get_good [OF good k] inside show ?thesis by (auto simp: guard_pc_def)
next
  case False
  note d = members_goodD [OF good]
  from table_step_spec [OF d(2) wf] obtain a t where t: "table_step op (guarded s) = Inr (a, t)" "tbl_inv t" "tbl_schema t = sc"
    "table_spec_step sc op (entries (rows (guarded s))) = (a, entries (rows t))" unfolding d(3) by (metis prod.collapse)
  have same: "rows t = rows (guarded s)" if "reads_only op"
    using t(1) that False by (cases op) (auto simp: bind_result_eq_Inr)
  have "member_body k op s = answer_with k op a t s" using False t(1) by (cases op) simp_all
  with answer_good [OF good k inside t(4,2,3)] same show ?thesis by auto
qed

text \<open>A call that fails its checks answers what the specification answers.\<close>

lemma precheck_rejects:
  assumes "precheck (tbl_schema t) op = Inl e" "tbl_inv t" "op_wf op"
  shows "\<exists>msg. e = Invalid_argument msg"
    and "table_spec_step (tbl_schema t) op (entries (rows t)) = (T_rejected, entries (rows t))"
proof -
  have *: "(\<exists>msg. e = Invalid_argument msg) \<and>
    table_spec_step (tbl_schema t) op (entries (rows t)) = (T_rejected, entries (rows t))"
  proof (cases op)
    case (T_insert row)
    with assms(1) have "table_insert t row = Inl e"
      by (auto simp: table_insert_def bind_result_eq_Inl split: if_splits)
    with table_insert_correct [of t row] assms T_insert show ?thesis by (auto split: if_splits)
  next
    case (T_updateWhere P as)
    with assms(1) check_assignments [of as "tbl_schema t"] show ?thesis by auto
  qed (use assms(1) in simp_all)
  then show "\<exists>msg. e = Invalid_argument msg"
    and "table_spec_step (tbl_schema t) op (entries (rows t)) = (T_rejected, entries (rows t))" by simp_all
qed

lemma enter_good:
  assumes good: "members_good sc b s es" and wf: "op_wf op" and act: "member_act (Enter k op) s = Some r"
  shows "\<exists>e s'. r = Inr (e, s') \<and> members_good sc b s' (es @ e)"
proof -
  note d = members_goodD [OF good]
  let ?a = "if reads_only op then Read_lock k else Write_lock k"
  have k: "k < length (members s) \<and> outside (members s ! k)" using act by (simp split: if_splits)
  show ?thesis
  proof (cases "precheck (tbl_schema (guarded s)) op")
    case (Inl e)
    with precheck_rejects [OF Inl d(2) wf] act k have "r = Inr ([(k, op, T_rejected)], s)" by auto
    with d precheck_rejects(2) [OF Inl d(2) wf] show ?thesis by (simp add: members_good_def table_spec_run_snoc)
  next
    case (Inr u)
    with act k obtain l where l: "rw_act ?a (guard_lock s) = Some l" "r = move_member k (M_entered op) l s" by auto
    have "members_good sc b (s\<lparr>guard_lock := l, members := (members s)[k := M_entered op]\<rparr>) es"
      by (rule lock_step_good [OF good l(1)]) (use wf in \<open>auto split: if_splits\<close>)
    with l(2) show ?thesis by (simp add: move_member_def)
  qed
qed

lemma wait_good:
  assumes good: "members_good sc b s es" and act: "member_act (Wait a) s = Some r"
  shows "\<exists>e s'. r = Inr (e, s') \<and> members_good sc b s' (es @ e)"
proof -
  from act obtain l where l: "waits a" "rw_act a (guard_lock s) = Some l" "r = Inr ([], s\<lparr>guard_lock := l\<rparr>)"
    by (auto split: if_splits)
  have "members_good sc b (s\<lparr>guard_lock := l\<rparr>) es"
  proof (rule lock_step_good [OF good l(2)])
    fix j assume j: "j < length (members s)" "actor a = Some j"
    with l(1) have "a = Recheck j" by (cases a) simp_all
    with l(2) members_goodD(5) [OF good j(1)] show "member_ok (s\<lparr>guard_lock := l\<rparr>) j (members (s\<lparr>guard_lock := l\<rparr>) ! j)"
      by (cases "members s ! j") (auto simp: at_pc_def guard_pc_def split: if_splits)
  qed simp_all
  with l(3) show ?thesis by simp
qed

lemma leave_good:
  assumes good: "members_good sc b s es" and act: "member_act (Leave k w) s = Some r"
  shows "\<exists>e s'. r = Inr (e, s') \<and> members_good sc b s' (es @ e)"
proof -
  have k: "k < length (members s)" using act by (simp split: if_splits)
  with act obtain op a where "members s ! k = M_leaving op a" by (cases "members s ! k") simp_all
  with act k obtain l where l: "r = move_member k M_none l s"
    "rw_act (if reads_only op then Read_unlock k w else Write_unlock k w) (guard_lock s) = Some l"
    by (simp del: rw_act.simps) blast
  have "members_good sc b (s\<lparr>guard_lock := l, members := (members s)[k := M_none]\<rparr>) es"
    by (rule lock_step_good [OF good l(2)]) (auto split: if_splits)
  with l(1) show ?thesis by (simp add: move_member_def)
qed

lemma body_good:
  assumes good: "members_good sc b s es" and act: "member_act (Body k) s = Some r"
  shows "\<exists>e s'. r = Inr (e, s') \<and> members_good sc b s' (es @ e)"
proof -
  have k: "k < length (members s)" using act by (simp split: if_splits)
  note ok = members_goodD(5) [OF good k]
  show ?thesis
  proof (cases "members s ! k")
    case (M_entered op)
    with act k have "at_pc (threads (guard_lock s)) k (guard_pc op)" "r = member_body k op s" by (simp_all split: if_splits)
    with member_body_good [OF good k, of op] ok M_entered show ?thesis by simp
  next
    case (M_searching i)
    with find_search_good [OF good k, of i] ok act k show ?thesis by simp
  next
    case (M_storing i row)
    with find_put_good [OF good k, of i row] ok act k show ?thesis by simp
  qed (use act k in simp_all)
qed

lemma member_act_good:
  assumes "members_good sc b s es" "action_wf a" "member_act a s = Some r"
  shows "\<exists>e s'. r = Inr (e, s') \<and> members_good sc b s' (es @ e)"
proof (cases a)
  case (Enter k op)
  with assms show ?thesis using enter_good [of sc b s es op k r] by simp
next
  case (Leave k w)
  with assms show ?thesis using leave_good [of sc b s es k w r] by simp
qed (use assms wait_good body_good in blast)+

lemma members_good_init:
  assumes "tbl_inv t"
  shows "members_good (tbl_schema t) (entries (rows t)) (new_Guarded_Table n t) []"
  using assms new_RWLock_inv [of n] by (simp add: members_good_def new_Guarded_Table_def)

text \<open>What a thread leaves with is the answer of its last event.\<close>

definition replied :: "Guarded_Table \<Rightarrow> member_event list \<Rightarrow> bool" where
  "replied s es \<longleftrightarrow> (\<forall>k < length (members s). \<forall>op a. members s ! k = M_leaving op a \<longrightarrow>
     (\<exists>xs. filter (\<lambda>e. fst e = k) es = xs @ [(k, op, a)]))"

fun quiet :: "member_pc \<Rightarrow> bool" where
  "quiet (M_leaving op a) = False"
| "quiet _ = True"

lemma answer_shape: "answer_with k op a t s = Inr (e, s') \<longleftrightarrow>
  e = [(k, op, a)] \<and> s' = s\<lparr>guarded := t, members := (members s)[k := M_leaving op a]\<rparr>"
  by (auto simp: answer_with_def)

lemma quiet_move: "quiet pc \<Longrightarrow> \<exists>p. xs[k := pc] = xs[k := p] \<and> quiet p"
  by blast

lemma body_shape:
  assumes "member_body k op s = Inr (e, s') \<or> find_search k i s = Inr (e, s') \<or> find_put k i row s = Inr (e, s')"
  shows "(\<exists>op a. e = [(k, op, a)] \<and> members s' = (members s)[k := M_leaving op a]) \<or>
    e = [] \<and> (\<exists>pc. members s' = (members s)[k := pc] \<and> quiet pc)"
proof -
  have get: "find_get k i s = Inr (e, s') \<Longrightarrow> ?thesis" for i
    by (auto simp: find_get_def bind_result_eq_Inr answer_shape intro!: quiet_move split: option.splits)
  have "member_body k op s = Inr (e, s') \<Longrightarrow> ?thesis"
    by (cases op) (auto simp: bind_result_eq_Inr answer_shape dest: get)
  moreover have "find_search k i s = Inr (e, s') \<Longrightarrow> ?thesis"
    by (auto simp: find_search_def bind_result_eq_Inr answer_shape intro!: quiet_move split: option.splits)
  moreover have "find_put k i row s = Inr (e, s') \<Longrightarrow> ?thesis"
    by (auto simp: find_put_def bind_result_eq_Inr answer_shape)
  ultimately show ?thesis using assms by blast
qed

lemma act_shape:
  assumes "member_act a s = Some (Inr (e, s'))"
  shows "(\<exists>k op a. e = [(k, op, a)] \<and> (members s' = (members s)[k := M_leaving op a] \<or> k < length (members s) \<and> outside (members s ! k) \<and> s' = s)) \<or>
    e = [] \<and> (members s' = members s \<or> (\<exists>k pc. members s' = (members s)[k := pc] \<and> quiet pc))"
proof (cases a)
  case (Enter k op)
  show ?thesis
  proof (cases "precheck (tbl_schema (guarded s)) op")
    case (Inl x)
    with assms Enter show ?thesis by (cases x) (auto split: if_splits)
  next
    case (Inr u)
    with assms Enter have "e = []" "members s' = (members s)[k := M_entered op]"
      by (auto simp: move_member_def simp del: rw_act.simps split: if_splits)
    then show ?thesis by (intro disjI2 conjI exI [of _ k] exI [of _ "M_entered op"]) simp_all
  qed
next
  case (Wait x)
  with assms show ?thesis by (auto simp del: rw_act.simps split: if_splits)
next
  case (Body k)
  with assms obtain op i row where
    "member_body k op s = Inr (e, s') \<or> find_search k i s = Inr (e, s') \<or> find_put k i row s = Inr (e, s')"
    by (auto simp del: member_body.simps split: if_splits member_pc.splits)
  from body_shape [OF this] show ?thesis by blast
next
  case (Leave k w)
  with assms have "e = []" "members s' = (members s)[k := M_none]"
    by (auto simp: move_member_def simp del: rw_act.simps split: if_splits member_pc.splits)
  then show ?thesis by (intro disjI2 conjI exI [of _ k] exI [of _ M_none]) simp_all
qed

lemma quiet_nth: "quiet pc \<Longrightarrow> k < length xs \<Longrightarrow> xs[j := pc] ! k = M_leaving op a \<Longrightarrow> xs ! k = M_leaving op a"
  by (cases "j = k") auto

lemma replied_step:
  assumes "replied s es" "member_act a s = Some (Inr (e, s'))"
  shows "replied s' (es @ e)"
  using act_shape [OF assms(2)]
proof (elim disjE exE conjE)
  fix k op a assume "e = [(k, op, a)]" "members s' = (members s)[k := M_leaving op a]"
  with assms(1) show ?thesis by (auto simp: replied_def nth_list_update split: if_splits)
next
  fix k pc assume "e = []" "members s' = (members s)[k := pc]" "quiet pc"
  with assms(1) quiet_nth [of pc _ "members s" k] show ?thesis by (simp add: replied_def)
qed (use assms(1) in \<open>auto simp: replied_def\<close>)

definition members_history :: "table \<Rightarrow> Guarded_Table \<Rightarrow> member_event list \<Rightarrow> bool" where
  "members_history t s es \<longleftrightarrow> tbl_inv t \<longrightarrow> members_good (tbl_schema t) (entries (rows t)) s es \<and> replied s es"

interpretation mem: history_invariant "members_init n t" members_step "members_history t" for n t
proof
  fix s assume "members_init n t s"
  then show "members_history t s []" using members_good_init [of t n]
    by (simp add: members_init_def members_history_def replied_def new_Guarded_Table_def)
next
  fix s es e s' assume "members_history t s es" "members_step s e s'"
  then show "members_history t s' (es @ e)"
    unfolding members_history_def members_step_def using member_act_good [of _ _ s es] replied_step [of s es] by fastforce
qed

section \<open>Properties\<close>

text \<open>
  C5. The members of a shared table are atomic. However the steps of threads in its members interleave, the
  members that have their answer, in the order in which they had it, form a sequential history: each answer is the one the
  specification of the table gives in that order, and the rows are those the order leaves. A thread leaves with the
  answer that is its last in the order. The lock and the cache are sound, and no step throws or is undefined behaviour.
\<close>

theorem table_members_atomic:
  assumes "tbl_inv t" and "run_of (members_init n t) members_step s es"
  shows "table_spec_run (tbl_schema t) (map (fst \<circ> snd) es) (entries (rows t)) = (map (snd \<circ> snd) es, entries (rows (guarded s))) \<and>
    (\<forall>k < length (members s). \<forall>op a. members s ! k = M_leaving op a \<longrightarrow>
       (\<exists>xs. filter (\<lambda>e. fst e = k) es = xs @ [(k, op, a)])) \<and>
    tbl_inv (guarded s) \<and> rw_inv (guard_lock s) \<and>
    (\<forall>a e. action_wf a \<longrightarrow> member_act a s \<noteq> Some (Inl e))"
proof -
  from mem.run_good [OF assms(2)] assms(1) have good: "members_good (tbl_schema t) (entries (rows t)) s es" and "replied s es"
    by (simp_all add: members_history_def)
  moreover have "member_act a s \<noteq> Some (Inl e)" if "action_wf a" for a e using member_act_good [OF good that] by auto
  ultimately show ?thesis using members_goodD [OF good] by (simp add: replied_def)
qed

text \<open>Two readers that both miss the cache and both store the row, and a writer that waits for them.\<close>

fun member_acts :: "member_action list \<Rightarrow> member_event list \<Rightarrow> Guarded_Table \<Rightarrow> (member_event list \<times> Guarded_Table) option" where
  "member_acts [] es s = Some (es, s)"
| "member_acts (a # as) es s =
     (case member_act a s of Some (Inr (e, s')) \<Rightarrow> member_acts as (es @ e) s' | _ \<Rightarrow> None)"

lemma member_acts_run:
  "member_acts as es s = Some (es', s') \<Longrightarrow> list_all action_wf as \<Longrightarrow> run_of (members_init n t) members_step s es \<Longrightarrow>
    run_of (members_init n t) members_step s' es'"
proof (induction as arbitrary: es s)
  case (Cons a as)
  then obtain e s1 where s1: "member_act a s = Some (Inr (e, s1))" "member_acts as (es @ e) s1 = Some (es', s')"
    by (auto simp del: member_act.simps split: option.splits sum.splits prod.splits)
  then have "members_step s e s1" using Cons.prems(2) by (auto simp: members_step_def)
  from Cons.IH [OF s1(2) _ run_step [OF Cons.prems(3) this]] Cons.prems(2) show ?case by simp
qed simp

definition demo_members :: "member_action list" where
  "demo_members =
     [Enter 0 (T_find (of_int64 2)), Enter 1 (T_find (of_int64 2)), Enter 2 (T_delete (of_int64 2)), Body 0, Body 1, Body 1, Body 0,
      Body 0, Body 1, Leave 0 None, Leave 1 (Some 2), Wait (Recheck 2), Body 2, Enter 0 (T_updateWhere (\<lambda>_. True) [(''id'', ''7'')])]"

lemma demo_members_run:
  "map_option (\<lambda>(es, s). (map (snd \<circ> snd) es, entries (rows (guarded s)))) (member_acts demo_members [] (new_Guarded_Table 3 demo_table)) =
   Some ([T_row (Some (demo_row 2 ''bob'')), T_row (Some (demo_row 2 ''bob'')), T_flag True, T_rejected],
     [(of_int64 1, demo_row 1 ''ann'')])"
  by code_simp

theorem table_members_atomic_witness:
  "\<exists>es s. member_acts demo_members [] (new_Guarded_Table 3 demo_table) = Some (es, s) \<and>
     table_spec_run demo_schema (map (fst \<circ> snd) es) (entries (rows demo_table)) =
       ([T_row (Some (demo_row 2 ''bob'')), T_row (Some (demo_row 2 ''bob'')), T_flag True, T_rejected],
        [(of_int64 1, demo_row 1 ''ann'')]) \<and> tbl_inv (guarded s)"
proof -
  from demo_members_run obtain es s where r: "member_acts demo_members [] (new_Guarded_Table 3 demo_table) = Some (es, s)"
    "map (snd \<circ> snd) es = [T_row (Some (demo_row 2 ''bob'')), T_row (Some (demo_row 2 ''bob'')), T_flag True, T_rejected]"
    "entries (rows (guarded s)) = [(of_int64 1, demo_row 1 ''ann'')]" by auto
  have "list_all action_wf demo_members" by (simp add: demo_members_def)
  from member_acts_run [OF r(1) this] have "run_of (members_init 3 demo_table) members_step s es"
    by (simp add: run_init members_init_def)
  from table_members_atomic [OF demo_table_inv this] r show ?thesis by (simp add: demo_table_def)
qed

end
