(* ===== verification/Spec2Isabelle.thy ===== *)
theory Spec2Isabelle
  imports Table_Props Query_Grammar Database_Handles Query_Props UniquePtr_Spec PoolAllocator_Spec
    RWLock_Spec LockFreeQueue_Spec ThreadPool_Spec Main_Program Linearizability Table_Threads_Spec
begin

text \<open>
  A verification of CppDB, an in-memory relational database in C++ with a small query language and a TCP
  server. Paths below are relative to \<^verbatim>\<open>src/\<close>.

  \<^bold>\<open>The program.\<close> \<^verbatim>\<open>main.cpp\<close> starts a server. The event loop of the server reads lines from its clients and
  queues them; tasks on a thread pool execute them and write the replies. A query is lexed, parsed and executed on
  the catalogue of tables, a hash map from names to shared pointers. A table is a B-tree of rows by id with a
  least-recently-used cache in front of it and a readers-writer lock around it. Two more components, the object pool and the
  lock-free queue, are part of the library but not of the server.

  \<^bold>\<open>How code becomes definitions.\<close> An object is a \<open>record\<close>, an operation a function that returns the new object beside
  its result. An exception is a value \<open>Inl e\<close> of the type \<open>result\<close>; an access out of range, a dead pointer, a second
  deletion or an overflow that C++ leaves undefined is the exception \<open>Undefined_behaviour\<close>, and a loop that does not leave is
  \<open>Nontermination\<close>, so that a proof of \<open>Inr\<close> excludes all of them. Machine integers keep their
  width: 64-bit words, and \<open>int64\<close> with its signed order. Code that threads run at the same time is cut into the steps that
  other threads can come between, the actions of a step function, and the properties are about all interleavings.

  \<^bold>\<open>Shared vocabulary.\<close>
  \<^item> \<^verbatim>\<open>Prelude\<close>: results and exceptions, checked vectors, integers, and the functions of the C++ library
    that the sources call. \<^verbatim>\<open>Sorted_Entries\<close>: lists of entries in key order.
  \<^item> \<^verbatim>\<open>Step_System\<close>: reachable states and runs with their events, and the locales \<open>inductive_invariant\<close>,
    \<open>history_invariant\<close> and \<open>forward_simulation\<close>. \<^verbatim>\<open>Threads\<close>: program counters and condition variables.
    \<^verbatim>\<open>Memory\<close>: objects and control blocks by address.
  \<^item> Contracts between components: \<open>ordered_index\<close> (\<^verbatim>\<open>Ordered_Index\<close>), \<open>dictionary\<close> (\<^verbatim>\<open>Dictionary\<close>),
    \<open>recency_cache\<close> (\<^verbatim>\<open>LRUCache_Spec\<close>), \<open>shared_ownership\<close> (\<^verbatim>\<open>SharedPtr_Spec\<close>), \<open>table_catalogue\<close>
    (\<^verbatim>\<open>QueryExecutor_Spec\<close>), \<open>object_pool\<close> (\<^verbatim>\<open>PoolAllocator_Spec\<close>), \<open>phrase\<close>, \<open>sentence\<close> and
    \<open>comma_list\<close> (\<^verbatim>\<open>Parser_Spec\<close>). Each is interpreted on the definitions of the component that provides it.

  \<^bold>\<open>Storage.\<close>
  \<^item> \<^verbatim>\<open>Schema\<close>, \<^verbatim>\<open>Row\<close>: \<^verbatim>\<open>core/Schema\<close> and \<^verbatim>\<open>core/Row\<close>, with well-formedness kept by every operation.
  \<^item> \<^verbatim>\<open>BTree\<close>: \<^verbatim>\<open>structures/BTree.hpp\<close>, all of it. \<^verbatim>\<open>BTree_Inv\<close>, \<^verbatim>\<open>BTree_Insert\<close>, \<^verbatim>\<open>BTree_Remove\<close>, \<^verbatim>\<open>BTree_Query\<close> and
    \<^verbatim>\<open>BTree_Check\<close> prove the operations on the sorted entries of a tree; \<^verbatim>\<open>BTree_Spec\<close> shows that any sequence of
    operations acts as a finite map, that the self-check decides the invariant, that range visits are exact,
    and a bound on the height.
  \<^item> \<^verbatim>\<open>HashMap\<close>: \<^verbatim>\<open>structures/HashMap.hpp\<close> for every hash function. \<^verbatim>\<open>HashMap_Inv\<close>, \<^verbatim>\<open>HashMap_Ops\<close>, \<^verbatim>\<open>HashMap_Spec\<close>: probing finds
    what was inserted, across tombstones and rebuilding, and the constructor returns exactly for capacities up to \<open>2\<^sup>6\<^sup>3\<close>.
  \<^item> \<^verbatim>\<open>LRUCache\<close>, \<^verbatim>\<open>LRUCache_Spec\<close>: \<^verbatim>\<open>structures/LRUCache.hpp\<close> against a list in order of recency.
  \<^item> \<^verbatim>\<open>Table\<close>, \<^verbatim>\<open>Table_Spec\<close>, \<^verbatim>\<open>Table_Props\<close>: \<^verbatim>\<open>core/Table\<close>. Any sequence of members acts on a list of rows in id order,
    the cache is never seen, and an update is all or nothing.
  \<^item> \<^verbatim>\<open>Table_Threads\<close>, \<^verbatim>\<open>Table_Threads_Spec\<close>: one table under its readers-writer lock, called by any number of threads. Its
    members are atomic, also the lookups of concurrent readers that meet in the cache.
  \<^item> \<^verbatim>\<open>PoolAllocator\<close>, \<^verbatim>\<open>PoolAllocator_Spec\<close>: \<^verbatim>\<open>storage/PoolAllocator.hpp\<close> over the bytes of its arena, for every element size
    and alignment: a stack of free blocks, disjoint and aligned, and the wrap-around of the size product.

  \<^bold>\<open>Ownership.\<close>
  \<^item> \<^verbatim>\<open>UniquePtr\<close>, \<^verbatim>\<open>SharedPtr\<close> and their \<^verbatim>\<open>_Spec\<close>: \<^verbatim>\<open>memory/UniquePtr.hpp\<close>, \<^verbatim>\<open>memory/SharedPtr.hpp\<close>. Programs over
    pointer variables never use or delete dead memory and leak nothing; use counts count owners.
  \<^item> \<^verbatim>\<open>Database\<close>, \<^verbatim>\<open>Database_Spec\<close>, \<^verbatim>\<open>Database_Handles\<close>: \<^verbatim>\<open>core/Database\<close> as a map from names to tables, and
    clients whose handles outlive the drop of a table.

  \<^bold>\<open>Queries.\<close>
  \<^item> \<^verbatim>\<open>Lexer\<close>, \<^verbatim>\<open>Lexer_Spec\<close>: \<^verbatim>\<open>query/Token.hpp\<close>, \<^verbatim>\<open>query/lexer.cpp\<close>; the tokenizer splits a text by longest match, and exactly so.
  \<^item> \<^verbatim>\<open>Parser\<close>, \<^verbatim>\<open>Parser_Spec\<close>, \<^verbatim>\<open>Query_Grammar\<close>: \<^verbatim>\<open>query/Ast.hpp\<close>, \<^verbatim>\<open>query/parser.cpp\<close>; the parser accepts exactly the
    grammar, and a printed statement is read back as itself.
  \<^item> \<^verbatim>\<open>QueryExecutor\<close>: \<^verbatim>\<open>query/query_executor.cpp\<close>. \<^verbatim>\<open>Where_Spec\<close>, \<^verbatim>\<open>Query_Semantics\<close>, \<^verbatim>\<open>QueryExecutor_Spec\<close>, \<^verbatim>\<open>Query_Props\<close>:
    every query string has the reply, and leaves the tables, that a reading of the statements on plain relations gives; lookups through the index
    return what a full scan returns.
  \<^item> \<^verbatim>\<open>Query_Threads\<close>: calls of \<^verbatim>\<open>execute\<close> by many threads. \<^verbatim>\<open>Linearization\<close>, \<^verbatim>\<open>Linearizability\<close>: they are linearizable
    with respect to those relations, also when one call drops the table another is working on.

  \<^bold>\<open>Concurrency.\<close>
  \<^item> \<^verbatim>\<open>RWLock\<close>, \<^verbatim>\<open>RWLock_Spec\<close>: \<^verbatim>\<open>concurrency/RWLock\<close>; exclusion, no lost wake-up, no starvation of writers.
  \<^item> \<^verbatim>\<open>LockFreeQueue\<close>, \<^verbatim>\<open>LockFreeQueue_Spec\<close>: \<^verbatim>\<open>concurrency/LockFreeQueue.hpp\<close>; a simulation by an atomic first-in first-out list.
  \<^item> \<^verbatim>\<open>ThreadPool\<close>, \<^verbatim>\<open>ThreadPool_Spec\<close>: \<^verbatim>\<open>concurrency/ThreadPool\<close>; each task once and in order, and a destructor that drains.

  \<^bold>\<open>Server.\<close>
  \<^item> \<^verbatim>\<open>TCPServer\<close>, \<^verbatim>\<open>TCPServer_Spec\<close>: the sequential parts of \<^verbatim>\<open>network/tcp_server.cpp\<close>; lines do not depend on how bytes
    arrive, limits hold, replies are sent whole or reported, and what a constructor that throws leaves open.
  \<^item> \<^verbatim>\<open>Server_System\<close>: the event loop with the wake pipe, the tasks of \<^verbatim>\<open>dispatch\<close> and \<^verbatim>\<open>stop\<close>, interleaved. \<^verbatim>\<open>Server_Inv\<close>, \<^verbatim>\<open>Server_Spec\<close>,
    \<^verbatim>\<open>Server_Props\<close>: replies are serial and in order, descriptors are closed once. \<^verbatim>\<open>Server_Shutdown\<close>: \<^verbatim>\<open>stop\<close> ends the loop and
    the tasks, and a \<^verbatim>\<open>stop\<close> before \<^verbatim>\<open>run\<close> is lost.
  \<^item> \<^verbatim>\<open>Main_Program\<close>: \<^verbatim>\<open>main.cpp\<close>; the port argument, the signal handlers and the exit status, on top of all of the above.

  \<^bold>\<open>Fuel and bounds.\<close> Recursion is structural or has a termination proof, with three loops on fuel. The probing loops of
  the hash map have as many rounds as there are slots, after which a probe has seen every slot; the invariant keeps one
  slot empty, so they end before, and \<open>place_loop_fuel_exact\<close> shows that a probe which uses up the rounds would never end. The constructor's
  capacity loop has 64 rounds, after which a 64-bit value has been shifted out. The destructor of the lock-free queue has
  as many rounds as nodes were ever created, which is enough for a queue at rest. Loops over system calls read a list of
  answers, and are \<open>None\<close> when the list ends before the loop does.

  \<^bold>\<open>Parameters.\<close> The hash functions of \<^verbatim>\<open>std::hash\<close>, the answers of the operating system (reads, writes, accepts, events, errors),
  which sleeping thread a notification wakes, and the schedule are arguments; the properties hold for all of them.

  \<^bold>\<open>Not modelled.\<close>
  \<^item> Memory orders: the steps of threads are sequentially consistent, so that nothing is said about a compiler or a processor that
    reorders the atomic accesses of the lock-free queue and of the shared pointer.
  \<^item> Exhausted memory: allocations succeed, except where a class checks its own capacity.
  \<^item> In \<^verbatim>\<open>Server_System\<close> a query is one step, and any number of tasks may run at once. \<^verbatim>\<open>Linearizability\<close> justifies the first, with
    \<^verbatim>\<open>Table_Threads_Spec\<close> for the member of the table a query calls; \<^verbatim>\<open>ThreadPool_Spec\<close> shows that every submitted task is run.
  \<^item> Inside a table only the lookups of readers are cut further: a writer is alone under its lock.
  \<^item> \<^verbatim>\<open>HashMap::loadFactor\<close>, a floating-point report; the moved-from state of a \<^verbatim>\<open>Row\<close>, which no caller uses.
  \<^item> \<^verbatim>\<open>bench/bench.cpp\<close>: it measures times and prints them; the operations it calls are modelled above.
\<close>

end
